(* ===== verification/Prelude.thy ===== *)
theory Prelude
  imports Main "HOL-Library.Word"
begin

unbundle bit_operations_syntax

text \<open>
  Shared vocabulary of the development: machine words, byte slices, the
  big-endian accessors of Go's \<^verbatim>\<open>encoding/binary\<close>, the 16-bit word sum that every
  Internet checksum is built on, and the generic lemmas on lists and words that
  the component theories use.

  A Go \<^verbatim>\<open>[]byte\<close> is a \<open>bytes\<close> value (a list of 8-bit words). A write through
  a slice is a list update, and the function that performs it returns the new
  list. An IPv4 \<^verbatim>\<open>netip.Addr\<close> and a \<^verbatim>\<open>[4]byte\<close> array are both \<open>ip4\<close>, the
  32-bit word whose bytes, most significant first, are the address.
\<close>

type_synonym byte = "8 word"
type_synonym u16 = "16 word"
type_synonym u32 = "32 word"
type_synonym u64 = "64 word"
type_synonym bytes = "byte list"
type_synonym ip4 = "32 word"

named_theorems bytes_simps \<open>reading back what a slice write stored\<close>
named_theorems guard_simps \<open>length facts of slice writes\<close>

subsection \<open>Bytes of a word, most significant first\<close>

text \<open>
  \<^verbatim>\<open>binary.BigEndian.Uint16(b)\<close> and \<^verbatim>\<open>PutUint16\<close>, as the number they denote.
\<close>

definition be16 :: "byte \<Rightarrow> byte \<Rightarrow> u16" where
  "be16 a b = of_nat (unat a * 256 + unat b)"

definition hi8 :: "u16 \<Rightarrow> byte" where
  "hi8 w = of_nat (unat w div 256)"

definition lo8 :: "u16 \<Rightarrow> byte" where
  "lo8 w = of_nat (unat w mod 256)"

definition be32 :: "u16 \<Rightarrow> u16 \<Rightarrow> u32" where
  "be32 a b = of_nat (unat a * 65536 + unat b)"

definition hi16 :: "u32 \<Rightarrow> u16" where
  "hi16 w = of_nat (unat w div 65536)"

definition lo16 :: "u32 \<Rightarrow> u16" where
  "lo16 w = of_nat (unat w mod 65536)"

definition get16 :: "bytes \<Rightarrow> nat \<Rightarrow> u16" where
  "get16 b i = be16 (b ! i) (b ! (i + 1))"

definition put16 :: "bytes \<Rightarrow> nat \<Rightarrow> u16 \<Rightarrow> bytes" where
  "put16 b i v = b[i := hi8 v, i + 1 := lo8 v]"

definition get32 :: "bytes \<Rightarrow> nat \<Rightarrow> u32" where
  "get32 b i = be32 (get16 b i) (get16 b (i + 2))"

definition put32 :: "bytes \<Rightarrow> nat \<Rightarrow> u32 \<Rightarrow> bytes" where
  "put32 b i v = put16 (put16 b i (hi16 v)) (i + 2) (lo16 v)"

definition slice :: "bytes \<Rightarrow> nat \<Rightarrow> nat \<Rightarrow> bytes" where
  "slice b i j = take (j - i) (drop i b)"

lemma unat_byte_less [simp]: "unat (a :: byte) < 256"
  using unsigned_less [of a] by simp

lemma unat_u16_less [simp]: "unat (a :: u16) < 65536"
  using unsigned_less [of a] by simp

lemma unat_u32_less [simp]: "unat (a :: u32) < 4294967296"
  using unsigned_less [of a] by simp

lemma unat_of_nat_small:
  "n < 2 ^ LENGTH('a) \<Longrightarrow> unat (of_nat n :: 'a::len word) = n"
  by (simp add: unat_of_nat take_bit_eq_mod)

lemma unat_be16: "unat (be16 a b) = unat a * 256 + unat b"
proof -
  have "unat a * 256 + unat b < 65536"
    using unat_byte_less [of a] unat_byte_less [of b] by linarith
  then show ?thesis unfolding be16_def by (intro unat_of_nat_small) simp
qed

lemma unat_be32: "unat (be32 a b) = unat a * 65536 + unat b"
proof -
  have "unat a * 65536 + unat b < 4294967296"
    using unat_u16_less [of a] unat_u16_less [of b] by linarith
  then show ?thesis unfolding be32_def by (intro unat_of_nat_small) simp
qed

lemma unat_hi8: "unat (hi8 w) = unat w div 256"
  using unat_u16_less [of w] by (simp add: hi8_def unat_of_nat_small less_mult_imp_div_less)

lemma unat_lo8: "unat (lo8 w) = unat w mod 256"
  by (simp add: lo8_def unat_of_nat_small)

lemma unat_hi16: "unat (hi16 w) = unat w div 65536"
  using unat_u32_less [of w] by (simp add: hi16_def unat_of_nat_small less_mult_imp_div_less)

lemma unat_lo16: "unat (lo16 w) = unat w mod 65536"
  by (simp add: lo16_def unat_of_nat_small)

lemma be16_hi_lo [bytes_simps, simp]: "be16 (hi8 w) (lo8 w) = w"
  by (rule word_unat_eq_iff [THEN iffD2]) (simp add: unat_be16 unat_hi8 unat_lo8)

lemma be32_hi_lo [bytes_simps, simp]: "be32 (hi16 w) (lo16 w) = w"
  by (rule word_unat_eq_iff [THEN iffD2]) (simp add: unat_be32 unat_hi16 unat_lo16)

lemma hi8_be16 [bytes_simps, simp]: "hi8 (be16 a b) = a"
  by (rule word_unat_eq_iff [THEN iffD2]) (simp add: unat_be16 unat_hi8)

lemma lo8_be16 [bytes_simps, simp]: "lo8 (be16 a b) = b"
  by (rule word_unat_eq_iff [THEN iffD2]) (simp add: unat_be16 unat_lo8)

lemma hi16_be32 [bytes_simps, simp]: "hi16 (be32 a b) = a"
  by (rule word_unat_eq_iff [THEN iffD2]) (simp add: unat_be32 unat_hi16)

lemma lo16_be32 [bytes_simps, simp]: "lo16 (be32 a b) = b"
  by (rule word_unat_eq_iff [THEN iffD2]) (simp add: unat_be32 unat_lo16)

lemma nat_mod_eq_iff_int:
  "a mod m = b mod m \<longleftrightarrow> (\<exists>k. int a = int b + int m * k)" for a b m :: nat
proof -
  have "a mod m = b mod m \<longleftrightarrow> int a mod int m = int b mod int m"
    by (metis of_nat_eq_iff of_nat_mod)
  also have "\<dots> \<longleftrightarrow> int m dvd int a - int b" by (rule mod_eq_dvd_iff)
  also have "\<dots> \<longleftrightarrow> (\<exists>k. int a - int b = int m * k)" by (simp add: dvd_def)
  also have "\<dots> \<longleftrightarrow> (\<exists>k. int a = int b + int m * k)" by (simp add: algebra_simps)
  finally show ?thesis .
qed

lemma mod_eq_chain:
  "(a + h') mod m = (c + h) mod m \<Longrightarrow> (r + l') mod m = (a + l) mod m \<Longrightarrow>
   (r + h' + l') mod m = (c + h + l) mod m" for a :: nat
  by (metis (no_types, lifting) ab_semigroup_add_class.add_ac(1) add.commute mod_add_left_eq)

lemma unat_ucast_up:
  "LENGTH('a) \<le> LENGTH('b) \<Longrightarrow> unat (ucast (w :: 'a::len word) :: 'b::len word) = unat w"
  by (simp add: unsigned_ucast_eq take_bit_nat_eq_self_iff)
    (meson less_le_trans one_le_numeral power_increasing unsigned_less)

lemma unat_not: "unat (NOT (w :: 'a::len word)) = 2 ^ LENGTH('a) - 1 - unat w"
proof -
  have "unat (NOT w) + unat w = 2 ^ LENGTH('a) - 1"
  proof -
    have b: "uint w < 2 ^ LENGTH('a)" "0 \<le> uint w" by simp_all
    have "uint (NOT w) = (- uint w - 1) mod 2 ^ LENGTH('a)"
      by (simp only: unsigned_not_eq take_bit_eq_mod) (simp only: not_eq_complement)
    also have "\<dots> = (2 ^ LENGTH('a) - 1 - uint w) mod 2 ^ LENGTH('a)"
      by (metis (no_types, opaque_lifting) add_diff_cancel_right' diff_diff_eq2 diff_right_commute
          minus_mod_self1 uminus_add_conv_diff add.commute diff_diff_add)
    also have "\<dots> = 2 ^ LENGTH('a) - 1 - uint w"
      by (intro mod_pos_pos_trivial) (use b in linarith)+
    finally have "int (unat (NOT w) + unat w) = int (2 ^ LENGTH('a) - 1)"
      by (simp add: of_nat_diff)
    then show ?thesis by (simp only: of_nat_eq_iff)
  qed
  then show ?thesis by linarith
qed

subsection \<open>Slice reads after slice writes\<close>

lemma length_put16 [guard_simps, simp]: "length (put16 b i v) = length b"
  by (simp add: put16_def)

lemma length_put32 [guard_simps, simp]: "length (put32 b i v) = length b"
  by (simp add: put32_def)

lemma nth_put16:
  "i + 1 < length b \<Longrightarrow>
   put16 b i v ! j = (if j = i then hi8 v else if j = i + 1 then lo8 v else b ! j)"
  by (auto simp: put16_def nth_list_update)

lemma nth_put16_other [bytes_simps]:
  "j \<noteq> i \<Longrightarrow> j \<noteq> i + 1 \<Longrightarrow> put16 b i v ! j = b ! j"
  by (simp add: put16_def)

lemma get16_put16_same [bytes_simps]: "i + 1 < length b \<Longrightarrow> get16 (put16 b i v) i = v"
  by (simp add: get16_def nth_put16)

lemma get16_put16_other [bytes_simps]:
  "i + 2 \<le> j \<or> j + 2 \<le> i \<Longrightarrow> get16 (put16 b i v) j = get16 b j"
  by (auto simp: get16_def nth_put16_other)

lemma get32_put32_same [bytes_simps]: "i + 3 < length b \<Longrightarrow> get32 (put32 b i v) i = v"
  by (simp add: get32_def put32_def get16_put16_same get16_put16_other)

lemma get16_put32_other [bytes_simps]:
  "i + 4 \<le> j \<or> j + 2 \<le> i \<Longrightarrow> get16 (put32 b i v) j = get16 b j"
  by (auto simp: put32_def get16_put16_other)

lemma get32_put16_other [bytes_simps]:
  "i + 2 \<le> j \<or> j + 4 \<le> i \<Longrightarrow> get32 (put16 b i v) j = get32 b j"
  by (auto simp: get32_def get16_put16_other)

lemma get32_put32_other [bytes_simps]:
  "i + 4 \<le> j \<or> j + 4 \<le> i \<Longrightarrow> get32 (put32 b i v) j = get32 b j"
  by (auto simp: get32_def get16_put32_other)

lemma nth_put32_other [bytes_simps]:
  "j < i \<or> i + 4 \<le> j \<Longrightarrow> put32 b i v ! j = b ! j"
  by (auto simp: put32_def nth_put16_other)

lemma nth_update_total: "j < length xs \<Longrightarrow> xs[i := x] ! j = (if i = j then x else xs ! j)"
  by (auto simp: nth_list_update)

lemma put16_commute:
  "i + 2 \<le> j \<or> j + 2 \<le> i \<Longrightarrow> put16 (put16 b i v) j w = put16 (put16 b j w) i v"
  by (auto simp: put16_def list_eq_iff_nth_eq nth_update_total)

lemma put16_put32_commute:
  "i + 4 \<le> j \<or> j + 2 \<le> i \<Longrightarrow> put16 (put32 b i v) j w = put32 (put16 b j w) i v"
  by (auto simp: put32_def put16_commute)

lemma put16_overwrite [simp]: "put16 (put16 b i v) i w = put16 b i w"
  by (auto simp: put16_def list_eq_iff_nth_eq nth_update_total)

lemma put16_get16 [simp]: "put16 b i (get16 b i) = b"
  by (simp add: put16_def get16_def)

lemma length_slice [simp]: "length (slice b i j) = min (j - i) (length b - i)"
  by (simp add: slice_def min.commute)

lemma nth_slice: "k < j - i \<Longrightarrow> i + k < length b \<Longrightarrow> slice b i j ! k = b ! (i + k)"
  by (simp add: slice_def)

subsection \<open>Powers of two and masks\<close>

lemma and_not_mask: "(x::int) AND NOT (mask k) = x div 2 ^ k * 2 ^ k"
proof -
  have "x AND NOT (mask k) = push_bit k (drop_bit k x)"
    by (rule bit_eqI) (auto simp: bit_simps)
  then show ?thesis by (simp add: push_bit_eq_mult drop_bit_eq_div)
qed

lemma and_pred_power: "0 < (x::int) \<Longrightarrow> x AND (x - 1) = 0 \<Longrightarrow> \<exists>k. x = 2 ^ k"
proof (induction "nat x" arbitrary: x rule: less_induct)
  case less
  show ?case
  proof (cases "even x")
    case True
    then obtain m where m: "x = 2 * m" by (auto elim: evenE)
    have e: "x - 1 = 1 + 2 * (m - 1)" using m by simp
    have "x AND (x - 1) = 2 * (m AND (m - 1))" 
    proof -
      have d: "(2 * m - 1) div 2 = m - 1" "2 * m \<noteq> 1" by presburger+
      show ?thesis unfolding m by (subst and_int_unfold) (simp add: d)
    qed
    with less.prems less.hyps [of m] m obtain k where "m = 2 ^ k" by auto
    then show ?thesis using m by (intro exI [of _ "Suc k"]) simp
  next
    case False
    then obtain m where m: "x = 2 * m + 1" by (auto elim: oddE)
    have "x AND (x - 1) = 2 * m" unfolding m by (subst and_int_unfold) simp
    then show ?thesis using less.prems m by (intro exI [of _ 0]) simp
  qed
qed

lemma unat_mask_of_nat:
  assumes "k \<le> LENGTH('a)"
  shows "unat ((of_nat A :: 'a::len word) AND mask k) = A mod 2 ^ k"
proof -
  have "unat ((of_nat A :: 'a word) AND mask k) = unat (of_nat (A mod 2 ^ k) :: 'a word)"
    by (simp only: take_bit_eq_mask [symmetric] take_bit_of_nat) (simp only: take_bit_eq_mod)
  also have "\<dots> = A mod 2 ^ k"
    using assms by (intro unat_of_nat_small) (meson less_le_trans mod_less_divisor one_le_numeral power_increasing zero_less_numeral zero_less_power)
  finally show ?thesis .
qed

subsection \<open>Systems with an invariant\<close>

text \<open>
  The interface between a component's step relation and the properties of its
  reachable states: what every initial state has and every step keeps, every
  reachable state has.
\<close>

locale invariant_system =
  fixes init :: "'s \<Rightarrow> bool" and step :: "'s \<Rightarrow> 's \<Rightarrow> bool" and inv :: "'s \<Rightarrow> bool"
  assumes init_inv: "init s \<Longrightarrow> inv s"
    and step_inv: "step s t \<Longrightarrow> inv s \<Longrightarrow> inv t"
begin

lemma steps_inv: "step\<^sup>*\<^sup>* s t \<Longrightarrow> inv s \<Longrightarrow> inv t"
  by (induction rule: rtranclp_induct) (auto intro: step_inv)

lemma reachable_inv: "init s \<Longrightarrow> step\<^sup>*\<^sup>* s t \<Longrightarrow> inv t"
  by (blast intro: init_inv steps_inv)

end

end
