(* ===== verification/Sql.thy ===== *)
theory Sql
  imports Prelude
begin

text \<open>
  The database the control plane keeps: the schema of
  \<^verbatim>\<open>migration/1_create_tables.go\<close> as a record of tables, the statements the
  repositories issue as primitives on it, and the transaction discipline of
  \<^verbatim>\<open>database/sql\<close> as the repositories use it (one connection, \<^verbatim>\<open>Begin\<close>,
  a deferred \<^verbatim>\<open>Rollback\<close>, \<^verbatim>\<open>Commit\<close>).

  SQLite itself is not modelled. What the code relies on is written into the
  primitives: the declared \<^verbatim>\<open>UNIQUE\<close> constraints reject a violating write, the
  declared foreign keys are enforced and cascade (\<^verbatim>\<open>_foreign_keys=on\<close> in \<^verbatim>\<open>db/db.go\<close>), a
  failed transaction leaves no trace. Whether a statement fails for any other
  reason (locking, I/O) is decided by a script of faults in the connection, so
  that every \<^verbatim>\<open>if err != nil\<close> of the code is reachable; how SQLite chooses a fresh
  row id is a field of the environment. A table is the list of its rows in the
  order a scan returns them. The \<^verbatim>\<open>id\<close> columns of the two link tables are never
  read and are left out.
\<close>

subsection \<open>Schema\<close>

record client_row =
  c_id :: int
  c_name :: string
  c_ip :: "string option"
  c_last_seen :: int

record role_row =
  r_id :: int
  r_name :: string

record resource_row =
  s_id :: int
  s_name :: string
  s_value :: string

record dhcp_row =
  d_id :: int
  d_first :: int
  d_last :: int

record db =
  clients :: "client_row list"
  roles :: "role_row list"
  resources :: "resource_row list"
  clients_roles :: "(int \<times> int) list"
  roles_resources :: "(int \<times> int) list"
  dhcp :: "dhcp_row list"

text \<open>
  The environment: SQLite's choice of a row id from the ids in use, and the
  address conversions of the \<^verbatim>\<open>ipconv\<close> package (\<^verbatim>\<open>IntToIPv4(n).String()\<close>, and
  \<^verbatim>\<open>ParseIP\<close> of \<^verbatim>\<open>utility/ip.go\<close>, which returns the address as a number).
\<close>

record env =
  newid :: "int list \<Rightarrow> int"
  intToIP :: "u32 \<Rightarrow> string"
  parseIP :: "string \<Rightarrow> int option"

datatype sql_error = ErrNoRows | ErrConstraint | ErrScan | ErrFault | ErrParseIP

record conn =
  cn_db :: db
  cn_faults :: "bool list"

type_synonym 'a tx = "conn \<Rightarrow> (sql_error + 'a) \<times> conn"

subsection \<open>Transactions\<close>

definition return_tx :: "'a \<Rightarrow> 'a tx" where
  "return_tx x c = (Inr x, c)"

definition throw_tx :: "sql_error \<Rightarrow> 'a tx" where
  "throw_tx e c = (Inl e, c)"

definition bind_tx :: "'a tx \<Rightarrow> ('a \<Rightarrow> 'b tx) \<Rightarrow> 'b tx" where
  "bind_tx m f c = (case m c of (Inl e, c') \<Rightarrow> (Inl e, c') | (Inr x, c') \<Rightarrow> f x c')"

text \<open>One call into the engine: the script says whether it fails.\<close>

definition engine :: "unit tx" where
  "engine c =
     (case cn_faults c of
        [] \<Rightarrow> (Inr (), c)
      | b # bs \<Rightarrow> (if b then Inl ErrFault else Inr (), c\<lparr>cn_faults := bs\<rparr>))"

text \<open>A read of the tables, and a statement that may change them.\<close>

definition query :: "(db \<Rightarrow> sql_error + 'a) \<Rightarrow> 'a tx" where
  "query q = bind_tx engine (\<lambda>_ c. (q (cn_db c), c))"

definition exec :: "(db \<Rightarrow> sql_error + 'a \<times> db) \<Rightarrow> 'a tx" where
  "exec s = bind_tx engine (\<lambda>_ c.
     case s (cn_db c) of
       Inl e \<Rightarrow> (Inl e, c)
     | Inr (x, d) \<Rightarrow> (Inr x, c\<lparr>cn_db := d\<rparr>))"

text \<open>
  \<^verbatim>\<open>Begin\<close>, the body, then \<^verbatim>\<open>Commit\<close>, or the deferred \<^verbatim>\<open>Rollback\<close> when the body failed, the
  commit failed, or the body returned early without committing.
\<close>

definition run_tx_flag :: "(bool \<times> 'a) tx \<Rightarrow> 'a tx" where
  "run_tx_flag m c =
     (case engine c of
        (Inl e, c1) \<Rightarrow> (Inl e, c1)
      | (Inr _, c1) \<Rightarrow>
          (case m c1 of
             (Inl e, c2) \<Rightarrow> (Inl e, c2\<lparr>cn_db := cn_db c\<rparr>)
           | (Inr (commit, x), c2) \<Rightarrow>
               if commit then
                 (case engine c2 of
                    (Inl e, c3) \<Rightarrow> (Inl e, c3\<lparr>cn_db := cn_db c\<rparr>)
                  | (Inr _, c3) \<Rightarrow> (Inr x, c3))
               else (Inr x, c2\<lparr>cn_db := cn_db c\<rparr>)))"

definition run_tx :: "'a tx \<Rightarrow> 'a tx" where
  "run_tx m = run_tx_flag (bind_tx m (\<lambda>x. return_tx (True, x)))"

subsection \<open>Statements\<close>

definition first_row :: "('r \<Rightarrow> bool) \<Rightarrow> 'r list \<Rightarrow> sql_error + 'r" where
  "first_row p rs = (case filter p rs of [] \<Rightarrow> Inl ErrNoRows | r # _ \<Rightarrow> Inr r)"

text \<open>Scanning a client row into \<^verbatim>\<open>domain.Client\<close> fails on a NULL address.\<close>

record Client =
  ID :: int
  Name :: string
  IP :: string
  LastSeen :: int

definition scan_client :: "client_row \<Rightarrow> sql_error + Client" where
  "scan_client r =
     (case c_ip r of
        None \<Rightarrow> Inl ErrScan
      | Some s \<Rightarrow> Inr \<lparr>ID = c_id r, Name = c_name r, IP = s, LastSeen = c_last_seen r\<rparr>)"

fun scan_all :: "('r \<Rightarrow> sql_error + 'a) \<Rightarrow> 'r list \<Rightarrow> sql_error + 'a list" where
  "scan_all f [] = Inr []"
| "scan_all f (r # rs) =
     (case f r of
        Inl e \<Rightarrow> Inl e
      | Inr x \<Rightarrow> (case scan_all f rs of Inl e \<Rightarrow> Inl e | Inr xs \<Rightarrow> Inr (x # xs)))"

definition insert_client :: "env \<Rightarrow> string \<Rightarrow> string \<Rightarrow> db \<Rightarrow> sql_error + int \<times> db" where
  "insert_client env name ip d =
     (if name \<in> set (map c_name (clients d)) then Inl ErrConstraint
      else let i = newid env (map c_id (clients d))
           in Inr (i, d\<lparr>clients := clients d @ [\<lparr>c_id = i, c_name = name, c_ip = Some ip, c_last_seen = 0\<rparr>]\<rparr>))"

definition insert_role :: "env \<Rightarrow> string \<Rightarrow> db \<Rightarrow> sql_error + int \<times> db" where
  "insert_role env name d =
     (if name \<in> set (map r_name (roles d)) then Inl ErrConstraint
      else let i = newid env (map r_id (roles d))
           in Inr (i, d\<lparr>roles := roles d @ [\<lparr>r_id = i, r_name = name\<rparr>]\<rparr>))"

definition insert_resource :: "env \<Rightarrow> string \<Rightarrow> string \<Rightarrow> db \<Rightarrow> sql_error + int \<times> db" where
  "insert_resource env name value d =
     (if name \<in> set (map s_name (resources d)) then Inl ErrConstraint
      else let i = newid env (map s_id (resources d))
           in Inr (i, d\<lparr>resources := resources d @ [\<lparr>s_id = i, s_name = name, s_value = value\<rparr>]\<rparr>))"

text \<open>
  The inserts into the link tables. \<open>strict\<close> is the plain insert; otherwise it is
  \<^verbatim>\<open>ON CONFLICT ... DO NOTHING\<close>. The result is the number of rows affected.
\<close>

definition link_client_role :: "bool \<Rightarrow> int \<Rightarrow> int \<Rightarrow> db \<Rightarrow> sql_error + nat \<times> db" where
  "link_client_role strict cid rid d =
     (if (cid, rid) \<in> set (clients_roles d) then (if strict then Inl ErrConstraint else Inr (0, d))
      else if cid \<notin> set (map c_id (clients d)) \<or> rid \<notin> set (map r_id (roles d)) then Inl ErrConstraint
      else Inr (1, d\<lparr>clients_roles := clients_roles d @ [(cid, rid)]\<rparr>))"

definition unlink_client_role :: "int \<Rightarrow> int \<Rightarrow> db \<Rightarrow> sql_error + nat \<times> db" where
  "unlink_client_role cid rid d =
     Inr (length (filter (\<lambda>x. x = (cid, rid)) (clients_roles d)),
          d\<lparr>clients_roles := filter (\<lambda>x. x \<noteq> (cid, rid)) (clients_roles d)\<rparr>)"

definition link_role_resource :: "int \<Rightarrow> int \<Rightarrow> db \<Rightarrow> sql_error + nat \<times> db" where
  "link_role_resource rid sid d =
     (if (rid, sid) \<in> set (roles_resources d) then Inr (0, d)
      else if rid \<notin> set (map r_id (roles d)) \<or> sid \<notin> set (map s_id (resources d)) then Inl ErrConstraint
      else Inr (1, d\<lparr>roles_resources := roles_resources d @ [(rid, sid)]\<rparr>))"

definition unlink_role_resource :: "int \<Rightarrow> int \<Rightarrow> db \<Rightarrow> sql_error + nat \<times> db" where
  "unlink_role_resource rid sid d =
     Inr (length (filter (\<lambda>x. x = (rid, sid)) (roles_resources d)),
          d\<lparr>roles_resources := filter (\<lambda>x. x \<noteq> (rid, sid)) (roles_resources d)\<rparr>)"

text \<open>The deletes, with their cascades.\<close>

definition delete_client :: "int \<Rightarrow> db \<Rightarrow> sql_error + nat \<times> db" where
  "delete_client cid d =
     Inr (length (filter (\<lambda>r. c_id r = cid) (clients d)),
          d\<lparr>clients := filter (\<lambda>r. c_id r \<noteq> cid) (clients d),
            clients_roles := filter (\<lambda>(c, r). c \<noteq> cid) (clients_roles d)\<rparr>)"

definition delete_roles_where :: "(role_row \<Rightarrow> bool) \<Rightarrow> db \<Rightarrow> sql_error + nat \<times> db" where
  "delete_roles_where p d =
     (let gone = map r_id (filter p (roles d))
      in Inr (length gone,
           d\<lparr>roles := filter (\<lambda>r. \<not> p r) (roles d),
             clients_roles := filter (\<lambda>(c, r). r \<notin> set gone) (clients_roles d),
             roles_resources := filter (\<lambda>(r, s). r \<notin> set gone) (roles_resources d)\<rparr>))"

definition delete_resource :: "int \<Rightarrow> db \<Rightarrow> sql_error + nat \<times> db" where
  "delete_resource sid d =
     Inr (length (filter (\<lambda>r. s_id r = sid) (resources d)),
          d\<lparr>resources := filter (\<lambda>r. s_id r \<noteq> sid) (resources d),
            roles_resources := filter (\<lambda>(r, s). s \<noteq> sid) (roles_resources d)\<rparr>)"

text \<open>The updates: a name update is checked against the table it produces.\<close>

definition rename_client :: "int \<Rightarrow> string \<Rightarrow> db \<Rightarrow> sql_error + unit \<times> db" where
  "rename_client cid name d =
     (let cs = map (\<lambda>r. if c_id r = cid then r\<lparr>c_name := name\<rparr> else r) (clients d)
      in if distinct (map c_name cs) then Inr ((), d\<lparr>clients := cs\<rparr>) else Inl ErrConstraint)"

definition rename_roles_where :: "(role_row \<Rightarrow> bool) \<Rightarrow> string \<Rightarrow> db \<Rightarrow> sql_error + unit \<times> db" where
  "rename_roles_where p name d =
     (let rs = map (\<lambda>r. if p r then r\<lparr>r_name := name\<rparr> else r) (roles d)
      in if distinct (map r_name rs) then Inr ((), d\<lparr>roles := rs\<rparr>) else Inl ErrConstraint)"

definition rename_resource :: "int \<Rightarrow> string \<Rightarrow> db \<Rightarrow> sql_error + unit \<times> db" where
  "rename_resource sid name d =
     (let rs = map (\<lambda>r. if s_id r = sid then r\<lparr>s_name := name\<rparr> else r) (resources d)
      in if distinct (map s_name rs) then Inr ((), d\<lparr>resources := rs\<rparr>) else Inl ErrConstraint)"

definition set_client_ip :: "string option \<Rightarrow> (client_row \<Rightarrow> bool) \<Rightarrow> db \<Rightarrow> sql_error + unit \<times> db" where
  "set_client_ip ip p d =
     Inr ((), d\<lparr>clients := map (\<lambda>r. if p r then r\<lparr>c_ip := ip\<rparr> else r) (clients d)\<rparr>)"

definition dhcp_unique :: "dhcp_row list \<Rightarrow> bool" where
  "dhcp_unique rs \<longleftrightarrow> distinct (map d_first rs) \<and> distinct (map d_last rs)"

definition insert_dhcp :: "env \<Rightarrow> int \<Rightarrow> int \<Rightarrow> db \<Rightarrow> sql_error + unit \<times> db" where
  "insert_dhcp env a b d =
     (let rs = dhcp d @ [\<lparr>d_id = newid env (map d_id (dhcp d)), d_first = a, d_last = b\<rparr>]
      in if dhcp_unique rs then Inr ((), d\<lparr>dhcp := rs\<rparr>) else Inl ErrConstraint)"

definition update_dhcp :: "(dhcp_row \<Rightarrow> bool) \<Rightarrow> int \<Rightarrow> int \<Rightarrow> db \<Rightarrow> sql_error + unit \<times> db" where
  "update_dhcp p a b d =
     (let rs = map (\<lambda>r. if p r then r\<lparr>d_first := a, d_last := b\<rparr> else r) (dhcp d)
      in if dhcp_unique rs then Inr ((), d\<lparr>dhcp := rs\<rparr>) else Inl ErrConstraint)"

definition delete_dhcp :: "(dhcp_row \<Rightarrow> bool) \<Rightarrow> db \<Rightarrow> sql_error + unit \<times> db" where
  "delete_dhcp p d = Inr ((), d\<lparr>dhcp := filter (\<lambda>r. \<not> p r) (dhcp d)\<rparr>)"

text \<open>\<^verbatim>\<open>SELECT ... FROM dhcp ORDER BY first_ip ASC\<close>, first row.\<close>

definition lowest_dhcp :: "db \<Rightarrow> sql_error + dhcp_row" where
  "lowest_dhcp d = (case sort_key d_first (dhcp d) of [] \<Rightarrow> Inl ErrNoRows | r # _ \<Rightarrow> Inr r)"

end
