(* ===== verification/Repository.thy ===== *)
theory Repository
  imports Sql
begin

text \<open>
  The four repositories (\<^verbatim>\<open>repository/client.go\<close>, \<^verbatim>\<open>role.go\<close>, \<^verbatim>\<open>resource.go\<close>,
  \<^verbatim>\<open>dhcp.go\<close>), one definition per function, over the statements of theory \<open>Sql\<close>. Each
  takes the connection and returns a result or an error with the connection
  after it. \<^verbatim>\<open>Prepare\<close> is one engine call; a prepared statement's \<^verbatim>\<open>Exec\<close> is \<open>exec\<close>.
\<close>

definition prepare :: "unit tx" where
  "prepare = engine"

text \<open>\<^verbatim>\<open>LastInsertId\<close> of a result: one more call that can fail.\<close>

definition lastInsertId :: "int \<Rightarrow> int tx" where
  "lastInsertId i = bind_tx engine (\<lambda>_. return_tx i)"

subsection \<open>Lookups by name\<close>

definition clientIDByName :: "string \<Rightarrow> int tx" where
  "clientIDByName name =
     query (\<lambda>d. case first_row (\<lambda>r. c_name r = name) (clients d) of Inl e \<Rightarrow> Inl e | Inr r \<Rightarrow> Inr (c_id r))"

definition roleIDByName :: "string \<Rightarrow> int tx" where
  "roleIDByName name =
     query (\<lambda>d. case first_row (\<lambda>r. r_name r = name) (roles d) of Inl e \<Rightarrow> Inl e | Inr r \<Rightarrow> Inr (r_id r))"

definition resourceIDByName :: "string \<Rightarrow> int tx" where
  "resourceIDByName name =
     query (\<lambda>d. case first_row (\<lambda>r. s_name r = name) (resources d) of Inl e \<Rightarrow> Inl e | Inr r \<Rightarrow> Inr (s_id r))"

subsection \<open>Reads\<close>

definition GetAllClients :: "Client list tx" where
  "GetAllClients = run_tx (query (\<lambda>d. scan_all scan_client (clients d)))"

definition GetClientByID :: "int \<Rightarrow> Client tx" where
  "GetClientByID cid =
     run_tx (query (\<lambda>d. case first_row (\<lambda>r. c_id r = cid) (clients d) of
                          Inl e \<Rightarrow> Inl e | Inr r \<Rightarrow> scan_client r))"

definition GetClientRoles :: "int \<Rightarrow> role_row list tx" where
  "GetClientRoles cid =
     run_tx (query (\<lambda>d. Inr (concat (map (\<lambda>(c, rid). if c = cid then filter (\<lambda>r. r_id r = rid) (roles d) else [])
                                    (clients_roles d)))))"

text \<open>The three-way join of \<^verbatim>\<open>GetClientResources\<close>, one row per path.\<close>

definition GetClientResources :: "int \<Rightarrow> resource_row list tx" where
  "GetClientResources cid =
     run_tx (query (\<lambda>d. Inr (concat (map (\<lambda>s. concat (map (\<lambda>(rid, sid).
        if sid = s_id s
        then map (\<lambda>_. s) (filter (\<lambda>(c, r). r = rid \<and> c = cid) (clients_roles d))
        else []) (roles_resources d))) (resources d)))))"

definition GetAllRoles :: "role_row list tx" where
  "GetAllRoles = run_tx (query (\<lambda>d. Inr (roles d)))"

definition GetRoleByID :: "int \<Rightarrow> role_row tx" where
  "GetRoleByID rid = run_tx (query (\<lambda>d. first_row (\<lambda>r. r_id r = rid) (roles d)))"

definition GetAllResources :: "resource_row list tx" where
  "GetAllResources = run_tx (query (\<lambda>d. Inr (resources d)))"

definition GetResourceByID :: "int \<Rightarrow> resource_row tx" where
  "GetResourceByID sid = run_tx (query (\<lambda>d. first_row (\<lambda>r. s_id r = sid) (resources d)))"

definition GetAllAvailableIPRanges :: "dhcp_row list tx" where
  "GetAllAvailableIPRanges = run_tx (query (\<lambda>d. Inr (dhcp d)))"

subsection \<open>Address allocation\<close>

text \<open>
  The allocation block that \<^verbatim>\<open>CreateClientsWithRoles\<close> and \<^verbatim>\<open>UpsertClients\<close> share: take
  the lowest free address, delete its range when it was the last one in it.
\<close>

definition allocateIP :: "env \<Rightarrow> string tx" where
  "allocateIP env =
     bind_tx (query lowest_dhcp) (\<lambda>r.
       let ip = intToIP env (word_of_int (d_first r)) in
       if d_first r = d_last r
       then bind_tx (exec (delete_dhcp (\<lambda>x. d_id x = d_id r))) (\<lambda>_. return_tx ip)
       else bind_tx (exec (update_dhcp (\<lambda>x. d_id x = d_id r) (d_first r + 1) (d_last r))) (\<lambda>_. return_tx ip))"

fun createLoop :: "env \<Rightarrow> string list \<Rightarrow> int list \<Rightarrow> int list tx" where
  "createLoop env [] ids = return_tx ids"
| "createLoop env (name # ns) ids =
     bind_tx (allocateIP env) (\<lambda>ip.
     bind_tx (exec (insert_client env name ip)) (\<lambda>i.
     bind_tx (lastInsertId i) (\<lambda>clientID.
     bind_tx (exec (insert_role env name)) (\<lambda>j.
     bind_tx (lastInsertId j) (\<lambda>roleID.
     bind_tx (exec (link_client_role True clientID roleID)) (\<lambda>_.
     createLoop env ns (ids @ [clientID])))))))"

definition CreateClientsWithRoles :: "env \<Rightarrow> string list \<Rightarrow> int list tx" where
  "CreateClientsWithRoles env names =
     run_tx (bind_tx prepare (\<lambda>_. bind_tx prepare (\<lambda>_. bind_tx prepare (\<lambda>_. createLoop env names []))))"

fun upsertClientLoop :: "env \<Rightarrow> string list \<Rightarrow> int list \<Rightarrow> int list tx" where
  "upsertClientLoop env [] ids = return_tx ids"
| "upsertClientLoop env (name # ns) ids =
     bind_tx (allocateIP env) (\<lambda>ip.
     bind_tx (exec (insert_client env name ip)) (\<lambda>i.
     bind_tx (lastInsertId i) (\<lambda>clientID.
     upsertClientLoop env ns (ids @ [clientID]))))"

definition UpsertClients :: "env \<Rightarrow> string list \<Rightarrow> int list tx" where
  "UpsertClients env names = run_tx (bind_tx prepare (\<lambda>_. upsertClientLoop env names []))"

text \<open>
  \<^verbatim>\<open>AssignIPToClient\<close> returns early, without a commit, for a client that has an
  address; otherwise it advances the lowest range whatever its length.
\<close>

definition AssignIPToClient :: "env \<Rightarrow> int \<Rightarrow> string tx" where
  "AssignIPToClient env cid =
     run_tx_flag (
       bind_tx (query (\<lambda>d. first_row (\<lambda>r. c_id r = cid) (clients d))) (\<lambda>r.
       let oldIP = c_ip r in
       if oldIP \<noteq> None \<and> oldIP \<noteq> Some [] then return_tx (False, the oldIP)
       else
         bind_tx (query lowest_dhcp) (\<lambda>r.
         bind_tx (exec (update_dhcp (\<lambda>x. d_id x = d_id r) (d_first r + 1) (d_last r))) (\<lambda>_.
         let newIP = intToIP env (word_of_int (d_first r)) in
         bind_tx (exec (set_client_ip (Some newIP) (\<lambda>x. c_id x = cid))) (\<lambda>_.
         return_tx (True, newIP))))))"

text \<open>
  Returning one address to the pool: the two neighbour lookups of
  \<^verbatim>\<open>DeleteClients\<close>, whose errors are values, and the four-way merge on them.
\<close>

definition try_tx :: "'a tx \<Rightarrow> (sql_error + 'a) tx" where
  "try_tx m c = (case m c of (r, c') \<Rightarrow> (Inr r, c'))"

definition releaseIP :: "env \<Rightarrow> int \<Rightarrow> unit tx" where
  "releaseIP env ipInt =
     bind_tx (try_tx (query (\<lambda>d. first_row (\<lambda>r. d_last r = ipInt - 1) (dhcp d)))) (\<lambda>r1.
     bind_tx (try_tx (query (\<lambda>d. first_row (\<lambda>r. d_first r = ipInt + 1) (dhcp d)))) (\<lambda>r2.
     case (r1, r2) of
       (Inl ErrNoRows, Inl ErrNoRows) \<Rightarrow> exec (insert_dhcp env ipInt ipInt)
     | (Inr d1, Inl ErrNoRows) \<Rightarrow>
         exec (update_dhcp (\<lambda>r. d_first r = d_first d1 \<and> d_last r = d_last d1) (d_first d1) (d_last d1 + 1))
     | (Inl ErrNoRows, Inr d2) \<Rightarrow>
         exec (update_dhcp (\<lambda>r. d_first r = d_first d2 \<and> d_last r = d_last d2) (d_first d2 - 1) (d_last d2))
     | (Inr d1, Inr d2) \<Rightarrow>
         bind_tx (exec (delete_dhcp (\<lambda>r. d_first r = d_first d1 \<and> d_last r = d_last d1 \<or>
                                         d_first r = d_first d2 \<and> d_last r = d_last d2)))
           (\<lambda>_. exec (insert_dhcp env (d_first d1) (d_last d2)))
     | (Inl e, _) \<Rightarrow> throw_tx e
     | (_, Inl e) \<Rightarrow> throw_tx e))"

fun deleteClientLoop :: "env \<Rightarrow> int list \<Rightarrow> int list \<Rightarrow> int list tx" where
  "deleteClientLoop env [] deleted = return_tx deleted"
| "deleteClientLoop env (cid # cids) deleted =
     bind_tx (query (\<lambda>d. case first_row (\<lambda>r. c_id r = cid) (clients d) of
                            Inl e \<Rightarrow> Inl e | Inr r \<Rightarrow> scan_client r)) (\<lambda>client.
     case parseIP env (IP client) of
       None \<Rightarrow> throw_tx ErrParseIP
     | Some ipInt \<Rightarrow>
         bind_tx (releaseIP env ipInt) (\<lambda>_.
         bind_tx (exec (delete_client cid)) (\<lambda>n.
         bind_tx (exec (delete_roles_where (\<lambda>r. r_name r = Name client))) (\<lambda>_.
         deleteClientLoop env cids (if n > 0 then deleted @ [cid] else deleted)))))"

definition DeleteClients :: "env \<Rightarrow> int list \<Rightarrow> int list tx" where
  "DeleteClients env cids = run_tx (bind_tx prepare (\<lambda>_. deleteClientLoop env cids []))"

definition ResetDHCP :: "env \<Rightarrow> int \<Rightarrow> int \<Rightarrow> bool tx" where
  "ResetDHCP env firstIP lastIP =
     run_tx (
       bind_tx (exec (delete_dhcp (\<lambda>_. True))) (\<lambda>_.
       bind_tx (exec (insert_dhcp env firstIP lastIP)) (\<lambda>_.
       bind_tx (exec (set_client_ip None (\<lambda>_. True))) (\<lambda>_.
       return_tx True))))"

subsection \<open>Names\<close>

definition UpdateClientName :: "int \<Rightarrow> string \<Rightarrow> bool tx" where
  "UpdateClientName cid newName =
     run_tx (
       bind_tx (query (\<lambda>d. first_row (\<lambda>r. c_id r = cid) (clients d))) (\<lambda>r.
       bind_tx (exec (rename_client cid newName)) (\<lambda>_.
       bind_tx (exec (rename_roles_where (\<lambda>x. r_name x = c_name r) newName)) (\<lambda>_.
       return_tx True))))"

definition UpdateRoleName :: "int \<Rightarrow> string \<Rightarrow> bool tx" where
  "UpdateRoleName rid newName =
     run_tx (bind_tx prepare (\<lambda>_.
             bind_tx (exec (rename_roles_where (\<lambda>r. r_id r = rid) newName)) (\<lambda>_. return_tx True)))"

definition UpdateResourceName :: "int \<Rightarrow> string \<Rightarrow> bool tx" where
  "UpdateResourceName sid newName =
     run_tx (bind_tx prepare (\<lambda>_.
             bind_tx (exec (rename_resource sid newName)) (\<lambda>_. return_tx True)))"

subsection \<open>Inserts and deletes of roles and resources\<close>

fun insertRoles :: "env \<Rightarrow> string list \<Rightarrow> int list \<Rightarrow> int list tx" where
  "insertRoles env [] ids = return_tx ids"
| "insertRoles env (name # ns) ids =
     bind_tx (exec (insert_role env name)) (\<lambda>i.
     bind_tx (lastInsertId i) (\<lambda>i. insertRoles env ns (ids @ [i])))"

definition UpsertRoles :: "env \<Rightarrow> string list \<Rightarrow> int list tx" where
  "UpsertRoles env names = run_tx (bind_tx prepare (\<lambda>_. insertRoles env names []))"

fun insertResources :: "env \<Rightarrow> (string \<times> string) list \<Rightarrow> int list \<Rightarrow> int list tx" where
  "insertResources env [] ids = return_tx ids"
| "insertResources env ((name, value) # rs) ids =
     bind_tx (exec (insert_resource env name value)) (\<lambda>i.
     bind_tx (lastInsertId i) (\<lambda>i. insertResources env rs (ids @ [i])))"

definition UpsertResources :: "env \<Rightarrow> (string \<times> string) list \<Rightarrow> int list tx" where
  "UpsertResources env rs = run_tx (bind_tx prepare (\<lambda>_. insertResources env rs []))"

text \<open>
  A loop that executes one statement per id and collects the ids whose statement
  affected a row.
\<close>

fun collect :: "('k \<Rightarrow> nat tx) \<Rightarrow> 'k list \<Rightarrow> 'k list \<Rightarrow> 'k list tx" where
  "collect stmt [] acc = return_tx acc"
| "collect stmt (k # ks) acc =
     bind_tx (stmt k) (\<lambda>n. collect stmt ks (if n > 0 then acc @ [k] else acc))"

definition DeleteRoles :: "int list \<Rightarrow> int list tx" where
  "DeleteRoles rids =
     run_tx (bind_tx prepare (\<lambda>_. collect (\<lambda>rid. exec (delete_roles_where (\<lambda>r. r_id r = rid))) rids []))"

definition DeleteResources :: "int list \<Rightarrow> int list tx" where
  "DeleteResources sids =
     run_tx (bind_tx prepare (\<lambda>_. collect (\<lambda>sid. exec (delete_resource sid)) sids []))"

subsection \<open>Links\<close>

text \<open>The nested loop over owners and members, each member reported once (\<^verbatim>\<open>seen\<close>).\<close>

fun collectInner :: "(int \<Rightarrow> int \<Rightarrow> nat tx) \<Rightarrow> int \<Rightarrow> int list \<Rightarrow> int list \<Rightarrow> int list tx" where
  "collectInner stmt own [] acc = return_tx acc"
| "collectInner stmt own (m # ms) acc =
     bind_tx (stmt own m) (\<lambda>n. collectInner stmt own ms (if n > 0 \<and> m \<notin> set acc then acc @ [m] else acc))"

fun collectPairs :: "(int \<Rightarrow> int \<Rightarrow> nat tx) \<Rightarrow> int list \<Rightarrow> int list \<Rightarrow> int list \<Rightarrow> int list tx" where
  "collectPairs stmt [] ms acc = return_tx acc"
| "collectPairs stmt (own # owns) ms acc =
     bind_tx (collectInner stmt own ms acc) (\<lambda>acc. collectPairs stmt owns ms acc)"

definition AssignRolesToClients :: "int list \<Rightarrow> int list \<Rightarrow> int list tx" where
  "AssignRolesToClients roleIDs clientIDs =
     run_tx (bind_tx prepare (\<lambda>_.
       collectPairs (\<lambda>c r. exec (link_client_role False c r)) clientIDs roleIDs []))"

definition UnassignRolesToClients :: "int list \<Rightarrow> int list \<Rightarrow> int list tx" where
  "UnassignRolesToClients roleIDs clientIDs =
     run_tx (bind_tx prepare (\<lambda>_.
       collectPairs (\<lambda>c r. exec (unlink_client_role c r)) clientIDs roleIDs []))"

definition AssignResourcesToRoles :: "int list \<Rightarrow> int list \<Rightarrow> int list tx" where
  "AssignResourcesToRoles resourceIDs roleIDs =
     run_tx (bind_tx prepare (\<lambda>_.
       collectPairs (\<lambda>r s. exec (link_role_resource r s)) roleIDs resourceIDs []))"

definition UnassignResourcesToRoles :: "int list \<Rightarrow> int list \<Rightarrow> int list tx" where
  "UnassignResourcesToRoles resourceIDs roleIDs =
     run_tx (bind_tx prepare (\<lambda>_.
       collectPairs (\<lambda>r s. exec (unlink_role_resource r s)) roleIDs resourceIDs []))"

text \<open>The by-name variants resolve each member inside the loop.\<close>

fun collectNamed :: "(string \<Rightarrow> int tx) \<Rightarrow> (int \<Rightarrow> nat tx) \<Rightarrow> string list \<Rightarrow> int list \<Rightarrow> int list tx" where
  "collectNamed resolve stmt [] acc = return_tx acc"
| "collectNamed resolve stmt (name # ns) acc =
     bind_tx (resolve name) (\<lambda>i.
     bind_tx (stmt i) (\<lambda>n. collectNamed resolve stmt ns (if n > 0 then acc @ [i] else acc)))"

definition AssignRolesToClientByName :: "string \<Rightarrow> string list \<Rightarrow> int list tx" where
  "AssignRolesToClientByName clientName roleNames =
     run_tx (bind_tx (clientIDByName clientName) (\<lambda>c. bind_tx prepare (\<lambda>_.
       collectNamed roleIDByName (\<lambda>r. exec (link_client_role False c r)) roleNames [])))"

definition UnassignRolesToClientByName :: "string \<Rightarrow> string list \<Rightarrow> int list tx" where
  "UnassignRolesToClientByName clientName roleNames =
     run_tx (bind_tx (clientIDByName clientName) (\<lambda>c. bind_tx prepare (\<lambda>_.
       collectNamed roleIDByName (\<lambda>r. exec (unlink_client_role c r)) roleNames [])))"

definition AssignResourcesToRoleByName :: "string \<Rightarrow> string list \<Rightarrow> int list tx" where
  "AssignResourcesToRoleByName roleName resourceNames =
     run_tx (bind_tx (roleIDByName roleName) (\<lambda>r. bind_tx prepare (\<lambda>_.
       collectNamed resourceIDByName (\<lambda>s. exec (link_role_resource r s)) resourceNames [])))"

definition UnassignResourcesToRoleByName :: "string \<Rightarrow> string list \<Rightarrow> int list tx" where
  "UnassignResourcesToRoleByName roleName resourceNames =
     run_tx (bind_tx (roleIDByName roleName) (\<lambda>r. bind_tx prepare (\<lambda>_.
       collectNamed resourceIDByName (\<lambda>s. exec (unlink_role_resource r s)) resourceNames [])))"

end
