(* ===== verification/RepoSchema.thy ===== *)
theory RepoSchema
  imports Repository
begin

text \<open>
  What every repository operation has in common: an operation that fails leaves
  the tables as they were, and an operation on tables that satisfy the declared
  constraints leaves tables that satisfy them. The contract is the locale
  \<open>repo_op\<close>, interpreted for every operation.
\<close>

named_theorems keeps_intros \<open>rules that show a transaction body keeps a property of the tables\<close>

definition keeps :: "(db \<Rightarrow> bool) \<Rightarrow> 'a tx \<Rightarrow> bool" where
  "keeps P m \<longleftrightarrow> (\<forall>c. P (cn_db c) \<longrightarrow> P (cn_db (snd (m c))))"

definition stmt_keeps :: "(db \<Rightarrow> bool) \<Rightarrow> (db \<Rightarrow> sql_error + 'a \<times> db) \<Rightarrow> bool" where
  "stmt_keeps P s \<longleftrightarrow> (\<forall>d x d'. P d \<longrightarrow> s d = Inr (x, d') \<longrightarrow> P d')"

lemma cn_db_engine [simp]: "cn_db (snd (engine c)) = cn_db c"
  by (simp add: engine_def split: list.split)

lemma engine_result: "engine c = (r, c') \<Longrightarrow> cn_db c' = cn_db c"
  using cn_db_engine [of c] by simp

lemma keeps_return [keeps_intros]: "keeps P (return_tx x)"
  by (simp add: keeps_def return_tx_def)

lemma keeps_throw [keeps_intros]: "keeps P (throw_tx e)"
  by (simp add: keeps_def throw_tx_def)

lemma keeps_engine [keeps_intros]: "keeps P engine"
  by (simp add: keeps_def)

lemma keeps_prepare [keeps_intros]: "keeps P prepare"
  by (simp add: prepare_def keeps_engine)

lemma keeps_bind [keeps_intros]: "keeps P m \<Longrightarrow> (\<And>x. keeps P (f x)) \<Longrightarrow> keeps P (bind_tx m f)"
  unfolding keeps_def bind_tx_def by (fastforce split: prod.split sum.split)

lemma keeps_query [keeps_intros]: "keeps P (query q)"
  by (auto simp: keeps_def query_def bind_tx_def split: prod.split sum.split dest: engine_result)

lemma keeps_exec [keeps_intros]: "stmt_keeps P s \<Longrightarrow> keeps P (exec s)"
  unfolding keeps_def stmt_keeps_def exec_def bind_tx_def
  by (auto split: prod.split sum.split dest!: engine_result)

lemma keeps_try [keeps_intros]: "keeps P m \<Longrightarrow> keeps P (try_tx m)"
  by (fastforce simp: keeps_def try_tx_def split: prod.split)

lemma keeps_lastInsertId [keeps_intros]: "keeps P (lastInsertId i)"
  unfolding lastInsertId_def by (intro keeps_intros)

lemma keeps_run_tx_flag [keeps_intros]: "keeps P m \<Longrightarrow> keeps P (run_tx_flag m)"
  unfolding keeps_def run_tx_flag_def
  by (auto split: prod.split sum.split dest!: engine_result) (metis snd_conv)

lemma keeps_run_tx [keeps_intros]: "keeps P m \<Longrightarrow> keeps P (run_tx m)"
  unfolding run_tx_def by (intro keeps_intros)

lemma keeps_if [keeps_intros]: "keeps P a \<Longrightarrow> keeps P b \<Longrightarrow> keeps P (if t then a else b)"
  by simp

lemma keeps_let [keeps_intros]: "keeps P (f x) \<Longrightarrow> keeps P (let y = x in f y)"
  by simp

lemma keeps_option [keeps_intros]:
  "keeps P a \<Longrightarrow> (\<And>x. keeps P (f x)) \<Longrightarrow> keeps P (case opt of None \<Rightarrow> a | Some x \<Rightarrow> f x)"
  by (simp split: option.split)

lemma keeps_collect [keeps_intros]: "(\<And>k. keeps P (s k)) \<Longrightarrow> keeps P (collect s ks acc)"
  by (induction ks arbitrary: acc) (auto intro!: keeps_intros)

lemma keeps_collectInner [keeps_intros]: "(\<And>a b. keeps P (s a b)) \<Longrightarrow> keeps P (collectInner s a ms acc)"
  by (induction ms arbitrary: acc) (auto intro!: keeps_intros)

lemma keeps_collectPairs [keeps_intros]: "(\<And>a b. keeps P (s a b)) \<Longrightarrow> keeps P (collectPairs s os ms acc)"
  by (induction os arbitrary: acc) (auto intro!: keeps_intros)

lemma keeps_collectNamed [keeps_intros]:
  "(\<And>n. keeps P (r n)) \<Longrightarrow> (\<And>k. keeps P (s k)) \<Longrightarrow> keeps P (collectNamed r s ns acc)"
  by (induction ns arbitrary: acc) (auto intro!: keeps_intros)

lemma keeps_byName [keeps_intros]:
  "keeps P (clientIDByName n)" "keeps P (roleIDByName n)" "keeps P (resourceIDByName n)"
  unfolding clientIDByName_def roleIDByName_def resourceIDByName_def by (intro keeps_intros)+

subsection \<open>Failure leaves no trace\<close>

definition atomic :: "'a tx \<Rightarrow> bool" where
  "atomic m \<longleftrightarrow> (\<forall>c e c'. m c = (Inl e, c') \<longrightarrow> cn_db c' = cn_db c)"

lemma atomic_run_tx_flag: "atomic (run_tx_flag m)"
  unfolding atomic_def run_tx_flag_def
  by (auto split: prod.splits sum.splits if_splits dest!: engine_result)

lemma atomic_run_tx: "atomic (run_tx m)"
  unfolding run_tx_def by (rule atomic_run_tx_flag)

text \<open>A transaction whose body only reads changes nothing.\<close>

definition readonly :: "'a tx \<Rightarrow> bool" where
  "readonly m \<longleftrightarrow> (\<forall>c. cn_db (snd (m c)) = cn_db c)"

lemma readonly_run_query: "readonly (run_tx (query q))"
proof -
  have "keeps ((=) d) (run_tx (query q))" for d by (intro keeps_intros)
  then show ?thesis unfolding readonly_def keeps_def by metis
qed

subsection \<open>The declared constraints\<close>

definition schema_inv :: "db \<Rightarrow> bool" where
  "schema_inv d \<longleftrightarrow>
     distinct (map c_id (clients d)) \<and> distinct (map c_name (clients d)) \<and>
     distinct (map r_id (roles d)) \<and> distinct (map r_name (roles d)) \<and>
     distinct (map s_id (resources d)) \<and> distinct (map s_name (resources d)) \<and>
     distinct (clients_roles d) \<and> distinct (roles_resources d) \<and> dhcp_unique (dhcp d) \<and>
     (\<forall>(c, r) \<in> set (clients_roles d). c \<in> set (map c_id (clients d)) \<and> r \<in> set (map r_id (roles d))) \<and>
     (\<forall>(r, s) \<in> set (roles_resources d). r \<in> set (map r_id (roles d)) \<and> s \<in> set (map s_id (resources d)))"

text \<open>The rule SQLite follows for a new row id: it is not in use.\<close>

definition fresh_ids :: "env \<Rightarrow> bool" where
  "fresh_ids env \<longleftrightarrow> (\<forall>ids. newid env ids \<notin> set ids)"

lemma fresh_id: "fresh_ids env \<Longrightarrow> newid env (map f xs) \<notin> f ` set xs"
  unfolding fresh_ids_def by (metis set_map)

lemma schema_insert_client: "fresh_ids env \<Longrightarrow> stmt_keeps schema_inv (insert_client env n ip)"
  using fresh_id [of env c_id]
  by (auto simp: stmt_keeps_def insert_client_def schema_inv_def Let_def split: if_splits)

lemma schema_insert_role: "fresh_ids env \<Longrightarrow> stmt_keeps schema_inv (insert_role env n)"
  using fresh_id [of env r_id]
  by (auto simp: stmt_keeps_def insert_role_def schema_inv_def Let_def split: if_splits)

lemma schema_insert_resource: "fresh_ids env \<Longrightarrow> stmt_keeps schema_inv (insert_resource env n v)"
  using fresh_id [of env s_id]
  by (auto simp: stmt_keeps_def insert_resource_def schema_inv_def Let_def split: if_splits)

lemma schema_links:
  "stmt_keeps schema_inv (link_client_role strict c r)" "stmt_keeps schema_inv (unlink_client_role c r)"
  "stmt_keeps schema_inv (link_role_resource r s)" "stmt_keeps schema_inv (unlink_role_resource r s)"
  by (auto simp: stmt_keeps_def schema_inv_def link_client_role_def unlink_client_role_def
      link_role_resource_def unlink_role_resource_def split: if_splits)

lemma schema_delete_client: "stmt_keeps schema_inv (delete_client cid)"
  by (auto simp: stmt_keeps_def schema_inv_def delete_client_def distinct_map_filter image_iff)

lemma schema_delete_resource: "stmt_keeps schema_inv (delete_resource sid)"
  by (auto simp: stmt_keeps_def schema_inv_def delete_resource_def distinct_map_filter image_iff)

lemma schema_delete_roles: "stmt_keeps schema_inv (delete_roles_where p)"
  by (auto simp: stmt_keeps_def schema_inv_def delete_roles_where_def distinct_map_filter image_iff Let_def)
    blast+

lemma map_id_update: "(\<And>x. f (g x) = f x) \<Longrightarrow> map f (map (\<lambda>x. if p x then g x else x) xs) = map f xs"
  by simp

lemma schema_renames:
  "stmt_keeps schema_inv (rename_client cid n)" "stmt_keeps schema_inv (rename_roles_where p n)"
  "stmt_keeps schema_inv (rename_resource sid n)" "stmt_keeps schema_inv (set_client_ip ip q)"
proof -
  have i: "map c_id (map (\<lambda>r. if c_id r = cid then r\<lparr>c_name := n\<rparr> else r) cs) = map c_id cs"
    "map r_id (map (\<lambda>r. if p r then r\<lparr>r_name := n\<rparr> else r) rs) = map r_id rs"
    "map s_id (map (\<lambda>r. if s_id r = sid then r\<lparr>s_name := n\<rparr> else r) ss) = map s_id ss"
    "map c_id (map (\<lambda>r. if q r then r\<lparr>c_ip := ip\<rparr> else r) cs) = map c_id cs"
    "map c_name (map (\<lambda>r. if q r then r\<lparr>c_ip := ip\<rparr> else r) cs) = map c_name cs"
    for cs rs ss
    by (rule map_id_update, simp)+
  show "stmt_keeps schema_inv (rename_client cid n)" "stmt_keeps schema_inv (rename_roles_where p n)"
    "stmt_keeps schema_inv (rename_resource sid n)" "stmt_keeps schema_inv (set_client_ip ip q)"
    unfolding stmt_keeps_def schema_inv_def rename_client_def rename_roles_where_def
      rename_resource_def set_client_ip_def Let_def
    by (simp_all del: map_map set_map add: i split: if_split_asm)
qed

lemma dhcp_unique_filter: "dhcp_unique rs \<Longrightarrow> dhcp_unique (filter p rs)"
  by (simp add: dhcp_unique_def distinct_map_filter)

lemma schema_dhcp:
  "stmt_keeps schema_inv (insert_dhcp env a b)" "stmt_keeps schema_inv (update_dhcp p a b)"
  "stmt_keeps schema_inv (delete_dhcp p)"
  by (auto simp: stmt_keeps_def schema_inv_def insert_dhcp_def update_dhcp_def delete_dhcp_def Let_def
      dhcp_unique_filter split: if_splits)

lemmas schema_stmts = schema_insert_client schema_insert_role schema_insert_resource schema_links
  schema_delete_client schema_delete_resource schema_delete_roles schema_renames schema_dhcp

subsection \<open>The contract of a repository operation\<close>

locale repo_op =
  fixes op :: "env \<Rightarrow> 'a tx"
  assumes op_atomic: "atomic (op env)"
    and op_schema: "fresh_ids env \<Longrightarrow> keeps schema_inv (op env)"
begin

lemma failed_unchanged: "op env c = (Inl e, c') \<Longrightarrow> cn_db c' = cn_db c"
  using op_atomic unfolding atomic_def by blast

lemma schema_after: "fresh_ids env \<Longrightarrow> schema_inv (cn_db c) \<Longrightarrow> op env c = (r, c') \<Longrightarrow> schema_inv (cn_db c')"
  using op_schema [of env] unfolding keeps_def by fastforce

end

subsection \<open>Every operation satisfies it\<close>

lemma repo_op_tx: "(\<And>env. fresh_ids env \<Longrightarrow> keeps schema_inv (m env)) \<Longrightarrow> repo_op (\<lambda>env. run_tx (m env))"
  by unfold_locales (auto intro: atomic_run_tx keeps_run_tx)

lemma keeps_allocateIP: "keeps schema_inv (allocateIP env)"
  unfolding allocateIP_def by (intro keeps_intros schema_stmts)

lemma keeps_createLoop: "fresh_ids env \<Longrightarrow> keeps schema_inv (createLoop env ns ids)"
  by (induction ns arbitrary: ids) (auto intro!: keeps_intros schema_stmts keeps_allocateIP)

lemma keeps_upsertClientLoop: "fresh_ids env \<Longrightarrow> keeps schema_inv (upsertClientLoop env ns ids)"
  by (induction ns arbitrary: ids) (auto intro!: keeps_intros schema_stmts keeps_allocateIP)

lemma keeps_releaseIP: "keeps schema_inv (releaseIP env ip)"
  unfolding releaseIP_def
  by (intro keeps_intros) (auto split: sum.split sql_error.split intro!: keeps_intros schema_stmts)

lemma keeps_deleteClientLoop: "keeps schema_inv (deleteClientLoop env cids del)"
  by (induction cids arbitrary: del) (auto intro!: keeps_intros schema_stmts keeps_releaseIP)

lemma keeps_insertRoles: "fresh_ids env \<Longrightarrow> keeps schema_inv (insertRoles env ns ids)"
  by (induction ns arbitrary: ids) (auto intro!: keeps_intros schema_stmts)

lemma keeps_insertResources: "fresh_ids env \<Longrightarrow> keeps schema_inv (insertResources env rs ids)"
  by (induction rs arbitrary: ids) (auto intro!: keeps_intros schema_stmts)

lemmas keeps_loops = keeps_allocateIP keeps_createLoop keeps_upsertClientLoop keeps_releaseIP
  keeps_deleteClientLoop keeps_insertRoles keeps_insertResources

interpretation createClients: repo_op "\<lambda>env. CreateClientsWithRoles env names" for names
  unfolding CreateClientsWithRoles_def by (intro repo_op_tx keeps_intros keeps_loops)

interpretation upsertClients: repo_op "\<lambda>env. UpsertClients env names" for names
  unfolding UpsertClients_def by (intro repo_op_tx keeps_intros keeps_loops)

interpretation deleteClients: repo_op "\<lambda>env. DeleteClients env cids" for cids
  unfolding DeleteClients_def by (intro repo_op_tx keeps_intros keeps_loops)

interpretation assignIP: repo_op "\<lambda>env. AssignIPToClient env cid" for cid
  unfolding AssignIPToClient_def
  by unfold_locales (intro atomic_run_tx_flag keeps_intros schema_stmts)+

interpretation resetDHCP: repo_op "\<lambda>env. ResetDHCP env a b" for a b
  unfolding ResetDHCP_def by (intro repo_op_tx keeps_intros schema_stmts)

interpretation updateClientName: repo_op "\<lambda>_. UpdateClientName cid n" for cid n
  unfolding UpdateClientName_def by (intro repo_op_tx keeps_intros schema_stmts)

interpretation updateRoleName: repo_op "\<lambda>_. UpdateRoleName rid n" for rid n
  unfolding UpdateRoleName_def by (intro repo_op_tx keeps_intros schema_stmts)

interpretation updateResourceName: repo_op "\<lambda>_. UpdateResourceName sid n" for sid n
  unfolding UpdateResourceName_def by (intro repo_op_tx keeps_intros schema_stmts)

interpretation upsertRoles: repo_op "\<lambda>env. UpsertRoles env names" for names
  unfolding UpsertRoles_def by (intro repo_op_tx keeps_intros keeps_loops)

interpretation upsertResources: repo_op "\<lambda>env. UpsertResources env rs" for rs
  unfolding UpsertResources_def by (intro repo_op_tx keeps_intros keeps_loops)

interpretation deleteRoles: repo_op "\<lambda>_. DeleteRoles rids" for rids
  unfolding DeleteRoles_def by (intro repo_op_tx keeps_intros schema_stmts)

interpretation deleteResources: repo_op "\<lambda>_. DeleteResources sids" for sids
  unfolding DeleteResources_def by (intro repo_op_tx keeps_intros schema_stmts)

interpretation assignRoles: repo_op "\<lambda>_. AssignRolesToClients rids cids" for rids cids
  unfolding AssignRolesToClients_def by (intro repo_op_tx keeps_intros schema_stmts)

interpretation unassignRoles: repo_op "\<lambda>_. UnassignRolesToClients rids cids" for rids cids
  unfolding UnassignRolesToClients_def by (intro repo_op_tx keeps_intros schema_stmts)

interpretation assignResources: repo_op "\<lambda>_. AssignResourcesToRoles sids rids" for sids rids
  unfolding AssignResourcesToRoles_def by (intro repo_op_tx keeps_intros schema_stmts)

interpretation unassignResources: repo_op "\<lambda>_. UnassignResourcesToRoles sids rids" for sids rids
  unfolding UnassignResourcesToRoles_def by (intro repo_op_tx keeps_intros schema_stmts)

interpretation assignRolesByName: repo_op "\<lambda>_. AssignRolesToClientByName cn rns" for cn rns
  unfolding AssignRolesToClientByName_def by (intro repo_op_tx keeps_intros schema_stmts)

interpretation unassignRolesByName: repo_op "\<lambda>_. UnassignRolesToClientByName cn rns" for cn rns
  unfolding UnassignRolesToClientByName_def by (intro repo_op_tx keeps_intros schema_stmts)

interpretation assignResourcesByName: repo_op "\<lambda>_. AssignResourcesToRoleByName rn sns" for rn sns
  unfolding AssignResourcesToRoleByName_def by (intro repo_op_tx keeps_intros schema_stmts)

interpretation unassignResourcesByName: repo_op "\<lambda>_. UnassignResourcesToRoleByName rn sns" for rn sns
  unfolding UnassignResourcesToRoleByName_def by (intro repo_op_tx keeps_intros schema_stmts)

lemma readonly_ops:
  "readonly GetAllClients" "readonly (GetClientByID cid)" "readonly (GetClientRoles cid)"
  "readonly (GetClientResources cid)" "readonly GetAllRoles" "readonly (GetRoleByID rid)"
  "readonly GetAllResources" "readonly (GetResourceByID sid)" "readonly GetAllAvailableIPRanges"
  unfolding GetAllClients_def GetClientByID_def GetClientRoles_def GetClientResources_def GetAllRoles_def
    GetRoleByID_def GetAllResources_def GetResourceByID_def GetAllAvailableIPRanges_def
  by (rule readonly_run_query)+

end
