(* ===== verification/Inet.thy ===== *)
theory Inet
  imports Prelude
begin

text \<open>
  Addresses and prefixes (\<^verbatim>\<open>utility/ip.go\<close>), with what it uses of Go's
  \<^verbatim>\<open>net/netip\<close>: dotted-decimal parsing and printing, \<^verbatim>\<open>ParsePrefix\<close>, \<^verbatim>\<open>Masked\<close>,
  \<^verbatim>\<open>Next\<close>, \<^verbatim>\<open>Prev\<close>. The textual form of IPv6 addresses and the \<^verbatim>\<open>ipconv\<close> package
  are parameters.
\<close>

subsection \<open>Big-endian numbers\<close>

fun num_of :: "bytes \<Rightarrow> nat \<Rightarrow> nat" where
  "num_of [] acc = acc"
| "num_of (b # bs) acc = num_of bs (acc * 256 + unat b)"

fun bytes_of :: "nat \<Rightarrow> nat \<Rightarrow> bytes" where
  "bytes_of 0 n = []"
| "bytes_of (Suc k) n = bytes_of k (n div 256) @ [of_nat (n mod 256)]"

datatype Addr = InvalidAddr | Addr4 bytes | Addr16 bytes

record Prefix =
  PAddr :: Addr
  PBits :: nat

fun AsSlice :: "Addr \<Rightarrow> bytes" where
  "AsSlice InvalidAddr = []"
| "AsSlice (Addr4 bs) = bs"
| "AsSlice (Addr16 bs) = bs"

definition AddrOf :: "Addr \<Rightarrow> nat \<Rightarrow> Addr" where
  "AddrOf a n = (case a of InvalidAddr \<Rightarrow> InvalidAddr | Addr4 _ \<Rightarrow> Addr4 (bytes_of 4 n) | Addr16 _ \<Rightarrow> Addr16 (bytes_of 16 n))"

definition addrNum :: "Addr \<Rightarrow> nat" where
  "addrNum a = num_of (AsSlice a) 0"

definition Next :: "Addr \<Rightarrow> Addr" where
  "Next a = (if a = InvalidAddr \<or> addrNum a + 1 = 256 ^ length (AsSlice a) then InvalidAddr else AddrOf a (addrNum a + 1))"

definition Prev :: "Addr \<Rightarrow> Addr" where
  "Prev a = (if a = InvalidAddr \<or> addrNum a = 0 then InvalidAddr else AddrOf a (addrNum a - 1))"

definition Masked :: "Prefix \<Rightarrow> Prefix" where
  "Masked p = (let h = length (AsSlice (PAddr p)) * 8 - PBits p
               in p\<lparr>PAddr := AddrOf (PAddr p) (addrNum (PAddr p) div 2 ^ h * 2 ^ h)\<rparr>)"

subsection \<open>Dotted decimal\<close>

definition digit :: "nat \<Rightarrow> char" where
  "digit n = char_of (48 + n)"

definition isDigit :: "char \<Rightarrow> bool" where
  "isDigit c \<longleftrightarrow> (48::nat) \<le> of_char c \<and> of_char c \<le> (57::nat)"

definition digitVal :: "char \<Rightarrow> nat" where
  "digitVal c = of_char c - 48"

definition appendDecimal :: "nat \<Rightarrow> string" where
  "appendDecimal x = (if x \<ge> 100 then [digit (x div 100)] else []) @
     (if x \<ge> 10 then [digit (x div 10 mod 10)] else []) @ [digit (x mod 10)]"

definition print4 :: "bytes \<Rightarrow> string" where
  "print4 b = appendDecimal (unat (b ! 0)) @ ''.'' @ appendDecimal (unat (b ! 1)) @ ''.'' @
              appendDecimal (unat (b ! 2)) @ ''.'' @ appendDecimal (unat (b ! 3))"

fun parseIPv4Fields :: "string \<Rightarrow> nat \<Rightarrow> nat \<Rightarrow> bytes \<Rightarrow> bytes option" where
  "parseIPv4Fields [] val digLen fs = (if length fs < 3 then None else Some (fs @ [of_nat val]))"
| "parseIPv4Fields (c # s) val digLen fs =
     (if isDigit c then
        if digLen = 1 \<and> val = 0 then None
        else let val' = val * 10 + digitVal c
             in if val' > 255 then None else parseIPv4Fields s val' (digLen + 1) fs
      else if c = CHR ''.'' then
        if digLen = 0 \<or> s = [] then None
        else if length fs = 3 then None
        else parseIPv4Fields s 0 0 (fs @ [of_nat val])
      else None)"

record text6 =
  parse6 :: "string \<Rightarrow> bytes option"
  print6 :: "bytes \<Rightarrow> string"

definition ParseAddr :: "text6 \<Rightarrow> string \<Rightarrow> Addr option" where
  "ParseAddr t s =
     (case dropWhile (\<lambda>c. c \<notin> {CHR ''.'', CHR '':'', CHR ''%''}) s of
        [] \<Rightarrow> None
      | c # _ \<Rightarrow> if c = CHR ''.'' then map_option Addr4 (parseIPv4Fields s 0 0 [])
                 else if c = CHR '':'' then map_option Addr16 (parse6 t s)
                 else None)"

definition AddrString :: "text6 \<Rightarrow> Addr \<Rightarrow> string" where
  "AddrString t a = (case a of InvalidAddr \<Rightarrow> ''invalid IP'' | Addr4 bs \<Rightarrow> print4 bs | Addr16 bs \<Rightarrow> print6 t bs)"

fun atoi :: "string \<Rightarrow> nat \<Rightarrow> nat option" where
  "atoi [] v = Some v"
| "atoi (c # s) v = (if isDigit c then atoi s (v * 10 + digitVal c) else None)"

definition ParsePrefix :: "text6 \<Rightarrow> string \<Rightarrow> Prefix option" where
  "ParsePrefix t s =
     (if CHR ''/'' \<notin> set s then None
      else
        let bitsStr = rev (takeWhile (\<lambda>c. c \<noteq> CHR ''/'') (rev s));
            ipStr = take (length s - length bitsStr - 1) s
        in case ParseAddr t ipStr of
             None \<Rightarrow> None
           | Some ip \<Rightarrow>
               if length bitsStr > 1 \<and> (\<not> isDigit (hd bitsStr) \<or> hd bitsStr = CHR ''0'') then None
               else if bitsStr = [] then None
               else (case atoi bitsStr 0 of
                       None \<Rightarrow> None
                     | Some bits \<Rightarrow> if bits > length (AsSlice ip) * 8 then None
                                    else Some \<lparr>PAddr = ip, PBits = bits\<rparr>))"

subsection \<open>The functions of ip.go\<close>

fun lastLoop :: "nat \<Rightarrow> int \<Rightarrow> bytes \<Rightarrow> bytes" where
  "lastLoop 0 hostBits bs = bs"
| "lastLoop (Suc i) hostBits bs =
     (let setBits = (if 8 > hostBits then hostBits else 8)
      in if setBits \<le> 0 then bs
         else lastLoop i (hostBits - 8) (bs[i := bs ! i OR drop_bit (nat (8 - setBits)) 0xff]))"

definition LastIPAddr :: "Prefix \<Rightarrow> Addr" where
  "LastIPAddr p =
     (let bytes = AsSlice (PAddr p);
          hostBits = int (length bytes) * 8 - int (PBits p);
          bytes = lastLoop (length bytes) hostBits bytes
      in case PAddr p of Addr4 _ \<Rightarrow> Addr4 bytes | _ \<Rightarrow> Addr16 bytes)"

datatype ip_error = ErrParse | ErrSlash32

definition FirstIP :: "text6 \<Rightarrow> string \<Rightarrow> ip_error + string" where
  "FirstIP t cidr = (case ParsePrefix t cidr of None \<Rightarrow> Inl ErrParse | Some p \<Rightarrow> Inr (AddrString t (Next (PAddr p))))"

definition FirstUsableIP :: "text6 \<Rightarrow> string \<Rightarrow> ip_error + string" where
  "FirstUsableIP t cidr =
     (case ParsePrefix t cidr of
        None \<Rightarrow> Inl ErrParse
      | Some p \<Rightarrow>
          let p = Masked p; netAddr = PAddr p
          in if PBits p = 32 then Inl ErrSlash32
             else if PBits p = 31 then Inr (AddrString t netAddr)
             else Inr (AddrString t (Next netAddr)))"

definition LastIP :: "text6 \<Rightarrow> string \<Rightarrow> ip_error + string" where
  "LastIP t cidr = (case ParsePrefix t cidr of None \<Rightarrow> Inl ErrParse | Some p \<Rightarrow> Inr (AddrString t (LastIPAddr p)))"

definition LastUsableIP :: "text6 \<Rightarrow> string \<Rightarrow> ip_error + string" where
  "LastUsableIP t cidr =
     (case ParsePrefix t cidr of
        None \<Rightarrow> Inl ErrParse
      | Some p \<Rightarrow>
          let broadcastAddr = LastIPAddr p
          in if PBits p = 32 then Inl ErrSlash32
             else if PBits p = 31 then Inr (AddrString t broadcastAddr)
             else Inr (AddrString t (Prev (LastIPAddr p))))"

text \<open>
  \<^verbatim>\<open>ParseIP\<close> over \<^verbatim>\<open>ipconv.ParseIP\<close>, which gives the address bytes and the IP version;
  for version 6 the "number" returned is the version.
\<close>

definition ParseIP :: "(string \<Rightarrow> (bytes \<times> nat) option) \<Rightarrow> string \<Rightarrow> (bytes \<times> int) option" where
  "ParseIP ipconv s =
     (case ipconv s of
        None \<Rightarrow> None
      | Some (ip, version) \<Rightarrow>
          if version = 4 then
            (if length ip = 4 then Some (ip, int (num_of ip 0))
             else if length ip = 16 \<and> take 12 ip = replicate 10 0 @ [0xff, 0xff]
                  then Some (drop 12 ip, int (num_of (drop 12 ip) 0))
             else None)
          else Some (ip, int version))"

definition IPVersion :: "bytes \<Rightarrow> byte" where
  "IPVersion b = (if b = [] then 0 else drop_bit 4 (b ! 0))"

definition htons :: "u16 \<Rightarrow> u16" where
  "htons host = ((push_bit 8 host) AND 0xff00) OR ((drop_bit 8 host) AND 0xff)"

subsection \<open>Numbers and bytes\<close>

lemma num_of_acc: "num_of bs acc = acc * 256 ^ length bs + num_of bs 0"
proof (induction bs arbitrary: acc)
  case (Cons b bs)
  show ?case using Cons.IH [of "acc * 256 + unat b"] Cons.IH [of "unat b"] by (simp add: algebra_simps)
qed simp

lemma num_of_append: "num_of (bs @ cs) acc = num_of cs (num_of bs acc)"
  by (induction bs arbitrary: acc) simp_all

lemma num_of_snoc: "num_of (bs @ [b]) 0 = num_of bs 0 * 256 + unat b"
  by (simp add: num_of_append)

lemma digit_bound: "n + 1 \<le> (p :: nat) \<Longrightarrow> b < 256 \<Longrightarrow> n * 256 + b < p * 256"
  by linarith

lemma num_of_less: "num_of bs 0 < 256 ^ length bs"
proof (induction bs rule: rev_induct)
  case (snoc b bs)
  then have "num_of bs 0 + 1 \<le> 256 ^ length bs" by simp
  from digit_bound [OF this unat_byte_less] have "num_of bs 0 * 256 + unat b < 256 ^ length bs * 256" .
  then show ?case by (simp add: num_of_snoc mult.commute)
qed simp

lemma length_bytes_of [simp]: "length (bytes_of k n) = k"
  by (induction k arbitrary: n) simp_all

lemma bytes_of_4:
  "bytes_of 4 n = [of_nat (n div 256 div 256 div 256 mod 256), of_nat (n div 256 div 256 mod 256), of_nat (n div 256 mod 256), of_nat (n mod 256)]"
proof -
  have "bytes_of (Suc (Suc (Suc (Suc 0)))) n = [of_nat (n div 256 div 256 div 256 mod 256), of_nat (n div 256 div 256 mod 256), of_nat (n div 256 mod 256), of_nat (n mod 256)]"
    by simp
  moreover have "Suc (Suc (Suc (Suc 0))) = 4" by simp
  ultimately show ?thesis by metis
qed

lemma num_of_bytes_of: "n < 256 ^ k \<Longrightarrow> num_of (bytes_of k n) 0 = n"
proof (induction k arbitrary: n)
  case (Suc k)
  then have "n div 256 < 256 ^ k" by (simp add: less_mult_imp_div_less mult.commute)
  then show ?case using Suc.IH by (simp add: num_of_snoc unat_of_nat_small)
qed simp

lemma bytes_of_num_of: "bytes_of (length bs) (num_of bs 0) = bs"
proof (induction bs rule: rev_induct)
  case (snoc b bs)
  have "(num_of bs 0 * 256 + unat b) div 256 = num_of bs 0" "(num_of bs 0 * 256 + unat b) mod 256 = unat b"
    using unat_byte_less [of b] by simp_all
  then show ?case using snoc by (simp add: num_of_snoc)
qed simp

subsection \<open>The last address of a prefix\<close>

lemma nat_or_mask: "(n :: nat) OR mask s = n div 2 ^ s * 2 ^ s + (2 ^ s - 1)"
proof -
  have "n OR mask s = push_bit s (drop_bit s n) OR mask s"
    by (rule bit_eqI) (auto simp: bit_simps)
  also have "\<dots> = push_bit s (drop_bit s n) + mask s"
    by (rule disjunctive_add_eq_or [symmetric]) (rule bit_eqI, auto simp: bit_simps)
  finally show ?thesis by (simp add: push_bit_eq_mult drop_bit_eq_div mask_eq_exp_minus_1)
qed

lemma unat_mask_byte: "s \<le> 8 \<Longrightarrow> unat (mask s :: byte) = mask s"
  by (rule bit_eqI) (auto simp: bit_simps)

lemma unat_or_mask:
  assumes "s \<le> 8"
  shows "unat ((b :: byte) OR drop_bit (8 - s) 0xff) = unat b div 2 ^ s * 2 ^ s + (2 ^ s - 1)"
proof -
  have "(0xff :: byte) = mask 8" by (simp add: mask_eq_exp_minus_1)
  moreover have "drop_bit (8 - s) (mask 8 :: byte) = mask s" 
    using assms by (intro bit_word_eqI) (auto simp: bit_simps)
  ultimately have "drop_bit (8 - s) (0xff :: byte) = mask s" by metis
  then show ?thesis using assms nat_or_mask [of "unat b" s]
    by (simp add: unsigned_or_eq unat_mask_byte)
qed

lemma length_lastLoop [simp]: "length (lastLoop i h bs) = length bs"
  by (induction i h bs rule: lastLoop.induct) (simp_all add: Let_def)

lemma lastLoop_append: "i \<le> length bs \<Longrightarrow> lastLoop i h (bs @ cs) = lastLoop i h bs @ cs"
proof (induction i arbitrary: h bs)
  case (Suc i)
  then show ?case by (simp add: Let_def nth_append list_update_append)
qed simp

lemma lastLoop_snoc:
  "h > 0 \<Longrightarrow> lastLoop (length (bs @ [b])) h (bs @ [b])
     = lastLoop (length bs) (h - 8) bs @ [b OR drop_bit (nat (8 - min 8 h)) 0xff]"
  by (simp add: Let_def lastLoop_append min_def)

lemma ones_above: "0 < (p :: nat) \<Longrightarrow> (q * p + (p - 1)) * 256 + 255 = q * (p * 256) + (p * 256 - 1)"
  by (cases p) (simp_all add: algebra_simps)

lemma div_block:
  assumes "(m :: nat) = p * q" "0 < q"
  shows "(n * m + b) div q * q = n * m + b div q * q"
proof -
  have "(n * m + b) div q = n * p + b div q" using assms by (simp flip: mult.assoc add: add.commute)
  then show ?thesis using assms by (simp add: algebra_simps)
qed

lemma block_div: "r < (p :: nat) \<Longrightarrow> (q * p + r) div p = q"
  by simp

lemma num_of_lastLoop:
  "h \<le> 8 * length bs \<Longrightarrow> num_of (lastLoop (length bs) (int h) bs) 0 = num_of bs 0 div 2 ^ h * 2 ^ h + (2 ^ h - 1)"
proof (induction bs arbitrary: h rule: rev_induct)
  case (snoc b bs)
  show ?case
  proof (cases "h = 0")
    case True
    then show ?thesis by simp
  next
    case False
    let ?N = "num_of bs 0"
    have step: "num_of (lastLoop (length (bs @ [b])) (int h) (bs @ [b])) 0 =
        num_of (lastLoop (length bs) (int h - 8) bs) 0 * 256 + unat (b OR drop_bit (nat (8 - min 8 (int h))) 0xff)"
      using lastLoop_snoc [of "int h" bs b] False by (simp only: num_of_snoc)
    show ?thesis
    proof (cases "h \<le> 8")
      case True
      have l: "lastLoop (length bs) (int h - 8) bs = bs" using True by (cases bs rule: rev_cases) simp_all
      have "nat (8 - min 8 (int h)) = 8 - h" using True by simp
      then have n: "num_of (lastLoop (length (bs @ [b])) (int h) (bs @ [b])) 0 = ?N * 256 + (unat b div 2 ^ h * 2 ^ h + (2 ^ h - 1))"
        unfolding step l using unat_or_mask [OF True, of b] by simp
      have "(256 :: nat) = 2 ^ (8 - h) * 2 ^ h" using True by (simp flip: power_add)
      from div_block [OF this] have "(?N * 256 + unat b) div 2 ^ h * 2 ^ h = ?N * 256 + unat b div 2 ^ h * 2 ^ h" by simp
      then show ?thesis unfolding n num_of_snoc by (simp only: add.assoc)
    next
      case False
      then obtain k where k: "h = k + 8" using le_Suc_ex [of 8 h] by (auto simp: add.commute)
      have i: "int h - 8 = int k" using k by simp
      have "unat (b OR drop_bit (nat (8 - min 8 (int h))) 0xff) = 255"
        using False unat_or_mask [of 8 b] unat_byte_less [of b] by simp
      then have n: "num_of (lastLoop (length (bs @ [b])) (int h) (bs @ [b])) 0 = (?N div 2 ^ k * 2 ^ k + (2 ^ k - 1)) * 256 + 255"
        unfolding step i using snoc.IH [of k] snoc.prems k by simp
      have "(?N * 256 + unat b) div 256 = ?N" using unat_byte_less [of b] by simp
      then have "(?N * 256 + unat b) div 2 ^ h = ?N div 2 ^ k"
        unfolding k power_add using div_mult2_eq [of "?N * 256 + unat b" 256 "2 ^ k"] by (simp add: mult.commute)
      then show ?thesis unfolding n num_of_snoc using ones_above [of "2 ^ k" "?N div 2 ^ k"] by (simp add: k power_add)
    qed
  qed
qed simp

subsection \<open>Printing and parsing\<close>

lemma of_char_digit: "n < 10 \<Longrightarrow> of_char (digit n) = (48 + n :: nat)"
  by (simp add: digit_def)

lemma isDigit_digit [simp]: "n < 10 \<Longrightarrow> isDigit (digit n)"
  by (simp add: isDigit_def of_char_digit)

lemma digitVal_digit [simp]: "n < 10 \<Longrightarrow> digitVal (digit n) = n"
  by (simp add: digitVal_def of_char_digit)

lemma isDigit_punct [simp]: "\<not> isDigit CHR ''.''" "\<not> isDigit CHR ''/''" "\<not> isDigit CHR '':''" "\<not> isDigit CHR ''%''"
  by (simp_all add: isDigit_def)

lemma appendDecimal_digits: "c \<in> set (appendDecimal n) \<Longrightarrow> n < 1000 \<Longrightarrow> isDigit c"
  by (auto simp: appendDecimal_def split: if_splits)

lemma appendDecimal_ne [simp]: "appendDecimal n \<noteq> []"
  by (simp add: appendDecimal_def)

text \<open>Reading one printed octet leaves its value in the accumulator.\<close>

lemma parse_octet:
  assumes "n < 256"
  shows "\<exists>k > 0. parseIPv4Fields (appendDecimal n @ s) 0 0 fs = parseIPv4Fields s n k fs"
proof -
  consider "n < 10" | "10 \<le> n" "n < 100" | "100 \<le> n" by linarith
  then show ?thesis
  proof cases
    case 1
    then show ?thesis using assms by (intro exI [of _ 1]) (simp add: appendDecimal_def)
  next
    case 2
    then have "n div 10 mod 10 = n div 10" "0 < n div 10" by simp_all
    moreover have "n div 10 < 10" using 2 by simp
    moreover have nb: "(255 < n div 10) = False" using 2 by simp
    moreover have "n div 10 * 10 + n mod 10 = n" by simp
    ultimately show ?thesis using assms 2 by (intro exI [of _ "Suc (Suc 0)"]) (simp add: appendDecimal_def Let_def nb)
  next
    case 3
    have a: "n div 100 < 10" "0 < n div 100" using assms 3 by simp_all
    have b: "n div 100 * 10 + n div 10 mod 10 = n div 10"
      using div_mult2_eq [of n 10 10] by simp
    have "n div 10 * 10 + n mod 10 = n" by simp
    moreover have "n div 10 < 26" using assms by simp
    ultimately show ?thesis using assms 3 a b by (intro exI [of _ "Suc (Suc (Suc 0))"]) (simp add: appendDecimal_def Let_def)
  qed
qed

lemma list4: "length (bs :: 'a list) = 4 \<Longrightarrow> bs = [bs ! 0, bs ! 1, bs ! 2, bs ! 3]"
  by (auto simp: list_eq_iff_nth_eq numeral_eq_Suc less_Suc_eq)

lemma parse_print4:
  assumes "length bs = 4"
  shows "parseIPv4Fields (print4 bs) 0 0 [] = Some bs"
proof -
  define a b c d where "a = bs ! 0" and "b = bs ! 1" and "c = bs ! 2" and "d = bs ! 3"
  have bs: "bs = [a, b, c, d]" using list4 [OF assms] by (simp add: a_def b_def c_def d_def)
  obtain k1 where k1: "k1 > 0" "parseIPv4Fields (print4 bs) 0 0 [] = parseIPv4Fields (''.'' @ appendDecimal (unat b) @ ''.'' @
     appendDecimal (unat c) @ ''.'' @ appendDecimal (unat d)) (unat a) k1 []"
    using parse_octet [OF unat_byte_less, of a "''.'' @ appendDecimal (unat b) @ ''.'' @
     appendDecimal (unat c) @ ''.'' @ appendDecimal (unat d)" "[]"] that
    unfolding print4_def a_def [symmetric] b_def [symmetric] c_def [symmetric] d_def [symmetric] by blast
  obtain k2 where k2: "k2 > 0" "parseIPv4Fields (appendDecimal (unat b) @ ''.'' @
     appendDecimal (unat c) @ ''.'' @ appendDecimal (unat d)) 0 0 [a] = parseIPv4Fields (''.'' @
     appendDecimal (unat c) @ ''.'' @ appendDecimal (unat d)) (unat b) k2 [a]"
    using parse_octet [OF unat_byte_less] by blast
  obtain k3 where k3: "k3 > 0" "parseIPv4Fields (
     appendDecimal (unat c) @ ''.'' @ appendDecimal (unat d)) 0 0 [a, b] = parseIPv4Fields (''.'' @ appendDecimal (unat d)) (unat c) k3 [a, b]"
    using parse_octet [OF unat_byte_less] by blast
  obtain k4 where k4: "parseIPv4Fields (appendDecimal (unat d)) 0 0 [a, b, c] = parseIPv4Fields [] (unat d) k4 [a, b, c]"
    using parse_octet [OF unat_byte_less, of d "[]" "[a, b, c]"] by auto
  show ?thesis unfolding k1(2) using k1(1) k2 k3 k4 by (simp add: bs)
qed

lemma ParseAddr_print4: "length bs = 4 \<Longrightarrow> ParseAddr t (print4 bs) = Some (Addr4 bs)"
proof -
  assume l: "length bs = 4"
  let ?P = "\<lambda>c. c \<notin> {CHR ''.'', CHR '':'', CHR ''%''}"
  have "\<forall>c \<in> set (appendDecimal (unat (bs ! 0))). ?P c"
    using appendDecimal_digits [of _ "unat (bs ! 0)"] unat_byte_less [of "bs ! 0"] by fastforce
  then have "dropWhile ?P (print4 bs) = ''.'' @ drop (Suc (length (appendDecimal (unat (bs ! 0))))) (print4 bs)"
    unfolding print4_def by (simp add: dropWhile_append2)
  then show ?thesis using parse_print4 [OF l] by (simp add: ParseAddr_def)
qed

lemma atoi_appendDecimal: "n < 256 \<Longrightarrow> atoi (appendDecimal n) 0 = Some n"
proof -
  assume n: "n < 256"
  have "n div 100 * 10 + n div 10 mod 10 = n div 10" using div_mult2_eq [of n 10 10] by simp
  moreover have "n div 10 * 10 + n mod 10 = n" by simp
  ultimately show ?thesis using n by (simp add: appendDecimal_def)
qed

lemma appendDecimal_head: "n < 1000 \<Longrightarrow> length (appendDecimal n) > 1 \<Longrightarrow> isDigit (hd (appendDecimal n)) \<and> hd (appendDecimal n) \<noteq> CHR ''0''"
proof -
  have z: "digit k \<noteq> CHR ''0''" if "0 < k" "k < 10" for k
  proof
    assume "digit k = CHR ''0''"
    then have "of_char (digit k) = (48 :: nat)" by simp
    with that show False by (simp add: of_char_digit)
  qed
  assume n: "n < 1000" "length (appendDecimal n) > 1"
  show ?thesis
  proof (cases "n \<ge> 100")
    case True
    then have "0 < n div 100" "n div 100 < 10" using n by simp_all
    then show ?thesis using True z by (simp add: appendDecimal_def)
  next
    case False
    then have "10 \<le> n" using n by (cases "n \<ge> 10") (simp_all add: appendDecimal_def)
    then have "0 < n div 10" "n div 10 mod 10 = n div 10" "n div 10 < 10" using False by simp_all
    then show ?thesis using False \<open>10 \<le> n\<close> z by (simp add: appendDecimal_def)
  qed
qed

lemma ParsePrefix_print4:
  assumes bs: "length bs = 4" and n: "n \<le> 32"
  shows "ParsePrefix t (print4 bs @ ''/'' @ appendDecimal n) = Some \<lparr>PAddr = Addr4 bs, PBits = n\<rparr>"
proof -
  have "\<forall>c \<in> set (rev (appendDecimal n)). c \<noteq> CHR ''/''"
    using appendDecimal_digits [of _ n] n by fastforce
  then have "takeWhile (\<lambda>c. c \<noteq> CHR ''/'') (rev (print4 bs @ ''/'' @ appendDecimal n)) = rev (appendDecimal n)"
    using takeWhile_append2 [of "rev (appendDecimal n)" "\<lambda>c. c \<noteq> CHR ''/''" "CHR ''/'' # rev (print4 bs)"] by simp
  then show ?thesis
    using ParseAddr_print4 [OF bs] atoi_appendDecimal [of n] appendDecimal_head [of n] n bs
    by (simp add: ParsePrefix_def Let_def)
qed

subsection \<open>What the prefix functions compute\<close>

definition prefix_ok :: "Prefix \<Rightarrow> bool" where
  "prefix_ok p \<longleftrightarrow> (case PAddr p of InvalidAddr \<Rightarrow> False | Addr4 bs \<Rightarrow> length bs = 4 \<and> PBits p \<le> 32
                                  | Addr16 bs \<Rightarrow> length bs = 16 \<and> PBits p \<le> 128)"

lemma LastIPAddr_num:
  assumes "prefix_ok p"
  shows "addrNum (LastIPAddr p) =
     (let h = 8 * length (AsSlice (PAddr p)) - PBits p in addrNum (PAddr p) div 2 ^ h * 2 ^ h + (2 ^ h - 1))"
    and "length (AsSlice (LastIPAddr p)) = length (AsSlice (PAddr p))"
    and "(\<exists>bs. LastIPAddr p = Addr4 bs) \<longleftrightarrow> (\<exists>bs. PAddr p = Addr4 bs)"
proof -
  let ?bs = "AsSlice (PAddr p)"
  have h: "PBits p \<le> 8 * length ?bs" using assms by (auto simp: prefix_ok_def split: Addr.splits)
  have "int (length ?bs) * 8 - int (PBits p) = int (8 * length ?bs - PBits p)" using h by linarith
  then have n: "num_of (lastLoop (length ?bs) (int (length ?bs) * 8 - int (PBits p)) ?bs) 0 =
      (let h = 8 * length ?bs - PBits p in num_of ?bs 0 div 2 ^ h * 2 ^ h + (2 ^ h - 1))"
    using num_of_lastLoop [of "8 * length ?bs - PBits p" ?bs] by (simp add: Let_def)
  then show "addrNum (LastIPAddr p) =
     (let h = 8 * length (AsSlice (PAddr p)) - PBits p in addrNum (PAddr p) div 2 ^ h * 2 ^ h + (2 ^ h - 1))"
    using assms by (auto simp: LastIPAddr_def addrNum_def prefix_ok_def Let_def split: Addr.splits)
  show "length (AsSlice (LastIPAddr p)) = length (AsSlice (PAddr p))"
    "(\<exists>bs. LastIPAddr p = Addr4 bs) \<longleftrightarrow> (\<exists>bs. PAddr p = Addr4 bs)"
    using assms by (auto simp: LastIPAddr_def prefix_ok_def Let_def split: Addr.splits)
qed

text \<open>
  The loop of \<^verbatim>\<open>LastIPAddr\<close> computes the last address of a prefix. For every
  valid IPv4 or IPv6 prefix the result is of the same family, and as a number it
  is the address with all host bits set: every address of the prefix is at most
  it, and it lies in the prefix.
\<close>

theorem last_address_of_prefix:
  assumes "prefix_ok p" and "h = 8 * length (AsSlice (PAddr p)) - PBits p"
  shows "addrNum (LastIPAddr p) div 2 ^ h = addrNum (PAddr p) div 2 ^ h \<and>
     (\<forall>n. n div 2 ^ h = addrNum (PAddr p) div 2 ^ h \<longrightarrow> n \<le> addrNum (LastIPAddr p)) \<and>
     length (AsSlice (LastIPAddr p)) = length (AsSlice (PAddr p)) \<and>
     ((\<exists>bs. LastIPAddr p = Addr4 bs) \<longleftrightarrow> (\<exists>bs. PAddr p = Addr4 bs))"
proof -
  note l = LastIPAddr_num [OF assms(1), folded assms(2), unfolded Let_def]
  have ub: "n \<le> q * 2 ^ h + (2 ^ h - 1)" if "n div 2 ^ h = q" for n q :: nat
  proof -
    have "n = q * 2 ^ h + n mod 2 ^ h" using that div_mult_mod_eq [of n "2 ^ h"] by simp
    moreover have "n mod 2 ^ h < 2 ^ h" by simp
    ultimately show ?thesis by linarith
  qed
  have "(q * 2 ^ h + (2 ^ h - 1)) div 2 ^ h = q" for q :: nat by (rule block_div) simp
  then show ?thesis unfolding l(1) using ub l(2,3) by blast
qed

theorem last_address_of_prefix_witness:
  "LastIPAddr \<lparr>PAddr = Addr4 [10, 0, 5, 7], PBits = 22\<rparr> = Addr4 [10, 0, 7, 255] \<and>
   {n. n div 2 ^ 10 = addrNum (Addr4 [10, 0, 5, 7]) div 2 ^ 10} \<subseteq> {..addrNum (Addr4 [10, 0, 7, 255])}"
proof -
  have "LastIPAddr \<lparr>PAddr = Addr4 [10, 0, 5, 7], PBits = 22\<rparr> = Addr4 [10, 0, 7, 255]" by code_simp
  moreover have "prefix_ok \<lparr>PAddr = Addr4 [10, 0, 5, 7], PBits = 22\<rparr>" by (simp add: prefix_ok_def)
  ultimately show ?thesis
    using last_address_of_prefix [of "\<lparr>PAddr = Addr4 [10, 0, 5, 7], PBits = 22\<rparr>" 10] by (auto simp: subset_iff)
qed

lemma net_bounds:
  assumes "N < 2 ^ 32" "n \<le> 32" "h = 32 - n"
  shows "N div 2 ^ h * 2 ^ h + 2 ^ h \<le> (2 :: nat) ^ 32"
proof -
  have "(2 :: nat) ^ 32 = 2 ^ n * 2 ^ h" using assms by (simp flip: power_add)
  then have "N div 2 ^ h < 2 ^ n" using assms(1) by (simp add: less_mult_imp_div_less)
  then have "(N div 2 ^ h + 1) * 2 ^ h \<le> 2 ^ n * 2 ^ h" by (intro mult_le_mono1) simp
  then show ?thesis using \<open>2 ^ 32 = 2 ^ n * 2 ^ h\<close> by simp
qed

lemma addrNum_bytes_of: "m < 2 ^ 32 \<Longrightarrow> addrNum (Addr4 (bytes_of 4 m)) = m"
  by (simp add: addrNum_def num_of_bytes_of)

lemma Addr4_LastIPAddr:
  assumes "length bs = 4" "n \<le> 32" "h = 32 - n"
  shows "LastIPAddr \<lparr>PAddr = Addr4 bs, PBits = n\<rparr> = Addr4 (bytes_of 4 (num_of bs 0 div 2 ^ h * 2 ^ h + (2 ^ h - 1)))"
proof -
  let ?p = "\<lparr>PAddr = Addr4 bs, PBits = n\<rparr>"
  have ok: "prefix_ok ?p" using assms by (simp add: prefix_ok_def)
  from LastIPAddr_num [OF ok] assms obtain cs where
    "LastIPAddr ?p = Addr4 cs" "length cs = 4" "num_of cs 0 = num_of bs 0 div 2 ^ h * 2 ^ h + (2 ^ h - 1)"
    by (auto simp: addrNum_def Let_def)
  then show ?thesis using bytes_of_num_of [of cs] by simp
qed

text \<open>
  For every IPv4 network written \<^verbatim>\<open>a.b.c.d/n\<close>, whether or not the address has host
  bits set, \<^verbatim>\<open>FirstUsableIP\<close> and \<^verbatim>\<open>LastUsableIP\<close> return the printed addresses just above
  the network and just below the broadcast address, both ends of a \<^verbatim>\<open>/31\<close>, and an
  error for a \<^verbatim>\<open>/32\<close>.
\<close>

theorem usable_range:
  assumes bs: "length bs = 4" and n: "n \<le> 32" and h: "h = 32 - n" and net: "net = num_of bs 0 div 2 ^ h * 2 ^ h"
    and cidr: "cidr = print4 bs @ ''/'' @ appendDecimal n"
  shows "FirstUsableIP t cidr = (if n = 32 then Inl ErrSlash32
           else Inr (print4 (bytes_of 4 (if n = 31 then net else net + 1)))) \<and>
         LastUsableIP t cidr = (if n = 32 then Inl ErrSlash32
           else Inr (print4 (bytes_of 4 (if n = 31 then net + 1 else net + 2 ^ h - 2))))"
proof -
  have N: "num_of bs 0 < 2 ^ 32" using num_of_less [of bs] bs by simp
  have b: "net + 2 ^ h \<le> 2 ^ 32" using net_bounds [OF N n h] net by simp
  have two: "n \<noteq> 32 \<Longrightarrow> 2 \<le> (2 :: nat) ^ h" using power_increasing [of 1 h "2 :: nat"] n h by simp
  have four: "n < 31 \<Longrightarrow> 4 \<le> (2 :: nat) ^ h"
    using power_increasing [of 2 h "2 :: nat"] h by simp
  define p where "p = \<lparr>PAddr = Addr4 bs, PBits = n\<rparr>"
  have pp: "ParsePrefix t cidr = Some p" unfolding cidr p_def by (rule ParsePrefix_print4 [OF bs n])
  have masked: "PAddr (Masked p) = Addr4 (bytes_of 4 net)" "PBits (Masked p) = n" "PBits p = n"
    using bs h net by (simp_all add: p_def Masked_def AddrOf_def addrNum_def Let_def)
  have nx: "n \<noteq> 32 \<Longrightarrow> Next (Addr4 (bytes_of 4 net)) = Addr4 (bytes_of 4 (net + 1))"
    using b two by (simp add: Next_def AddrOf_def addrNum_bytes_of)
  have last: "LastIPAddr p = Addr4 (bytes_of 4 (net + (2 ^ h - 1)))"
    using Addr4_LastIPAddr [OF bs n h] net by (simp add: p_def)
  have pv: "n < 31 \<Longrightarrow> Prev (Addr4 (bytes_of 4 (net + (2 ^ h - 1)))) = Addr4 (bytes_of 4 (net + 2 ^ h - 2))"
    using b four by (simp add: Prev_def AddrOf_def addrNum_bytes_of numeral_2_eq_2)
  have h31: "n = 31 \<Longrightarrow> h = 1" using h by simp
  show ?thesis using nx pv h31 n
    by (simp add: FirstUsableIP_def LastUsableIP_def pp masked last AddrString_def Let_def)
qed

definition ex_text6 :: text6 where
  "ex_text6 = \<lparr>parse6 = (\<lambda>_. None), print6 = (\<lambda>_. [])\<rparr>"

theorem usable_range_witness:
  "FirstUsableIP ex_text6 ''10.8.3.9/22'' = Inr ''10.8.0.1'' \<and> LastUsableIP ex_text6 ''10.8.3.9/22'' = Inr ''10.8.3.254''"
proof -
  have p: "print4 [10, 8, 3, 9] @ ''/'' @ appendDecimal 22 = ''10.8.3.9/22''"
    by (simp add: print4_def appendDecimal_def digit_def char_of_def bit_0)
  have b: "print4 (bytes_of 4 0x0a080001) = ''10.8.0.1''" "print4 (bytes_of 4 0x0a0803fe) = ''10.8.3.254''"
    by (simp_all add: bytes_of_4 print4_def appendDecimal_def digit_def char_of_def bit_0)
  show ?thesis
    using usable_range [of "[10, 8, 3, 9]" 22 10 "0x0a080000" "''10.8.3.9/22''" ex_text6] b unfolding p by simp
qed

end
