(* ===== verification/Dhcp.thy ===== *)
theory Dhcp
  imports RepoSchema Inet
begin

text \<open>
  The address pool of the control plane: the \<^verbatim>\<open>dhcp\<close> rows as the set of addresses
  they stand for, what allocation and release do to that set, and that no two
  clients are ever given the same address.
\<close>

subsection \<open>Results of transactions\<close>

lemma bind_InrE:
  assumes "bind_tx m f c = (Inr y, c')"
  obtains x c1 where "m c = (Inr x, c1)" "f x c1 = (Inr y, c')"
  using assms by (auto simp: bind_tx_def split: prod.splits sum.splits)

lemma engine_InrE:
  assumes "engine c = (Inr u, c')"
  obtains "cn_db c' = cn_db c"
  using engine_result [OF assms] by blast

lemma query_InrE:
  assumes "query q c = (Inr x, c')"
  obtains "q (cn_db c) = Inr x" "cn_db c' = cn_db c"
  using assms unfolding query_def by (auto elim!: bind_InrE dest: engine_result)

lemma exec_InrE:
  assumes "exec s c = (Inr x, c')"
  obtains "s (cn_db c) = Inr (x, cn_db c')"
  using assms unfolding exec_def
  by (auto elim!: bind_InrE dest!: engine_result split: sum.splits prod.splits)

lemma return_InrE:
  assumes "return_tx x c = (Inr y, c')"
  obtains "y = x" "c' = c"
  using assms by (simp add: return_tx_def)

lemma lastInsertId_InrE:
  assumes "lastInsertId i c = (Inr y, c')"
  obtains "y = i" "cn_db c' = cn_db c"
  using assms unfolding lastInsertId_def by (auto elim!: bind_InrE return_InrE dest: engine_result)

lemma try_InrE:
  assumes "try_tx m c = (Inr r, c')"
  obtains "m c = (r, c')"
  using assms by (auto simp: try_tx_def split: prod.splits)

lemma run_tx_flag_InrE:
  assumes "run_tx_flag m c = (Inr x, c')"
  obtains c1 b c2 where "cn_db c1 = cn_db c" "m c1 = (Inr (b, x), c2)" "cn_db c' = (if b then cn_db c2 else cn_db c)"
  using assms unfolding run_tx_flag_def
  by (auto split: prod.splits sum.splits if_splits dest!: engine_result)

lemma run_tx_InrE:
  assumes "run_tx m c = (Inr x, c')"
  obtains c1 c2 where "cn_db c1 = cn_db c" "m c1 = (Inr x, c2)" "cn_db c' = cn_db c2"
  using assms unfolding run_tx_def run_tx_flag_def
  by (auto split: prod.splits sum.splits if_splits elim!: bind_InrE return_InrE dest!: engine_result)

lemmas tx_elims = bind_InrE query_InrE exec_InrE return_InrE lastInsertId_InrE try_InrE

subsection \<open>Rows as sets of addresses\<close>

definition ranges :: "dhcp_row list \<Rightarrow> int set" where
  "ranges rs = (\<Union>r \<in> set rs. {d_first r..d_last r})"

definition apart :: "int \<Rightarrow> int \<Rightarrow> dhcp_row \<Rightarrow> bool" where
  "apart a b x \<longleftrightarrow> d_last x < a \<or> b < d_first x"

text \<open>Rows with distinct ids, non-empty and pairwise disjoint ranges.\<close>

definition rows_wf :: "dhcp_row list \<Rightarrow> bool" where
  "rows_wf rs \<longleftrightarrow> distinct (map d_id rs) \<and> (\<forall>r \<in> set rs. d_first r \<le> d_last r) \<and>
     (\<forall>r \<in> set rs. \<forall>x \<in> set rs. x \<noteq> r \<longrightarrow> apart (d_first r) (d_last r) x)"

lemma rows_wf_distinct: "rows_wf rs \<Longrightarrow> distinct rs"
  by (auto simp: rows_wf_def distinct_map)

lemma rows_wf_unique: "rows_wf rs \<Longrightarrow> dhcp_unique rs"
  unfolding dhcp_unique_def distinct_map using rows_wf_distinct [of rs]
  by (auto simp: inj_on_def rows_wf_def apart_def) (metis order.strict_iff_not)+

lemma ranges_remove: "r \<in> set rs \<Longrightarrow> ranges rs = {d_first r..d_last r} \<union> (\<Union>x \<in> set rs - {r}. {d_first x..d_last x})"
  unfolding ranges_def by blast

text \<open>Replacing the row \<open>r\<close> by the range \<open>a..b\<close>, deleting it, and adding a row.\<close>

definition replace_row :: "(dhcp_row \<Rightarrow> bool) \<Rightarrow> int \<Rightarrow> int \<Rightarrow> dhcp_row list \<Rightarrow> dhcp_row list" where
  "replace_row p a b rs = map (\<lambda>r. if p r then r\<lparr>d_first := a, d_last := b\<rparr> else r) rs"

lemma set_replace_row:
  assumes "r \<in> set rs" "\<forall>x \<in> set rs. p x \<longleftrightarrow> x = r"
  shows "set (replace_row p a b rs) = insert (r\<lparr>d_first := a, d_last := b\<rparr>) (set rs - {r})"
  using assms by (auto simp: replace_row_def)

lemma replace_row_wf:
  assumes wf: "rows_wf rs" and r: "r \<in> set rs" and p: "\<forall>x \<in> set rs. p x \<longleftrightarrow> x = r"
    and ab: "a \<le> b" "\<forall>x \<in> set rs - {r}. apart a b x"
  shows "rows_wf (replace_row p a b rs)"
    and "ranges (replace_row p a b rs) = {a..b} \<union> (\<Union>x \<in> set rs - {r}. {d_first x..d_last x})"
proof -
  have "map d_id (replace_row p a b rs) = map d_id rs" by (simp add: replace_row_def)
  then show "rows_wf (replace_row p a b rs)"
    using wf ab unfolding rows_wf_def set_replace_row [OF r p] by (auto simp: apart_def)
  show "ranges (replace_row p a b rs) = {a..b} \<union> (\<Union>x \<in> set rs - {r}. {d_first x..d_last x})"
    unfolding ranges_def set_replace_row [OF r p] by simp
qed

lemma add_row_wf:
  assumes "rows_wf rs" "i \<notin> d_id ` set rs" "a \<le> b" "\<forall>x \<in> set rs. apart a b x"
  shows "rows_wf (rs @ [\<lparr>d_id = i, d_first = a, d_last = b\<rparr>])"
    and "ranges (rs @ [\<lparr>d_id = i, d_first = a, d_last = b\<rparr>]) = {a..b} \<union> ranges rs"
  using assms by (auto simp: rows_wf_def ranges_def apart_def)

lemma filter_wf: "rows_wf rs \<Longrightarrow> rows_wf (filter p rs)"
  by (auto simp: rows_wf_def distinct_map_filter)

lemma notin_ranges_apart: "rows_wf rs \<Longrightarrow> n \<notin> ranges rs \<Longrightarrow> x \<in> set rs \<Longrightarrow> apart n n x"
  by (auto simp: ranges_def rows_wf_def apart_def not_le)

subsection \<open>Allocation takes the lowest free address\<close>

lemma lowest_dhcp_spec:
  assumes "lowest_dhcp d = Inr r"
  shows "r \<in> set (dhcp d)" "x \<in> set (dhcp d) \<Longrightarrow> d_first r \<le> d_first x"
proof -
  obtain rs where s: "sort_key d_first (dhcp d) = r # rs"
    using assms by (auto simp: lowest_dhcp_def split: list.splits)
  have "set (sort_key d_first (dhcp d)) = set (dhcp d)" by simp
  then have m: "set (r # rs) = set (dhcp d)" using s by simp
  then show "r \<in> set (dhcp d)" by auto
  have "sorted (map d_first (r # rs))" using sorted_sort_key [of d_first "dhcp d"] s by simp
  then show "x \<in> set (dhcp d) \<Longrightarrow> d_first r \<le> d_first x" using m by (auto simp: set_eq_iff)
qed

definition pool_step :: "db \<Rightarrow> db \<Rightarrow> bool" where
  "pool_step d d' \<longleftrightarrow> d' = d\<lparr>dhcp := dhcp d'\<rparr>"

lemma row_by_id: "rows_wf rs \<Longrightarrow> r \<in> set rs \<Longrightarrow> \<forall>x \<in> set rs. d_id x = d_id r \<longleftrightarrow> x = r"
  by (auto simp: rows_wf_def distinct_map inj_on_def)

lemma lowest_strict:
  assumes low: "lowest_dhcp d = Inr r" and wf: "rows_wf (dhcp d)" and x: "x \<in> set (dhcp d) - {r}"
  shows "d_first r < d_first x"
proof -
  note lo = lowest_dhcp_spec [OF low]
  have "apart (d_first r) (d_last r) x" "d_first x \<le> d_last x" "d_first r \<le> d_last r"
    using x wf lo(1) by (auto simp: rows_wf_def)
  moreover have "d_first r \<le> d_first x" using x lo(2) by blast
  ultimately show ?thesis unfolding apart_def by linarith
qed

text \<open>Advancing the lowest range, when it has more than one address.\<close>

lemma advance_lowest:
  assumes low: "lowest_dhcp d = Inr r" and wf: "rows_wf (dhcp d)" and lt: "d_first r < d_last r"
  shows "rows_wf (replace_row (\<lambda>x. d_id x = d_id r) (d_first r + 1) (d_last r) (dhcp d))"
    and "ranges (replace_row (\<lambda>x. d_id x = d_id r) (d_first r + 1) (d_last r) (dhcp d)) = ranges (dhcp d) - {d_first r}"
proof -
  note lo = lowest_dhcp_spec [OF low]
  have ap: "\<forall>x \<in> set (dhcp d) - {r}. apart (d_first r + 1) (d_last r) x"
  proof
    fix x
    assume x: "x \<in> set (dhcp d) - {r}"
    then have "apart (d_first r) (d_last r) x" using wf lo(1) by (auto simp: rows_wf_def)
    then show "apart (d_first r + 1) (d_last r) x" unfolding apart_def by linarith
  qed
  have "d_first r + 1 \<le> d_last r" using lt by simp
  note w = replace_row_wf [OF wf lo(1) row_by_id [OF wf lo(1)] this ap]
  show "rows_wf (replace_row (\<lambda>x. d_id x = d_id r) (d_first r + 1) (d_last r) (dhcp d))" by (rule w(1))
  show "ranges (replace_row (\<lambda>x. d_id x = d_id r) (d_first r + 1) (d_last r) (dhcp d)) = ranges (dhcp d) - {d_first r}"
    unfolding w(2) ranges_remove [OF lo(1)] using lowest_strict [OF low wf] lt by fastforce
qed

lemma drop_lowest:
  assumes low: "lowest_dhcp d = Inr r" and wf: "rows_wf (dhcp d)" and eq: "d_first r = d_last r"
  shows "rows_wf (filter (\<lambda>x. \<not> d_id x = d_id r) (dhcp d))"
    and "ranges (filter (\<lambda>x. \<not> d_id x = d_id r) (dhcp d)) = ranges (dhcp d) - {d_first r}"
proof -
  note lo = lowest_dhcp_spec [OF low]
  have f: "filter (\<lambda>x. \<not> d_id x = d_id r) (dhcp d) = filter (\<lambda>x. x \<noteq> r) (dhcp d)"
    using row_by_id [OF wf lo(1)] by (auto intro: filter_cong)
  show "rows_wf (filter (\<lambda>x. \<not> d_id x = d_id r) (dhcp d))" by (rule filter_wf [OF wf])
  show "ranges (filter (\<lambda>x. \<not> d_id x = d_id r) (dhcp d)) = ranges (dhcp d) - {d_first r}"
    unfolding f ranges_remove [OF lo(1)] using eq lowest_strict [OF low wf] by (fastforce simp: ranges_def)
qed

lemma lowest_min:
  assumes "lowest_dhcp d = Inr r" "rows_wf (dhcp d)"
  shows "d_first r \<in> ranges (dhcp d)" "\<forall>m \<in> ranges (dhcp d). d_first r \<le> m"
proof -
  note lo = lowest_dhcp_spec [OF assms(1)]
  show "d_first r \<in> ranges (dhcp d)" using lo(1) assms(2) by (auto simp: ranges_def rows_wf_def)
  show "\<forall>m \<in> ranges (dhcp d). d_first r \<le> m" by (auto simp: ranges_def) (meson lo(2) order_trans)
qed

lemma allocateIP_spec:
  assumes a: "allocateIP env c = (Inr ip, c')" and wf: "rows_wf (dhcp (cn_db c))"
  shows "\<exists>n. ip = intToIP env (word_of_int n) \<and> n \<in> ranges (dhcp (cn_db c)) \<and>
    (\<forall>m \<in> ranges (dhcp (cn_db c)). n \<le> m) \<and> pool_step (cn_db c) (cn_db c') \<and>
    rows_wf (dhcp (cn_db c')) \<and> ranges (dhcp (cn_db c')) = ranges (dhcp (cn_db c)) - {n}"
proof -
  let ?d = "cn_db c" and ?d' = "cn_db c'"
  obtain r where low: "lowest_dhcp ?d = Inr r" and ip: "ip = intToIP env (word_of_int (d_first r))"
    and st: "(if d_first r = d_last r then ?d' = ?d\<lparr>dhcp := filter (\<lambda>x. \<not> d_id x = d_id r) (dhcp ?d)\<rparr>
              else ?d' = ?d\<lparr>dhcp := replace_row (\<lambda>x. d_id x = d_id r) (d_first r + 1) (d_last r) (dhcp ?d)\<rparr>)"
    using a unfolding allocateIP_def Let_def
    by (auto elim!: tx_elims simp: delete_dhcp_def update_dhcp_def replace_row_def Let_def split: if_splits)
  have le: "d_first r \<le> d_last r" using wf lowest_dhcp_spec(1) [OF low] by (auto simp: rows_wf_def)
  have "rows_wf (dhcp ?d') \<and> ranges (dhcp ?d') = ranges (dhcp ?d) - {d_first r}"
    using drop_lowest [OF low wf] advance_lowest [OF low wf] st le by (cases "d_first r = d_last r") auto
  moreover have "pool_step ?d ?d'" using st by (auto simp: pool_step_def split: if_splits)
  ultimately show ?thesis using ip lowest_min [OF low wf] by blast
qed

subsection \<open>Release gives it back\<close>

lemma first_row_Inr: "first_row p rs = Inr r \<Longrightarrow> r \<in> set rs \<and> p r"
  by (auto simp: first_row_def split: list.splits dest: filter_eq_ConsD)

lemma first_row_Inl: "first_row p rs = Inl e \<Longrightarrow> \<forall>x \<in> set rs. \<not> p x"
  by (auto simp: first_row_def filter_empty_conv split: list.splits)

lemma row_by_bounds:
  "rows_wf rs \<Longrightarrow> r \<in> set rs \<Longrightarrow> \<forall>x \<in> set rs. d_first x = d_first r \<and> d_last x = d_last r \<longleftrightarrow> x = r"
  by (auto simp: rows_wf_def apart_def) fastforce

lemma extend_up:
  assumes wf: "rows_wf rs" and r: "r \<in> set rs" and n: "d_last r = n - 1" "n \<notin> ranges rs"
  shows "rows_wf (replace_row (\<lambda>x. d_first x = d_first r \<and> d_last x = d_last r) (d_first r) (d_last r + 1) rs)"
    and "ranges (replace_row (\<lambda>x. d_first x = d_first r \<and> d_last x = d_last r) (d_first r) (d_last r + 1) rs)
       = insert n (ranges rs)"
proof -
  have ap: "\<forall>x \<in> set rs - {r}. apart (d_first r) (d_last r + 1) x"
  proof
    fix x
    assume x: "x \<in> set rs - {r}"
    then have "apart (d_first r) (d_last r) x" "d_first x \<le> d_last x" "d_first r \<le> d_last r"
      using wf r by (auto simp: rows_wf_def)
    moreover have "apart n n x" using notin_ranges_apart [OF wf n(2)] x by blast
    ultimately show "apart (d_first r) (d_last r + 1) x" using n(1) unfolding apart_def by linarith
  qed
  have le: "d_first r \<le> d_last r + 1" using wf r by (fastforce simp: rows_wf_def)
  note w = replace_row_wf [OF wf r row_by_bounds [OF wf r] le ap]
  show "rows_wf (replace_row (\<lambda>x. d_first x = d_first r \<and> d_last x = d_last r) (d_first r) (d_last r + 1) rs)"
    by (rule w(1))
  show "ranges (replace_row (\<lambda>x. d_first x = d_first r \<and> d_last x = d_last r) (d_first r) (d_last r + 1) rs)
       = insert n (ranges rs)"
    unfolding w(2) ranges_remove [OF r] using n(1) le by auto
qed

lemma extend_down:
  assumes wf: "rows_wf rs" and r: "r \<in> set rs" and n: "d_first r = n + 1" "n \<notin> ranges rs"
  shows "rows_wf (replace_row (\<lambda>x. d_first x = d_first r \<and> d_last x = d_last r) (d_first r - 1) (d_last r) rs)"
    and "ranges (replace_row (\<lambda>x. d_first x = d_first r \<and> d_last x = d_last r) (d_first r - 1) (d_last r) rs)
       = insert n (ranges rs)"
proof -
  have ap: "\<forall>x \<in> set rs - {r}. apart (d_first r - 1) (d_last r) x"
  proof
    fix x
    assume x: "x \<in> set rs - {r}"
    then have "apart (d_first r) (d_last r) x" "d_first x \<le> d_last x" "d_first r \<le> d_last r"
      using wf r by (auto simp: rows_wf_def)
    moreover have "apart n n x" using notin_ranges_apart [OF wf n(2)] x by blast
    ultimately show "apart (d_first r - 1) (d_last r) x" using n(1) unfolding apart_def by linarith
  qed
  have le: "d_first r - 1 \<le> d_last r" using wf r by (fastforce simp: rows_wf_def)
  note w = replace_row_wf [OF wf r row_by_bounds [OF wf r] le ap]
  show "rows_wf (replace_row (\<lambda>x. d_first x = d_first r \<and> d_last x = d_last r) (d_first r - 1) (d_last r) rs)"
    by (rule w(1))
  show "ranges (replace_row (\<lambda>x. d_first x = d_first r \<and> d_last x = d_last r) (d_first r - 1) (d_last r) rs)
       = insert n (ranges rs)"
    unfolding w(2) ranges_remove [OF r] using n(1) le by auto
qed

lemma query_result: "query q c = (r, c') \<Longrightarrow> cn_db c' = cn_db c \<and> (r = q (cn_db c) \<or> r = Inl ErrFault)"
  by (auto simp: query_def bind_tx_def engine_def split: list.splits if_splits)

lemma merge_both:
  assumes wf: "rows_wf rs" and r: "r \<in> set rs" "d_last r = n - 1" and s: "s \<in> set rs" "d_first s = n + 1"
    and n: "n \<notin> ranges rs" and i: "i \<notin> d_id ` set (filter (\<lambda>x. x \<noteq> r \<and> x \<noteq> s) rs)"
  shows "rows_wf (filter (\<lambda>x. x \<noteq> r \<and> x \<noteq> s) rs @ [\<lparr>d_id = i, d_first = d_first r, d_last = d_last s\<rparr>])"
    and "ranges (filter (\<lambda>x. x \<noteq> r \<and> x \<noteq> s) rs @ [\<lparr>d_id = i, d_first = d_first r, d_last = d_last s\<rparr>])
       = insert n (ranges rs)"
proof -
  let ?f = "filter (\<lambda>x. x \<noteq> r \<and> x \<noteq> s) rs"
  have le: "d_first r \<le> d_last r" "d_first s \<le> d_last s" using wf r s by (auto simp: rows_wf_def)
  have ap: "\<forall>x \<in> set ?f. apart (d_first r) (d_last s) x"
  proof
    fix x
    assume x: "x \<in> set ?f"
    then have "apart (d_first r) (d_last r) x" "apart (d_first s) (d_last s) x" "d_first x \<le> d_last x"
      using wf r s by (auto simp: rows_wf_def)
    moreover have "apart n n x" using notin_ranges_apart [OF wf n] x by simp
    ultimately show "apart (d_first r) (d_last s) x" using r(2) s(2) unfolding apart_def by linarith
  qed
  have ab: "d_first r \<le> d_last s" using le r(2) s(2) by linarith
  note w = add_row_wf [OF filter_wf [OF wf] i ab ap]
  show "rows_wf (?f @ [\<lparr>d_id = i, d_first = d_first r, d_last = d_last s\<rparr>])" by (rule w(1))
  have "ranges rs = {d_first r..d_last r} \<union> {d_first s..d_last s} \<union> ranges ?f"
    unfolding ranges_def using r(1) s(1) by auto
  moreover have "{d_first r..d_last s} = insert n ({d_first r..d_last r} \<union> {d_first s..d_last s})"
    using le r(2) s(2) by auto
  ultimately show "ranges (?f @ [\<lparr>d_id = i, d_first = d_first r, d_last = d_last s\<rparr>]) = insert n (ranges rs)"
    unfolding w(2) by auto
qed

text \<open>What a release leaves in the table, on each of its four branches.\<close>

lemma releaseIP_cases:
  assumes "releaseIP env n c = (Inr u, c')"
  obtains
    (new) "\<forall>x \<in> set (dhcp (cn_db c)). d_last x \<noteq> n - 1" "\<forall>x \<in> set (dhcp (cn_db c)). d_first x \<noteq> n + 1"
      "cn_db c' = (cn_db c)\<lparr>dhcp := dhcp (cn_db c) @ [\<lparr>d_id = newid env (map d_id (dhcp (cn_db c))), d_first = n, d_last = n\<rparr>]\<rparr>"
  | (up) r where "r \<in> set (dhcp (cn_db c))" "d_last r = n - 1"
      "cn_db c' = (cn_db c)\<lparr>dhcp := replace_row (\<lambda>x. d_first x = d_first r \<and> d_last x = d_last r) (d_first r) (d_last r + 1) (dhcp (cn_db c))\<rparr>"
  | (down) r where "r \<in> set (dhcp (cn_db c))" "d_first r = n + 1"
      "cn_db c' = (cn_db c)\<lparr>dhcp := replace_row (\<lambda>x. d_first x = d_first r \<and> d_last x = d_last r) (d_first r - 1) (d_last r) (dhcp (cn_db c))\<rparr>"
  | (both) r s rs where "r \<in> set (dhcp (cn_db c))" "d_last r = n - 1" "s \<in> set (dhcp (cn_db c))" "d_first s = n + 1"
      "rs = filter (\<lambda>x. \<not> (d_first x = d_first r \<and> d_last x = d_last r \<or> d_first x = d_first s \<and> d_last x = d_last s)) (dhcp (cn_db c))"
      "cn_db c' = (cn_db c)\<lparr>dhcp := rs @ [\<lparr>d_id = newid env (map d_id rs), d_first = d_first r, d_last = d_last s\<rparr>]\<rparr>"
proof -
  let ?rs = "dhcp (cn_db c)"
  obtain r1 c1 r2 c2 where q1: "query (\<lambda>d. first_row (\<lambda>r. d_last r = n - 1) (dhcp d)) c = (r1, c1)"
    and q2: "query (\<lambda>d. first_row (\<lambda>r. d_first r = n + 1) (dhcp d)) c1 = (r2, c2)"
    and fin: "(case (r1, r2) of
       (Inl ErrNoRows, Inl ErrNoRows) \<Rightarrow> exec (insert_dhcp env n n)
     | (Inr d1, Inl ErrNoRows) \<Rightarrow>
         exec (update_dhcp (\<lambda>r. d_first r = d_first d1 \<and> d_last r = d_last d1) (d_first d1) (d_last d1 + 1))
     | (Inl ErrNoRows, Inr d2) \<Rightarrow>
         exec (update_dhcp (\<lambda>r. d_first r = d_first d2 \<and> d_last r = d_last d2) (d_first d2 - 1) (d_last d2))
     | (Inr d1, Inr d2) \<Rightarrow>
         bind_tx (exec (delete_dhcp (\<lambda>r. d_first r = d_first d1 \<and> d_last r = d_last d1 \<or>
                                         d_first r = d_first d2 \<and> d_last r = d_last d2)))
           (\<lambda>_. exec (insert_dhcp env (d_first d1) (d_last d2)))
     | (Inl e, _) \<Rightarrow> throw_tx e
     | (_, Inl e) \<Rightarrow> throw_tx e) c2 = (Inr u, c')"
    using assms unfolding releaseIP_def by (elim bind_InrE try_InrE)
  have db: "cn_db c1 = cn_db c" "cn_db c2 = cn_db c"
    using query_result [OF q1] query_result [OF q2] by auto
  have no1: "\<forall>x \<in> set ?rs. d_last x \<noteq> n - 1" if "r1 = Inl ErrNoRows"
    using query_result [OF q1] that by (auto dest!: sym [of "Inl ErrNoRows"] first_row_Inl)
  have no2: "\<forall>x \<in> set ?rs. d_first x \<noteq> n + 1" if "r2 = Inl ErrNoRows"
    using query_result [OF q2] that db by (auto dest!: sym [of "Inl ErrNoRows"] first_row_Inl)
  have row1: "d1 \<in> set ?rs" "d_last d1 = n - 1" if "r1 = Inr d1" for d1
    using query_result [OF q1] that by (auto dest!: sym [of "Inr d1"] first_row_Inr)
  have row2: "d2 \<in> set ?rs" "d_first d2 = n + 1" if "r2 = Inr d2" for d2
    using query_result [OF q2] that db by (auto dest!: sym [of "Inr d2"] first_row_Inr)
  show thesis
  proof (cases r1; cases r2)
    fix e1 e2
    assume e: "r1 = Inl e1" "r2 = Inl e2"
    then have "e1 = ErrNoRows \<and> e2 = ErrNoRows" using fin by (auto simp: throw_tx_def split: sql_error.splits)
    with e fin no1 no2 show thesis
      by (intro new) (auto simp: db insert_dhcp_def Let_def elim!: exec_InrE split: if_splits)
  next
    fix e1 d2
    assume e: "r1 = Inl e1" "r2 = Inr d2"
    then have "e1 = ErrNoRows" using fin by (auto simp: throw_tx_def split: sql_error.splits)
    with e fin row2 [OF e(2)] show thesis
      by (intro down [of d2]) (auto simp: db update_dhcp_def replace_row_def Let_def elim!: exec_InrE split: if_splits)
  next
    fix d1 e2
    assume e: "r1 = Inr d1" "r2 = Inl e2"
    then have "e2 = ErrNoRows" using fin by (auto simp: throw_tx_def split: sql_error.splits)
    with e fin row1 [OF e(1)] show thesis
      by (intro up [of d1]) (auto simp: db update_dhcp_def replace_row_def Let_def elim!: exec_InrE split: if_splits)
  next
    fix d1 d2
    assume e: "r1 = Inr d1" "r2 = Inr d2"
    with fin row1 [OF e(1)] row2 [OF e(2)] show thesis
      by (intro both [OF _ _ _ _ refl, of d1 d2])
        (auto simp: db delete_dhcp_def insert_dhcp_def Let_def elim!: bind_InrE exec_InrE
          dest!: sym [where t = "cn_db z" for z] split: if_splits)
  qed
qed

lemma releaseIP_spec:
  assumes a: "releaseIP env n c = (Inr u, c')" and wf: "rows_wf (dhcp (cn_db c))"
    and n: "n \<notin> ranges (dhcp (cn_db c))" and fresh: "fresh_ids env"
  shows "pool_step (cn_db c) (cn_db c') \<and> rows_wf (dhcp (cn_db c')) \<and>
    ranges (dhcp (cn_db c')) = insert n (ranges (dhcp (cn_db c)))"
  using a
proof (cases rule: releaseIP_cases)
  case new
  have "\<forall>x \<in> set (dhcp (cn_db c)). apart n n x" using notin_ranges_apart [OF wf n] by blast
  from add_row_wf [OF wf fresh_id [OF fresh, of d_id] order.refl this] new(3)
  show ?thesis by (simp add: pool_step_def)
next
  case (up r)
  from extend_up [OF wf up(1,2) n] up(3) show ?thesis by (simp add: pool_step_def)
next
  case (down r)
  from extend_down [OF wf down(1,2) n] down(3) show ?thesis by (simp add: pool_step_def)
next
  case (both r s rs)
  have rs: "rs = filter (\<lambda>x. x \<noteq> r \<and> x \<noteq> s) (dhcp (cn_db c))"
    unfolding both(5) using row_by_bounds [OF wf both(1)] row_by_bounds [OF wf both(3)] by (intro filter_cong) auto
  from merge_both [OF wf both(1-4) n fresh_id [OF fresh, of d_id]] both(6)
  show ?thesis unfolding rs by (simp add: pool_step_def)
qed

subsection \<open>Free and held addresses\<close>

text \<open>The address a client holds, as a number, and the addresses all clients hold.\<close>

definition held :: "env \<Rightarrow> client_row \<Rightarrow> int option" where
  "held env r = (case c_ip r of None \<Rightarrow> None | Some s \<Rightarrow> parseIP env s)"

definition assigned :: "env \<Rightarrow> db \<Rightarrow> int list" where
  "assigned env d = List.map_filter (held env) (clients d)"

text \<open>
  The pool's contract: free ranges are well formed, every stored address parses,
  no address is held twice or both held and free, and the free and the held
  addresses together are exactly \<open>A\<close>.
\<close>

definition pool_ok :: "env \<Rightarrow> int set \<Rightarrow> db \<Rightarrow> bool" where
  "pool_ok env A d \<longleftrightarrow> A \<subseteq> {0..<2 ^ 32} \<and> rows_wf (dhcp d) \<and> distinct (assigned env d) \<and>
     set (assigned env d) \<inter> ranges (dhcp d) = {} \<and> ranges (dhcp d) \<union> set (assigned env d) = A \<and>
     (\<forall>r \<in> set (clients d). c_ip r \<noteq> None \<longrightarrow> held env r \<noteq> None)"

text \<open>The law of the address conversions: an address printed parses back, the empty string is no address.\<close>

definition ip_law :: "env \<Rightarrow> bool" where
  "ip_law env \<longleftrightarrow> (\<forall>w. parseIP env (intToIP env w) = Some (uint w)) \<and> parseIP env [] = None"

lemma map_filter_append: "List.map_filter f (xs @ ys) = List.map_filter f xs @ List.map_filter f ys"
  by (simp add: List.map_filter_def)

lemma set_map_filter': "set (List.map_filter f xs) = {y. \<exists>x \<in> set xs. f x = Some y}"
  by (force simp: List.map_filter_def)

lemma assigned_append:
  "assigned env (d\<lparr>clients := clients d @ [r], dhcp := rs\<rparr>) = assigned env d @ (case held env r of None \<Rightarrow> [] | Some n \<Rightarrow> [n])"
  by (simp add: assigned_def map_filter_append) (simp add: List.map_filter_def split: option.split)

lemma assigned_cong: "clients d' = clients d \<Longrightarrow> assigned env d' = assigned env d"
  by (simp add: assigned_def)

lemma map_filter_map_same: "(\<And>x. x \<in> set xs \<Longrightarrow> f (g x) = f x) \<Longrightarrow> List.map_filter f (map g xs) = List.map_filter f xs"
  by (induction xs) (auto simp: List.map_filter_def)

lemma pool_ok_cong: "clients d' = clients d \<Longrightarrow> dhcp d' = dhcp d \<Longrightarrow> pool_ok env A d' = pool_ok env A d"
  by (simp add: pool_ok_def assigned_def)

lemma word_uint: "0 \<le> n \<Longrightarrow> n < 2 ^ 32 \<Longrightarrow> uint (word_of_int n :: u32) = n"
  by (simp add: uint_word_of_int)

lemma pool_ok_allocate:
  assumes "pool_ok env A d" "n \<in> ranges (dhcp d)" "rows_wf (dhcp d')"
    "ranges (dhcp d') = ranges (dhcp d) - {n}"
    "assigned env d = xs @ ys" "assigned env d' = xs @ n # ys"
    "\<forall>r \<in> set (clients d'). c_ip r \<noteq> None \<longrightarrow> held env r \<noteq> None"
  shows "pool_ok env A d'"
  using assms by (auto simp: pool_ok_def)

lemma pool_ok_release:
  assumes "pool_ok env A d" "rows_wf (dhcp d')" "ranges (dhcp d') = insert n (ranges (dhcp d))"
    "assigned env d = xs @ n # ys" "assigned env d' = xs @ ys"
    "\<forall>r \<in> set (clients d'). c_ip r \<noteq> None \<longrightarrow> held env r \<noteq> None"
  shows "pool_ok env A d'"
  using assms by (auto simp: pool_ok_def)

lemma pool_ok_range: "pool_ok env A d \<Longrightarrow> n \<in> ranges (dhcp d) \<Longrightarrow> 0 \<le> n \<and> n < 2 ^ 32"
  by (auto simp: pool_ok_def)

text \<open>Allocating an address and inserting a client that holds it.\<close>

lemma allocate_insert:
  assumes a: "allocateIP env c = (Inr ip, c1)" and i: "exec (insert_client env name ip) c1 = (Inr i, c2)"
    and ok: "pool_ok env A (cn_db c)" and law: "ip_law env"
  shows "pool_ok env A (cn_db c2)"
proof -
  have wf: "rows_wf (dhcp (cn_db c))" using ok by (simp add: pool_ok_def)
  obtain n where n: "ip = intToIP env (word_of_int n)" "n \<in> ranges (dhcp (cn_db c))"
    "pool_step (cn_db c) (cn_db c1)" "rows_wf (dhcp (cn_db c1))"
    "ranges (dhcp (cn_db c1)) = ranges (dhcp (cn_db c)) - {n}"
    using allocateIP_spec [OF a wf] by blast
  define r where "r = \<lparr>c_id = i, c_name = name, c_ip = Some ip, c_last_seen = 0\<rparr>"
  have c2: "cn_db c2 = (cn_db c1)\<lparr>clients := clients (cn_db c1) @ [r]\<rparr>"
    using i by (auto simp: insert_client_def Let_def r_def elim!: exec_InrE split: if_splits)
  have c1: "clients (cn_db c1) = clients (cn_db c)" using n(3) by (metis pool_step_def db.select_convs(1) db.update_convs(6) db.surjective)
  have h: "held env r = Some n"
    using law n(1) word_uint pool_ok_range [OF ok n(2)] by (simp add: held_def r_def ip_law_def)
  show ?thesis
  proof (rule pool_ok_allocate [OF ok n(2)])
    show "rows_wf (dhcp (cn_db c2))" "ranges (dhcp (cn_db c2)) = ranges (dhcp (cn_db c)) - {n}"
      using n(4,5) c2 by simp_all
    show "assigned env (cn_db c) = assigned env (cn_db c) @ []" by simp
    show "assigned env (cn_db c2) = assigned env (cn_db c) @ n # []"
      unfolding c2 assigned_def using c1 h by (simp add: map_filter_append)
    show "\<forall>r \<in> set (clients (cn_db c2)). c_ip r \<noteq> None \<longrightarrow> held env r \<noteq> None"
      using ok h c1 unfolding c2 by (auto simp: pool_ok_def)
  qed
qed

text \<open>Releasing the address of a client and deleting the client.\<close>

lemma pool_step_clients: "pool_step d d' \<Longrightarrow> clients d' = clients d"
  by (metis pool_step_def db.select_convs(1) db.update_convs(6) db.surjective)

lemma release_delete:
  assumes r: "r \<in> set (clients (cn_db c))" "c_id r = cid" "held env r = Some n"
    and ids: "distinct (map c_id (clients (cn_db c)))"
    and rel: "releaseIP env n c = (Inr u, c1)" and del: "exec (delete_client cid) c1 = (Inr k, c2)"
    and ok: "pool_ok env A (cn_db c)" and fresh: "fresh_ids env"
  shows "pool_ok env A (cn_db c2)"
proof -
  let ?d = "cn_db c"
  obtain us vs where sp: "clients ?d = us @ r # vs" using split_list [OF r(1)] by blast
  have asg: "assigned env ?d = List.map_filter (held env) us @ n # List.map_filter (held env) vs"
    unfolding assigned_def sp using r(3) by (simp add: map_filter_append)
  then have notin: "n \<notin> ranges (dhcp ?d)" using ok by (auto simp: pool_ok_def)
  have wf: "rows_wf (dhcp ?d)" using ok by (simp add: pool_ok_def)
  note rs = releaseIP_spec [OF rel wf notin fresh]
  have c1: "clients (cn_db c1) = us @ r # vs" using rs pool_step_clients sp by metis
  have f: "filter (\<lambda>x. c_id x \<noteq> cid) (us @ r # vs) = us @ vs"
  proof -
    have "filter (\<lambda>x. c_id x \<noteq> cid) us = us" "filter (\<lambda>x. c_id x \<noteq> cid) vs = vs"
      using ids r(2) unfolding sp by (auto intro!: filter_True) (metis image_eqI)+
    then show ?thesis using r(2) by simp
  qed
  have c2: "clients (cn_db c2) = us @ vs" "dhcp (cn_db c2) = dhcp (cn_db c1)"
    using del c1 f by (auto simp: delete_client_def elim!: exec_InrE dest!: sym [where t = "cn_db z" for z])
  show ?thesis
  proof (rule pool_ok_release [OF ok])
    show "rows_wf (dhcp (cn_db c2))" "ranges (dhcp (cn_db c2)) = insert n (ranges (dhcp ?d))"
      using rs c2 by simp_all
    show "assigned env ?d = List.map_filter (held env) us @ n # List.map_filter (held env) vs" by (rule asg)
    show "assigned env (cn_db c2) = List.map_filter (held env) us @ List.map_filter (held env) vs"
      unfolding assigned_def c2 by (simp add: map_filter_append)
    show "\<forall>r \<in> set (clients (cn_db c2)). c_ip r \<noteq> None \<longrightarrow> held env r \<noteq> None"
      using ok unfolding c2 by (auto simp: pool_ok_def sp)
  qed
qed

subsection \<open>The loops\<close>

lemma exec_keeps: "exec s c = (Inr x, c') \<Longrightarrow> stmt_keeps P s \<Longrightarrow> P (cn_db c) \<Longrightarrow> P (cn_db c')"
  by (auto simp: stmt_keeps_def elim!: exec_InrE)

lemma pool_stmts:
  "stmt_keeps (pool_ok env A) (insert_role e name)" "stmt_keeps (pool_ok env A) (insert_resource e name v)"
  "stmt_keeps (pool_ok env A) (link_client_role strict a b)" "stmt_keeps (pool_ok env A) (unlink_client_role a b)"
  "stmt_keeps (pool_ok env A) (link_role_resource a b)" "stmt_keeps (pool_ok env A) (unlink_role_resource a b)"
  "stmt_keeps (pool_ok env A) (delete_roles_where p)" "stmt_keeps (pool_ok env A) (delete_resource a)"
  "stmt_keeps (pool_ok env A) (rename_roles_where p name)" "stmt_keeps (pool_ok env A) (rename_resource a name)"
  unfolding stmt_keeps_def insert_role_def insert_resource_def link_client_role_def unlink_client_role_def
    link_role_resource_def unlink_role_resource_def delete_roles_where_def delete_resource_def
    rename_roles_where_def rename_resource_def Let_def
  by (auto simp: pool_ok_def assigned_def split: if_splits)

lemma pool_rename_client: "stmt_keeps (pool_ok env A) (rename_client cid name)"
proof -
  have h: "held env (if c_id r = cid then r\<lparr>c_name := name\<rparr> else r) = held env r" for r
    by (simp add: held_def)
  have "assigned env (d\<lparr>clients := map (\<lambda>r. if c_id r = cid then r\<lparr>c_name := name\<rparr> else r) (clients d)\<rparr>) = assigned env d" for d
    unfolding assigned_def by (simp add: map_filter_map_same h)
  then show ?thesis
    by (auto simp: stmt_keeps_def rename_client_def Let_def pool_ok_def held_def split: if_splits)
qed

lemma createLoop_pool:
  "createLoop env ns ids c = (Inr y, c') \<Longrightarrow> ip_law env \<Longrightarrow> pool_ok env A (cn_db c) \<Longrightarrow> pool_ok env A (cn_db c')"
proof (induction ns arbitrary: ids c)
  case (Cons name ns)
  from Cons.prems(1) obtain ip c1 i c2 j c3 k c4 k' c5 l c6 where
    s: "allocateIP env c = (Inr ip, c1)" "exec (insert_client env name ip) c1 = (Inr i, c2)"
      "lastInsertId i c2 = (Inr j, c3)" "exec (insert_role env name) c3 = (Inr k, c4)"
      "lastInsertId k c4 = (Inr k', c5)" "exec (link_client_role True j k') c5 = (Inr l, c6)"
    and rest: "createLoop env ns (ids @ [j]) c6 = (Inr y, c')"
    by (auto elim!: bind_InrE)
  have "pool_ok env A (cn_db c3)"
    using allocate_insert [OF s(1,2) Cons.prems(3,2)] s(3) by (metis lastInsertId_InrE)
  then have "pool_ok env A (cn_db c5)"
    using exec_keeps [OF s(4) pool_stmts(1)] s(5) by (metis lastInsertId_InrE)
  then have "pool_ok env A (cn_db c6)" by (rule exec_keeps [OF s(6) pool_stmts(3)])
  then show ?case using Cons.IH [OF rest Cons.prems(2)] by blast
qed (simp add: return_tx_def)

lemma upsertClientLoop_pool:
  "upsertClientLoop env ns ids c = (Inr y, c') \<Longrightarrow> ip_law env \<Longrightarrow> pool_ok env A (cn_db c) \<Longrightarrow> pool_ok env A (cn_db c')"
proof (induction ns arbitrary: ids c)
  case (Cons name ns)
  from Cons.prems(1) obtain ip c1 i c2 j c3 where
    s: "allocateIP env c = (Inr ip, c1)" "exec (insert_client env name ip) c1 = (Inr i, c2)"
      "lastInsertId i c2 = (Inr j, c3)"
    and rest: "upsertClientLoop env ns (ids @ [j]) c3 = (Inr y, c')"
    by (auto elim!: bind_InrE)
  have "pool_ok env A (cn_db c3)"
    using allocate_insert [OF s(1,2) Cons.prems(3,2)] s(3) by (metis lastInsertId_InrE)
  then show ?case using Cons.IH [OF rest Cons.prems(2)] by blast
qed (simp add: return_tx_def)

lemma scan_client_held:
  "scan_client r = Inr cl \<Longrightarrow> held env r = parseIP env (IP cl) \<and> c_name r = Name cl"
  by (auto simp: scan_client_def held_def split: option.splits)

lemma keepsD: "keeps P m \<Longrightarrow> m c = (r, c') \<Longrightarrow> P (cn_db c) \<Longrightarrow> P (cn_db c')"
  unfolding keeps_def by (metis snd_conv)

lemma deleteClientLoop_pool:
  "deleteClientLoop env cids del c = (Inr y, c') \<Longrightarrow> fresh_ids env \<Longrightarrow> schema_inv (cn_db c) \<Longrightarrow>
   pool_ok env A (cn_db c) \<Longrightarrow> pool_ok env A (cn_db c')"
proof (induction cids arbitrary: del c)
  case (Cons cid cids)
  from Cons.prems(1) obtain r cl c1 n u c2 k c3 l c4 del' where
    q: "first_row (\<lambda>r. c_id r = cid) (clients (cn_db c)) = Inr r" "scan_client r = Inr cl" "cn_db c1 = cn_db c"
      "parseIP env (IP cl) = Some n"
    and s: "releaseIP env n c1 = (Inr u, c2)" "exec (delete_client cid) c2 = (Inr k, c3)"
      "exec (delete_roles_where (\<lambda>r. r_name r = Name cl)) c3 = (Inr l, c4)"
    and rest: "deleteClientLoop env cids del' c4 = (Inr y, c')"
    by (auto elim!: bind_InrE query_InrE split: option.splits sum.splits simp: throw_tx_def)
  have r: "r \<in> set (clients (cn_db c1))" "c_id r = cid" "held env r = Some n"
    using first_row_Inr [OF q(1)] scan_client_held [OF q(2)] q(3,4) by auto
  have sch: "schema_inv (cn_db c1)" "pool_ok env A (cn_db c1)" using Cons.prems q(3) by simp_all
  then have ids: "distinct (map c_id (clients (cn_db c1)))" by (simp add: schema_inv_def)
  have "pool_ok env A (cn_db c3)" by (rule release_delete [OF r ids s(1,2) sch(2) Cons.prems(2)])
  then have ok: "pool_ok env A (cn_db c4)" by (rule exec_keeps [OF s(3) pool_stmts(7)])
  have "schema_inv (cn_db c2)" by (rule keepsD [OF keeps_releaseIP s(1) sch(1)])
  then have "schema_inv (cn_db c3)" by (rule exec_keeps [OF s(2) schema_delete_client])
  then have "schema_inv (cn_db c4)" by (rule exec_keeps [OF s(3) schema_delete_roles])
  then show ?case using Cons.IH [OF rest Cons.prems(2)] ok by blast
qed (simp add: return_tx_def)

subsection \<open>Reassignment on connect\<close>

lemma assignIP_cases:
  assumes "AssignIPToClient env cid c = (Inr ip, c')"
  obtains (kept) r0 where "cn_db c' = cn_db c" "first_row (\<lambda>r. c_id r = cid) (clients (cn_db c)) = Inr r0" "c_ip r0 = Some ip"
  | (taken) r0 r where "first_row (\<lambda>r. c_id r = cid) (clients (cn_db c)) = Inr r0" "c_ip r0 = None \<or> c_ip r0 = Some []"
      "lowest_dhcp (cn_db c) = Inr r" "ip = intToIP env (word_of_int (d_first r))"
      "cn_db c' = (cn_db c)\<lparr>dhcp := replace_row (\<lambda>x. d_id x = d_id r) (d_first r + 1) (d_last r) (dhcp (cn_db c)),
        clients := map (\<lambda>x. if c_id x = cid then x\<lparr>c_ip := Some ip\<rparr> else x) (clients (cn_db c))\<rparr>"
proof -
  let ?d = "cn_db c"
  let ?k = "\<lambda>r0. if c_ip r0 \<noteq> None \<and> c_ip r0 \<noteq> Some [] then return_tx (False, the (c_ip r0))
       else bind_tx (query lowest_dhcp) (\<lambda>r.
         bind_tx (exec (update_dhcp (\<lambda>x. d_id x = d_id r) (d_first r + 1) (d_last r))) (\<lambda>_.
         bind_tx (exec (set_client_ip (Some (intToIP env (word_of_int (d_first r)))) (\<lambda>x. c_id x = cid))) (\<lambda>_.
         return_tx (True, intToIP env (word_of_int (d_first r))))))"
  obtain c1 b c3 where c1: "cn_db c1 = ?d"
    and body: "bind_tx (query (\<lambda>d. first_row (\<lambda>r. c_id r = cid) (clients d))) ?k c1 = (Inr (b, ip), c3)"
    and fin1: "cn_db c' = (if b then cn_db c3 else ?d)"
    using assms unfolding AssignIPToClient_def Let_def by (rule run_tx_flag_InrE)
  from body obtain r0 c2 where q0: "query (\<lambda>d. first_row (\<lambda>r. c_id r = cid) (clients d)) c1 = (Inr r0, c2)"
    and fin2: "?k r0 c2 = (Inr (b, ip), c3)" by (rule bind_InrE)
  have d1: "cn_db c1 = ?d" "cn_db c2 = ?d" and r0: "first_row (\<lambda>r. c_id r = cid) (clients ?d) = Inr r0"
    using c1 q0 by (auto elim!: query_InrE)
  note fin = fin1 fin2
  show thesis
  proof (cases "c_ip r0 \<noteq> None \<and> c_ip r0 \<noteq> Some []")
    case True
    then show thesis using fin r0 kept [of r0] by (auto simp: return_tx_def)
  next
    case False
    from fin(2) False obtain r c4 u c5 v where
      q: "query lowest_dhcp c2 = (Inr r, c4)"
      "exec (update_dhcp (\<lambda>x. d_id x = d_id r) (d_first r + 1) (d_last r)) c4 = (Inr u, c5)"
      "exec (set_client_ip (Some ip) (\<lambda>x. c_id x = cid)) c5 = (Inr v, c3)"
      and ip: "b" "ip = intToIP env (word_of_int (d_first r))"
      by (auto elim!: bind_InrE return_InrE split: if_splits)
    have low: "lowest_dhcp ?d = Inr r" "cn_db c4 = ?d" using q(1) d1 by (auto elim!: query_InrE)
    have "cn_db c5 = ?d\<lparr>dhcp := replace_row (\<lambda>x. d_id x = d_id r) (d_first r + 1) (d_last r) (dhcp ?d)\<rparr>"
      using q(2) low by (auto simp: update_dhcp_def replace_row_def Let_def elim!: exec_InrE split: if_splits)
    moreover have "cn_db c3 = (cn_db c5)\<lparr>clients := map (\<lambda>x. if c_id x = cid then x\<lparr>c_ip := Some ip\<rparr> else x) (clients (cn_db c5))\<rparr>"
      using q(3) by (auto simp: set_client_ip_def elim!: exec_InrE)
    ultimately show thesis using taken [OF r0 _ low(1) ip(2)] False ip(1) fin(1) by auto
  qed
qed

lemma assignIP_pool:
  assumes a: "AssignIPToClient env cid c = (Inr ip, c')" and law: "ip_law env"
    and sch: "schema_inv (cn_db c)" and ok: "pool_ok env A (cn_db c)"
    and room: "\<And>r. lowest_dhcp (cn_db c) = Inr r \<Longrightarrow> d_first r < d_last r"
  shows "pool_ok env A (cn_db c')"
  using a
proof (cases rule: assignIP_cases)
  case (kept r0)
  then show ?thesis using ok by simp
next
  case (taken r0 r)
  let ?d = "cn_db c" and ?f = "\<lambda>x. if c_id x = cid then x\<lparr>c_ip := Some ip\<rparr> else x"
  have wf: "rows_wf (dhcp ?d)" using ok by (simp add: pool_ok_def)
  have r0: "r0 \<in> set (clients ?d)" "c_id r0 = cid" using first_row_Inr [OF taken(1)] by auto
  have h0: "held env r0 = None" using taken(2) law by (auto simp: held_def ip_law_def)
  obtain us vs where sp: "clients ?d = us @ r0 # vs" using split_list [OF r0(1)] by blast
  have "distinct (map c_id (us @ r0 # vs))" using sch sp by (simp add: schema_inv_def)
  then have "cid \<notin> c_id ` set us" "cid \<notin> c_id ` set vs" using r0(2) by auto
  then have m: "map ?f us = us" "map ?f vs = vs" by (auto intro!: map_idI)
  then have cl: "clients (cn_db c') = us @ r0\<lparr>c_ip := Some ip\<rparr> # vs" using taken(5) sp r0(2) by simp
  note lm = lowest_min [OF taken(3) wf] and adv = advance_lowest [OF taken(3) wf room [OF taken(3)]]
  have h: "held env (r0\<lparr>c_ip := Some ip\<rparr>) = Some (d_first r)"
    using law taken(4) word_uint pool_ok_range [OF ok lm(1)] by (simp add: held_def ip_law_def)
  show ?thesis
  proof (rule pool_ok_allocate [OF ok lm(1)])
    show "rows_wf (dhcp (cn_db c'))" "ranges (dhcp (cn_db c')) = ranges (dhcp ?d) - {d_first r}"
      using adv taken(5) by simp_all
    show "assigned env ?d = List.map_filter (held env) us @ List.map_filter (held env) vs"
      unfolding assigned_def sp by (simp add: map_filter_append h0)
    show "assigned env (cn_db c') = List.map_filter (held env) us @ d_first r # List.map_filter (held env) vs"
      unfolding assigned_def cl by (simp add: map_filter_append h)
    show "\<forall>r \<in> set (clients (cn_db c')). c_ip r \<noteq> None \<longrightarrow> held env r \<noteq> None"
      using ok h unfolding cl by (auto simp: pool_ok_def sp)
  qed
qed

subsection \<open>Every writing call, as one relation\<close>

datatype repo_call =
    CallCreateClients "string list"
  | CallUpsertClients "string list"
  | CallAssignIP int
  | CallDeleteClients "int list"
  | CallResetDHCP int int
  | CallUpdateClientName int string
  | CallUpdateRoleName int string
  | CallUpdateResourceName int string
  | CallUpsertRoles "string list"
  | CallUpsertResources "(string \<times> string) list"
  | CallDeleteRoles "int list"
  | CallDeleteResources "int list"
  | CallAssignRoles "int list" "int list"
  | CallUnassignRoles "int list" "int list"
  | CallAssignResources "int list" "int list"
  | CallUnassignResources "int list" "int list"
  | CallAssignRolesByName string "string list"
  | CallUnassignRolesByName string "string list"
  | CallAssignResourcesByName string "string list"
  | CallUnassignResourcesByName string "string list"

definition outcome :: "'a tx \<Rightarrow> conn \<Rightarrow> bool \<times> conn" where
  "outcome m c = (case m c of (r, c') \<Rightarrow> (\<not> isl r, c'))"

fun run_call :: "env \<Rightarrow> repo_call \<Rightarrow> conn \<Rightarrow> bool \<times> conn" where
  "run_call env (CallCreateClients names) = outcome (CreateClientsWithRoles env names)"
| "run_call env (CallUpsertClients names) = outcome (UpsertClients env names)"
| "run_call env (CallAssignIP cid) = outcome (AssignIPToClient env cid)"
| "run_call env (CallDeleteClients cids) = outcome (DeleteClients env cids)"
| "run_call env (CallResetDHCP a b) = outcome (ResetDHCP env a b)"
| "run_call env (CallUpdateClientName cid n) = outcome (UpdateClientName cid n)"
| "run_call env (CallUpdateRoleName rid n) = outcome (UpdateRoleName rid n)"
| "run_call env (CallUpdateResourceName sid n) = outcome (UpdateResourceName sid n)"
| "run_call env (CallUpsertRoles names) = outcome (UpsertRoles env names)"
| "run_call env (CallUpsertResources rs) = outcome (UpsertResources env rs)"
| "run_call env (CallDeleteRoles rids) = outcome (DeleteRoles rids)"
| "run_call env (CallDeleteResources sids) = outcome (DeleteResources sids)"
| "run_call env (CallAssignRoles rids cids) = outcome (AssignRolesToClients rids cids)"
| "run_call env (CallUnassignRoles rids cids) = outcome (UnassignRolesToClients rids cids)"
| "run_call env (CallAssignResources sids rids) = outcome (AssignResourcesToRoles sids rids)"
| "run_call env (CallUnassignResources sids rids) = outcome (UnassignResourcesToRoles sids rids)"
| "run_call env (CallAssignRolesByName cn rns) = outcome (AssignRolesToClientByName cn rns)"
| "run_call env (CallUnassignRolesByName cn rns) = outcome (UnassignRolesToClientByName cn rns)"
| "run_call env (CallAssignResourcesByName rn sns) = outcome (AssignResourcesToRoleByName rn sns)"
| "run_call env (CallUnassignResourcesByName rn sns) = outcome (UnassignResourcesToRoleByName rn sns)"

lemma outcome_failed: "outcome m c = (False, c') \<Longrightarrow> atomic m \<Longrightarrow> cn_db c' = cn_db c"
  by (auto simp: outcome_def atomic_def isl_def split: prod.splits)

lemma outcome_keeps: "outcome m c = (ok, c') \<Longrightarrow> keeps P m \<Longrightarrow> P (cn_db c) \<Longrightarrow> P (cn_db c')"
  by (auto simp: outcome_def split: prod.splits dest: keepsD)

lemma outcome_ok: "outcome m c = (True, c') \<Longrightarrow> \<exists>x. m c = (Inr x, c')"
  by (auto simp: outcome_def split: prod.splits) (metis sum.collapse(2))

lemma call_atomic: "run_call env k c = (False, c') \<Longrightarrow> cn_db c' = cn_db c"
  by (cases k; simp; erule outcome_failed)
    (auto intro: createClients.op_atomic upsertClients.op_atomic assignIP.op_atomic deleteClients.op_atomic
      resetDHCP.op_atomic updateClientName.op_atomic updateRoleName.op_atomic updateResourceName.op_atomic
      upsertRoles.op_atomic upsertResources.op_atomic deleteRoles.op_atomic deleteResources.op_atomic
      assignRoles.op_atomic unassignRoles.op_atomic assignResources.op_atomic unassignResources.op_atomic
      assignRolesByName.op_atomic unassignRolesByName.op_atomic assignResourcesByName.op_atomic
      unassignResourcesByName.op_atomic)

lemma call_schema:
  "run_call env k c = (ok, c') \<Longrightarrow> fresh_ids env \<Longrightarrow> schema_inv (cn_db c) \<Longrightarrow> schema_inv (cn_db c')"
  by (cases k; simp; erule outcome_keeps)
    (auto intro: createClients.op_schema upsertClients.op_schema assignIP.op_schema deleteClients.op_schema
      resetDHCP.op_schema updateClientName.op_schema updateRoleName.op_schema updateResourceName.op_schema
      upsertRoles.op_schema upsertResources.op_schema deleteRoles.op_schema deleteResources.op_schema
      assignRoles.op_schema unassignRoles.op_schema assignResources.op_schema unassignResources.op_schema
      assignRolesByName.op_schema unassignRolesByName.op_schema assignResourcesByName.op_schema
      unassignResourcesByName.op_schema)

text \<open>The calls that touch neither the pool nor an address keep its contract.\<close>

lemma call_pool_plain:
  assumes "run_call env k c = (True, c')" "pool_ok env A (cn_db c)"
    "case k of CallCreateClients _ \<Rightarrow> False | CallUpsertClients _ \<Rightarrow> False | CallAssignIP _ \<Rightarrow> False
       | CallDeleteClients _ \<Rightarrow> False | CallResetDHCP _ _ \<Rightarrow> False | _ \<Rightarrow> True"
  shows "pool_ok env A (cn_db c')"
proof -
  have ir: "keeps (pool_ok env A) (insertRoles env ns ids)" for ns ids
    by (induction ns arbitrary: ids) (auto intro!: keeps_intros pool_stmts)
  have irs: "keeps (pool_ok env A) (insertResources env rs ids)" for rs ids
    by (induction rs arbitrary: ids) (auto intro!: keeps_intros pool_stmts)
  note defs = UpdateClientName_def UpdateRoleName_def UpdateResourceName_def UpsertRoles_def UpsertResources_def
    DeleteRoles_def DeleteResources_def AssignRolesToClients_def UnassignRolesToClients_def
    AssignResourcesToRoles_def UnassignResourcesToRoles_def AssignRolesToClientByName_def
    UnassignRolesToClientByName_def AssignResourcesToRoleByName_def UnassignResourcesToRoleByName_def
  show ?thesis using assms(1,3)
    by (cases k; simp; elim outcome_keeps [where P = "pool_ok env A", OF _ _ assms(2)]; unfold defs;
        intro keeps_intros pool_stmts pool_rename_client ir irs)
qed

lemma resetDHCP_pool:
  assumes "ResetDHCP env a b c = (Inr x, c')" "0 \<le> a" "a \<le> b" "b < 2 ^ 32"
  shows "pool_ok env {a..b} (cn_db c')"
proof -
  from assms(1) obtain c1 c2 u c3 v c4 w c5 where
    s: "exec (delete_dhcp (\<lambda>_. True)) c1 = (Inr u, c3)" "exec (insert_dhcp env a b) c3 = (Inr v, c4)"
      "exec (set_client_ip None (\<lambda>_. True)) c4 = (Inr w, c5)" "cn_db c' = cn_db c5"
    unfolding ResetDHCP_def by (auto elim!: run_tx_InrE bind_InrE return_InrE)
  have "dhcp (cn_db c3) = []" using s(1) by (auto simp: delete_dhcp_def elim!: exec_InrE dest!: sym [where t = "cn_db z" for z])
  then have "\<exists>i. dhcp (cn_db c4) = [\<lparr>d_id = i, d_first = a, d_last = b\<rparr>]"
    using s(2) by (auto simp: insert_dhcp_def Let_def elim!: exec_InrE dest!: sym [where t = "cn_db z" for z] split: if_splits)
  moreover have "cn_db c5 = (cn_db c4)\<lparr>clients := map (\<lambda>r. r\<lparr>c_ip := None\<rparr>) (clients (cn_db c4))\<rparr>"
    using s(3) by (auto simp: set_client_ip_def elim!: exec_InrE)
  ultimately obtain i where d: "dhcp (cn_db c') = [\<lparr>d_id = i, d_first = a, d_last = b\<rparr>]"
    and n: "\<forall>r \<in> set (clients (cn_db c')). c_ip r = None"
    using s(4) by auto
  have "assigned env (cn_db c') = []" unfolding assigned_def List.map_filter_def using n
    by (auto simp: held_def filter_empty_conv)
  then show ?thesis using d n assms(2-4) by (auto simp: pool_ok_def rows_wf_def ranges_def)
qed

text \<open>
  The calls under which the pool's contract is kept: a reset configures the same
  range, and \<^verbatim>\<open>AssignIPToClient\<close> is not called while the lowest free range is a
  single address.
\<close>

definition pool_call :: "int \<Rightarrow> int \<Rightarrow> repo_call \<Rightarrow> db \<Rightarrow> bool" where
  "pool_call a b k d =
     (case k of
        CallResetDHCP f l \<Rightarrow> f = a \<and> l = b
      | CallAssignIP _ \<Rightarrow> (case lowest_dhcp d of Inl _ \<Rightarrow> True | Inr r \<Rightarrow> d_first r < d_last r)
      | _ \<Rightarrow> True)"

inductive pool_run :: "env \<Rightarrow> int \<Rightarrow> int \<Rightarrow> db \<Rightarrow> db \<Rightarrow> bool" for env a b where
  call: "run_call env k c = (ok, c') \<Longrightarrow> pool_call a b k (cn_db c) \<Longrightarrow> pool_run env a b (cn_db c) (cn_db c')"

definition pool_env :: "env \<Rightarrow> int \<Rightarrow> int \<Rightarrow> bool" where
  "pool_env env a b \<longleftrightarrow> fresh_ids env \<and> ip_law env \<and> 0 \<le> a \<and> a \<le> b \<and> b < 2 ^ 32"

text \<open>The tables as the first migration leaves them: no rows but the pool.\<close>

definition empty_db :: "int \<Rightarrow> int \<Rightarrow> db" where
  "empty_db a b = \<lparr>clients = [], roles = [], resources = [], clients_roles = [], roles_resources = [],
     dhcp = [\<lparr>d_id = 1, d_first = a, d_last = b\<rparr>]\<rparr>"

definition pool_init :: "env \<Rightarrow> int \<Rightarrow> int \<Rightarrow> db \<Rightarrow> bool" where
  "pool_init env a b d \<longleftrightarrow> pool_env env a b \<and> d = empty_db a b"

definition pool_inv :: "env \<Rightarrow> int \<Rightarrow> int \<Rightarrow> db \<Rightarrow> bool" where
  "pool_inv env a b d \<longleftrightarrow> pool_env env a b \<and> schema_inv d \<and> pool_ok env {a..b} d"

lemma pool_call_ok:
  assumes r: "run_call env k c = (True, c')" and k: "pool_call a b k (cn_db c)" and inv: "pool_inv env a b (cn_db c)"
  shows "pool_ok env {a..b} (cn_db c')"
proof -
  have e: "fresh_ids env" "ip_law env" "0 \<le> a" "a \<le> b" "b < 2 ^ 32" "schema_inv (cn_db c)" "pool_ok env {a..b} (cn_db c)"
    using inv by (auto simp: pool_inv_def pool_env_def)
  have prep: "cn_db c1 = cn_db c" if "prepare c1' = (Inr u, c1)" "cn_db c1' = cn_db c" for c1 c1' u
    using that engine_result by (metis prepare_def)
  show ?thesis
  proof (cases k)
    case (CallCreateClients ns)
    with r obtain y where "CreateClientsWithRoles env ns c = (Inr y, c')" by (auto dest: outcome_ok)
    then show ?thesis unfolding CreateClientsWithRoles_def
      by (elim run_tx_InrE bind_InrE) (metis createLoop_pool e(2,7) prep)
  next
    case (CallUpsertClients ns)
    with r obtain y where "UpsertClients env ns c = (Inr y, c')" by (auto dest: outcome_ok)
    then show ?thesis unfolding UpsertClients_def
      by (elim run_tx_InrE bind_InrE) (metis upsertClientLoop_pool e(2,7) prep)
  next
    case (CallDeleteClients ns)
    with r obtain y where "DeleteClients env ns c = (Inr y, c')" by (auto dest: outcome_ok)
    then show ?thesis unfolding DeleteClients_def
      by (elim run_tx_InrE bind_InrE) (metis deleteClientLoop_pool e(1,6,7) prep)
  next
    case (CallAssignIP cid)
    with r obtain y where "AssignIPToClient env cid c = (Inr y, c')" by (auto dest: outcome_ok)
    then show ?thesis using k CallAssignIP
      by (auto intro!: assignIP_pool [OF _ e(2,6,7)] simp: pool_call_def)
  next
    case (CallResetDHCP f l)
    with r obtain y where "ResetDHCP env f l c = (Inr y, c')" by (auto dest: outcome_ok)
    then show ?thesis using resetDHCP_pool e k CallResetDHCP by (auto simp: pool_call_def)
  qed (use call_pool_plain [OF r e(7)] in simp_all)
qed

lemma pool_run_inv: "pool_run env a b d d' \<Longrightarrow> pool_inv env a b d \<Longrightarrow> pool_inv env a b d'"
proof (induction rule: pool_run.induct)
  case (call k c ok c')
  then have "schema_inv (cn_db c')" using call_schema by (auto simp: pool_inv_def pool_env_def)
  moreover have "pool_ok env {a..b} (cn_db c')"
    using call pool_call_ok call_atomic by (cases ok) (auto simp: pool_inv_def)
  ultimately show ?case using call.prems by (simp add: pool_inv_def)
qed

lemma empty_db_inv: "pool_env env a b \<Longrightarrow> pool_inv env a b (empty_db a b)"
  by (auto simp: pool_inv_def pool_env_def empty_db_def schema_inv_def dhcp_unique_def pool_ok_def rows_wf_def
      ranges_def assigned_def List.map_filter_def)

interpretation poolSys: invariant_system "pool_init env a b" "pool_run env a b" "pool_inv env a b" for env a b
  by unfold_locales (auto simp: pool_init_def intro: empty_db_inv pool_run_inv)

subsection \<open>No address is shared, none is lost\<close>

text \<open>An environment the laws hold in: dotted-decimal text, the next free row id.\<close>

definition goEnv :: env where
  "goEnv = \<lparr>newid = (\<lambda>ids. foldr max ids 0 + 1),
     intToIP = (\<lambda>w. print4 (bytes_of 4 (unat w))),
     parseIP = (\<lambda>s. map_option snd (ParseIP (\<lambda>s. map_option (\<lambda>b. (b, 4)) (parseIPv4Fields s 0 0 [])) s))\<rparr>"

lemma goEnv_fresh: "fresh_ids goEnv"
proof -
  have "x \<in> set ids \<Longrightarrow> x \<le> foldr max ids 0" for x :: int and ids
    by (induction ids) auto
  then show ?thesis unfolding fresh_ids_def goEnv_def by (simp add: zless_add1_eq) (metis add1_zle_eq order.irrefl)
qed

lemma goEnv_parse [simp]: "parseIP goEnv (intToIP goEnv w) = Some (uint w)"
proof -
  have "unat w < 256 ^ 4" using unat_u32_less [of w] by simp
  then show ?thesis by (simp add: goEnv_def ParseIP_def parse_print4 num_of_bytes_of)
qed

lemma goEnv_pool: "0 \<le> a \<Longrightarrow> a \<le> b \<Longrightarrow> b < 2 ^ 32 \<Longrightarrow> pool_env goEnv a b"
  using goEnv_fresh by (simp add: pool_env_def ip_law_def) (simp add: goEnv_def ParseIP_def)


lemmas tx_eval = run_tx_def run_tx_flag_def bind_tx_def return_tx_def throw_tx_def engine_def query_def exec_def
  prepare_def lastInsertId_def try_tx_def first_row_def outcome_def

lemmas stmt_eval = insert_client_def insert_role_def link_client_role_def delete_client_def delete_roles_where_def
  insert_dhcp_def update_dhcp_def delete_dhcp_def lowest_dhcp_def dhcp_unique_def set_client_ip_def scan_client_def

definition ex_conn :: "db \<Rightarrow> conn" where
  "ex_conn d = \<lparr>cn_db = d, cn_faults = []\<rparr>"

lemma ex_conn_simps [simp]: "cn_db (ex_conn d) = d" "cn_faults (ex_conn d) = []" "(ex_conn d)\<lparr>cn_db := d'\<rparr> = ex_conn d'"
  by (simp_all add: ex_conn_def)

lemma goEnv_newid: "newid goEnv ids = foldr max ids 0 + 1"
  by (simp add: goEnv_def)

definition ex_created :: db where
  "ex_created = \<lparr>clients = [\<lparr>c_id = 1, c_name = ''ann'', c_ip = Some (intToIP goEnv 10), c_last_seen = 0\<rparr>],
     roles = [\<lparr>r_id = 1, r_name = ''ann''\<rparr>], resources = [], clients_roles = [(1, 1)], roles_resources = [],
     dhcp = [\<lparr>d_id = 1, d_first = 11, d_last = 20\<rparr>]\<rparr>"

lemma ex_create: "run_call goEnv (CallCreateClients [''ann'']) (ex_conn (empty_db 10 20)) = (True, ex_conn ex_created)"
  by (simp add: CreateClientsWithRoles_def allocateIP_def tx_eval stmt_eval empty_db_def ex_created_def goEnv_newid)


subsection \<open>Reassignment on connect can duplicate an address\<close>

fun run_calls :: "env \<Rightarrow> repo_call list \<Rightarrow> conn \<Rightarrow> conn option" where
  "run_calls env [] c = Some c"
| "run_calls env (k # ks) c = (case run_call env k c of (ok, c') \<Rightarrow> if ok then run_calls env ks c' else None)"

lemma run_calls_append:
  "run_calls env (ks @ ls) c = (case run_calls env ks c of None \<Rightarrow> None | Some c' \<Rightarrow> run_calls env ls c')"
  by (induction ks arbitrary: c) (auto split: prod.split)

lemma run_calls_one: "run_call env k c = (True, c') \<Longrightarrow> run_calls env [k] c = Some c'"
  by (simp del: run_call.simps)

lemma run_calls_two: "run_call env k c = (True, c') \<Longrightarrow> run_call env k' c' = (True, c'') \<Longrightarrow> run_calls env [k, k'] c = Some c''"
  by (simp del: run_call.simps)

definition ex_row :: "int \<Rightarrow> string \<Rightarrow> u32 option \<Rightarrow> client_row" where
  "ex_row i n w = \<lparr>c_id = i, c_name = n, c_ip = map_option (intToIP goEnv) w, c_last_seen = 0\<rparr>"

definition ex_range :: "int \<Rightarrow> int \<Rightarrow> int \<Rightarrow> dhcp_row" where
  "ex_range i a b = \<lparr>d_id = i, d_first = a, d_last = b\<rparr>"

definition ex_db :: "client_row list \<Rightarrow> dhcp_row list \<Rightarrow> db" where
  "ex_db cs ds = \<lparr>clients = cs, roles = [], resources = [], clients_roles = [], roles_resources = [], dhcp = ds\<rparr>"

lemmas call_eval = UpsertClients_def AssignIPToClient_def DeleteClients_def ResetDHCP_def allocateIP_def releaseIP_def
  tx_eval stmt_eval ex_row_def ex_range_def ex_db_def goEnv_newid Let_def

lemma ex_upsert: "run_call goEnv (CallUpsertClients [''a'', ''b'', ''c'', ''d'', ''e'']) (ex_conn (empty_db 10 20)) =
   (True, ex_conn (ex_db [ex_row 1 ''a'' (Some 10), ex_row 2 ''b'' (Some 11), ex_row 3 ''c'' (Some 12), ex_row 4 ''d'' (Some 13),
      ex_row 5 ''e'' (Some 14)] [ex_range 1 15 20]))"
  by (simp add: call_eval empty_db_def)

lemma ex_reset: "run_call goEnv (CallResetDHCP 10 20) (ex_conn (ex_db [ex_row 1 ''a'' (Some 10), ex_row 2 ''b'' (Some 11),
      ex_row 3 ''c'' (Some 12), ex_row 4 ''d'' (Some 13), ex_row 5 ''e'' (Some 14)] [ex_range 1 15 20])) =
   (True, ex_conn (ex_db [ex_row 1 ''a'' None, ex_row 2 ''b'' None, ex_row 3 ''c'' None, ex_row 4 ''d'' None, ex_row 5 ''e'' None] [ex_range 1 10 20]))"
  by (simp add: call_eval)

lemma ex_assign: "run_calls goEnv [CallAssignIP 1, CallAssignIP 2, CallAssignIP 3]
    (ex_conn (ex_db [ex_row 1 ''a'' None, ex_row 2 ''b'' None, ex_row 3 ''c'' None, ex_row 4 ''d'' None, ex_row 5 ''e'' None] [ex_range 1 10 20])) =
   Some (ex_conn (ex_db [ex_row 1 ''a'' (Some 10), ex_row 2 ''b'' (Some 11), ex_row 3 ''c'' (Some 12), ex_row 4 ''d'' None, ex_row 5 ''e'' None] [ex_range 1 13 20]))"
  by (simp add: call_eval)

lemma ex_delete: "run_call goEnv (CallDeleteClients [1])
    (ex_conn (ex_db [ex_row 1 ''a'' (Some 10), ex_row 2 ''b'' (Some 11), ex_row 3 ''c'' (Some 12), ex_row 4 ''d'' None, ex_row 5 ''e'' None] [ex_range 1 13 20])) =
   (True, ex_conn (ex_db [ex_row 2 ''b'' (Some 11), ex_row 3 ''c'' (Some 12), ex_row 4 ''d'' None, ex_row 5 ''e'' None] [ex_range 1 13 20, ex_range 2 10 10]))"
  by (simp add: call_eval)

lemma ex_reassign: "run_calls goEnv [CallAssignIP 4, CallAssignIP 5]
    (ex_conn (ex_db [ex_row 2 ''b'' (Some 11), ex_row 3 ''c'' (Some 12), ex_row 4 ''d'' None, ex_row 5 ''e'' None] [ex_range 1 13 20, ex_range 2 10 10])) =
   Some (ex_conn (ex_db [ex_row 2 ''b'' (Some 11), ex_row 3 ''c'' (Some 12), ex_row 4 ''d'' (Some 10), ex_row 5 ''e'' (Some 11)] [ex_range 1 13 20, ex_range 2 12 10]))"
  by (simp add: call_eval)

text \<open>
  C40: \<^verbatim>\<open>AssignIPToClient\<close> can give one address to two clients. It advances the lowest
  range without deleting it when it was its last address, so a range of the single
  address 10 becomes the inverted row (11, 10), which is then the lowest one. In
  the run below five clients exist, the pool is reset as on every start, three
  connect, the first is deleted (which frees 10 as a range of its own) and the last
  two connect: every call succeeds, and clients 2 and 5 both hold 11.
\<close>

theorem assign_ip_duplicates:
  "\<exists>c. run_calls goEnv [CallUpsertClients [''a'', ''b'', ''c'', ''d'', ''e''], CallResetDHCP 10 20,
          CallAssignIP 1, CallAssignIP 2, CallAssignIP 3, CallDeleteClients [1], CallAssignIP 4, CallAssignIP 5]
          (ex_conn (empty_db 10 20)) = Some c \<and>
      [(c_id r, held goEnv r). r \<leftarrow> clients (cn_db c)] = [(2, Some 11), (3, Some 12), (4, Some 10), (5, Some 11)]"
proof -
  have "run_calls goEnv ([CallUpsertClients [''a'', ''b'', ''c'', ''d'', ''e''], CallResetDHCP 10 20] @
      [CallAssignIP 1, CallAssignIP 2, CallAssignIP 3] @ [CallDeleteClients [1]] @ [CallAssignIP 4, CallAssignIP 5])
      (ex_conn (empty_db 10 20)) =
    Some (ex_conn (ex_db [ex_row 2 ''b'' (Some 11), ex_row 3 ''c'' (Some 12), ex_row 4 ''d'' (Some 10), ex_row 5 ''e'' (Some 11)] [ex_range 1 13 20, ex_range 2 12 10]))"
    by (simp only: run_calls_append run_calls_one [OF ex_delete] run_calls_two [OF ex_upsert ex_reset] ex_assign ex_reassign option.case)
  then show ?thesis by (auto simp: ex_db_def ex_row_def held_def)
qed

subsection \<open>Creating and deleting a client\<close>

lemma lowest_exists: "dhcp d \<noteq> [] \<Longrightarrow> \<exists>r. lowest_dhcp d = Inr r"
proof -
  assume "dhcp d \<noteq> []"
  moreover have "set (sort_key d_first (dhcp d)) = set (dhcp d)" by simp
  ultimately have "sort_key d_first (dhcp d) \<noteq> []" by (metis set_empty)
  then show ?thesis by (cases "sort_key d_first (dhcp d)") (simp_all add: lowest_dhcp_def)
qed

lemma engine_ok: "cn_faults c = [] \<Longrightarrow> engine c = (Inr (), c)"
  by (simp add: engine_def)

text \<open>The table after taking the lowest address.\<close>

definition taken :: "dhcp_row \<Rightarrow> dhcp_row list \<Rightarrow> dhcp_row list" where
  "taken r rs = (if d_first r = d_last r then filter (\<lambda>x. \<not> d_id x = d_id r) rs
                 else replace_row (\<lambda>x. d_id x = d_id r) (d_first r + 1) (d_last r) rs)"

lemma taken_spec:
  assumes low: "lowest_dhcp d = Inr r" and wf: "rows_wf (dhcp d)"
  shows "rows_wf (taken r (dhcp d))" "ranges (taken r (dhcp d)) = ranges (dhcp d) - {d_first r}"
proof -
  have le: "d_first r \<le> d_last r" using wf lowest_dhcp_spec(1) [OF low] by (auto simp: rows_wf_def)
  show "rows_wf (taken r (dhcp d))" "ranges (taken r (dhcp d)) = ranges (dhcp d) - {d_first r}"
    using drop_lowest [OF low wf] advance_lowest [OF low wf] le by (auto simp: taken_def)
qed

lemma allocateIP_ok:
  assumes "cn_faults c = []" and low: "lowest_dhcp (cn_db c) = Inr r" and wf: "rows_wf (dhcp (cn_db c))"
  shows "allocateIP env c = (Inr (intToIP env (word_of_int (d_first r))), c\<lparr>cn_db := (cn_db c)\<lparr>dhcp := taken r (dhcp (cn_db c))\<rparr>\<rparr>)"
proof (cases "d_first r = d_last r")
  case True
  then show ?thesis using assms(1) low
    by (simp add: allocateIP_def bind_tx_def query_def exec_def engine_ok delete_dhcp_def return_tx_def taken_def)
next
  case False
  have "dhcp_unique (replace_row (\<lambda>x. d_id x = d_id r) (d_first r + 1) (d_last r) (dhcp (cn_db c)))"
    using taken_spec(1) [OF low wf] False rows_wf_unique by (simp add: taken_def)
  then show ?thesis using assms(1) low False
    by (simp add: allocateIP_def bind_tx_def query_def exec_def engine_ok update_dhcp_def return_tx_def taken_def Let_def
        flip: replace_row_def)
qed

lemma first_row_cases:
  obtains (row) r where "first_row p rs = Inr r" "r \<in> set rs" "p r"
  | (none) "first_row p rs = Inl ErrNoRows"
proof (cases "filter p rs")
  case Nil
  then show thesis using none by (simp add: first_row_def)
next
  case (Cons r xs)
  then have f: "first_row p rs = Inr r" by (simp add: first_row_def)
  from first_row_Inr [OF f] show thesis using row [OF f] by blast
qed

lemma releaseIP_ok:
  assumes f: "cn_faults c = []" and wf: "rows_wf (dhcp (cn_db c))" and n: "n \<notin> ranges (dhcp (cn_db c))" and fresh: "fresh_ids env"
  shows "\<exists>rs. releaseIP env n c = (Inr (), c\<lparr>cn_db := (cn_db c)\<lparr>dhcp := rs\<rparr>\<rparr>)"
proof -
  let ?rs = "dhcp (cn_db c)"
  note ev = releaseIP_def bind_tx_def try_tx_def query_def exec_def engine_ok Let_def
  show ?thesis
  proof (cases rule: first_row_cases [of "\<lambda>r. d_last r = n - 1" ?rs]; cases rule: first_row_cases [of "\<lambda>r. d_first r = n + 1" ?rs])
    fix r s
    assume r: "first_row (\<lambda>r. d_last r = n - 1) ?rs = Inr r" "r \<in> set ?rs" "d_last r = n - 1"
      and s: "first_row (\<lambda>r. d_first r = n + 1) ?rs = Inr s" "s \<in> set ?rs" "d_first s = n + 1"
    let ?fs = "filter (\<lambda>x. \<not> (d_first x = d_first r \<and> d_last x = d_last r \<or> d_first x = d_first s \<and> d_last x = d_last s)) ?rs"
    have fs: "?fs = filter (\<lambda>x. x \<noteq> r \<and> x \<noteq> s) ?rs"
      using row_by_bounds [OF wf r(2)] row_by_bounds [OF wf s(2)] by (intro filter_cong) auto
    have "dhcp_unique (?fs @ [\<lparr>d_id = newid env (map d_id ?fs), d_first = d_first r, d_last = d_last s\<rparr>])"
      unfolding fs by (rule rows_wf_unique, rule merge_both(1) [OF wf r(2,3) s(2,3) n fresh_id [OF fresh]])
    then show ?thesis using f r(1) s(1) by (auto simp: ev delete_dhcp_def insert_dhcp_def simp del: de_Morgan_disj de_Morgan_conj)
  next
    fix r
    assume r: "first_row (\<lambda>r. d_last r = n - 1) ?rs = Inr r" "r \<in> set ?rs" "d_last r = n - 1"
      and s: "first_row (\<lambda>r. d_first r = n + 1) ?rs = Inl ErrNoRows"
    have "dhcp_unique (replace_row (\<lambda>x. d_first x = d_first r \<and> d_last x = d_last r) (d_first r) (d_last r + 1) ?rs)"
      by (rule rows_wf_unique, rule extend_up(1) [OF wf r(2,3) n])
    then show ?thesis using f r(1) s by (auto simp: ev update_dhcp_def simp flip: replace_row_def)
  next
    fix s
    assume r: "first_row (\<lambda>r. d_last r = n - 1) ?rs = Inl ErrNoRows"
      and s: "first_row (\<lambda>r. d_first r = n + 1) ?rs = Inr s" "s \<in> set ?rs" "d_first s = n + 1"
    have "dhcp_unique (replace_row (\<lambda>x. d_first x = d_first s \<and> d_last x = d_last s) (d_first s - 1) (d_last s) ?rs)"
      by (rule rows_wf_unique, rule extend_down(1) [OF wf s(2,3) n])
    then show ?thesis using f r s(1) by (auto simp: ev update_dhcp_def simp flip: replace_row_def)
  next
    assume r: "first_row (\<lambda>r. d_last r = n - 1) ?rs = Inl ErrNoRows"
      and s: "first_row (\<lambda>r. d_first r = n + 1) ?rs = Inl ErrNoRows"
    have "dhcp_unique (?rs @ [\<lparr>d_id = newid env (map d_id ?rs), d_first = n, d_last = n\<rparr>])"
      by (rule rows_wf_unique, rule add_row_wf(1) [OF wf fresh_id [OF fresh] order.refl]) (use notin_ranges_apart [OF wf n] in blast)
    then show ?thesis using f r s by (auto simp: ev insert_dhcp_def)
  qed
qed

text \<open>The tables after \<^verbatim>\<open>CreateClientsWithRoles([name])\<close>.\<close>

definition created :: "env \<Rightarrow> string \<Rightarrow> dhcp_row \<Rightarrow> db \<Rightarrow> db" where
  "created env name r d =
     (let i = newid env (map c_id (clients d)); j = newid env (map r_id (roles d))
      in d\<lparr>clients := clients d @ [\<lparr>c_id = i, c_name = name, c_ip = Some (intToIP env (word_of_int (d_first r))), c_last_seen = 0\<rparr>],
          roles := roles d @ [\<lparr>r_id = j, r_name = name\<rparr>],
          clients_roles := clients_roles d @ [(i, j)], dhcp := taken r (dhcp d)\<rparr>)"

lemma create_ok:
  assumes f: "cn_faults c = []" and fresh: "fresh_ids env" and sch: "schema_inv (cn_db c)"
    and wf: "rows_wf (dhcp (cn_db c))" and low: "lowest_dhcp (cn_db c) = Inr r"
    and name: "name \<notin> c_name ` set (clients (cn_db c))" "name \<notin> r_name ` set (roles (cn_db c))"
  shows "CreateClientsWithRoles env [name] c =
     (Inr [newid env (map c_id (clients (cn_db c)))], c\<lparr>cn_db := created env name r (cn_db c)\<rparr>)"
proof -
  have new: "(newid env (map c_id (clients (cn_db c))), x) \<notin> set (clients_roles (cn_db c))" for x
    using sch fresh_id [OF fresh, of c_id "clients (cn_db c)"] by (auto simp: schema_inv_def)
  show ?thesis using f name new
    by (simp add: CreateClientsWithRoles_def run_tx_def run_tx_flag_def bind_tx_def prepare_def engine_ok exec_def
        allocateIP_ok [OF f low wf] insert_client_def insert_role_def link_client_role_def lastInsertId_def return_tx_def
        created_def Let_def)
qed

lemma filter_old: "(\<And>x. x \<in> set xs \<Longrightarrow> p x) \<Longrightarrow> filter p xs = xs"
  by (rule filter_True) blast

lemma delete_created:
  assumes f: "cn_faults c = []" and fresh: "fresh_ids env" and sch: "schema_inv d"
    and name: "name \<notin> c_name ` set (clients d)" "name \<notin> r_name ` set (roles d)"
    and rel: "releaseIP env n (c\<lparr>cn_db := created env name r d\<rparr>) = (Inr (), c\<lparr>cn_db := (created env name r d)\<lparr>dhcp := rs\<rparr>\<rparr>)"
    and p: "parseIP env (intToIP env (word_of_int (d_first r))) = Some n"
  shows "DeleteClients env [newid env (map c_id (clients d))] (c\<lparr>cn_db := created env name r d\<rparr>) =
     (Inr [newid env (map c_id (clients d))], c\<lparr>cn_db := d\<lparr>dhcp := rs\<rparr>\<rparr>)"
proof -
  let ?i = "newid env (map c_id (clients d))" and ?j = "newid env (map r_id (roles d))"
  have i: "?i \<notin> c_id ` set (clients d)" "?j \<notin> r_id ` set (roles d)" by (rule fresh_id [OF fresh])+
  have links: "\<forall>(x, y) \<in> set (clients_roles d). x \<noteq> ?i \<and> y \<noteq> ?j" "\<forall>(x, y) \<in> set (roles_resources d). x \<noteq> ?j"
    using sch i by (auto simp: schema_inv_def)
  have ne: "\<forall>x \<in> set (clients d). c_id x \<noteq> ?i" "\<forall>x \<in> set (roles d). r_name x \<noteq> name"
    using i(1) name(2) by (metis image_eqI)+
  have none: "filter (\<lambda>r. c_id r = ?i) (clients d) = []" "filter (\<lambda>r. r_name r = name) (roles d) = []"
    using ne by (simp_all add: filter_empty_conv)
  have old: "filter (\<lambda>r. c_id r \<noteq> ?i) (clients d) = clients d" "filter (\<lambda>r. r_name r \<noteq> name) (roles d) = roles d"
    "filter (\<lambda>(x, y). x \<noteq> ?i) (clients_roles d) = clients_roles d" "filter (\<lambda>(x, y). y \<noteq> ?j) (clients_roles d) = clients_roles d"
    "filter (\<lambda>(x, y). x \<noteq> ?j) (roles_resources d) = roles_resources d"
    using ne links by (auto intro!: filter_True)
  let ?row = "\<lparr>c_id = ?i, c_name = name, c_ip = Some (intToIP env (word_of_int (d_first r))), c_last_seen = 0\<rparr>"
  let ?cl = "\<lparr>ID = ?i, Name = name, IP = intToIP env (word_of_int (d_first r)), LastSeen = 0\<rparr>"
  let ?d2 = "(created env name r d)\<lparr>dhcp := rs, clients := clients d, clients_roles := clients_roles d\<rparr>"
  have s1: "first_row (\<lambda>r. c_id r = ?i) (clients (created env name r d)) = Inr ?row" "scan_client ?row = Inr ?cl"
    by (simp_all add: created_def Let_def none first_row_def scan_client_def)
  have s2: "delete_client ?i ((created env name r d)\<lparr>dhcp := rs\<rparr>) = Inr (1, ?d2)"
    by (simp add: delete_client_def created_def Let_def none old)
  have s3: "delete_roles_where (\<lambda>r. r_name r = name) ?d2 = Inr (1, d\<lparr>dhcp := rs\<rparr>)"
    by (simp add: delete_roles_where_def created_def Let_def none old)
  show ?thesis using f p
    by (simp add: DeleteClients_def run_tx_def run_tx_flag_def bind_tx_def prepare_def engine_ok query_def exec_def
        return_tx_def s1 s2 s3 rel)
qed

text \<open>
  C13: creating a client succeeds whenever the pool has a free address and the name
  is new, on a connection that does not fail. The new client holds the lowest free
  address, which is free no longer; the default role of the same name exists and is
  linked to the client; every other row of every table is as before. Deleting the
  client afterwards restores the tables it touched and gives the address back.
\<close>

theorem create_delete_roundtrip:
  assumes f: "cn_faults c = []" and inv: "pool_inv env a b d" and d: "d = cn_db c" and free: "dhcp d \<noteq> []"
    and name: "name \<notin> c_name ` set (clients d)" "name \<notin> r_name ` set (roles d)"
  shows "\<exists>i j ip d1 d2. CreateClientsWithRoles env [name] c = (Inr [i], c\<lparr>cn_db := d1\<rparr>) \<and>
     clients d1 = clients d @ [\<lparr>c_id = i, c_name = name, c_ip = Some ip, c_last_seen = 0\<rparr>] \<and>
     parseIP env ip = Some (Min (ranges (dhcp d))) \<and> ranges (dhcp d1) = ranges (dhcp d) - {Min (ranges (dhcp d))} \<and>
     roles d1 = roles d @ [\<lparr>r_id = j, r_name = name\<rparr>] \<and> clients_roles d1 = clients_roles d @ [(i, j)] \<and>
     resources d1 = resources d \<and> roles_resources d1 = roles_resources d \<and>
     DeleteClients env [i] (c\<lparr>cn_db := d1\<rparr>) = (Inr [i], c\<lparr>cn_db := d2\<rparr>) \<and>
     d2 = d\<lparr>dhcp := dhcp d2\<rparr> \<and> ranges (dhcp d2) = ranges (dhcp d)"
proof -
  have wf: "rows_wf (dhcp d)" and sch: "schema_inv d" and fresh: "fresh_ids env" and law: "ip_law env" and ok: "pool_ok env {a..b} d"
    using inv by (auto simp: pool_inv_def pool_env_def pool_ok_def)
  obtain r where low: "lowest_dhcp d = Inr r" using lowest_exists [OF free] by blast
  let ?i = "newid env (map c_id (clients d))" and ?j = "newid env (map r_id (roles d))"
  let ?ip = "intToIP env (word_of_int (d_first r))" and ?d1 = "created env name r d"
  note lm = lowest_min [OF low wf] and tk = taken_spec [OF low wf]
  have fin: "finite (ranges (dhcp d))" by (simp add: ranges_def)
  have mn: "Min (ranges (dhcp d)) = d_first r" using Min_eqI [OF fin, of "d_first r"] lm by blast
  have p: "parseIP env ?ip = Some (d_first r)"
    using law word_uint pool_ok_range [OF ok lm(1)] by (simp add: ip_law_def)
  have cr: "CreateClientsWithRoles env [name] c = (Inr [?i], c\<lparr>cn_db := ?d1\<rparr>)"
    using create_ok [OF f fresh, of r name] sch wf low name d by simp
  obtain rs where rel: "releaseIP env (d_first r) (c\<lparr>cn_db := ?d1\<rparr>) = (Inr (), c\<lparr>cn_db := ?d1\<lparr>dhcp := rs\<rparr>\<rparr>)"
    using releaseIP_ok [of "c\<lparr>cn_db := ?d1\<rparr>" "d_first r" env] f fresh tk by (auto simp: created_def Let_def)
  have rng: "ranges rs = ranges (dhcp d)"
    using releaseIP_spec [OF rel] tk fresh lm(1) by (auto simp: created_def Let_def)
  have del: "DeleteClients env [?i] (c\<lparr>cn_db := ?d1\<rparr>) = (Inr [?i], c\<lparr>cn_db := d\<lparr>dhcp := rs\<rparr>\<rparr>)"
    using delete_created [OF f fresh sch name rel p] by simp
  show ?thesis
    by (rule exI [of _ ?i], rule exI [of _ ?j], rule exI [of _ ?ip], rule exI [of _ ?d1], rule exI [of _ "d\<lparr>dhcp := rs\<rparr>"])
      (use cr del p mn tk rng in \<open>simp add: created_def Let_def\<close>)
qed

theorem create_delete_roundtrip_witness:
  "\<exists>i d1 d2. CreateClientsWithRoles goEnv [''ann''] (ex_conn (empty_db 10 20)) = (Inr [i], ex_conn d1) \<and>
     DeleteClients goEnv [i] (ex_conn d1) = (Inr [i], ex_conn d2) \<and> ranges (dhcp d2) = {10..20}"
proof -
  have e: "pool_inv goEnv 10 20 (empty_db 10 20)" by (intro empty_db_inv goEnv_pool) simp_all
  have r: "ranges (dhcp (empty_db 10 20)) = {10..20}" by (simp add: empty_db_def ranges_def)
  show ?thesis using create_delete_roundtrip [OF _ e, of "ex_conn (empty_db 10 20)" "''ann''"] r
    by (auto simp: empty_db_def)
qed



text \<open>
  After \<^verbatim>\<open>ResetDHCP\<close>, which the server runs on every start, listing the clients
  fails as long as there is one: the reset sets every address to NULL, and
  \<^verbatim>\<open>GetAllClients\<close> scans the column into a string.
\<close>

theorem clients_unreadable_after_reset:
  assumes "ResetDHCP env a b c = (Inr x, c')" and "clients (cn_db c) \<noteq> []" and "cn_faults c' = []"
  shows "fst (GetAllClients c') = Inl ErrScan"
proof -
  from assms(1) obtain c1 u c3 v c4 w c5 where
    s: "cn_db c1 = cn_db c" "exec (delete_dhcp (\<lambda>_. True)) c1 = (Inr u, c3)" "exec (insert_dhcp env a b) c3 = (Inr v, c4)"
      "exec (set_client_ip None (\<lambda>_. True)) c4 = (Inr w, c5)" "cn_db c' = cn_db c5"
    unfolding ResetDHCP_def by (auto elim!: run_tx_InrE bind_InrE return_InrE)
  have "clients (cn_db c3) = clients (cn_db c)"
    using s(1,2) by (auto simp: delete_dhcp_def elim!: exec_InrE) (metis db.select_convs(1) db.surjective db.update_convs(6))
  moreover have "clients (cn_db c4) = clients (cn_db c3)"
    using s(3) by (auto simp: insert_dhcp_def Let_def elim!: exec_InrE split: if_splits) (metis db.select_convs(1) db.surjective db.update_convs(6))
  moreover have "clients (cn_db c5) = map (\<lambda>r. r\<lparr>c_ip := None\<rparr>) (clients (cn_db c4))"
    using s(4) by (auto simp: set_client_ip_def elim!: exec_InrE) (metis db.select_convs(1) db.surjective db.update_convs(1))
  ultimately have "clients (cn_db c') = map (\<lambda>r. r\<lparr>c_ip := None\<rparr>) (clients (cn_db c))" using s(5) by simp
  then obtain r rs where "clients (cn_db c') = r\<lparr>c_ip := None\<rparr> # rs" using assms(2) by (cases "clients (cn_db c)") auto
  then have "scan_all scan_client (clients (cn_db c')) = Inl ErrScan" by (simp add: scan_client_def)
  then show ?thesis using assms(3)
    by (simp add: GetAllClients_def run_tx_def run_tx_flag_def bind_tx_def query_def engine_ok)
qed

theorem clients_unreadable_after_reset_witness:
  "fst (GetAllClients (snd (ResetDHCP goEnv 10 20 (ex_conn ex_created)))) = Inl ErrScan"
proof -
  have "\<exists>d. ResetDHCP goEnv 10 20 (ex_conn ex_created) = (Inr True, ex_conn d)"
    by (simp add: call_eval ex_created_def) blast
  then obtain d where "ResetDHCP goEnv 10 20 (ex_conn ex_created) = (Inr True, ex_conn d)" by blast
  from clients_unreadable_after_reset [OF this] this show ?thesis by (simp add: ex_created_def)
qed

subsection \<open>Effective resources\<close>

lemma count_all: "(\<And>y. y \<in> set ys \<Longrightarrow> y = a) \<Longrightarrow> count_list ys a = length ys"
  by (induction ys) auto

lemma count_concat_own:
  "distinct xs \<Longrightarrow> (\<And>x y. x \<in> set xs \<Longrightarrow> y \<in> set (f x) \<Longrightarrow> y = x) \<Longrightarrow> x \<in> set xs \<Longrightarrow>
   count_list (concat (map f xs)) x = length (f x)"
proof (induction xs)
  case (Cons a xs)
  have own: "count_list (f a) a = length (f a)"
    by (rule count_all) (use Cons.prems(2) [of a] in simp)
  have no: "x \<notin> set (f a)" if "x \<noteq> a" using Cons.prems(2) [of a x] that by auto
  have no': "a \<notin> set (concat (map f xs))" using Cons.prems(1,2) by fastforce
  show ?case
  proof (cases "x = a")
    case True
    then show ?thesis using own no' by (simp add: count_list_0_iff)
  next
    case False
    then show ?thesis using Cons no by (simp add: count_list_0_iff)
  qed
qed simp

lemma length_concat_ones:
  "distinct xs \<Longrightarrow> length (concat (map (\<lambda>x. if p x then [y] else []) xs)) = card {x \<in> set xs. p x}"
proof (induction xs)
  case (Cons a xs)
  have "{x \<in> set (a # xs). p x} = (if p a then insert a {x \<in> set xs. p x} else {x \<in> set xs. p x})" by auto
  then show ?case using Cons by simp
qed simp

lemma filter_pair: "distinct xs \<Longrightarrow> filter (\<lambda>(c, r). r = rid \<and> c = cid) xs = (if (cid, rid) \<in> set xs then [(cid, rid)] else [])"
  by (induction xs) auto

text \<open>
  C34: \<^verbatim>\<open>GetClientResources\<close> returns exactly the resources granted by the roles linked
  to the client, and each of them once per granting role: a resource two of the
  client's roles share is listed twice.
\<close>

theorem effective_resources:
  assumes q: "GetClientResources cid c = (Inr rs, c')" and sch: "schema_inv d" and d: "d = cn_db c"
  shows "set rs \<subseteq> set (resources d) \<and> (\<forall>s \<in> set (resources d).
     count_list rs s = card {rid. (cid, rid) \<in> set (clients_roles d) \<and> (rid, s_id s) \<in> set (roles_resources d)})"
proof -
  let ?g = "\<lambda>s. concat (map (\<lambda>(rid, sid). if sid = s_id s
        then map (\<lambda>_. s) (filter (\<lambda>(c, r). r = rid \<and> c = cid) (clients_roles d)) else []) (roles_resources d))"
  have rs: "rs = concat (map ?g (resources d))"
    using q unfolding GetClientResources_def by (elim run_tx_InrE query_InrE) (simp only: d sum.inject)
  have own: "y = s" if "y \<in> set (?g s)" for s y using that by (auto split: if_splits)
  have dis: "distinct (resources d)" "distinct (clients_roles d)" "distinct (roles_resources d)"
    using sch by (auto simp: schema_inv_def distinct_map)
  have len: "length (?g s) = card {rid. (cid, rid) \<in> set (clients_roles d) \<and> (rid, s_id s) \<in> set (roles_resources d)}" for s
  proof -
    let ?p = "\<lambda>(rid, sid). sid = s_id s \<and> (cid, rid) \<in> set (clients_roles d)"
    have "?g s = concat (map (\<lambda>x. if ?p x then [s] else []) (roles_resources d))"
      by (rule arg_cong [of _ _ concat], rule map_cong) (simp_all add: filter_pair [OF dis(2)] split: prod.split)
    then have "length (?g s) = card {x \<in> set (roles_resources d). ?p x}" using length_concat_ones [OF dis(3)] by metis
    also have "{x \<in> set (roles_resources d). ?p x} =
        (\<lambda>rid. (rid, s_id s)) ` {rid. (cid, rid) \<in> set (clients_roles d) \<and> (rid, s_id s) \<in> set (roles_resources d)}" by auto
    also have "card \<dots> = card {rid. (cid, rid) \<in> set (clients_roles d) \<and> (rid, s_id s) \<in> set (roles_resources d)}"
      by (rule card_image) (simp add: inj_on_def)
    finally show ?thesis .
  qed
  have "count_list rs s = card {rid. (cid, rid) \<in> set (clients_roles d) \<and> (rid, s_id s) \<in> set (roles_resources d)}"
    if "s \<in> set (resources d)" for s
    unfolding rs len [symmetric] by (rule count_concat_own [OF dis(1) own that])
  moreover have "set rs \<subseteq> set (resources d)" unfolding rs using own by fastforce
  ultimately show ?thesis by blast
qed

definition ex_granted :: db where
  "ex_granted = ex_created\<lparr>roles := [\<lparr>r_id = 1, r_name = ''ann''\<rparr>, \<lparr>r_id = 2, r_name = ''dev''\<rparr>],
     clients_roles := [(1, 1), (1, 2)], resources := [\<lparr>s_id = 7, s_name = ''net'', s_value = ''10.0.0.0/8''\<rparr>],
     roles_resources := [(1, 7), (2, 7)]\<rparr>"

theorem effective_resources_witness:
  "\<exists>rs c'. GetClientResources 1 (ex_conn ex_granted) = (Inr rs, c') \<and>
     count_list rs \<lparr>s_id = 7, s_name = ''net'', s_value = ''10.0.0.0/8''\<rparr> = 2"
proof -
  obtain rs c' where q: "GetClientResources 1 (ex_conn ex_granted) = (Inr rs, c')"
    by (simp add: GetClientResources_def call_eval)
  have s: "schema_inv ex_granted" by (simp add: schema_inv_def ex_granted_def ex_created_def dhcp_unique_def)
  have "{rid. (1, rid) \<in> set (clients_roles ex_granted) \<and> (rid, 7) \<in> set (roles_resources ex_granted)} = {1, 2}"
    by (auto simp: ex_granted_def)
  then show ?thesis using effective_resources [OF q s] q by (simp add: ex_granted_def)
qed

end
