(* ===== verification/Migration.thy ===== *)
theory Migration
  imports Dhcp
begin

text \<open>
  Start-up of the control plane: the migration runner (\<^verbatim>\<open>migration/migration.go\<close>),
  the first migration with the seeding of the address pool
  (\<^verbatim>\<open>migration/1_create_tables.go\<close>), and \<^verbatim>\<open>ClearInternalDHCP\<close> of \<^verbatim>\<open>main.go\<close>. The
  bookkeeping table \<^verbatim>\<open>migrations\<close> is a list of versions with their status; statements
  outside a transaction are one engine call each. Creating a table that may exist
  is an engine call that leaves the rows alone.
\<close>

subsection \<open>The pool a network configures\<close>

text \<open>\<^verbatim>\<open>_, n, _ := utility.ParseIP(s)\<close>: the number, 0 when the string is no address.\<close>

definition numOf :: "env \<Rightarrow> string \<Rightarrow> int" where
  "numOf env s = (case parseIP env s of None \<Rightarrow> 0 | Some n \<Rightarrow> n)"

definition orEmpty :: "'e + string \<Rightarrow> string" where
  "orEmpty r = (case r of Inl _ \<Rightarrow> [] | Inr s \<Rightarrow> s)"

definition poolRange :: "text6 \<Rightarrow> env \<Rightarrow> string \<Rightarrow> int \<times> int" where
  "poolRange t env virtCIDR =
     (let firstIP = orEmpty (FirstUsableIP t virtCIDR);
          lastIP = orEmpty (LastUsableIP t virtCIDR);
          firstIPNum = numOf env firstIP;
          lastIPNum = numOf env lastIP
      in (firstIPNum + 1, lastIPNum))"

definition ClearInternalDHCP :: "text6 \<Rightarrow> env \<Rightarrow> string \<Rightarrow> bool tx" where
  "ClearInternalDHCP t env virtCIDR = (let (a, b) = poolRange t env virtCIDR in ResetDHCP env a b)"

subsection \<open>The first migration\<close>

text \<open>\<^verbatim>\<open>INSERT INTO dhcp(id, ...) VALUES(1, ...) ON CONFLICT(id) DO NOTHING\<close>.\<close>

definition seed_dhcp :: "int \<Rightarrow> int \<Rightarrow> db \<Rightarrow> sql_error + unit \<times> db" where
  "seed_dhcp a b d =
     (if 1 \<in> d_id ` set (dhcp d) then Inr ((), d)
      else let rs = dhcp d @ [\<lparr>d_id = 1, d_first = a, d_last = b\<rparr>]
           in if dhcp_unique rs then Inr ((), d\<lparr>dhcp := rs\<rparr>) else Inl ErrConstraint)"

definition createTable :: "unit tx" where
  "createTable = engine"

definition Migration1_Run :: "text6 \<Rightarrow> env \<Rightarrow> string \<Rightarrow> unit tx" where
  "Migration1_Run t env virtCIDR =
     run_tx (
       bind_tx createTable (\<lambda>_. bind_tx createTable (\<lambda>_. bind_tx createTable (\<lambda>_.
       bind_tx createTable (\<lambda>_. bind_tx createTable (\<lambda>_. bind_tx createTable (\<lambda>_.
       let (firstIPNum, lastIPNum) = poolRange t env virtCIDR
       in exec (seed_dhcp firstIPNum lastIPNum))))))))"

subsection \<open>The runner\<close>

datatype MigrationStatus = Pending | Executed | Succeeded | Failed | Unknown

record migration =
  Version :: int
  Run :: "unit tx"

record store =
  st_conn :: conn
  st_applied :: "(int \<times> MigrationStatus) list"

definition GenerateMigrationList :: "text6 \<Rightarrow> env \<Rightarrow> string \<Rightarrow> migration list" where
  "GenerateMigrationList t env virtCIDR = [\<lparr>Version = 1, Run = Migration1_Run t env virtCIDR\<rparr>]"

definition engineS :: "store \<Rightarrow> (sql_error + unit) \<times> store" where
  "engineS s = (case engine (st_conn s) of (r, c) \<Rightarrow> (r, s\<lparr>st_conn := c\<rparr>))"

text \<open>The upsert of the record of one version.\<close>

definition record_version :: "int \<Rightarrow> (int \<times> MigrationStatus) list \<Rightarrow> (int \<times> MigrationStatus) list" where
  "record_version v rows =
     (if v \<in> fst ` set rows then map (\<lambda>(x, st). (x, if x = v then Succeeded else st)) rows
      else rows @ [(v, Succeeded)])"

fun invokeLoop :: "migration list \<Rightarrow> store \<Rightarrow> (sql_error + unit) \<times> store" where
  "invokeLoop [] s = (Inr (), s)"
| "invokeLoop (m # ms) s =
     (case engineS s of
        (Inl e, s) \<Rightarrow> (Inl e, s)
      | (Inr _, s) \<Rightarrow>
          if (Version m, Succeeded) \<in> set (st_applied s) then invokeLoop ms s
          else
            (case Run m (st_conn s) of
               (Inl e, c) \<Rightarrow> (Inl e, s\<lparr>st_conn := c\<rparr>)
             | (Inr _, c) \<Rightarrow>
                 (case engineS (s\<lparr>st_conn := c\<rparr>) of
                    (Inl e, s) \<Rightarrow> (Inl e, s)
                  | (Inr _, s) \<Rightarrow> invokeLoop ms (s\<lparr>st_applied := record_version (Version m) (st_applied s)\<rparr>))))"

definition Invoke :: "migration list \<Rightarrow> store \<Rightarrow> (sql_error + unit) \<times> store" where
  "Invoke migrations s =
     (case engineS s of
        (Inl e, s) \<Rightarrow> (Inl e, s)
      | (Inr _, s) \<Rightarrow> invokeLoop (sort_key Version migrations) s)"

definition MigrateData :: "text6 \<Rightarrow> env \<Rightarrow> string \<Rightarrow> store \<Rightarrow> (sql_error + unit) \<times> store" where
  "MigrateData t env virtCIDR = Invoke (GenerateMigrationList t env virtCIDR)"

subsection \<open>Applied once, recorded only when committed\<close>

lemma engineS_result: "engineS s = (r, s') \<Longrightarrow> cn_db (st_conn s') = cn_db (st_conn s) \<and> st_applied s' = st_applied s"
  by (auto simp: engineS_def split: prod.splits dest: engine_result)

lemma record_version_keeps [simp]: "(x, Succeeded) \<in> set rows \<Longrightarrow> (x, Succeeded) \<in> set (record_version v rows)"
  by (force simp: record_version_def)

lemma record_version_new [simp]: "(v, Succeeded) \<in> set (record_version v rows)"
  by (force simp: record_version_def)

lemma invokeLoop_keeps:
  "invokeLoop ms s = (r, s') \<Longrightarrow> (x, Succeeded) \<in> set (st_applied s) \<Longrightarrow> (x, Succeeded) \<in> set (st_applied s')"
proof (induction ms s rule: invokeLoop.induct)
  case (2 m ms s)
  then show ?case
    by (auto split: prod.splits sum.splits if_splits dest!: engineS_result)
qed simp

lemma invokeLoop_recorded:
  "invokeLoop ms (s\<lparr>st_applied := record_version v rows\<rparr>) = (r, s') \<Longrightarrow> (v, Succeeded) \<in> set (st_applied s')"
  by (erule invokeLoop_keeps) simp

lemma invokeLoop_applies:
  "invokeLoop ms s = (Inr u, s') \<Longrightarrow> m \<in> set ms \<Longrightarrow> (Version m, Succeeded) \<in> set (st_applied s')"
proof (induction ms s rule: invokeLoop.induct)
  case (2 m' ms s)
  then show ?case
    by (auto split: prod.splits sum.splits if_splits dest!: engineS_result dest: invokeLoop_keeps invokeLoop_recorded)
qed simp

lemma invokeLoop_noop:
  "invokeLoop ms s = (r, s') \<Longrightarrow> \<forall>m \<in> set ms. (Version m, Succeeded) \<in> set (st_applied s) \<Longrightarrow>
   cn_db (st_conn s') = cn_db (st_conn s) \<and> st_applied s' = st_applied s"
proof (induction ms s rule: invokeLoop.induct)
  case (2 m ms s)
  then show ?case by (auto split: prod.splits sum.splits if_splits dest!: engineS_result)
qed simp

text \<open>
  Running the migrations is safe on every start. After a run that succeeded,
  every migration is recorded, and another run, whether or not the database
  fails during it, changes no table and no record.
\<close>

theorem migrate_idempotent:
  assumes "Invoke ms s = (Inr u, s1)" and "Invoke ms s1 = (r, s2)"
  shows "(\<forall>m \<in> set ms. (Version m, Succeeded) \<in> set (st_applied s1)) \<and>
     cn_db (st_conn s2) = cn_db (st_conn s1) \<and> st_applied s2 = st_applied s1"
proof -
  obtain s0 where "invokeLoop (sort_key Version ms) s0 = (Inr u, s1)"
    using assms(1) by (auto simp: Invoke_def split: prod.splits sum.splits)
  then have all: "\<forall>m \<in> set ms. (Version m, Succeeded) \<in> set (st_applied s1)" using invokeLoop_applies by simp
  then show ?thesis using assms(2)
    by (auto simp: Invoke_def split: prod.splits sum.splits dest!: engineS_result)
      (metis invokeLoop_noop set_sort)+
qed

subsection \<open>The seeded pool\<close>

lemma seed_dhcp_cases:
  "seed_dhcp a b d = Inr (u, d') \<Longrightarrow>
   (d' = d \<or> d' = d\<lparr>dhcp := dhcp d @ [\<lparr>d_id = 1, d_first = a, d_last = b\<rparr>]\<rparr>) \<and> 1 \<in> d_id ` set (dhcp d')"
  by (auto simp: seed_dhcp_def Let_def split: if_splits)

lemma Migration1_Run_cases:
  assumes "Migration1_Run t env cidr c = (r, c')" and "poolRange t env cidr = (a, b)"
  shows "(isl r \<longrightarrow> cn_db c' = cn_db c) \<and> (\<not> isl r \<longrightarrow> 1 \<in> d_id ` set (dhcp (cn_db c'))) \<and>
     (cn_db c' = cn_db c \<or> cn_db c' = (cn_db c)\<lparr>dhcp := dhcp (cn_db c) @ [\<lparr>d_id = 1, d_first = a, d_last = b\<rparr>]\<rparr>)"
proof (cases r)
  case (Inl e)
  then show ?thesis using assms(1) atomic_run_tx unfolding Migration1_Run_def atomic_def by (metis isl_def)
next
  case (Inr u)
  have "\<exists>c1 c2. cn_db c1 = cn_db c \<and> exec (seed_dhcp a b) c1 = (Inr u, c2) \<and> cn_db c' = cn_db c2"
    using assms Inr unfolding Migration1_Run_def createTable_def
    by (auto elim!: run_tx_InrE bind_InrE dest!: engine_result) metis
  then have "seed_dhcp a b (cn_db c) = Inr (u, cn_db c')" by (auto elim!: exec_InrE)
  from seed_dhcp_cases [OF this] show ?thesis using Inr by auto
qed

text \<open>
  C36: a migration is never half applied and never recorded without its work. For
  every run of \<^verbatim>\<open>MigrateData\<close>, failing anywhere, the tables are as before or have
  exactly the pool row added, and if the run recorded the migration the pool row is
  there.
\<close>

theorem migrate_never_half_applied:
  assumes "MigrateData t env cidr s = (r, s')" and "poolRange t env cidr = (a, b)"
  shows "(cn_db (st_conn s') = cn_db (st_conn s) \<or>
      cn_db (st_conn s') = (cn_db (st_conn s))\<lparr>dhcp := dhcp (cn_db (st_conn s)) @ [\<lparr>d_id = 1, d_first = a, d_last = b\<rparr>]\<rparr>) \<and>
     (st_applied s' = st_applied s \<or> 1 \<in> d_id ` set (dhcp (cn_db (st_conn s'))))"
proof -
  let ?m = "\<lparr>Version = 1, Run = Migration1_Run t env cidr\<rparr>"
  have one: "sort_key Version [?m] = [?m]" by simp
  have "MigrateData t env cidr s = (case engineS s of (Inl e, s) \<Rightarrow> (Inl e, s) | (Inr _, s) \<Rightarrow> invokeLoop [?m] s)"
    unfolding MigrateData_def Invoke_def GenerateMigrationList_def one ..
  with assms(1) have run: "(case engineS s of (Inl e, s) \<Rightarrow> (Inl e, s) | (Inr _, s) \<Rightarrow> invokeLoop [?m] s) = (r, s')" by simp
  obtain r1 s1 where e1: "engineS s = (r1, s1)" by fastforce
  note q1 = engineS_result [OF e1]
  show ?thesis
  proof (cases "isl r1 \<or> (1, Succeeded) \<in> set (st_applied s1)")
    case True
    then show ?thesis using run e1 q1 by (auto split: sum.splits prod.splits dest!: engineS_result)
  next
    case False
    obtain r2 s2 where e2: "engineS s1 = (r2, s2)" by fastforce
    note q2 = engineS_result [OF e2]
    obtain r3 c3 where e3: "Migration1_Run t env cidr (st_conn s2) = (r3, c3)" by fastforce
    note q3 = Migration1_Run_cases [OF e3 assms(2)]
    show ?thesis
    proof (cases "isl r2 \<or> isl r3")
      case True
      then show ?thesis using run e1 e2 e3 q1 q2 q3 False by (auto split: sum.splits)
    next
      case ok: False
      obtain r4 s4 where e4: "engineS (s2\<lparr>st_conn := c3\<rparr>) = (r4, s4)" by fastforce
      note q4 = engineS_result [OF e4]
      have "cn_db (st_conn s') = cn_db c3 \<and> (st_applied s' = st_applied s \<or> \<not> isl r4)"
        using run e1 e2 e3 e4 q1 q2 q4 False ok by (auto split: sum.splits)
      then show ?thesis using q1 q2 q3 ok by auto
    qed
  qed
qed

text \<open>The textual form of addresses: dotted decimal.\<close>

definition dotted :: "env \<Rightarrow> bool" where
  "dotted env \<longleftrightarrow> (\<forall>w. intToIP env w = print4 (bytes_of 4 (unat w)))"

lemma numOf_print4:
  assumes "ip_law env" "dotted env" "m < 2 ^ 32"
  shows "numOf env (print4 (bytes_of 4 m)) = int m"
proof -
  have "unat (of_nat m :: u32) = m" using assms(3) by (simp add: unat_of_nat_small)
  then have "print4 (bytes_of 4 m) = intToIP env (of_nat m)" using assms(2) by (simp add: dotted_def)
  moreover have "uint (of_nat m :: u32) = int m"
    using \<open>unat (of_nat m :: u32) = m\<close> by (metis uint_nat)
  ultimately show ?thesis using assms(1) by (simp add: numOf_def ip_law_def)
qed

lemma poolRange_net:
  assumes e: "ip_law env" "dotted env" and bs: "length bs = 4" and n: "n \<le> 30" and h: "h = 32 - n"
    and net: "net = num_of bs 0 div 2 ^ h * 2 ^ h"
  shows "poolRange t env (print4 bs @ ''/'' @ appendDecimal n) = (int net + 2, int net + 2 ^ h - 2)"
    and "net + 2 ^ h \<le> 2 ^ 32" and "4 \<le> (2 :: nat) ^ h"
proof -
  have N: "num_of bs 0 < 2 ^ 32" using num_of_less [of bs] bs by simp
  show b: "net + 2 ^ h \<le> 2 ^ 32" using net_bounds [OF N _ h] n net by simp
  show four: "4 \<le> (2 :: nat) ^ h" using power_increasing [of 2 h "2 :: nat"] h n by simp
  have n32: "n \<le> 32" using n by simp
  note u = usable_range [OF bs n32 h net refl, of t]
  have "numOf env (print4 (bytes_of 4 (net + 1))) = int net + 1"
    using numOf_print4 [OF e, of "net + 1"] b four by simp
  moreover have "numOf env (print4 (bytes_of 4 (net + 2 ^ h - 2))) = int net + 2 ^ h - 2"
    using numOf_print4 [OF e, of "net + 2 ^ h - 2"] b four by (simp add: of_nat_diff)
  ultimately show "poolRange t env (print4 bs @ ''/'' @ appendDecimal n) = (int net + 2, int net + 2 ^ h - 2)"
    using u n by (simp add: poolRange_def orEmpty_def)
qed

text \<open>Tables without a row, nothing applied, a database that does not fail.\<close>

definition blank :: store where
  "blank = \<lparr>st_conn = \<lparr>cn_db = \<lparr>clients = [], roles = [], resources = [], clients_roles = [], roles_resources = [],
     dhcp = []\<rparr>, cn_faults = []\<rparr>, st_applied = []\<rparr>"

lemma migrate_blank:
  assumes "poolRange t env cidr = (a, b)"
  shows "MigrateData t env cidr blank =
     (Inr (), \<lparr>st_conn = \<lparr>cn_db = empty_db a b, cn_faults = []\<rparr>, st_applied = [(1, Succeeded)]\<rparr>)"
  using assms
  by (simp add: MigrateData_def Invoke_def GenerateMigrationList_def blank_def engineS_def engine_def Migration1_Run_def
      createTable_def run_tx_def run_tx_flag_def bind_tx_def return_tx_def exec_def seed_dhcp_def dhcp_unique_def
      record_version_def empty_db_def)

text \<open>
  On first start with \<^verbatim>\<open>VIRT_CIDR\<close> an IPv4 network \<^verbatim>\<open>a.b.c.d/n\<close>, \<open>n \<le> 30\<close>, the migration
  succeeds and leaves empty tables whose pool is the host range above the gateway:
  it starts two above the network address, ends one below the broadcast address, and
  satisfies the pool's contract, so that \<open>no_address_shared_or_leaked\<close> applies from there.
\<close>

theorem migrated_pool:
  assumes e: "fresh_ids env" "ip_law env" "dotted env" and bs: "length bs = 4" and n: "n \<le> 30" and h: "h = 32 - n"
    and net: "net = num_of bs 0 div 2 ^ h * 2 ^ h"
  shows "\<exists>s. MigrateData t env (print4 bs @ ''/'' @ appendDecimal n) blank = (Inr (), s) \<and>
     cn_db (st_conn s) = empty_db (int net + 2) (int net + 2 ^ h - 2) \<and>
     pool_inv env (int net + 2) (int net + 2 ^ h - 2) (cn_db (st_conn s))"
proof -
  note p = poolRange_net [OF e(2,3) bs n h net]
  have "int (net + 2 ^ h) \<le> int (2 ^ 32)" "int 4 \<le> int (2 ^ h)" using p(2,3) by (simp_all only: of_nat_le_iff)
  then have "int net + 2 ^ h \<le> 2 ^ 32" "4 \<le> (2 :: int) ^ h" by simp_all
  then have "pool_env env (int net + 2) (int net + 2 ^ h - 2)" using e by (simp add: pool_env_def)
  from empty_db_inv [OF this] show ?thesis using migrate_blank [OF p(1)] by simp
qed

lemma goEnv_dotted: "dotted goEnv"
  by (simp add: dotted_def goEnv_def)

lemma goEnv_law: "ip_law goEnv"
  using goEnv_pool [of 0 0] by (simp add: pool_env_def)

lemma ex_cidr: "print4 [10, 8, 3, 9] @ ''/'' @ appendDecimal 22 = ''10.8.3.9/22''"
  by (simp add: print4_def appendDecimal_def digit_def char_of_def bit_0)

theorem migrated_pool_witness:
  "\<exists>s. MigrateData ex_text6 goEnv ''10.8.3.9/22'' blank = (Inr (), s) \<and> cn_db (st_conn s) = empty_db 0x0a080002 0x0a0803fe"
  using migrated_pool [OF goEnv_fresh goEnv_law goEnv_dotted, of "[10, 8, 3, 9]" 22 10 "0x0a080000" ex_text6]
  unfolding ex_cidr by auto

theorem migrate_idempotent_witness:
  "\<exists>s1 r s2. Invoke (GenerateMigrationList ex_text6 goEnv ''10.8.3.9/22'') blank = (Inr (), s1) \<and>
     Invoke (GenerateMigrationList ex_text6 goEnv ''10.8.3.9/22'') s1 = (r, s2) \<and> cn_db (st_conn s2) = cn_db (st_conn s1)"
proof -
  obtain a b where "poolRange ex_text6 goEnv ''10.8.3.9/22'' = (a, b)" by fastforce
  from migrate_blank [OF this] obtain s1 where s1: "Invoke (GenerateMigrationList ex_text6 goEnv ''10.8.3.9/22'') blank = (Inr (), s1)"
    unfolding MigrateData_def by blast
  obtain r s2 where s2: "Invoke (GenerateMigrationList ex_text6 goEnv ''10.8.3.9/22'') s1 = (r, s2)" by fastforce
  show ?thesis using migrate_idempotent [OF s1 s2] s1 s2 by blast
qed

theorem migrate_never_half_applied_witness:
  "\<exists>r s'. MigrateData ex_text6 goEnv ''10.8.3.9/22'' (blank\<lparr>st_conn := (st_conn blank)\<lparr>cn_faults := [False, False, False, True]\<rparr>\<rparr>) = (r, s') \<and>
     st_applied s' = [] \<and> set (dhcp (cn_db (st_conn s'))) \<subseteq> {\<lparr>d_id = 1, d_first = 0x0a080002, d_last = 0x0a0803fe\<rparr>}"
proof -
  let ?s = "blank\<lparr>st_conn := (st_conn blank)\<lparr>cn_faults := [False, False, False, True]\<rparr>\<rparr>"
  have p: "poolRange ex_text6 goEnv ''10.8.3.9/22'' = (0x0a080002, 0x0a0803fe)"
    using poolRange_net(1) [OF goEnv_law goEnv_dotted, of "[10, 8, 3, 9]" 22 10 "0x0a080000" ex_text6] unfolding ex_cidr by simp
  obtain r s' where m: "MigrateData ex_text6 goEnv ''10.8.3.9/22'' ?s = (r, s')" by fastforce
  have "r = Inl ErrFault \<and> st_applied s' = []"
    using m by (simp add: MigrateData_def Invoke_def GenerateMigrationList_def blank_def engineS_def engine_def Migration1_Run_def
      createTable_def run_tx_def run_tx_flag_def bind_tx_def) auto
  moreover have "set (dhcp (cn_db (st_conn s'))) \<subseteq> {\<lparr>d_id = 1, d_first = 0x0a080002, d_last = 0x0a0803fe\<rparr>}"
    using migrate_never_half_applied [OF m p] by (auto simp: blank_def)
  ultimately show ?thesis using m by blast
qed

text \<open>
  With a \<^verbatim>\<open>/32\<close> the errors of \<^verbatim>\<open>FirstUsableIP\<close> and \<^verbatim>\<open>LastUsableIP\<close> are dropped, the
  migration succeeds and is recorded, and the pool it stores is the inverted range
  from 1 to 0.
\<close>

theorem slash32_pool_inverted:
  assumes "ip_law env" and "length bs = 4"
  shows "\<exists>s. MigrateData t env (print4 bs @ ''/32'') blank = (Inr (), s) \<and> st_applied s = [(1, Succeeded)] \<and>
     dhcp (cn_db (st_conn s)) = [\<lparr>d_id = 1, d_first = 1, d_last = 0\<rparr>]"
proof -
  have d: "''/'' @ appendDecimal 32 = ''/32''" by (simp add: appendDecimal_def digit_def char_of_def bit_0)
  have "poolRange t env (print4 bs @ ''/32'') = (1, 0)"
    using usable_range [OF assms(2) _ _ _ refl, of 32 0 "num_of bs 0" t, unfolded d] assms(1)
    by (simp add: poolRange_def orEmpty_def numOf_def ip_law_def)
  from migrate_blank [OF this] show ?thesis by (simp add: empty_db_def)
qed

theorem slash32_pool_inverted_witness:
  "\<exists>s. MigrateData ex_text6 goEnv (print4 [10, 8, 3, 9] @ ''/32'') blank = (Inr (), s) \<and>
     dhcp (cn_db (st_conn s)) = [\<lparr>d_id = 1, d_first = 1, d_last = 0\<rparr>]"
  using slash32_pool_inverted [OF goEnv_law, of "[10, 8, 3, 9]" ex_text6] by auto

end
