(* ===== verification/Checksum.thy ===== *)
theory Checksum
  imports Prelude
begin

unbundle bit_operations_syntax

text \<open>
  The Internet checksum code: the incremental RFC 1624 updates of
  \<^verbatim>\<open>xdp/snat.go\<close> and \<^verbatim>\<open>xdp/xdp.c\<close>, the full header checksum of \<^verbatim>\<open>xdp/conn.go\<close>, and
  the sum helpers of \<^verbatim>\<open>utility/tun_gso.go\<close>. The reference notion is the sum of the
  16-bit words of a byte string as a natural number (\<open>wsum\<close>): a checksummed
  region is valid when that sum is a positive multiple of 65535, which is what a
  receiver that folds it to \<open>0xffff\<close> tests.
\<close>

subsection \<open>The code\<close>

text \<open>The carry-folding loop \<^verbatim>\<open>for s>>16 != 0 { s = (s & 0xffff) + (s >> 16) }\<close>.\<close>

function fold16 :: "u32 \<Rightarrow> u16" where
  "fold16 ac =
     (if drop_bit 16 ac \<noteq> 0 then fold16 ((ac AND 0xffff) + drop_bit 16 ac) else ucast ac)"
  by pat_completeness auto

lemma unat_drop16: "unat (drop_bit 16 (x :: u32)) = unat x div 65536"
  by (simp add: drop_bit_eq_div unat_div)

lemma unat_and_ffff: "unat ((x :: u32) AND 0xffff) = unat x mod 65536"
proof -
  have "x AND 0xffff = take_bit 16 x"
    by (simp add: take_bit_eq_mask mask_numeral)
  then show ?thesis by (simp add: take_bit_eq_mod unat_mod)
qed

lemma unat_fold_step:
  "unat (((x :: u32) AND 0xffff) + drop_bit 16 x) = unat x mod 65536 + unat x div 65536"
proof -
  have "unat x div 65536 < 65536" "unat x mod 65536 < 65536"
    using unat_u32_less [of x] by (auto simp: less_mult_imp_div_less)
  then have "unat x mod 65536 + unat x div 65536 < 2 ^ LENGTH(32)" by simp
  then show ?thesis
    by (simp add: unat_word_ariths(1) unat_and_ffff unat_drop16 take_bit_eq_mod)
qed

lemma drop16_nonzero: "drop_bit 16 (x :: u32) \<noteq> 0 \<longleftrightarrow> 65536 \<le> unat x"
proof -
  have "drop_bit 16 x = 0 \<longleftrightarrow> unat (drop_bit 16 x) = 0" by (simp add: unat_eq_zero)
  also have "\<dots> \<longleftrightarrow> unat x < 65536" by (simp add: unat_drop16 div_eq_0_iff)
  finally show ?thesis by auto
qed

termination fold16
proof (relation "measure unat")
  fix ac :: u32
  assume "drop_bit 16 ac \<noteq> 0"
  then have "65536 \<le> unat ac" by (simp add: drop16_nonzero)
  then have "unat ac mod 65536 + unat ac div 65536 < unat ac"
    using div_mult_mod_eq [of "unat ac" 65536] by linarith
  then show "((ac AND 0xffff) + drop_bit 16 ac, ac) \<in> measure unat"
    by (simp only: in_measure unat_fold_step)
qed simp

declare fold16.simps [simp del]


text \<open>\<^verbatim>\<open>CsumUpdate16\<close> and \<^verbatim>\<open>CsumUpdate32\<close> of \<^verbatim>\<open>xdp/snat.go\<close>.\<close>

definition CsumUpdate16 :: "u16 \<Rightarrow> u16 \<Rightarrow> u16 \<Rightarrow> u16" where
  "CsumUpdate16 csum old new =
     NOT (fold16 (ucast (NOT csum) + ucast (NOT old) + ucast new))"

definition CsumUpdate32 :: "u16 \<Rightarrow> u32 \<Rightarrow> u32 \<Rightarrow> u16" where
  "CsumUpdate32 csum old new =
     (let csum = CsumUpdate16 csum (hi16 old) (hi16 new)
      in CsumUpdate16 csum (lo16 old) (lo16 new))"

text \<open>\<^verbatim>\<open>sum16\<close> of \<^verbatim>\<open>utility/tun_gso.go\<close>: a trailing odd byte is the high half of a word.\<close>

fun sum16 :: "bytes \<Rightarrow> u32 \<Rightarrow> u32" where
  "sum16 (a # b # r) ac = sum16 r (ac + ucast (be16 a b))"
| "sum16 [a] ac = ac + ucast (be16 a 0)"
| "sum16 [] ac = ac"

definition tcpPseudoSeedV4 :: "bytes \<Rightarrow> bytes \<Rightarrow> u16 \<Rightarrow> u16" where
  "tcpPseudoSeedV4 srcIP dstIP tcpLen =
     (let ac = sum16 srcIP 0;
          ac = sum16 dstIP ac;
          ac = ac + 6;
          ac = ac + ucast tcpLen
      in fold16 ac)"

text \<open>\<^verbatim>\<open>ipv4Checksum\<close> of \<^verbatim>\<open>xdp/conn.go\<close>: whole 16-bit words only.\<close>

fun ipv4_words :: "bytes \<Rightarrow> u32 \<Rightarrow> u32" where
  "ipv4_words (a # b # r) acc = ipv4_words r (acc + ucast (be16 a b))"
| "ipv4_words _ acc = acc"

definition ipv4Checksum :: "bytes \<Rightarrow> u16" where
  "ipv4Checksum hdr = NOT (fold16 (ipv4_words hdr 0))"

text \<open>
  \<^verbatim>\<open>csum_replace4\<close> and \<^verbatim>\<open>csum_replace2\<close> of \<^verbatim>\<open>xdp/xdp.c\<close>. The BPF program loads the
  packet's big-endian fields with a little-endian host load, so their arguments
  are byte-swapped (\<open>swap16\<close>, \<open>swap32\<close>); \<^verbatim>\<open>csum_replace2\<close> keeps its accumulator in
  16 bits and adds the carry of each addition back.
\<close>

definition swap16 :: "u16 \<Rightarrow> u16" where
  "swap16 w = be16 (lo8 w) (hi8 w)"

definition swap32 :: "u32 \<Rightarrow> u32" where
  "swap32 w = be32 (swap16 (lo16 w)) (swap16 (hi16 w))"

definition csum_replace4 :: "u16 \<Rightarrow> u32 \<Rightarrow> u32 \<Rightarrow> u16" where
  "csum_replace4 csum old new =
     (let tmp = NOT (ucast csum :: u32) AND 0xffff;
          tmp = tmp + (NOT old AND 0xffff);
          tmp = tmp + (NOT (drop_bit 16 old) AND 0xffff);
          tmp = tmp + (new AND 0xffff);
          tmp = tmp + (drop_bit 16 new AND 0xffff);
          tmp = (tmp AND 0xffff) + drop_bit 16 tmp;
          tmp = (tmp AND 0xffff) + drop_bit 16 tmp
      in ucast (NOT tmp))"

definition csum_replace2 :: "u16 \<Rightarrow> u16 \<Rightarrow> u16 \<Rightarrow> u16" where
  "csum_replace2 sm old new =
     (let csum = NOT sm;
          csum = csum + NOT old;
          csum = csum + (if csum < NOT old then 1 else 0);
          csum = csum + new;
          csum = csum + (if csum < new then 1 else 0)
      in NOT csum)"

subsection \<open>The reference sum\<close>

fun wsum :: "bytes \<Rightarrow> nat" where
  "wsum (a # b # r) = unat (be16 a b) + wsum r"
| "wsum [a] = unat (be16 a 0)"
| "wsum [] = 0"

definition csum_valid :: "nat \<Rightarrow> bool" where
  "csum_valid n \<longleftrightarrow> 0 < n \<and> n mod 65535 = 0"

subsection \<open>Folding keeps the sum modulo 65535\<close>

lemma fold16_mod: "unat (fold16 x) mod 65535 = unat x mod 65535"
proof (induction x rule: fold16.induct)
  case (1 ac)
  show ?case
  proof (cases "drop_bit 16 ac \<noteq> 0")
    case True
    have "unat ac = unat ac mod 65536 + unat ac div 65536 + unat ac div 65536 * 65535"
      using div_mult_mod_eq [of "unat ac" 65536] by linarith
    then have "(unat ac mod 65536 + unat ac div 65536) mod 65535 = unat ac mod 65535"
      by (metis mod_mult_self1)
    with "1.IH" [OF True] True show ?thesis
      by (simp add: fold16.simps [of ac] unat_fold_step)
  next
    case False
    then have "unat ac < 65536" using drop16_nonzero [of ac] by linarith
    with False show ?thesis
      by (simp add: fold16.simps [of ac] unsigned_ucast_eq take_bit_eq_mod)
  qed
qed

lemma fold16_zero_iff: "fold16 x = 0 \<longleftrightarrow> x = 0"
proof (induction x rule: fold16.induct)
  case (1 ac)
  show ?case
  proof (cases "drop_bit 16 ac \<noteq> 0")
    case True
    then have "65536 \<le> unat ac" by (simp only: drop16_nonzero)
    then have "unat ac mod 65536 + unat ac div 65536 \<noteq> 0" and "ac \<noteq> 0"
      by (auto simp: div_eq_0_iff)
    with "1.IH" [OF True] True show ?thesis
      by (metis fold16.simps unat_0 unat_fold_step)
  next
    case False
    then have "unat ac < 65536" using drop16_nonzero [of ac] by linarith
    with False show ?thesis
      by (simp add: fold16.simps [of ac] unat_eq_zero [symmetric] unsigned_ucast_eq take_bit_eq_mod)
  qed
qed

lemma fold16_ffff: "unat x mod 65535 = 0 \<Longrightarrow> x \<noteq> 0 \<Longrightarrow> fold16 x = 0xffff"
proof -
  assume "unat x mod 65535 = 0" and "x \<noteq> 0"
  then have "unat (fold16 x) mod 65535 = 0" and "fold16 x \<noteq> 0"
    by (simp_all add: fold16_mod fold16_zero_iff)
  then have "\<not> unat (fold16 x) < 65535" by (auto simp: unat_eq_zero)
  then have "unat (fold16 x) = 65535" using unat_u16_less [of "fold16 x"] by linarith
  then show ?thesis by (simp add: word_unat_eq_iff)
qed


subsection \<open>The incremental updates are exact modulo 65535\<close>

lemma unat_not16: "unat (NOT (w :: u16)) = 65535 - unat w"
  by (simp add: unat_not)

lemma rfc1624_arith:
  fixes c d n s f :: nat
  assumes "c < 65536" "d < 65536" "f < 65536"
    and s: "s = (65535 - c) + (65535 - d) + n" and f: "f mod 65535 = s mod 65535"
  shows "(65535 - f + n) mod 65535 = (c + d) mod 65535"
proof -
  obtain k where k: "int f = int s + 65535 * k"
    using f unfolding nat_mod_eq_iff_int of_nat_numeral by blast
  have "int s = (65535 - int c) + (65535 - int d) + int n" "int (65535 - f) = 65535 - int f"
    using assms(1-4) by linarith+
  with k have "int (65535 - f + n) = int (c + d) + 65535 * (- 1 - k)"
    by (simp add: algebra_simps)
  then show ?thesis
    unfolding nat_mod_eq_iff_int of_nat_numeral by (rule exI [of _ "- 1 - k"])
qed

lemma CsumUpdate16_mod:
  "(unat (CsumUpdate16 c old new) + unat new) mod 65535 = (unat c + unat old) mod 65535"
proof -
  define s :: u32 where "s = ucast (NOT c) + ucast (NOT old) + ucast new"
  define f where "f = unat (fold16 s)"
  have b: "unat c < 65536" "unat old < 65536" "unat new < 65536" "f < 65536"
    by (simp_all add: f_def)
  have "unat s = ((65535 - unat c) + (65535 - unat old) + unat new) mod 4294967296"
    by (simp add: s_def unat_word_ariths(1) unat_ucast_up unat_not16 mod_simps)
  also have "\<dots> = (65535 - unat c) + (65535 - unat old) + unat new"
    by (rule mod_less) (use b in linarith)
  finally have "(65535 - f + unat new) mod 65535 = (unat c + unat old) mod 65535"
    using b fold16_mod [of s] unfolding f_def by (intro rfc1624_arith)
  then show ?thesis
    by (simp only: CsumUpdate16_def unat_not16 f_def s_def)
qed

lemma CsumUpdate32_mod:
  "(unat (CsumUpdate32 c old new) + unat (hi16 new) + unat (lo16 new)) mod 65535
   = (unat c + unat (hi16 old) + unat (lo16 old)) mod 65535"
proof -
  let ?c = "CsumUpdate16 c (hi16 old) (hi16 new)"
  show ?thesis
    using CsumUpdate16_mod [of c "hi16 old" "hi16 new"] CsumUpdate16_mod [of ?c "lo16 old" "lo16 new"]
    unfolding CsumUpdate32_def Let_def by (rule mod_eq_chain)
qed

lemma sum_mod_cancel: "(a + n) mod m = (b + n) mod m \<Longrightarrow> a mod m = b mod m" for a b n m :: nat
proof -
  assume "(a + n) mod m = (b + n) mod m"
  then obtain k where "int (a + n) = int (b + n) + int m * k" unfolding nat_mod_eq_iff_int by blast
  then have "int a = int b + int m * k" by simp
  then show ?thesis unfolding nat_mod_eq_iff_int by blast
qed

text \<open>The update never produces \<^verbatim>\<open>0xffff\<close> from a non-zero new word; zero comes out as 0.\<close>

lemma CsumUpdate16_not_ffff: "new \<noteq> 0 \<Longrightarrow> CsumUpdate16 c old new \<noteq> 0xffff"
proof
  assume n: "new \<noteq> 0" and "CsumUpdate16 c old new = 0xffff"
  then have "unat (NOT (fold16 (ucast (NOT c) + ucast (NOT old) + ucast new))) = 65535"
    by (simp add: CsumUpdate16_def)
  then have "unat (fold16 (ucast (NOT c) + ucast (NOT old) + ucast new)) = 0"
    using unat_u16_less [of "fold16 (ucast (NOT c) + ucast (NOT old) + ucast new)"]
    unfolding unat_not16 by linarith
  then have z: "(ucast (NOT c) + ucast (NOT old) + ucast new :: u32) = 0"
    by (simp only: unat_eq_zero fold16_zero_iff)
  have b: "unat c < 65536" "unat old < 65536" "unat new < 65536" by simp_all
  have "unat (ucast (NOT c) + ucast (NOT old) + ucast new :: u32)
      = ((65535 - unat c) + (65535 - unat old) + unat new) mod 4294967296"
    by (simp add: unat_word_ariths(1) unat_ucast_up unat_not16 mod_simps)
  also have "\<dots> = (65535 - unat c) + (65535 - unat old) + unat new"
    by (rule mod_less) (use b in linarith)
  finally have "unat new = 0" unfolding z by simp
  with n show False by (simp add: unat_eq_zero)
qed

lemma csum_zero_or_ffff: "unat (c :: u16) mod 65535 = 0 \<Longrightarrow> c = 0 \<or> c = 0xffff"
proof -
  assume z: "unat c mod 65535 = 0"
  have "unat c = 0 \<or> unat c = 65535"
  proof (cases "unat c < 65535")
    case False
    then show ?thesis using unat_u16_less [of c] by linarith
  qed (use z in simp)
  then show ?thesis
  proof
    assume "unat c = 65535"
    then have "c = 0xffff" by (intro word_unat_eq_iff [THEN iffD2]) simp
    then show ?thesis by simp
  qed (simp add: unat_eq_zero)
qed

lemma unat_sum16: "unat (sum16 b ac) = (unat ac + wsum b) mod 4294967296"
proof (induction b ac rule: sum16.induct)
  case (1 a b r ac)
  then show ?case
    by (simp add: unat_word_ariths(1) unat_ucast_up mod_simps add.assoc)
next
  case (2 a ac)
  then show ?case
    by (simp add: unat_word_ariths(1) unat_ucast_up)
next
  case (3 ac)
  then show ?case by simp
qed


lemma unat_ipv4_words: "even (length b) \<Longrightarrow> unat (ipv4_words b ac) = (unat ac + wsum b) mod 4294967296"
proof (induction b ac rule: ipv4_words.induct)
  case (1 a b r acc)
  then show ?case
    by (simp add: unat_word_ariths(1) unat_ucast_up mod_simps add.assoc)
qed (auto)

subsection \<open>The reference sum of concatenations and updates\<close>

lemma wsum_append: "even (length a) \<Longrightarrow> wsum (a @ b) = wsum a + wsum b"
  by (induction a rule: wsum.induct) auto

lemma wsum_bound: "wsum b \<le> 65535 * ((length b + 1) div 2)"
proof (induction b rule: wsum.induct)
  case (1 a b r)
  have "unat (be16 a b) \<le> 65535" using unat_u16_less [of "be16 a b"] by linarith
  with 1 show ?case by simp
next
  case (2 a)
  have "unat (be16 a 0) \<le> 65535" using unat_u16_less [of "be16 a 0"] by linarith
  then show ?case by simp
qed simp

lemma wsum_put16:
  "even i \<Longrightarrow> i + 1 < length b \<Longrightarrow>
   wsum (put16 b i v) + unat (get16 b i) = wsum b + unat v"
proof (induction b arbitrary: i rule: wsum.induct)
  case (1 x y r)
  show ?case
  proof (cases "i = 0")
    case True
    then show ?thesis by (simp add: put16_def get16_def)
  next
    case False
    moreover have "i \<noteq> 1" using "1.prems"(1) by auto
    ultimately have "2 \<le> i" by linarith
    then obtain j where i: "i = Suc (Suc j)" using le_Suc_ex [of 2 i] by auto
    have "wsum (put16 r j v) + unat (get16 r j) = wsum r + unat v"
      using "1.prems" i by (intro "1.IH") simp_all
    then show ?thesis using i by (simp add: put16_def get16_def)
  qed
qed auto

lemma wsum_put32:
  assumes "even i" "i + 3 < length b"
  shows "wsum (put32 b i v) + (unat (hi16 (get32 b i)) + unat (lo16 (get32 b i)))
       = wsum b + (unat (hi16 v) + unat (lo16 v))"
  using wsum_put16 [of i b "hi16 v"] wsum_put16 [of "i + 2" "put16 b i (hi16 v)" "lo16 v"] assms
  by (simp add: put32_def get32_def get16_put16_other)

lemma slice_put16_inside:
  "lo \<le> i \<Longrightarrow> i + 2 \<le> hi \<Longrightarrow> slice (put16 b i v) lo hi = put16 (slice b lo hi) (i - lo) v"
  by (simp add: slice_def put16_def drop_update_swap take_update_swap Suc_diff_le)

lemma slice_put16_outside:
  "i + 2 \<le> lo \<or> hi \<le> i \<Longrightarrow> slice (put16 b i v) lo hi = slice b lo hi"
  by (auto simp: slice_def put16_def list_eq_iff_nth_eq)

lemma slice_put32_inside:
  "lo \<le> i \<Longrightarrow> i + 4 \<le> hi \<Longrightarrow> slice (put32 b i v) lo hi = put32 (slice b lo hi) (i - lo) v"
  by (simp add: put32_def slice_put16_inside Suc_diff_le)

lemma slice_put32_outside:
  "i + 4 \<le> lo \<or> hi \<le> i \<Longrightarrow> slice (put32 b i v) lo hi = slice b lo hi"
  by (auto simp: put32_def slice_put16_outside)

lemma get16_slice: "lo \<le> i \<Longrightarrow> i + 2 \<le> hi \<Longrightarrow> hi \<le> length b \<Longrightarrow> get16 (slice b lo hi) (i - lo) = get16 b i"
  by (simp add: get16_def slice_def)

lemma get32_slice:
  assumes "lo \<le> i" "i + 4 \<le> hi" "hi \<le> length b"
  shows "get32 (slice b lo hi) (i - lo) = get32 b i"
  using assms get16_slice [of lo i hi b] get16_slice [of lo "i + 2" hi b]
  by (simp add: get32_def Suc_diff_le)

subsection \<open>The checksum code of the XDP program\<close>

lemma end_around_carry:
  fixes a b :: u16
  defines "s \<equiv> a + b"
  shows "unat (s + (if s < b then 1 else 0)) mod 65535 = (unat a + unat b) mod 65535"
proof -
  have ba: "unat a < 65536" "unat b < 65536" by simp_all
  have u: "unat s = (unat a + unat b) mod 65536"
    by (simp add: s_def unat_word_ariths(1))
  show ?thesis
  proof (cases "unat a + unat b < 65536")
    case True
    then have "unat s = unat a + unat b" using u by (simp only: mod_less)
    then show ?thesis by (simp add: word_less_nat_alt)
  next
    case False
    then have us: "unat s = unat a + unat b - 65536"
    proof -
      have "(unat a + unat b) mod 65536 = (unat a + unat b - 65536) mod 65536"
        using False by (simp only: mod_if [of "unat a + unat b" 65536] if_False)
      also have "\<dots> = unat a + unat b - 65536" by (rule mod_less) (use ba in linarith)
      finally show ?thesis using u by (simp only:)
    qed
    then have "unat s < unat b" using False ba by linarith
    then have "s < b" by (simp only: word_less_nat_alt)
    moreover have "unat (s + 1) = unat s + 1"
    proof -
      have "unat s + 1 < 65536" using us ba False by linarith
      then show ?thesis by (simp add: unat_word_ariths(1))
    qed
    moreover have "unat a + unat b = unat s + 1 + 65535" using us False by linarith
    ultimately show ?thesis by (simp only: if_True mod_add_self2)
  qed
qed

lemma csum_replace2_mod:
  "(unat (csum_replace2 c old new) + unat new) mod 65535 = (unat c + unat old) mod 65535"
proof -
  define s1 where "s1 = (let t = NOT c + NOT old in t + (if t < NOT old then 1 else 0))"
  define s2 where "s2 = (let t = s1 + new in t + (if t < new then 1 else 0))"
  have r: "csum_replace2 c old new = NOT s2"
    by (simp add: csum_replace2_def s1_def s2_def Let_def)
  have 1: "unat s1 mod 65535 = (unat (NOT c) + unat (NOT old)) mod 65535"
    unfolding s1_def Let_def by (rule end_around_carry)
  have 2: "unat s2 mod 65535 = (unat s1 + unat new) mod 65535"
    unfolding s2_def Let_def by (rule end_around_carry)
  have "unat s2 mod 65535 = (65535 - unat c + (65535 - unat old) + unat new) mod 65535"
    using 1 2 mod_add_left_eq [of "unat s1" 65535 "unat new"]
      mod_add_left_eq [of "65535 - unat c + (65535 - unat old)" 65535 "unat new"]
    by (simp only: unat_not16)
  then have "(65535 - unat s2 + unat new) mod 65535 = (unat c + unat old) mod 65535"
    by (intro rfc1624_arith [where s = "65535 - unat c + (65535 - unat old) + unat new"]) simp_all
  then show ?thesis by (simp only: r unat_not16)
qed

lemma unat_not_and_ffff: "unat (NOT (x :: u32) AND 0xffff) = 65535 - unat x mod 65536"
proof -
  define q r where "q = unat x div 65536" and "r = unat x mod 65536"
  have x: "unat x = q * 65536 + r" and r: "r < 65536" and q: "q < 65536"
    using unat_u32_less [of x] by (simp_all add: q_def r_def less_mult_imp_div_less)
  have "4294967295 - unat x = (65535 - r) + (65535 - q) * 65536"
    using x r q by linarith
  then have "(4294967295 - unat x) mod 65536 = 65535 - r"
    by (simp only: mod_mult_self1) simp
  then show ?thesis by (simp add: unat_and_ffff unat_not r_def)
qed

lemma fold_twice:
  assumes "unat (t :: u32) < 5 * 65536"
  defines "f \<equiv> \<lambda>t :: u32. (t AND 0xffff) + drop_bit 16 t"
  shows "unat (f (f t)) < 65536" and "unat (f (f t)) mod 65535 = unat t mod 65535"
proof -
  have step: "unat (f t) = unat t mod 65536 + unat t div 65536" for t
    by (simp only: f_def unat_fold_step)
  have m: "unat (f t) mod 65535 = unat t mod 65535" for t
  proof -
    have "unat t = unat t mod 65536 + unat t div 65536 + unat t div 65536 * 65535"
      using div_mult_mod_eq [of "unat t" 65536] by linarith
    then show ?thesis using step by (metis mod_mult_self1)
  qed
  show "unat (f (f t)) mod 65535 = unat t mod 65535" by (simp only: m)
  have "unat t div 65536 < 5" using assms(1) by (simp add: less_mult_imp_div_less)
  then have b1: "unat (f t) < 65536 + 4" using step [of t] mod_less_divisor [of 65536 "unat t"] by linarith
  show "unat (f (f t)) < 65536"
  proof (cases "unat (f t) < 65536")
    case True
    then show ?thesis using step [of "f t"] by (simp only: mod_less div_less)
  next
    case False
    then obtain d where "unat (f t) = d + 65536" "d < 4"
      using b1 le_Suc_ex [of 65536 "unat (f t)"] by (auto simp: add.commute)
    then show ?thesis using step [of "f t"] by simp
  qed
qed

lemma csum_replace4_mod:
  "(unat (csum_replace4 c old new) + unat (hi16 new) + unat (lo16 new)) mod 65535
   = (unat c + unat (hi16 old) + unat (lo16 old)) mod 65535"
proof -
  define t :: u32 where "t = (NOT (ucast c) AND 0xffff) + (NOT old AND 0xffff)
    + (NOT (drop_bit 16 old) AND 0xffff) + (new AND 0xffff) + (drop_bit 16 new AND 0xffff)"
  define f where "f = (\<lambda>t :: u32. (t AND 0xffff) + drop_bit 16 t)"
  have b: "unat c < 65536" "unat (hi16 old) < 65536" "unat (lo16 old) < 65536"
    "unat (hi16 new) < 65536" "unat (lo16 new) < 65536" by simp_all
  have p: "unat (NOT (ucast c :: u32) AND 0xffff) = 65535 - unat c"
    "unat (NOT old AND 0xffff) = 65535 - unat (lo16 old)"
    "unat (NOT (drop_bit 16 old) AND 0xffff) = 65535 - unat (hi16 old)"
    using unat_u32_less [of old]
    by (simp_all only: unat_not_and_ffff unat_lo16 unat_hi16 unat_drop16)
      (simp_all add: unat_ucast_up less_mult_imp_div_less)
  have p': "unat (new AND 0xffff) = unat (lo16 new)" "unat (drop_bit 16 new AND 0xffff) = unat (hi16 new)"
    using unat_u32_less [of new]
    by (simp_all add: unat_lo16 unat_hi16 unat_drop16 unat_and_ffff less_mult_imp_div_less)
  let ?s = "(65535 - unat c) + (65535 - unat (lo16 old)) + (65535 - unat (hi16 old))
      + unat (lo16 new) + unat (hi16 new)"
  have "unat t = ?s mod 4294967296"
    by (simp only: t_def unat_word_ariths(1) p p' mod_simps) simp
  also have "\<dots> = ?s" by (rule mod_less) (use b in linarith)
  finally have ut: "unat t = ?s" .
  then have "unat t < 5 * 65536" using b by linarith
  then have ff: "unat (f (f t)) < 65536" "unat (f (f t)) mod 65535 = unat t mod 65535"
    unfolding f_def by (rule fold_twice)+
  have "csum_replace4 c old new = ucast (NOT (f (f t)))"
    by (simp add: csum_replace4_def t_def f_def Let_def)
  then have r: "unat (csum_replace4 c old new) = 65535 - unat (f (f t))"
    using ff(1) unat_not_and_ffff [of "f (f t)"]
    by (simp add: unsigned_ucast_eq take_bit_eq_mod unat_and_ffff)
  obtain k where k: "int (unat (f (f t))) = int (unat t) + 65535 * k"
    using ff(2) unfolding nat_mod_eq_iff_int of_nat_numeral by blast
  have "int (unat (csum_replace4 c old new)) = 65535 - int (unat (f (f t)))"
    using r ff(1) by linarith
  moreover have "int (unat t) = 3 * 65535 - int (unat c) - int (unat (lo16 old)) - int (unat (hi16 old))
      + int (unat (lo16 new)) + int (unat (hi16 new))"
    using ut b by linarith
  ultimately have "int (unat (csum_replace4 c old new) + unat (hi16 new) + unat (lo16 new))
     = int (unat c + unat (hi16 old) + unat (lo16 old)) + 65535 * (- 2 - k)"
    using k by (simp add: algebra_simps)
  then show ?thesis
    unfolding nat_mod_eq_iff_int of_nat_numeral by (rule exI [of _ "- 2 - k"])
qed

text \<open>
  Loading a field with the other byte order multiplies every word by 256 modulo
  65535 (RFC 1071), and 256 is its own inverse there: a congruence between
  swapped words is one between the words.
\<close>

lemma swap16_swap16 [simp]: "swap16 (swap16 w) = w"
  by (simp add: swap16_def)

lemma swap16_eq_0 [simp]: "swap16 w = 0 \<longleftrightarrow> w = 0"
  by (metis swap16_swap16 swap16_def be16_def hi8_def lo8_def unat_0 div_0 mod_0 of_nat_0 mult_0 add_0)

lemma swap16_0 [simp]: "swap16 0 = 0"
  by (simp only: swap16_eq_0)

lemma swap16_inject [simp]: "swap16 a = swap16 b \<longleftrightarrow> a = b"
  by (metis swap16_swap16)

lemma swap32_swap32 [simp]: "swap32 (swap32 w) = w"
  by (simp add: swap32_def)

lemma swap16_mod: "unat (swap16 w) mod 65535 = (256 * unat w) mod 65535"
proof -
  have "unat (swap16 w) = unat w mod 256 * 256 + unat w div 256"
    by (simp add: swap16_def unat_be16 unat_hi8 unat_lo8)
  then have "256 * unat w = unat (swap16 w) + 65535 * (unat w div 256)"
    using div_mult_mod_eq [of "unat w" 256] by linarith
  then show ?thesis by (simp only: mod_mult_self2)
qed

lemma unswap16_mod: "(256 * unat (swap16 w)) mod 65535 = unat w mod 65535"
  using swap16_mod [of "swap16 w"] by (simp only: swap16_swap16)

lemma swapped_congruence3:
  assumes "(unat (swap16 a) + unat (swap16 b) + unat (swap16 x)) mod 65535
         = (unat (swap16 c) + unat (swap16 d) + unat (swap16 y)) mod 65535"
  shows "(unat a + unat b + unat x) mod 65535 = (unat c + unat d + unat y) mod 65535"
proof -
  have s: "(256 * (unat (swap16 x) + unat (swap16 y) + unat (swap16 z))) mod 65535
      = (unat x + unat y + unat z) mod 65535" for x y z
    unfolding distrib_left by (intro mod_add_cong unswap16_mod)
  have "(256 * (unat (swap16 a) + unat (swap16 b) + unat (swap16 x))) mod 65535
      = (256 * (unat (swap16 c) + unat (swap16 d) + unat (swap16 y))) mod 65535"
    using assms by (rule mod_mult_cong [OF refl])
  then show ?thesis by (simp only: s)
qed

lemma swapped_congruence:
  "(unat (swap16 a) + unat (swap16 b)) mod 65535 = (unat (swap16 c) + unat (swap16 d)) mod 65535 \<Longrightarrow>
   (unat a + unat b) mod 65535 = (unat c + unat d) mod 65535"
  using swapped_congruence3 [of a b 0 c d 0] by simp

lemma csum_replace2_swapped:
  "(unat (swap16 (csum_replace2 (swap16 c) (swap16 old) (swap16 new))) + unat new) mod 65535
   = (unat c + unat old) mod 65535"
  by (rule swapped_congruence) (simp add: csum_replace2_mod)

lemma csum_replace4_swapped:
  "(unat (swap16 (csum_replace4 (swap16 c) (swap32 old) (swap32 new))) + unat (lo16 new) + unat (hi16 new)) mod 65535
   = (unat c + unat (lo16 old) + unat (hi16 old)) mod 65535"
  by (rule swapped_congruence3) (use csum_replace4_mod [of "swap16 c" "swap32 old" "swap32 new"] in \<open>simp add: swap32_def\<close>)

text \<open>Storing the complemented folded sum of a header makes its checksum valid.\<close>

lemma stored_checksum_valid:
  assumes i: "even i" "i + 1 < length h" and s: "unat s = wsum (put16 h i 0)" "0 < unat s"
  shows "csum_valid (wsum (put16 h i (NOT (fold16 s))))"
proof -
  let ?f = "unat (fold16 s)"
  have w: "wsum (put16 h i (NOT (fold16 s))) = unat s + (65535 - ?f)"
    using wsum_put16 [of i "put16 h i 0" "NOT (fold16 s)"] i s(1)
    by (simp add: get16_put16_same unat_not16)
  have f: "?f \<le> 65535" using unat_u16_less [of "fold16 s"] by linarith
  have "(unat s + (65535 - ?f)) mod 65535 = (?f + (65535 - ?f)) mod 65535"
    by (metis fold16_mod mod_add_left_eq)
  then show ?thesis using w f s(2) by (simp add: csum_valid_def)
qed

lemma wsum_fits: "length b \<le> 131072 \<Longrightarrow> wsum b < 4294967296"
  using wsum_bound [of b] by simp

lemma wsum_pos: "even i \<Longrightarrow> i < length b \<Longrightarrow> b ! i \<noteq> 0 \<Longrightarrow> 0 < wsum b"
proof (induction b arbitrary: i rule: wsum.induct)
  case (1 x y r)
  show ?case
  proof (cases "i = 0")
    case True
    then have "unat x \<noteq> 0" using 1 by (simp add: unat_eq_zero)
    then show ?thesis by (simp add: unat_be16)
  next
    case False
    then obtain j where "i = Suc (Suc j)" using 1 by (cases i; cases "i - 1") auto
    then show ?thesis using 1 by auto
  qed
next
  case (2 x)
  then have "unat x \<noteq> 0" by (simp add: unat_eq_zero)
  then show ?case by (simp add: unat_be16)
qed simp

end
