(* ===== verification/NatTable.thy ===== *)
theory NatTable
  imports Checksum
begin

text \<open>
  The source-NAT port allocator of \<^verbatim>\<open>xdp/nat.go\<close>.

  \<^verbatim>\<open>NatTable\<close> keeps two maps: the pinned BPF hash map from a reverse key (WAN
  address and port, remote address and port, protocol) to the client behind it,
  and the in-process map \<^verbatim>\<open>fwd\<close> from a client flow to its WAN port. The BPF map is
  kernel code: its contents are a field of the state, its \<^verbatim>\<open>Lookup\<close> and \<^verbatim>\<open>Delete\<close>
  read and remove one key, and its \<^verbatim>\<open>Put\<close>, which can fail and which on an LRU map
  can evict other keys, is an argument of the operations that call it. The
  monotonic clock and the entries an iteration yields are arguments as well.
  The mutex \<^verbatim>\<open>mu\<close> makes each operation one step.
\<close>

subsection \<open>State\<close>

record NatRevKey =
  WanIP :: ip4
  DstIP :: ip4
  WanPort :: u16
  DstPort :: u16
  Proto :: byte

record NatRevVal =
  ClientIP :: ip4
  ClientPort :: u16
  LastSeenNs :: u64

record flowKey =
  fk_clientIP :: ip4
  fk_dstIP :: ip4
  fk_clientPort :: u16
  fk_dstPort :: u16
  fk_proto :: byte

type_synonym natmap = "NatRevKey \<Rightarrow> NatRevVal option"
type_synonym bpf_put = "natmap \<Rightarrow> NatRevKey \<Rightarrow> NatRevVal \<Rightarrow> natmap option"

record NatTable =
  nt_m :: natmap
  nextPort :: u32
  fwd :: "flowKey \<Rightarrow> u16 option"

datatype nat_error = MapPutFailed | PortPoolExhausted | KeyNotExist

definition idleTimeout :: u64 where "idleTimeout = 120000000000"
definition snatPortMin :: u32 where "snatPortMin = 61000"
definition snatPortMax :: u32 where "snatPortMax = 65535"
definition rangeSize :: nat where "rangeSize = unat (snatPortMax - snatPortMin + 1)"

subsection \<open>Operations\<close>

text \<open>\<^verbatim>\<open>hostToNet16\<close> on the little-endian targets the BPF objects are built for.\<close>

definition hostToNet16 :: "u16 \<Rightarrow> u16" where
  "hostToNet16 v = swap16 v"

definition makeNatKey :: "ip4 \<Rightarrow> u16 \<Rightarrow> byte \<Rightarrow> ip4 \<Rightarrow> u16 \<Rightarrow> NatRevKey" where
  "makeNatKey wanIP wanPort proto dstIP dstPort =
     \<lparr>WanIP = wanIP, DstIP = dstIP, WanPort = hostToNet16 wanPort,
      DstPort = hostToNet16 dstPort, Proto = proto\<rparr>"

definition makeFlowKey :: "ip4 \<Rightarrow> u16 \<Rightarrow> byte \<Rightarrow> ip4 \<Rightarrow> u16 \<Rightarrow> flowKey" where
  "makeFlowKey clientIP clientPort proto dstIP dstPort =
     \<lparr>fk_clientIP = clientIP, fk_dstIP = dstIP, fk_clientPort = clientPort,
      fk_dstPort = dstPort, fk_proto = proto\<rparr>"

definition flowKeyFromNatEntry :: "NatRevKey \<Rightarrow> NatRevVal \<Rightarrow> flowKey" where
  "flowKeyFromNatEntry key val =
     \<lparr>fk_clientIP = ClientIP val, fk_dstIP = DstIP key,
      fk_clientPort = hostToNet16 (ClientPort val), fk_dstPort = hostToNet16 (DstPort key),
      fk_proto = Proto key\<rparr>"

definition OpenNatTable :: "natmap \<Rightarrow> NatTable" where
  "OpenNatTable pinned = \<lparr>nt_m = pinned, nextPort = snatPortMin, fwd = Map.empty\<rparr>"

text \<open>
  \<^verbatim>\<open>bumpPort\<close> retries a compare-and-swap; its only caller holds the mutex, so
  the first attempt succeeds.
\<close>

definition bumpPort :: "NatTable \<Rightarrow> u16 \<times> NatTable" where
  "bumpPort t =
     (let p = nextPort t;
          next = p + 1;
          next = (if next > snatPortMax then snatPortMin else next)
      in (ucast p, t\<lparr>nextPort := next\<rparr>))"

text \<open>The search loop of the slow path, with the number of iterations left.\<close>

fun allocLoop :: "bpf_put \<Rightarrow> u64 \<Rightarrow> ip4 \<Rightarrow> byte \<Rightarrow> ip4 \<Rightarrow> u16 \<Rightarrow> ip4 \<Rightarrow> u16 \<Rightarrow> nat \<Rightarrow> NatTable
    \<Rightarrow> (nat_error + u16) \<times> NatTable" where
  "allocLoop put now wanIP proto dstIP dstPort clientIP clientPort 0 t =
     (Inl PortPoolExhausted, t)"
| "allocLoop put now wanIP proto dstIP dstPort clientIP clientPort (Suc n) t =
     (let (p, t) = bumpPort t;
          key = makeNatKey wanIP p proto dstIP dstPort
      in case nt_m t key of
           None \<Rightarrow>
             let val = \<lparr>ClientIP = clientIP, ClientPort = hostToNet16 clientPort, LastSeenNs = now\<rparr>
             in (case put (nt_m t) key val of
                   None \<Rightarrow> (Inl MapPutFailed, t)
                 | Some m \<Rightarrow>
                     (Inr p, t\<lparr>nt_m := m,
                        fwd := (fwd t)(makeFlowKey clientIP clientPort proto dstIP dstPort \<mapsto> p)\<rparr>))
         | Some _ \<Rightarrow> allocLoop put now wanIP proto dstIP dstPort clientIP clientPort n t)"

definition AllocPort :: "bpf_put \<Rightarrow> u64 \<Rightarrow> ip4 \<Rightarrow> byte \<Rightarrow> ip4 \<Rightarrow> u16 \<Rightarrow> ip4 \<Rightarrow> u16 \<Rightarrow> NatTable
    \<Rightarrow> (nat_error + u16) \<times> NatTable" where
  "AllocPort put now wanIP proto dstIP dstPort clientIP clientPort t =
     (case fwd t (makeFlowKey clientIP clientPort proto dstIP dstPort) of
        Some wanPort \<Rightarrow> (Inr wanPort, t)
      | None \<Rightarrow> allocLoop put now wanIP proto dstIP dstPort clientIP clientPort rangeSize t)"

definition ReleasePort :: "ip4 \<Rightarrow> u16 \<Rightarrow> byte \<Rightarrow> ip4 \<Rightarrow> u16 \<Rightarrow> NatTable
    \<Rightarrow> (nat_error + unit) \<times> NatTable" where
  "ReleasePort wanIP wanPort proto dstIP dstPort t =
     (let key = makeNatKey wanIP wanPort proto dstIP dstPort
      in case nt_m t key of
           Some val \<Rightarrow>
             (Inr (), t\<lparr>fwd := (fwd t)(flowKeyFromNatEntry key val := None),
                        nt_m := (nt_m t)(key := None)\<rparr>)
         | None \<Rightarrow> (Inl KeyNotExist, t))"

text \<open>
  One entry of the scan of \<^verbatim>\<open>gc\<close>, and the scan over the entries the iterator
  yields.
\<close>

definition gcEntry :: "u64 \<Rightarrow> NatRevKey \<Rightarrow> NatRevVal \<Rightarrow> NatTable \<Rightarrow> NatTable" where
  "gcEntry now key val t =
     (if LastSeenNs val = 0 then t
      else if LastSeenNs val \<ge> now then t
      else if now - LastSeenNs val > idleTimeout
      then t\<lparr>fwd := (fwd t)(flowKeyFromNatEntry key val := None),
             nt_m := (nt_m t)(key := None)\<rparr>
      else t)"

fun gc :: "u64 \<Rightarrow> (NatRevKey \<times> NatRevVal) list \<Rightarrow> NatTable \<Rightarrow> NatTable" where
  "gc now [] t = t"
| "gc now ((key, val) # es) t = gc now es (gcEntry now key val t)"

text \<open>The stamp the XDP program writes into an entry it uses.\<close>

definition touchEntry :: "u64 \<Rightarrow> NatRevKey \<Rightarrow> NatTable \<Rightarrow> NatTable" where
  "touchEntry now key t =
     (case nt_m t key of
        Some val \<Rightarrow> t\<lparr>nt_m := (nt_m t)(key \<mapsto> val\<lparr>LastSeenNs := now\<rparr>)\<rparr>
      | None \<Rightarrow> t)"

subsection \<open>Keys\<close>

lemma hostToNet16_self_inverse [simp]: "hostToNet16 (hostToNet16 v) = v"
  by (simp add: hostToNet16_def)

lemma hostToNet16_inject [simp]: "hostToNet16 a = hostToNet16 b \<longleftrightarrow> a = b"
  by (simp add: hostToNet16_def)

text \<open>The reverse key of a client flow that leaves by WAN address \<open>w\<close> and port \<open>p\<close>.\<close>

definition keyOf :: "ip4 \<Rightarrow> flowKey \<Rightarrow> u16 \<Rightarrow> NatRevKey" where
  "keyOf w fk p = makeNatKey w p (fk_proto fk) (fk_dstIP fk) (fk_dstPort fk)"

lemma keyOf_makeFlowKey [simp]:
  "keyOf w (makeFlowKey cip cport proto dip dport) p = makeNatKey w p proto dip dport"
  by (simp add: keyOf_def makeFlowKey_def)

lemma keyOf_WanIP [simp]: "WanIP (keyOf w fk p) = w"
  by (simp add: keyOf_def makeNatKey_def)

lemma keyOf_WanPort [simp]: "WanPort (keyOf w fk p) = hostToNet16 p"
  by (simp add: keyOf_def makeNatKey_def)

lemma keyOf_entry [simp]:
  "WanIP k = w \<Longrightarrow> keyOf w (flowKeyFromNatEntry k v) (hostToNet16 (WanPort k)) = k"
  by (cases k) (simp add: keyOf_def makeNatKey_def flowKeyFromNatEntry_def)

lemma entry_keyOf:
  "flowKeyFromNatEntry (keyOf w fk p) v = fk \<longleftrightarrow>
   ClientIP v = fk_clientIP fk \<and> ClientPort v = hostToNet16 (fk_clientPort fk)"
  by (cases fk) (auto simp: keyOf_def makeNatKey_def flowKeyFromNatEntry_def)

lemma entry_same_client:
  "ClientIP v = ClientIP v' \<Longrightarrow> ClientPort v = ClientPort v' \<Longrightarrow>
   flowKeyFromNatEntry k v = flowKeyFromNatEntry k v'"
  by (simp add: flowKeyFromNatEntry_def)

subsection \<open>The port counter\<close>

lemma rangeSize_eq [simp]: "rangeSize = 4536"
  by (simp add: rangeSize_def snatPortMax_def snatPortMin_def)

definition port_ok :: "NatTable \<Rightarrow> bool" where
  "port_ok t \<longleftrightarrow> 61000 \<le> unat (nextPort t) \<and> unat (nextPort t) \<le> 65535"

definition portIx :: "NatTable \<Rightarrow> nat" where
  "portIx t = unat (nextPort t) - 61000"

definition portAt :: "nat \<Rightarrow> u16" where
  "portAt i = of_nat (61000 + i mod 4536)"

lemma unat_portAt: "unat (portAt i) = 61000 + i mod 4536"
proof -
  have "i mod 4536 < 4536" by simp
  then have "61000 + i mod 4536 < 2 ^ LENGTH(16)" by simp
  then show ?thesis unfolding portAt_def by (rule unat_of_nat_small)
qed

lemma portAt_mod [simp]: "portAt (i mod 4536) = portAt i"
  by (simp add: portAt_def)

lemma portAt_range: "61000 \<le> unat (portAt i)"
  by (simp add: unat_portAt)

lemma bumpPort_spec:
  assumes "port_ok t" "bumpPort t = (p, t')"
  shows "p = portAt (portIx t)" and "port_ok t'" and "portIx t' = (portIx t + 1) mod 4536"
    and "nt_m t' = nt_m t" and "fwd t' = fwd t"
proof -
  define n where "n = unat (nextPort t)"
  have n: "61000 \<le> n" "n \<le> 65535" using assms(1) by (auto simp: port_ok_def n_def)
  have p: "p = ucast (nextPort t)"
    and t': "t' = t\<lparr>nextPort := if nextPort t + 1 > snatPortMax then snatPortMin else nextPort t + 1\<rparr>"
    using assms(2) by (auto simp: bumpPort_def Let_def)
  have up: "unat p = n" using n by (simp add: p unsigned_ucast_eq take_bit_eq_mod n_def)
  have un: "unat (nextPort t + 1) = n + 1" using n by (simp add: unat_word_ariths(1) n_def)
  have c: "nextPort t + 1 > snatPortMax \<longleftrightarrow> n = 65535"
    using un n by (auto simp: word_less_nat_alt snatPortMax_def)
  show "p = portAt (portIx t)"
    using up n by (simp add: word_unat_eq_iff unat_portAt portIx_def n_def [symmetric])
  show "port_ok t'" and "portIx t' = (portIx t + 1) mod 4536"
    using un n c by (auto simp: t' port_ok_def portIx_def snatPortMin_def n_def [symmetric])
  show "nt_m t' = nt_m t" "fwd t' = fwd t" by (simp_all add: t')
qed

subsection \<open>The search loop\<close>

text \<open>
  What one run of the loop can end in: a port that was free, now entered in both
  maps; a failed \<^verbatim>\<open>Put\<close>; or exhaustion after every candidate was taken.
\<close>

lemma allocLoop_cases:
  assumes "port_ok t"
    and "allocLoop put now w proto dip dport cip cport n t = (r, t')"
  shows "port_ok t' \<and>
    ((\<exists>i m. i < n \<and> r = Inr (portAt (portIx t + i)) \<and>
        nt_m t (makeNatKey w (portAt (portIx t + i)) proto dip dport) = None \<and>
        put (nt_m t) (makeNatKey w (portAt (portIx t + i)) proto dip dport)
          \<lparr>ClientIP = cip, ClientPort = hostToNet16 cport, LastSeenNs = now\<rparr> = Some m \<and>
        nt_m t' = m \<and>
        fwd t' = (fwd t)(makeFlowKey cip cport proto dip dport \<mapsto> portAt (portIx t + i))) \<or>
     (\<exists>k v. r = Inl MapPutFailed \<and> put (nt_m t) k v = None \<and> nt_m t' = nt_m t \<and> fwd t' = fwd t) \<or>
     (r = Inl PortPoolExhausted \<and> nt_m t' = nt_m t \<and> fwd t' = fwd t \<and>
        (\<forall>i < n. nt_m t (makeNatKey w (portAt (portIx t + i)) proto dip dport) \<noteq> None)))"
  using assms
proof (induction n arbitrary: t)
  case 0
  then show ?case by simp
next
  case (Suc n)
  obtain p t1 where b: "bumpPort t = (p, t1)" by fastforce
  note spec = bumpPort_spec [OF Suc.prems(1) b]
  let ?key = "makeNatKey w p proto dip dport"
  show ?case
  proof (cases "nt_m t ?key")
    case None
    let ?v = "\<lparr>ClientIP = cip, ClientPort = hostToNet16 cport, LastSeenNs = now\<rparr>"
    show ?thesis
    proof (cases "put (nt_m t) ?key ?v")
      case None: None
      with \<open>nt_m t ?key = None\<close> Suc.prems(2) b spec show ?thesis by auto
    next
      case (Some m)
      with None Suc.prems(2) b spec
      have "r = Inr p" "nt_m t' = m" "port_ok t'"
        "fwd t' = (fwd t)(makeFlowKey cip cport proto dip dport \<mapsto> p)"
        by (auto simp: port_ok_def)
      with None Some spec(1) show ?thesis
        by (intro conjI disjI1 exI [of _ 0] exI [of _ m]) simp_all
    qed
  next
    case (Some v)
    then have "allocLoop put now w proto dip dport cip cport n t1 = (r, t')"
      using Suc.prems(2) b spec by simp
    note ih = Suc.IH [OF spec(2) this]
    have sh: "portAt (portIx t1 + i) = portAt (portIx t + Suc i)" for i
      unfolding spec(3) portAt_def by (simp add: mod_simps)
    have 0: "nt_m t (makeNatKey w (portAt (portIx t)) proto dip dport) \<noteq> None"
      using Some spec(1) by simp
    have all: "(\<forall>i < Suc n. P i) \<longleftrightarrow> P 0 \<and> (\<forall>i < n. P (Suc i))" for P :: "nat \<Rightarrow> bool"
      by (auto simp: less_Suc_eq_0_disj)
    from ih show ?thesis
      unfolding sh spec(4,5) all
    proof (elim conjE disjE, goal_cases)
      case 1
      then show ?case by (intro conjI disjI1) (blast intro: Suc_mono)+
    next
      case 2
      then show ?case by (intro conjI disjI2 disjI1) blast+
    next
      case 3
      with 0 show ?case by (intro conjI disjI2) (simp_all only: add_0_right simp_thms)
    qed
  qed
qed

subsection \<open>Steps and invariants\<close>

text \<open>
  What is documented of a BPF hash map's \<^verbatim>\<open>Put\<close>: the key then maps to the value,
  and no other key changes (\<open>put_exact\<close>); on an LRU map other keys may be
  evicted to make room (\<open>put_lru\<close>).
\<close>

definition put_exact :: "bpf_put \<Rightarrow> bool" where
  "put_exact put \<longleftrightarrow> (\<forall>m k v m'. put m k v = Some m' \<longrightarrow> m' = m(k \<mapsto> v))"

definition put_lru :: "bpf_put \<Rightarrow> bool" where
  "put_lru put \<longleftrightarrow> (\<forall>m k v m'. put m k v = Some m' \<longrightarrow>
     m' k = Some v \<and> (\<forall>k'. k' \<noteq> k \<longrightarrow> m' k' = m k' \<or> m' k' = None))"

text \<open>
  An iteration yields entries of the map; their time stamps may have moved on
  since, because the XDP program writes them without the mutex.
\<close>

definition iter_ok :: "NatTable \<Rightarrow> (NatRevKey \<times> NatRevVal) list \<Rightarrow> bool" where
  "iter_ok t es \<longleftrightarrow> (\<forall>(k, v) \<in> set es. \<exists>v'. nt_m t k = Some v' \<and>
     ClientIP v' = ClientIP v \<and> ClientPort v' = ClientPort v)"

text \<open>
  The steps of a table whose WAN address is \<open>w\<close>: the four writers of the state,
  with any behaviour of \<^verbatim>\<open>Put\<close> that satisfies \<open>law\<close>.
\<close>

inductive nat_step :: "(bpf_put \<Rightarrow> bool) \<Rightarrow> ip4 \<Rightarrow> NatTable \<Rightarrow> NatTable \<Rightarrow> bool" for law w where
  alloc: "law put \<Longrightarrow> AllocPort put now w proto dip dport cip cport t = (r, t') \<Longrightarrow> nat_step law w t t'"
| release: "ReleasePort wip p proto dip dport t = (r, t') \<Longrightarrow> nat_step law w t t'"
| collect: "iter_ok t es \<Longrightarrow> nat_step law w t (gc now es t)"
| touch: "nat_step law w t (touchEntry now k t)"

definition nat_init :: "NatTable \<Rightarrow> bool" where
  "nat_init t \<longleftrightarrow> t = OpenNatTable Map.empty"

text \<open>Every reverse entry belongs to a flow that is assigned that WAN port.\<close>

definition rev_inv :: "ip4 \<Rightarrow> NatTable \<Rightarrow> bool" where
  "rev_inv w t \<longleftrightarrow> port_ok t \<and>
     (\<forall>k v. nt_m t k = Some v \<longrightarrow>
        WanIP k = w \<and> fwd t (flowKeyFromNatEntry k v) = Some (hostToNet16 (WanPort k))) \<and>
     (\<forall>fk p. fwd t fk = Some p \<longrightarrow> 61000 \<le> unat p)"

text \<open>Every flow that is assigned a WAN port has its reverse entry.\<close>

definition fwd_inv :: "ip4 \<Rightarrow> NatTable \<Rightarrow> bool" where
  "fwd_inv w t \<longleftrightarrow>
     (\<forall>fk p. fwd t fk = Some p \<longrightarrow>
        (\<exists>v. nt_m t (keyOf w fk p) = Some v \<and> flowKeyFromNatEntry (keyOf w fk p) v = fk))"

definition nat_inv :: "ip4 \<Rightarrow> NatTable \<Rightarrow> bool" where
  "nat_inv w t \<longleftrightarrow> rev_inv w t \<and> fwd_inv w t"

definition drop_entry :: "NatRevKey \<Rightarrow> NatRevVal \<Rightarrow> NatTable \<Rightarrow> NatTable" where
  "drop_entry k v t = t\<lparr>fwd := (fwd t)(flowKeyFromNatEntry k v := None), nt_m := (nt_m t)(k := None)\<rparr>"

lemma rev_inv_key_unique:
  assumes "rev_inv w t" "nt_m t k = Some v" "nt_m t k' = Some v'"
    and "flowKeyFromNatEntry k v = flowKeyFromNatEntry k' v'"
  shows "k = k'"
  using assms unfolding rev_inv_def by (metis keyOf_entry option.inject)

lemma drop_entry_rev_inv:
  assumes "rev_inv w t" "nt_m t k = Some v"
  shows "rev_inv w (drop_entry k v t)"
  using assms rev_inv_key_unique [OF assms(1) _ assms(2)]
  unfolding rev_inv_def drop_entry_def port_ok_def
  by (auto split: if_splits)

lemma drop_entry_fwd_inv:
  assumes "fwd_inv w t" "nt_m t k = Some v"
  shows "fwd_inv w (drop_entry k v t)"
  using assms unfolding fwd_inv_def drop_entry_def
  by (auto split: if_splits) (metis option.inject)

lemma drop_entry_absent:
  assumes "nt_m t k = None" "fwd t (flowKeyFromNatEntry k v) = None"
  shows "drop_entry k v t = t"
  using assms unfolding drop_entry_def by (simp add: fun_upd_idem)

text \<open>
  During the scan an entry the iterator yielded is either still in the map with
  its client, or it and its flow are gone.
\<close>

definition gc_pending :: "NatTable \<Rightarrow> (NatRevKey \<times> NatRevVal) list \<Rightarrow> bool" where
  "gc_pending t es \<longleftrightarrow> (\<forall>(k, v) \<in> set es.
     (case nt_m t k of
        Some v' \<Rightarrow> ClientIP v' = ClientIP v \<and> ClientPort v' = ClientPort v
      | None \<Rightarrow> fwd t (flowKeyFromNatEntry k v) = None))"

lemma gcEntry_cases:
  "gcEntry now k v t = t \<or> gcEntry now k v t = drop_entry k v t"
  by (simp add: gcEntry_def drop_entry_def)

lemma gc_pending_drop:
  assumes "gc_pending t ((k, v) # es)"
  shows "gc_pending (drop_entry k v t) es"
  unfolding gc_pending_def
proof (rule ballI, clarify)
  fix k' v'
  assume in_es: "(k', v') \<in> set es"
  with assms have p: "case nt_m t k' of
      Some v0 \<Rightarrow> ClientIP v0 = ClientIP v' \<and> ClientPort v0 = ClientPort v'
    | None \<Rightarrow> fwd t (flowKeyFromNatEntry k' v') = None"
    by (auto simp: gc_pending_def)
  have q: "case nt_m t k of
      Some v0 \<Rightarrow> ClientIP v0 = ClientIP v \<and> ClientPort v0 = ClientPort v
    | None \<Rightarrow> fwd t (flowKeyFromNatEntry k v) = None"
    using assms by (auto simp: gc_pending_def)
  show "case nt_m (drop_entry k v t) k' of
      Some v0 \<Rightarrow> ClientIP v0 = ClientIP v' \<and> ClientPort v0 = ClientPort v'
    | None \<Rightarrow> fwd (drop_entry k v t) (flowKeyFromNatEntry k' v') = None"
  proof (cases "k' = k")
    case True
    with p q show ?thesis
      by (cases "nt_m t k") (simp_all add: drop_entry_def entry_same_client [of v v'])
  next
    case False
    with p show ?thesis by (cases "nt_m t k'") (simp_all add: drop_entry_def)
  qed
qed

lemma gc_preserves:
  assumes drop: "\<And>k v t. P t \<Longrightarrow> nt_m t k = Some v \<Longrightarrow> P (drop_entry k v t)"
  shows "P t \<Longrightarrow> gc_pending t es \<Longrightarrow> P (gc now es t)"
proof (induction es arbitrary: t)
  case (Cons e es)
  obtain k v where e: "e = (k, v)" by fastforce
  have "P (drop_entry k v t)"
  proof (cases "nt_m t k")
    case None
    with Cons.prems e show ?thesis by (simp add: gc_pending_def drop_entry_absent)
  next
    case (Some v')
    with Cons.prems(2) e have "flowKeyFromNatEntry k v = flowKeyFromNatEntry k v'"
      by (intro entry_same_client) (auto simp: gc_pending_def)
    then have "drop_entry k v t = drop_entry k v' t" by (simp add: drop_entry_def)
    then show ?thesis using drop [OF Cons.prems(1) Some] by simp
  qed
  moreover have "gc_pending t es" using Cons.prems(2) by (simp add: gc_pending_def)
  ultimately show ?case
    using gcEntry_cases [of now k v t] gc_pending_drop Cons e by auto
qed simp

lemma iter_ok_pending: "iter_ok t es \<Longrightarrow> gc_pending t es"
  unfolding iter_ok_def gc_pending_def by fastforce

lemma ReleasePort_cases:
  assumes "ReleasePort wip p proto dip dport t = (r, t')"
  shows "(\<exists>k v. nt_m t k = Some v \<and> t' = drop_entry k v t) \<or> t' = t"
  using assms by (auto simp: ReleasePort_def Let_def drop_entry_def split: option.splits)

lemma touch_entry_client:
  "nt_m (touchEntry now k t) k' = Some v' \<Longrightarrow>
   \<exists>v. nt_m t k' = Some v \<and> ClientIP v = ClientIP v' \<and> ClientPort v = ClientPort v'"
  by (auto simp: touchEntry_def split: option.splits if_splits)

lemma touch_entry_fwd [simp]:
  "fwd (touchEntry now k t) = fwd t" "nextPort (touchEntry now k t) = nextPort t"
  by (simp_all add: touchEntry_def split: option.splits)

lemma touch_entry_rev_inv: "rev_inv w t \<Longrightarrow> rev_inv w (touchEntry now k t)"
  unfolding rev_inv_def port_ok_def
  by (auto dest!: touch_entry_client) (metis entry_same_client)

lemma touch_entry_fwd_inv: "fwd_inv w t \<Longrightarrow> fwd_inv w (touchEntry now k t)"
  unfolding fwd_inv_def
  by (fastforce simp: touchEntry_def entry_keyOf split: option.splits)

lemma AllocPort_cases:
  assumes "port_ok t" "AllocPort put now w proto dip dport cip cport t = (r, t')"
  obtains (known) p where "fwd t (makeFlowKey cip cport proto dip dport) = Some p" "r = Inr p" "t' = t"
  | (fresh) i m where "fwd t (makeFlowKey cip cport proto dip dport) = None" "i < 4536"
      "r = Inr (portAt (portIx t + i))"
      "nt_m t (makeNatKey w (portAt (portIx t + i)) proto dip dport) = None"
      "put (nt_m t) (makeNatKey w (portAt (portIx t + i)) proto dip dport)
         \<lparr>ClientIP = cip, ClientPort = hostToNet16 cport, LastSeenNs = now\<rparr> = Some m"
      "nt_m t' = m" "fwd t' = (fwd t)(makeFlowKey cip cport proto dip dport \<mapsto> portAt (portIx t + i))"
      "port_ok t'"
  | (failed) e where "fwd t (makeFlowKey cip cport proto dip dport) = None" "r = Inl e"
      "nt_m t' = nt_m t" "fwd t' = fwd t" "port_ok t'"
proof (cases "fwd t (makeFlowKey cip cport proto dip dport)")
  case None
  then have "allocLoop put now w proto dip dport cip cport 4536 t = (r, t')"
    using assms(2) by (simp add: AllocPort_def)
  from allocLoop_cases [OF assms(1) this] show ?thesis
  proof (elim conjE disjE exE, goal_cases)
    case (1 i m)
    with None show ?case by (intro fresh [of i m]) simp_all
  next
    case (2 k v)
    with None show ?case by (intro failed) simp_all
  next
    case 3
    show ?case by (rule failed [OF None 3(2) 3(3) 3(4) 3(1)])
  qed
next
  case (Some p)
  then have "r = Inr p" "t' = t"
    using assms(2) by (simp_all only: AllocPort_def option.case prod.inject)
  then show ?thesis by (rule known [OF Some])
qed

lemma AllocPort_rev_inv:
  assumes "put_lru put" "rev_inv w t" "AllocPort put now w proto dip dport cip cport t = (r, t')"
  shows "rev_inv w t'"
proof -
  let ?fk = "makeFlowKey cip cport proto dip dport"
  have "port_ok t" using assms(2) by (simp add: rev_inv_def)
  then show ?thesis
    using assms(3)
  proof (cases rule: AllocPort_cases)
    case known
    then show ?thesis using assms(2) by simp
  next
    case (fresh i m)
    let ?p = "portAt (portIx t + i)" and ?k = "makeNatKey w (portAt (portIx t + i)) proto dip dport"
    have k: "m ?k = Some \<lparr>ClientIP = cip, ClientPort = hostToNet16 cport, LastSeenNs = now\<rparr>"
      and o: "m k' = Some v' \<Longrightarrow> k' \<noteq> ?k \<Longrightarrow> nt_m t k' = Some v'" for k' v'
      using assms(1) fresh(5) unfolding put_lru_def by fastforce+
    have "fwd t' (flowKeyFromNatEntry k' v') = Some (hostToNet16 (WanPort k')) \<and> WanIP k' = w"
      if "nt_m t' k' = Some v'" for k' v'
    proof (cases "k' = ?k")
      case True
      with that k fresh(6) have "flowKeyFromNatEntry k' v' = ?fk"
        by (auto simp: flowKeyFromNatEntry_def makeNatKey_def makeFlowKey_def)
      with True fresh(7) show ?thesis by (simp add: makeNatKey_def)
    next
      case False
      with that o fresh(6) have "nt_m t k' = Some v'" by simp
      with assms(2) have "WanIP k' = w \<and> fwd t (flowKeyFromNatEntry k' v') = Some (hostToNet16 (WanPort k'))"
        by (simp add: rev_inv_def)
      moreover from this fresh(1) have "flowKeyFromNatEntry k' v' \<noteq> ?fk" by auto
      ultimately show ?thesis using fresh(7) by simp
    qed
    then show ?thesis
      using assms(2) fresh(7,8) portAt_range unfolding rev_inv_def by auto
  next
    case (failed e)
    then show ?thesis using assms(2) by (simp add: rev_inv_def)
  qed
qed

lemma put_exact_lru: "put_exact put \<Longrightarrow> put_lru put"
  unfolding put_exact_def put_lru_def by fastforce

lemma AllocPort_fwd_inv:
  assumes "put_exact put" "port_ok t" "fwd_inv w t"
    and "AllocPort put now w proto dip dport cip cport t = (r, t')"
  shows "fwd_inv w t'"
  using assms(2,4)
proof (cases rule: AllocPort_cases)
  case known
  then show ?thesis using assms(3) by simp
next
  case (fresh i m)
  let ?p = "portAt (portIx t + i)" and ?k = "makeNatKey w (portAt (portIx t + i)) proto dip dport"
  let ?v = "\<lparr>ClientIP = cip, ClientPort = hostToNet16 cport, LastSeenNs = now\<rparr>"
  let ?fk = "makeFlowKey cip cport proto dip dport"
  have m: "nt_m t' = (nt_m t)(?k \<mapsto> ?v)"
    using assms(1) fresh(5,6) by (simp add: put_exact_def)
  have "\<exists>v. nt_m t' (keyOf w fk p) = Some v \<and> flowKeyFromNatEntry (keyOf w fk p) v = fk"
    if f: "fwd t' fk = Some p" for fk p
  proof (cases "fk = ?fk")
    case True
    with f fresh(7) have "p = ?p" by simp
    with True m show ?thesis
      by (simp add: flowKeyFromNatEntry_def makeNatKey_def makeFlowKey_def keyOf_def)
  next
    case False
    with f fresh(7) have "fwd t fk = Some p" by simp
    then obtain v where v: "nt_m t (keyOf w fk p) = Some v" "flowKeyFromNatEntry (keyOf w fk p) v = fk"
      using assms(3) by (auto simp: fwd_inv_def)
    with fresh(4) have "keyOf w fk p \<noteq> ?k" by auto
    with v m show ?thesis by simp
  qed
  then show ?thesis by (simp add: fwd_inv_def)
next
  case (failed e)
  then show ?thesis using assms(3) by (simp add: fwd_inv_def)
qed

lemma nat_step_rev_inv: "nat_step put_lru w t t' \<Longrightarrow> rev_inv w t \<Longrightarrow> rev_inv w t'"
proof (induction rule: nat_step.induct)
  case (release wip p proto dip dport t r t')
  then show ?case using ReleasePort_cases drop_entry_rev_inv by metis
next
  case (collect t es now)
  show ?case
    by (rule gc_preserves [where P = "rev_inv w"])
      (simp_all add: collect drop_entry_rev_inv iter_ok_pending)
qed (auto intro: AllocPort_rev_inv touch_entry_rev_inv)

lemma nat_step_nat_inv: "nat_step put_exact w t t' \<Longrightarrow> nat_inv w t \<Longrightarrow> nat_inv w t'"
proof (induction rule: nat_step.induct)
  case (alloc put now proto dip dport cip cport t r t')
  then show ?case
    using AllocPort_rev_inv [OF put_exact_lru [OF alloc(1)] _ alloc(2)]
      AllocPort_fwd_inv [OF alloc(1) _ _ alloc(2)] by (auto simp: nat_inv_def rev_inv_def [of w t])
next
  case (release wip p proto dip dport t r t')
  then show ?case
    using ReleasePort_cases [OF release(1)] drop_entry_rev_inv drop_entry_fwd_inv
    unfolding nat_inv_def by metis
next
  case (collect t es now)
  show ?case
    by (rule gc_preserves [where P = "nat_inv w"])
      (use collect in \<open>simp_all add: nat_inv_def drop_entry_rev_inv drop_entry_fwd_inv iter_ok_pending\<close>)
qed (auto simp: nat_inv_def intro: touch_entry_rev_inv touch_entry_fwd_inv)

lemma init_rev_inv: "nat_init t \<Longrightarrow> rev_inv w t"
  by (simp add: nat_init_def rev_inv_def OpenNatTable_def port_ok_def snatPortMin_def)

lemma init_nat_inv: "nat_init t \<Longrightarrow> nat_inv w t"
  by (simp add: nat_inv_def init_rev_inv) (simp add: nat_init_def fwd_inv_def OpenNatTable_def)

interpretation natLru: invariant_system nat_init "nat_step put_lru w" "rev_inv w" for w
  by unfold_locales (auto intro: init_rev_inv nat_step_rev_inv)

interpretation natHash: invariant_system nat_init "nat_step put_exact w" "nat_inv w" for w
  by unfold_locales (auto intro: init_nat_inv nat_step_nat_inv)

subsection \<open>Facts the properties rest on\<close>

lemma gc_nt_m:
  "nt_m (gc now es t) k =
     (if \<exists>v. (k, v) \<in> set es \<and> LastSeenNs v \<noteq> 0 \<and> LastSeenNs v < now \<and> idleTimeout < now - LastSeenNs v
      then None else nt_m t k)"
proof (induction now es t rule: gc.induct)
  case (2 now key val es t)
  have "nt_m (gcEntry now key val t) k =
      (if k = key \<and> LastSeenNs val \<noteq> 0 \<and> LastSeenNs val < now \<and> idleTimeout < now - LastSeenNs val
       then None else nt_m t k)"
    by (auto simp: gcEntry_def not_le)
  then show ?case using 2 by auto
qed simp

lemma unat_idle:
  assumes "LastSeenNs v < now"
  shows "idleTimeout < now - LastSeenNs v \<longleftrightarrow> unat (LastSeenNs v) + 120000000000 < unat now"
proof -
  have "unat (now - LastSeenNs v) = unat now - unat (LastSeenNs v)"
    using assms by (intro unat_sub) simp
  moreover have "unat idleTimeout = 120000000000" by (simp add: idleTimeout_def)
  ultimately show ?thesis using assms by (auto simp: word_less_nat_alt)
qed

lemma port_offset: "61000 \<le> unat q \<Longrightarrow> unat q - 61000 < 4536" for q :: u16
  using unat_u16_less [of q] by linarith

lemma portAt_surj: "61000 \<le> unat q \<Longrightarrow> q = portAt (unat q - 61000)" for q :: u16
  by (simp add: word_unat_eq_iff unat_portAt port_offset)

lemma portAt_reached:
  assumes "61000 \<le> unat (q :: u16)" "j < 4536"
  shows "\<exists>i < 4536. q = portAt (j + i)"
proof -
  define d where "d = unat q - 61000"
  have d: "d < 4536" using port_offset [OF assms(1)] by (simp add: d_def)
  have "(j + (d + 4536 - j) mod 4536) mod 4536 = (j + (d + 4536 - j)) mod 4536" by (simp only: mod_simps)
  also have "\<dots> = d" using assms(2) d by simp
  finally have "(j + (d + 4536 - j) mod 4536) mod 4536 = d" .
  then have "portAt (j + (d + 4536 - j) mod 4536) = portAt d"
    by (metis portAt_mod)
  with portAt_surj [OF assms(1)] show ?thesis
    by (intro exI [of _ "(d + 4536 - j) mod 4536"]) (simp add: d_def)
qed

lemma portIx_less: "port_ok t \<Longrightarrow> portIx t < 4536"
  by (auto simp: port_ok_def portIx_def)

lemma AllocPort_finds:
  assumes ok: "port_ok t" and put: "\<And>m k v. put m k v \<noteq> None"
    and free: "61000 \<le> unat q" "nt_m t (makeNatKey w q proto dip dport) = None"
  shows "\<exists>p t'. AllocPort put now w proto dip dport cip cport t = (Inr p, t')"
proof (cases "fwd t (makeFlowKey cip cport proto dip dport)")
  case None
  obtain r t' where l: "allocLoop put now w proto dip dport cip cport 4536 t = (r, t')" by fastforce
  obtain i where i: "i < 4536" "q = portAt (portIx t + i)"
    using portAt_reached [OF free(1) portIx_less [OF ok]] by blast
  from allocLoop_cases [OF ok l] have "\<exists>p. r = Inr p"
  proof (elim conjE disjE exE, goal_cases)
    case 3
    from 3(5) i(1) have "nt_m t (makeNatKey w (portAt (portIx t + i)) proto dip dport) \<noteq> None" by blast
    with free(2) i(2) show ?case by simp
  qed (use put in auto)
  then show ?thesis
    using l None by (simp only: AllocPort_def option.case rangeSize_eq prod.inject) blast
next
  case (Some p)
  then show ?thesis by (simp only: AllocPort_def option.case) blast
qed

lemma AllocPort_fwd:
  assumes "port_ok t" "AllocPort put now w proto dip dport cip cport t = (Inr p, t')"
  shows "fwd t' (makeFlowKey cip cport proto dip dport) = Some p"
  using assms by (cases rule: AllocPort_cases) auto

lemma AllocPort_first:
  assumes "fwd t (makeFlowKey cip cport proto dip dport) = None"
    and "bumpPort t = (p, t1)" "nt_m t1 (makeNatKey w p proto dip dport) = None"
    and "put (nt_m t1) (makeNatKey w p proto dip dport)
           \<lparr>ClientIP = cip, ClientPort = hostToNet16 cport, LastSeenNs = now\<rparr> = Some m"
  shows "AllocPort put now w proto dip dport cip cport t =
    (Inr p, t1\<lparr>nt_m := m, fwd := (fwd t1)(makeFlowKey cip cport proto dip dport \<mapsto> p)\<rparr>)"
proof -
  have r: "rangeSize = Suc 4535" by simp
  show ?thesis
    unfolding AllocPort_def r using assms by (simp only: option.case allocLoop.simps Let_def split_conv)
qed

lemma AllocPort_reverse:
  assumes "nat_init t0" "(nat_step put_exact w)\<^sup>*\<^sup>* t0 t" "put_exact put"
    and "AllocPort put now w proto dip dport cip cport t = (Inr p, t')"
  shows "61000 \<le> unat p \<and>
    (\<exists>v. nt_m t' (makeNatKey w p proto dip dport) = Some v \<and>
         ClientIP v = cip \<and> ClientPort v = hostToNet16 cport)"
proof -
  have "nat_inv w t" by (rule natHash.reachable_inv [OF assms(1,2)])
  moreover have "nat_step put_exact w t t'" using assms(3,4) by (rule nat_step.alloc)
  ultimately have inv: "nat_inv w t'" by (blast intro: natHash.step_inv)
  have f: "fwd t' (makeFlowKey cip cport proto dip dport) = Some p"
    using \<open>nat_inv w t\<close> assms(4) by (intro AllocPort_fwd) (auto simp: nat_inv_def rev_inv_def)
  with inv obtain v where "nt_m t' (makeNatKey w p proto dip dport) = Some v"
    "flowKeyFromNatEntry (keyOf w (makeFlowKey cip cport proto dip dport) p) v
       = makeFlowKey cip cport proto dip dport"
    unfolding nat_inv_def fwd_inv_def by fastforce
  then show ?thesis
    using f inv by (auto simp only: entry_keyOf nat_inv_def rev_inv_def) (auto simp: makeFlowKey_def)
qed

text \<open>A hash map with room for every key, and the table after one flow.\<close>

definition roomy_put :: bpf_put where
  "roomy_put m k v = Some (m(k \<mapsto> v))"

definition ex_key :: NatRevKey where
  "ex_key = makeNatKey 1 61000 6 2 443"

definition ex_flow :: flowKey where
  "ex_flow = makeFlowKey 10 5000 6 2 443"

definition ex_val :: NatRevVal where
  "ex_val = \<lparr>ClientIP = 10, ClientPort = hostToNet16 5000, LastSeenNs = 7\<rparr>"

definition ex_table :: NatTable where
  "ex_table = \<lparr>nt_m = [ex_key \<mapsto> ex_val], nextPort = 61001, fwd = [ex_flow \<mapsto> 61000]\<rparr>"

lemma roomy_put_exact: "put_exact roomy_put" and roomy_put_total: "\<forall>m k v. roomy_put m k v \<noteq> None"
  by (simp_all add: put_exact_def roomy_put_def)

lemma ex_alloc: "AllocPort roomy_put 7 1 6 2 443 10 5000 (OpenNatTable Map.empty) = (Inr 61000, ex_table)"
  by (subst AllocPort_first)
    (auto simp: OpenNatTable_def bumpPort_def Let_def roomy_put_def snatPortMin_def snatPortMax_def
      ex_table_def ex_key_def ex_flow_def ex_val_def)

lemma ex_alloc_first:
  "\<exists>t'. AllocPort roomy_put now w proto dip dport cip cport (OpenNatTable Map.empty) = (Inr 61000, t')"
  by (subst AllocPort_first)
    (auto simp: OpenNatTable_def bumpPort_def Let_def roomy_put_def snatPortMin_def snatPortMax_def)

lemma ex_reach: "(nat_step put_exact 1)\<^sup>*\<^sup>* (OpenNatTable Map.empty) ex_table"
  and ex_reach_lru: "(nat_step put_lru 1)\<^sup>*\<^sup>* (OpenNatTable Map.empty) ex_table"
  and ex_init: "nat_init (OpenNatTable Map.empty)"
  using ex_alloc roomy_put_exact put_exact_lru
  by (auto simp: nat_init_def intro!: r_into_rtranclp nat_step.alloc)

subsection \<open>Properties\<close>



text \<open>
  A WAN port returned by \<^verbatim>\<open>AllocPort\<close> in a reached state is above the
  operating system's ephemeral range and has a reverse entry that names exactly
  the client address and port of the flow it was returned for.
\<close>

theorem nat_alloc_installs_reverse:
  assumes "nat_init t0" "(nat_step put_exact w)\<^sup>*\<^sup>* t0 t" "put_exact put"
    and "AllocPort put now w proto dip dport cip cport t = (Inr p, t')"
  shows "61000 \<le> unat p \<and>
    (\<exists>v. nt_m t' (makeNatKey w p proto dip dport) = Some v \<and>
         ClientIP v = cip \<and> ClientPort v = hostToNet16 cport)"
  using assms by (rule AllocPort_reverse)

theorem nat_alloc_installs_reverse_witness:
  "\<exists>v. nt_m ex_table (makeNatKey 1 61000 6 2 443) = Some v \<and> ClientIP v = 10"
  using nat_alloc_installs_reverse [OF ex_init rtranclp.rtrancl_refl roomy_put_exact ex_alloc] by blast



text \<open>
  C30: \<^verbatim>\<open>AllocPort\<close> never reports exhaustion while any port of the range is free
  for the destination: its 4536 iterations visit every port, whatever port the
  counter starts from.
\<close>

theorem nat_alloc_complete:
  assumes "nat_init t0" "(nat_step put_lru w)\<^sup>*\<^sup>* t0 t" "\<forall>m k v. put m k v \<noteq> None"
    and "61000 \<le> unat q" "nt_m t (makeNatKey wip q proto dip dport) = None"
  shows "\<exists>p t'. AllocPort put now wip proto dip dport cip cport t = (Inr p, t')"
  using natLru.reachable_inv [OF assms(1,2)] assms(3-5)
  by (intro AllocPort_finds [where q = q]) (auto simp: rev_inv_def)

theorem nat_alloc_complete_witness:
  "\<exists>p t'. AllocPort roomy_put 9 1 6 2 443 11 5000 ex_table = (Inr p, t')"
  by (rule nat_alloc_complete [OF ex_init ex_reach_lru roomy_put_total, where q = 61005])
    (simp_all add: ex_table_def ex_key_def makeNatKey_def)

text \<open>
  Later packets of a flow reuse its port and change nothing, whatever the
  clock and the map do.
\<close>

theorem nat_alloc_stable:
  assumes "nat_init t0" "(nat_step put_lru w)\<^sup>*\<^sup>* t0 t"
    and "AllocPort put now w proto dip dport cip cport t = (Inr p, t')"
  shows "AllocPort put' now' w' proto dip dport cip cport t' = (Inr p, t')"
proof -
  have "port_ok t" using natLru.reachable_inv [OF assms(1,2)] by (simp add: rev_inv_def)
  from AllocPort_fwd [OF this assms(3)] show ?thesis by (simp only: AllocPort_def option.case)
qed

theorem nat_alloc_stable_witness:
  "AllocPort roomy_put 99 1 6 2 443 10 5000 ex_table = (Inr 61000, ex_table)"
  by (rule nat_alloc_stable [OF ex_init rtranclp.rtrancl_refl ex_alloc])

text \<open>
  A garbage collection removes exactly the scanned entries whose last use
  lies more than 120 seconds before the sampled time; in particular the unsigned
  subtraction never removes an entry stamped after the sample.
\<close>

theorem nat_gc_exact:
  "nt_m (gc now es t) k =
     (if \<exists>v. (k, v) \<in> set es \<and> 0 < unat (LastSeenNs v) \<and>
             unat (LastSeenNs v) + 120000000000 < unat now
      then None else nt_m t k)"
proof -
  have e: "(LastSeenNs v \<noteq> 0 \<and> LastSeenNs v < now \<and> idleTimeout < now - LastSeenNs v) \<longleftrightarrow>
      (0 < unat (LastSeenNs v) \<and> unat (LastSeenNs v) + 120000000000 < unat now)" for v
    using unat_idle [of v now] by (auto simp: word_less_nat_alt unat_gt_0)
  show ?thesis unfolding gc_nt_m e by (rule refl)
qed

text \<open>
  A flow whose reverse entry the LRU map evicted keeps its port in \<^verbatim>\<open>fwd\<close>,
  so the allocator can hand the same port to another flow to the same remote;
  the reverse entry then names the second client, and replies to the first flow
  are delivered to it.
\<close>

theorem nat_evicted_port_reused:
  assumes "fwd t (makeFlowKey c1 p1 proto dip dport) = Some p"
    and "nt_m t (makeNatKey w p proto dip dport) = None" "unat (nextPort t) = unat p"
    and "fwd t (makeFlowKey c2 p2 proto dip dport) = None" "put_lru put" "\<forall>m k v. put m k v \<noteq> None"
  shows "\<exists>t'. AllocPort put now w proto dip dport c2 p2 t = (Inr p, t') \<and>
    fwd t' (makeFlowKey c1 p1 proto dip dport) = Some p \<and>
    fwd t' (makeFlowKey c2 p2 proto dip dport) = Some p \<and>
    (\<exists>v. nt_m t' (makeNatKey w p proto dip dport) = Some v \<and> ClientIP v = c2)"
proof -
  obtain q t1 where b: "bumpPort t = (q, t1)" by fastforce
  have q: "q = p" "nt_m t1 = nt_m t" "fwd t1 = fwd t"
    using b assms(3) unat_u16_less [of p]
    by (auto simp: bumpPort_def Let_def word_unat_eq_iff unsigned_ucast_eq take_bit_eq_mod)
  let ?k = "makeNatKey w p proto dip dport"
  let ?v = "\<lparr>ClientIP = c2, ClientPort = hostToNet16 p2, LastSeenNs = now\<rparr>"
  obtain m where m: "put (nt_m t1) ?k ?v = Some m" using assms(6) by blast
  then have "m ?k = Some ?v" using assms(5) unfolding put_lru_def by blast
  moreover have "makeFlowKey c1 p1 proto dip dport \<noteq> makeFlowKey c2 p2 proto dip dport"
    using assms(1,4) by auto
  ultimately show ?thesis
    using AllocPort_first [of t c2 p2 proto dip dport p t1 w put now m] assms(1,2,4) b q m by auto
qed


theorem nat_evicted_port_reused_witness:
  "\<exists>t'. AllocPort roomy_put 9 1 6 2 443 11 5000
        \<lparr>nt_m = Map.empty, nextPort = 61000, fwd = [ex_flow \<mapsto> 61000]\<rparr> = (Inr 61000, t') \<and>
      fwd t' (makeFlowKey 10 5000 6 2 443) = Some 61000 \<and>
      fwd t' (makeFlowKey 11 5000 6 2 443) = Some 61000 \<and>
      (\<exists>v. nt_m t' (makeNatKey 1 61000 6 2 443) = Some v \<and> ClientIP v = 11)"
  by (rule nat_evicted_port_reused)
    (simp_all add: ex_flow_def makeFlowKey_def put_exact_lru roomy_put_exact roomy_put_total)

end
