(* ===== verification/Snat.thy ===== *)
theory Snat
  imports NatTable
begin

unbundle bit_operations_syntax

text \<open>
  The two packet rewriters that share the NAT table: \<^verbatim>\<open>ApplySNAT\<close> of
  \<^verbatim>\<open>xdp/snat.go\<close>, which a client packet passes on its way to the WAN, and the XDP
  program of \<^verbatim>\<open>xdp/xdp.c\<close>, which a reply passes on its way in. Packets are byte
  lists; every read is guarded by the code's own length checks. A rewriter that
  modifies its slice in place returns the new bytes.
\<close>

subsection \<open>Outgoing: source NAT\<close>

definition IPPROTO_TCP :: byte where "IPPROTO_TCP = 6"
definition IPPROTO_UDP :: byte where "IPPROTO_UDP = 17"

definition ihl_of :: "bytes \<Rightarrow> nat" where
  "ihl_of pkt = unat (pkt ! 0 AND 0x0f) * 4"

text \<open>The writes of \<^verbatim>\<open>ApplySNAT\<close> once the WAN port is known.\<close>

definition snatRewrite :: "bytes \<Rightarrow> nat \<Rightarrow> byte \<Rightarrow> u32 \<Rightarrow> u32 \<Rightarrow> u16 \<Rightarrow> u16 \<Rightarrow> bytes" where
  "snatRewrite pkt ihl proto oldSrcIP newSrcIP srcPort wanPort =
     (let ipCsum = get16 pkt 10;
          ipCsum = CsumUpdate32 ipCsum oldSrcIP newSrcIP;
          pkt = put32 pkt 12 newSrcIP;
          pkt = put16 pkt 10 ipCsum;
          pkt = (if proto = IPPROTO_TCP then
                   let tcpCsum = get16 pkt (ihl + 16);
                       tcpCsum = CsumUpdate32 tcpCsum oldSrcIP newSrcIP;
                       tcpCsum = CsumUpdate16 tcpCsum srcPort wanPort
                   in put16 pkt (ihl + 16) tcpCsum
                 else if proto = IPPROTO_UDP then
                   let udpCsum = get16 pkt (ihl + 6)
                   in if udpCsum \<noteq> 0 then
                        let udpCsum = CsumUpdate32 udpCsum oldSrcIP newSrcIP;
                            udpCsum = CsumUpdate16 udpCsum srcPort wanPort
                        in put16 pkt (ihl + 6) udpCsum
                      else pkt
                 else pkt)
      in put16 pkt ihl wanPort)"

definition ApplySNAT :: "bpf_put \<Rightarrow> u64 \<Rightarrow> bytes \<Rightarrow> ip4 \<Rightarrow> NatTable \<Rightarrow> (nat_error + bytes) \<times> NatTable" where
  "ApplySNAT put now pkt wanAddr natTable =
     (if length pkt < 20 then (Inr pkt, natTable)
      else if drop_bit 4 (pkt ! 0) \<noteq> 4 then (Inr pkt, natTable)
      else let ihl = ihl_of pkt in
        if length pkt < ihl + 4 then (Inr pkt, natTable)
        else let proto = pkt ! 9 in
          if proto \<noteq> IPPROTO_TCP \<and> proto \<noteq> IPPROTO_UDP then (Inr pkt, natTable)
          else let minTransport = (if proto = IPPROTO_TCP then ihl + 20 else ihl + 8) in
            if length pkt < minTransport then (Inr pkt, natTable)
            else
              let oldSrcIP = get32 pkt 12;
                  dstIPRaw = get32 pkt 16;
                  srcPort = get16 pkt ihl;
                  dstPort = get16 pkt (ihl + 2);
                  newSrcIP = wanAddr
              in if oldSrcIP = newSrcIP then (Inr pkt, natTable)
                 else case AllocPort put now wanAddr proto dstIPRaw dstPort oldSrcIP srcPort natTable of
                        (Inl err, natTable) \<Rightarrow> (Inl err, natTable)
                      | (Inr wanPort, natTable) \<Rightarrow>
                          (Inr (snatRewrite pkt ihl proto oldSrcIP newSrcIP srcPort wanPort), natTable))"

subsection \<open>Incoming: the XDP program\<close>

datatype xdp_action = XDP_PASS | RedirectQuic nat | RedirectFwd nat

text \<open>
  The rewrite of one matched reply. \<open>l4\<close> is the offset of the transport header,
  \<open>co\<close> that of its checksum, \<open>skip0\<close> the UDP test for a disabled checksum. Fields
  are loaded and stored in host (little-endian) order.
\<close>

definition dnatRewrite :: "bytes \<Rightarrow> nat \<Rightarrow> nat \<Rightarrow> bool \<Rightarrow> NatRevVal \<Rightarrow> bytes" where
  "dnatRewrite f l4 co skip0 val =
     (let new_daddr = swap32 (ClientIP val);
          new_dport = ClientPort val;
          old_daddr = swap32 (get32 f 30);
          old_dport = swap16 (get16 f (l4 + 2));
          f = put16 f 24 (swap16 (csum_replace4 (swap16 (get16 f 24)) old_daddr new_daddr));
          f = (if skip0 \<and> get16 f co = 0 then f
               else let f = put16 f co (swap16 (csum_replace4 (swap16 (get16 f co)) old_daddr new_daddr))
                    in put16 f co (swap16 (csum_replace2 (swap16 (get16 f co)) old_dport new_dport)));
          f = put32 f 30 (swap32 new_daddr)
      in put16 f (l4 + 2) (swap16 new_dport))"

definition revKeyOf :: "bytes \<Rightarrow> nat \<Rightarrow> byte \<Rightarrow> NatRevKey" where
  "revKeyOf f l4 proto =
     \<lparr>WanIP = get32 f 30, DstIP = get32 f 26, WanPort = swap16 (get16 f (l4 + 2)),
      DstPort = swap16 (get16 f l4), Proto = proto\<rparr>"

text \<open>
  \<^verbatim>\<open>masque_xdp_prog\<close>: \<open>quic\<close> and \<open>fwdq\<close> tell which receive queues have a socket in
  \<^verbatim>\<open>xsks_quic\<close> and \<^verbatim>\<open>xsks_fwd\<close>, \<open>q\<close> is the queue the frame came in on. The result is
  the verdict, the frame, and the table with the used entry stamped.
\<close>

definition masque_xdp_prog ::
  "(nat \<Rightarrow> bool) \<Rightarrow> (nat \<Rightarrow> bool) \<Rightarrow> nat \<Rightarrow> u64 \<Rightarrow> bytes \<Rightarrow> NatTable \<Rightarrow> xdp_action \<times> bytes \<times> NatTable" where
  "masque_xdp_prog quic fwdq q now f t =
     (if length f < 14 then (XDP_PASS, f, t)
      else if get16 f 12 \<noteq> 0x0800 then (XDP_PASS, f, t)
      else if length f < 34 then (XDP_PASS, f, t)
      else let ihl = unat (f ! 14 AND 0x0f) * 4; l4 = 14 + ihl in
        if ihl < 20 then (XDP_PASS, f, t)
        else if f ! 23 = IPPROTO_UDP then
          (if length f < l4 + 8 then (XDP_PASS, f, t)
           else if get16 f (l4 + 2) = 443 \<and> quic q then (RedirectQuic q, f, t)
           else let key = revKeyOf f l4 IPPROTO_UDP in
             case nt_m t key of
               Some val \<Rightarrow>
                 (if fwdq q then RedirectFwd q else XDP_PASS,
                  dnatRewrite f l4 (l4 + 6) True val, touchEntry now key t)
             | None \<Rightarrow> (XDP_PASS, f, t))
        else if f ! 23 = IPPROTO_TCP then
          (if length f < l4 + 20 then (XDP_PASS, f, t)
           else let key = revKeyOf f l4 IPPROTO_TCP in
             case nt_m t key of
               Some val \<Rightarrow>
                 (if fwdq q then RedirectFwd q else XDP_PASS,
                  dnatRewrite f l4 (l4 + 16) False val, touchEntry now key t)
             | None \<Rightarrow> (XDP_PASS, f, t))
        else (XDP_PASS, f, t))"

subsection \<open>What a receiver checks\<close>

text \<open>
  The sums of a packet that starts at offset \<open>ip\<close> of \<open>f\<close>, whose transport header
  starts at \<open>l4\<close> and whose last byte is before \<open>hi\<close>: the IP header, and the
  transport segment with its pseudo-header.
\<close>

definition halves :: "u32 \<Rightarrow> nat" where
  "halves w = unat (hi16 w) + unat (lo16 w)"

definition ip_sum :: "bytes \<Rightarrow> nat \<Rightarrow> nat \<Rightarrow> nat" where
  "ip_sum f ip l4 = wsum (slice f ip l4)"

definition l4_sum :: "bytes \<Rightarrow> nat \<Rightarrow> nat \<Rightarrow> nat \<Rightarrow> nat" where
  "l4_sum f ip l4 hi = halves (get32 f (ip + 12)) + halves (get32 f (ip + 16))
     + unat (f ! (ip + 9)) + (hi - l4) + wsum (slice f l4 hi)"

text \<open>Both rewriters, as one set of disjoint writes.\<close>

definition rewrite :: "bytes \<Rightarrow> nat \<Rightarrow> u16 \<Rightarrow> nat \<Rightarrow> u32 \<Rightarrow> nat \<Rightarrow> u16 \<Rightarrow> nat \<Rightarrow> u16 \<Rightarrow> bytes" where
  "rewrite f ic ic' ad new co co' po po' =
     put16 (put16 (put16 (put32 f ad new) ic ic') co co') po po'"

lemma length_rewrite [simp]: "length (rewrite f ic ic' ad new co co' po po') = length f"
  by (simp add: rewrite_def)

lemma sum_shift:
  "s' + (c + d) = s + (c' + n) \<Longrightarrow> (c' + n) mod m = (c + d) mod m \<Longrightarrow> s' mod m = s mod m"
  for s s' c c' d n m :: nat
proof -
  assume e: "s' + (c + d) = s + (c' + n)" and "(c' + n) mod m = (c + d) mod m"
  then obtain k where "int (c' + n) = int (c + d) + int m * k" by (auto simp: nat_mod_eq_iff_int)
  with e have "int s' = int s + int m * k" by linarith
  then show ?thesis unfolding nat_mod_eq_iff_int by blast
qed

lemma rewrite_ip_sum:
  assumes ad: "ad = ip + 12 \<or> ad = ip + 16"
    and l4: "ip + 20 \<le> l4" "l4 \<le> co" "l4 \<le> po" "co + 2 \<le> length f" "po + 2 \<le> length f"
    and c: "(unat ic' + halves new) mod 65535 = (unat (get16 f (ip + 10)) + halves (get32 f ad)) mod 65535"
  shows "ip_sum (rewrite f (ip + 10) ic' ad new co co' po po') ip l4 mod 65535 = ip_sum f ip l4 mod 65535"
proof -
  let ?h = "slice f ip l4"
  let ?h1 = "put32 ?h (ad - ip) new"
  have len: "length ?h = l4 - ip" using l4 by simp
  have "slice (rewrite f (ip + 10) ic' ad new co co' po po') ip l4 = put16 ?h1 10 ic'"
    using ad l4 unfolding rewrite_def
    by (auto simp: slice_put16_outside slice_put16_inside slice_put32_inside)
  moreover have "wsum (put16 ?h1 10 ic') + unat (get16 ?h1 10) = wsum ?h1 + unat ic'"
    using l4 len by (intro wsum_put16) auto
  moreover have "get16 ?h1 10 = get16 f (ip + 10)"
    using ad l4 get16_slice [of ip "ip + 10" l4 f] by (auto simp: get16_put32_other)
  moreover have "wsum ?h1 + halves (get32 ?h (ad - ip)) = wsum ?h + halves new"
    using ad l4 len unfolding halves_def by (intro wsum_put32) auto
  moreover have "get32 ?h (ad - ip) = get32 f ad"
    using ad l4 by (intro get32_slice) auto
  ultimately have "ip_sum (rewrite f (ip + 10) ic' ad new co co' po po') ip l4
      + (unat (get16 f (ip + 10)) + halves (get32 f ad)) = ip_sum f ip l4 + (unat ic' + halves new)"
    by (simp add: ip_sum_def)
  then show ?thesis using c by (rule sum_shift)
qed

lemma rewrite_l4_sum:
  assumes ad: "ad = ip + 12 \<or> ad = ip + 16"
    and l4: "ip + 20 \<le> l4" "l4 \<le> po" "po + 2 \<le> co" "co + 2 \<le> hi" "hi \<le> length f"
    and ev: "even (po - l4)" "even (co - l4)"
    and c: "(unat co' + halves new + unat po') mod 65535
          = (unat (get16 f co) + halves (get32 f ad) + unat (get16 f po)) mod 65535"
  shows "l4_sum (rewrite f (ip + 10) ic' ad new co co' po po') ip l4 hi mod 65535
       = l4_sum f ip l4 hi mod 65535"
proof -
  let ?f = "rewrite f (ip + 10) ic' ad new co co' po po'"
  let ?s = "slice f l4 hi"
  let ?s1 = "put16 ?s (co - l4) co'"
  have "slice ?f l4 hi = put16 ?s1 (po - l4) po'"
    using ad l4 unfolding rewrite_def
    by (auto simp: slice_put16_outside slice_put16_inside slice_put32_outside)
  moreover have "wsum (put16 ?s1 (po - l4) po') + unat (get16 ?s1 (po - l4)) = wsum ?s1 + unat po'"
    using l4 ev by (intro wsum_put16) auto
  moreover have "get16 ?s1 (po - l4) = get16 f po"
  proof -
    have "po - l4 + 2 \<le> co - l4" using l4 by linarith
    then show ?thesis
      using l4 get16_slice [of l4 po hi f] by (simp add: get16_put16_other)
  qed
  moreover have "wsum ?s1 + unat (get16 ?s (co - l4)) = wsum ?s + unat co'"
    using l4 ev by (intro wsum_put16) auto
  moreover have "get16 ?s (co - l4) = get16 f co"
    using l4 by (intro get16_slice) auto
  moreover have "halves (get32 ?f (ip + 12)) + halves (get32 ?f (ip + 16)) + halves (get32 f ad)
      = halves (get32 f (ip + 12)) + halves (get32 f (ip + 16)) + halves new"
    using ad l4 unfolding rewrite_def
    by (auto simp: get32_put16_other get32_put32_other get32_put32_same)
  moreover have "?f ! (ip + 9) = f ! (ip + 9)"
    using ad l4 unfolding rewrite_def by (auto simp: nth_put16_other nth_put32_other)
  ultimately have "l4_sum ?f ip l4 hi
      + (unat (get16 f co) + (halves (get32 f ad) + unat (get16 f po)))
      = l4_sum f ip l4 hi + (unat co' + (halves new + unat po'))"
    by (simp add: l4_sum_def)
  then show ?thesis using c unfolding add.assoc by (rule sum_shift)
qed

subsection \<open>The rewriters as disjoint writes\<close>

text \<open>Offset of the transport checksum, and whether the packet carries one.\<close>

definition csum_off :: "byte \<Rightarrow> nat" where
  "csum_off proto = (if proto = IPPROTO_TCP then 16 else 6)"

definition has_l4_csum :: "bytes \<Rightarrow> nat \<Rightarrow> byte \<Rightarrow> bool" where
  "has_l4_csum f l4 proto \<longleftrightarrow>
     proto = IPPROTO_TCP \<or> proto = IPPROTO_UDP \<and> get16 f (l4 + 6) \<noteq> 0"

lemma proto_distinct [simp]: "IPPROTO_UDP \<noteq> IPPROTO_TCP" "IPPROTO_TCP \<noteq> IPPROTO_UDP"
  by (simp_all add: IPPROTO_TCP_def IPPROTO_UDP_def)

lemma snatRewrite_eq:
  assumes "20 \<le> ihl" "proto = IPPROTO_TCP \<or> proto = IPPROTO_UDP"
  shows "snatRewrite pkt ihl proto old new sp wp =
    rewrite pkt 10 (CsumUpdate32 (get16 pkt 10) old new) 12 new (ihl + csum_off proto)
      (if has_l4_csum pkt ihl proto
       then CsumUpdate16 (CsumUpdate32 (get16 pkt (ihl + csum_off proto)) old new) sp wp
       else get16 pkt (ihl + csum_off proto)) ihl wp"
proof -
  let ?p = "put16 (put32 pkt 12 new) 10 (CsumUpdate32 (get16 pkt 10) old new)"
  have g: "get16 ?p (ihl + k) = get16 pkt (ihl + k)" for k
    using assms(1) by (simp add: get16_put16_other get16_put32_other)
  show ?thesis
    using assms(2) g [of 16] g [of 6] put16_get16 [of ?p "ihl + 6"]
    by (auto simp: snatRewrite_def rewrite_def csum_off_def has_l4_csum_def Let_def)
qed

lemma dnatRewrite_eq:
  assumes "34 \<le> l4" "l4 + 4 \<le> co" "co + 2 \<le> length f"
  shows "dnatRewrite f l4 co skip0 val =
    rewrite f 24 (swap16 (csum_replace4 (swap16 (get16 f 24)) (swap32 (get32 f 30)) (swap32 (ClientIP val))))
      30 (ClientIP val) co
      (if skip0 \<and> get16 f co = 0 then get16 f co
       else swap16 (csum_replace2 (csum_replace4 (swap16 (get16 f co)) (swap32 (get32 f 30)) (swap32 (ClientIP val)))
              (swap16 (get16 f (l4 + 2))) (ClientPort val)))
      (l4 + 2) (swap16 (ClientPort val))"
proof -
  have g: "get16 (put16 f 24 v) co = get16 f co" for v
    using assms by (simp add: get16_put16_other)
  have same: "get16 (put16 (put16 f 24 v) co u) co = u" for u v
    using assms by (simp add: get16_put16_same)
  have id: "put16 (put16 f 24 v) co (get16 f co) = put16 f 24 v" for v
    using g [of v] put16_get16 [of "put16 f 24 v" co] by simp
  have c: "put16 (put16 (put32 f 30 a) 24 v) co u = put32 (put16 (put16 f 24 v) co u) 30 a" for a v u
    using assms by (simp add: put16_put32_commute)
  show ?thesis
    unfolding dnatRewrite_def rewrite_def Let_def g same c swap32_swap32 id
    using id by auto
qed

lemma rewrite_fields:
  assumes "ad + 4 \<le> l4" "ic + 2 \<le> ad" "l4 \<le> po" "po + 2 \<le> co" "co + 2 \<le> length f"
  shows "get32 (rewrite f ic ic' ad new co co' po po') ad = new"
    and "get16 (rewrite f ic ic' ad new co co' po po') po = po'"
    and "i \<notin> {ic, ic + 1, co, co + 1, po, po + 1} \<Longrightarrow> i < ad \<or> ad + 4 \<le> i \<Longrightarrow>
         rewrite f ic ic' ad new co co' po po' ! i = f ! i"
  using assms unfolding rewrite_def
  by (auto simp: get32_put16_other get32_put32_same get16_put16_same nth_put16_other nth_put32_other)

subsection \<open>Checksum congruences of the two rewriters\<close>

lemma snat_l4_cong:
  "(unat (CsumUpdate16 (CsumUpdate32 c old new) sp wp) + halves new + unat wp) mod 65535
   = (unat c + halves old + unat sp) mod 65535"
  using mod_eq_chain [OF CsumUpdate32_mod [of c old new, unfolded add.assoc]
      CsumUpdate16_mod [of "CsumUpdate32 c old new" sp wp]]
  by (simp add: halves_def add_ac)

lemma snat_ip_cong:
  "(unat (CsumUpdate32 c old new) + halves new) mod 65535 = (unat c + halves old) mod 65535"
  using CsumUpdate32_mod [of c old new] by (simp add: halves_def add_ac)

lemma dnat_ip_cong:
  "(unat (swap16 (csum_replace4 (swap16 c) (swap32 old) (swap32 new))) + halves new) mod 65535
   = (unat c + halves old) mod 65535"
  using csum_replace4_swapped [of c old new] by (simp add: halves_def add_ac)

lemma dnat_l4_cong:
  "(unat (swap16 (csum_replace2 (csum_replace4 (swap16 c) (swap32 old) (swap32 new)) (swap16 dp) np))
      + halves new + unat (swap16 np)) mod 65535
   = (unat c + halves old + unat dp) mod 65535"
  using mod_eq_chain [OF dnat_ip_cong [of c old new]
      csum_replace2_swapped [of "swap16 (csum_replace4 (swap16 c) (swap32 old) (swap32 new))" dp "swap16 np"]]
  by (simp add: add_ac)

lemma ip_sum_pos:
  assumes "f ! ip \<noteq> 0" "ip + 2 \<le> l4" "l4 \<le> length f"
  shows "0 < ip_sum f ip l4"
proof -
  have "slice f ip l4 = f ! ip # f ! (ip + 1) # slice f (ip + 2) l4"
    using assms by (simp add: slice_def Cons_nth_drop_Suc [symmetric] take_Cons' )
  then have "unat (be16 (f ! ip) (f ! (ip + 1))) \<le> ip_sum f ip l4" by (simp add: ip_sum_def)
  moreover have "0 < unat (be16 (f ! ip) (f ! (ip + 1)))"
    using assms(1) by (simp add: unat_be16 unat_gt_0)
  ultimately show ?thesis by linarith
qed

lemma l4_sum_pos: "f ! (ip + 9) \<noteq> 0 \<Longrightarrow> 0 < l4_sum f ip l4 hi"
  by (simp add: l4_sum_def unat_gt_0)

subsection \<open>When a packet is translated\<close>

definition snat_applies :: "bytes \<Rightarrow> ip4 \<Rightarrow> bool" where
  "snat_applies pkt w \<longleftrightarrow> 20 \<le> length pkt \<and> drop_bit 4 (pkt ! 0) = 4 \<and>
     (pkt ! 9 = IPPROTO_TCP \<and> ihl_of pkt + 20 \<le> length pkt \<or>
      pkt ! 9 = IPPROTO_UDP \<and> ihl_of pkt + 8 \<le> length pkt) \<and>
     get32 pkt 12 \<noteq> w"

lemma ApplySNAT_eq:
  "ApplySNAT put now pkt w t =
     (if snat_applies pkt w then
        case AllocPort put now w (pkt ! 9) (get32 pkt 16) (get16 pkt (ihl_of pkt + 2))
               (get32 pkt 12) (get16 pkt (ihl_of pkt)) t of
          (Inl err, t') \<Rightarrow> (Inl err, t')
        | (Inr wp, t') \<Rightarrow>
            (Inr (snatRewrite pkt (ihl_of pkt) (pkt ! 9) (get32 pkt 12) w (get16 pkt (ihl_of pkt)) wp), t')
      else (Inr pkt, t))"
  by (auto simp: ApplySNAT_def snat_applies_def Let_def)

lemma ApplySNAT_translated:
  assumes "ApplySNAT put now pkt w t = (Inr pkt', t')" "snat_applies pkt w"
  obtains wp where
    "AllocPort put now w (pkt ! 9) (get32 pkt 16) (get16 pkt (ihl_of pkt + 2))
       (get32 pkt 12) (get16 pkt (ihl_of pkt)) t = (Inr wp, t')"
    "pkt' = snatRewrite pkt (ihl_of pkt) (pkt ! 9) (get32 pkt 12) w (get16 pkt (ihl_of pkt)) wp"
  using assms by (auto simp: ApplySNAT_eq split: prod.splits sum.splits)

lemma snat_offsets:
  assumes "snat_applies pkt w"
  shows "ihl_of pkt + csum_off (pkt ! 9) + 2 \<le> length pkt" "4 \<le> csum_off (pkt ! 9)"
    "even (csum_off (pkt ! 9))" "pkt ! 9 = IPPROTO_TCP \<or> pkt ! 9 = IPPROTO_UDP"
    "pkt ! 0 \<noteq> 0" "pkt ! 9 \<noteq> 0"
  using assms by (auto simp: snat_applies_def csum_off_def IPPROTO_TCP_def IPPROTO_UDP_def)

lemma snat_length: "length (snatRewrite pkt ihl proto old new sp wp) = length pkt"
  by (simp add: snatRewrite_def Let_def)

lemma snat_ip_sum:
  assumes "snat_applies pkt w" "20 \<le> ihl_of pkt"
  shows "ip_sum (snatRewrite pkt (ihl_of pkt) (pkt ! 9) (get32 pkt 12) w sp wp) 0 (ihl_of pkt) mod 65535
       = ip_sum pkt 0 (ihl_of pkt) mod 65535"
  unfolding snatRewrite_eq [OF assms(2) snat_offsets(4) [OF assms(1)]]
  using rewrite_ip_sum [where ip = 0 and ad = 12] snat_ip_cong snat_offsets [OF assms(1)] assms(2)
  by simp

lemma snat_l4_sum:
  assumes "snat_applies pkt w" "20 \<le> ihl_of pkt" "has_l4_csum pkt (ihl_of pkt) (pkt ! 9)"
  shows "l4_sum (snatRewrite pkt (ihl_of pkt) (pkt ! 9) (get32 pkt 12) w (get16 pkt (ihl_of pkt)) wp)
           0 (ihl_of pkt) (length pkt) mod 65535
       = l4_sum pkt 0 (ihl_of pkt) (length pkt) mod 65535"
  unfolding snatRewrite_eq [OF assms(2) snat_offsets(4) [OF assms(1)]]
  using rewrite_l4_sum [where ip = 0 and ad = 12 and ?l4.0 = "ihl_of pkt" and po = "ihl_of pkt"
      and co = "ihl_of pkt + csum_off (pkt ! 9)" and hi = "length pkt"]
    snat_l4_cong snat_offsets [OF assms(1)] assms(2,3)
  by simp

lemma snat_keeps_byte:
  assumes "snat_applies pkt w" "20 \<le> ihl_of pkt"
    and "i \<notin> {10, 11, ihl_of pkt, ihl_of pkt + 1, ihl_of pkt + csum_off (pkt ! 9), ihl_of pkt + csum_off (pkt ! 9) + 1}"
    and "i < 12 \<or> 16 \<le> i"
  shows "snatRewrite pkt (ihl_of pkt) (pkt ! 9) old w sp wp ! i = pkt ! i"
  unfolding snatRewrite_eq [OF assms(2) snat_offsets(4) [OF assms(1)]]
  using snat_offsets [OF assms(1)] assms(2-4)
  by (intro rewrite_fields(3) [where ?l4.0 = "ihl_of pkt"]) auto

lemma snat_new_source:
  assumes "snat_applies pkt w" "20 \<le> ihl_of pkt"
  shows "get32 (snatRewrite pkt (ihl_of pkt) (pkt ! 9) old w sp wp) 12 = w"
    and "get16 (snatRewrite pkt (ihl_of pkt) (pkt ! 9) old w sp wp) (ihl_of pkt) = wp"
  unfolding snatRewrite_eq [OF assms(2) snat_offsets(4) [OF assms(1)]]
  using snat_offsets [OF assms(1)] assms(2)
  by (intro rewrite_fields(1,2) [where ?l4.0 = "ihl_of pkt"]; simp)+

subsection \<open>When a reply is translated back\<close>

text \<open>The frame is an IPv4 TCP or UDP frame with a complete transport header.\<close>

definition fr_l4 :: "bytes \<Rightarrow> nat" where
  "fr_l4 f = 14 + unat (f ! 14 AND 0x0f) * 4"

definition l4_frame :: "bytes \<Rightarrow> bool" where
  "l4_frame f \<longleftrightarrow> get16 f 12 = 0x0800 \<and> 34 \<le> fr_l4 f \<and>
     (f ! 23 = IPPROTO_TCP \<and> fr_l4 f + 20 \<le> length f \<or>
      f ! 23 = IPPROTO_UDP \<and> fr_l4 f + 8 \<le> length f)"

lemma masque_xdp_prog_eq:
  "masque_xdp_prog quic fwdq q now f t =
     (if 34 \<le> length f \<and> l4_frame f then
        if f ! 23 = IPPROTO_UDP \<and> get16 f (fr_l4 f + 2) = 443 \<and> quic q then (RedirectQuic q, f, t)
        else (case nt_m t (revKeyOf f (fr_l4 f) (f ! 23)) of
                Some val \<Rightarrow> (if fwdq q then RedirectFwd q else XDP_PASS,
                   dnatRewrite f (fr_l4 f) (fr_l4 f + csum_off (f ! 23)) (f ! 23 = IPPROTO_UDP) val,
                   touchEntry now (revKeyOf f (fr_l4 f) (f ! 23)) t)
              | None \<Rightarrow> (XDP_PASS, f, t))
      else (XDP_PASS, f, t))"
  by (auto simp: masque_xdp_prog_def l4_frame_def fr_l4_def csum_off_def Let_def split: option.splits)

lemma frame_offsets:
  assumes "l4_frame f"
  shows "34 \<le> fr_l4 f" "fr_l4 f + csum_off (f ! 23) + 2 \<le> length f" "34 \<le> length f"
    "4 \<le> csum_off (f ! 23)" "even (csum_off (f ! 23))" "f ! 23 \<noteq> 0"
    "csum_off (f ! 23) = 6 \<Longrightarrow> f ! 23 = IPPROTO_UDP"
  using assms by (auto simp: l4_frame_def csum_off_def IPPROTO_TCP_def IPPROTO_UDP_def)

lemmas dnat_offsets = frame_offsets(1,2,3,4,5)

lemma dnat_eq:
  assumes "l4_frame f"
  shows "dnatRewrite f (fr_l4 f) (fr_l4 f + csum_off (f ! 23)) skip0 val =
    rewrite f (14 + 10) (swap16 (csum_replace4 (swap16 (get16 f 24)) (swap32 (get32 f 30)) (swap32 (ClientIP val))))
      30 (ClientIP val) (fr_l4 f + csum_off (f ! 23))
      (if skip0 \<and> get16 f (fr_l4 f + csum_off (f ! 23)) = 0 then get16 f (fr_l4 f + csum_off (f ! 23))
       else swap16 (csum_replace2 (csum_replace4 (swap16 (get16 f (fr_l4 f + csum_off (f ! 23))))
              (swap32 (get32 f 30)) (swap32 (ClientIP val)))
              (swap16 (get16 f (fr_l4 f + 2))) (ClientPort val)))
      (fr_l4 f + 2) (swap16 (ClientPort val))"
  by (subst dnatRewrite_eq) (use dnat_offsets [OF assms] in simp_all)

lemma dnat_ip_sum:
  assumes "l4_frame f"
  shows "ip_sum (dnatRewrite f (fr_l4 f) (fr_l4 f + csum_off (f ! 23)) skip0 val) 14 (fr_l4 f) mod 65535
       = ip_sum f 14 (fr_l4 f) mod 65535"
  unfolding dnat_eq [OF assms]
  by (rule rewrite_ip_sum) (use dnat_offsets [OF assms] dnat_ip_cong in simp_all)

lemma dnat_l4_sum:
  assumes "l4_frame f" "fr_l4 f + csum_off (f ! 23) + 2 \<le> hi" "hi \<le> length f"
    and "\<not> (skip0 \<and> get16 f (fr_l4 f + csum_off (f ! 23)) = 0)"
  shows "l4_sum (dnatRewrite f (fr_l4 f) (fr_l4 f + csum_off (f ! 23)) skip0 val) 14 (fr_l4 f) hi mod 65535
       = l4_sum f 14 (fr_l4 f) hi mod 65535"
  unfolding dnat_eq [OF assms(1)] if_not_P [OF assms(4)]
  by (rule rewrite_l4_sum) (use dnat_offsets [OF assms(1)] assms(2,3) dnat_l4_cong in simp_all)

lemma dnat_fields:
  assumes "l4_frame f"
  shows "get32 (dnatRewrite f (fr_l4 f) (fr_l4 f + csum_off (f ! 23)) skip0 val) 30 = ClientIP val"
    and "get16 (dnatRewrite f (fr_l4 f) (fr_l4 f + csum_off (f ! 23)) skip0 val) (fr_l4 f + 2)
       = swap16 (ClientPort val)"
  unfolding dnat_eq [OF assms] using dnat_offsets [OF assms]
  by (intro rewrite_fields(1,2) [where ?l4.0 = "fr_l4 f"]; simp)+

lemma dnat_first_byte:
  assumes "l4_frame f" "i < 24"
  shows "dnatRewrite f (fr_l4 f) (fr_l4 f + csum_off (f ! 23)) skip0 val ! i = f ! i"
  unfolding dnat_eq [OF assms(1)] using dnat_offsets [OF assms(1)] assms(2)
  by (intro rewrite_fields(3) [where ?l4.0 = "fr_l4 f"]) auto

subsection \<open>A concrete flow\<close>

text \<open>
  A TCP segment from client 0.0.0.10 port 5000 to 0.0.0.2 port 443, a UDP
  datagram on the same addresses, and the reply frame to WAN address 0.0.0.1,
  port 61000.
\<close>

definition ex_tcp :: bytes where
  "ex_tcp = [0x45, 0, 0, 40,  0, 0, 0, 0,  64, 6, 0x7a, 0xc5,  0, 0, 0, 10,  0, 0, 0, 2,
             0x13, 0x88, 0x01, 0xbb,  0, 0, 0, 1,  0, 0, 0, 1,  0x50, 0x10, 0, 0,  0x9a, 0x84, 0, 0]"

definition ex_udp :: bytes where
  "ex_udp = [0x45, 0, 0, 28,  0, 0, 0, 0,  64, 17, 0, 0,  0, 0, 0, 10,  0, 0, 0, 2,
             0x13, 0x88, 0x01, 0xbb,  0, 8, 0xda, 0xb7]"

definition ex_reply :: bytes where
  "ex_reply = [2, 0, 0, 0, 0, 1,  2, 0, 0, 0, 0, 2,  8, 0,
               0x45, 0, 0, 40,  0, 0, 0, 0,  64, 6, 0x7a, 0xce,  0, 0, 0, 2,  0, 0, 0, 1,
               0x01, 0xbb, 0xee, 0x48,  0, 0, 0, 1,  0, 0, 0, 2,  0x50, 0x10, 0, 0,  0xbf, 0xcb, 0, 0]"

lemmas ex_read = get16_def get32_def be16_def be32_def ihl_of_def fr_l4_def
  IPPROTO_TCP_def IPPROTO_UDP_def

lemma ex_tcp_fields:
  "snat_applies ex_tcp 1" "ihl_of ex_tcp = 20" "ex_tcp ! 9 = 6" "get32 ex_tcp 16 = 2" "get32 ex_tcp 12 = 10"
  "get16 ex_tcp 20 = 5000" "get16 ex_tcp 22 = 443"
  by (simp_all add: snat_applies_def ex_tcp_def ex_read)

lemma ex_reply_fields:
  "l4_frame ex_reply" "fr_l4 ex_reply = 34" "ex_reply ! 23 = 6" "get32 ex_reply 26 = 2"
  "get32 ex_reply 30 = 1" "get16 ex_reply 34 = 443" "get16 ex_reply 36 = 61000"
  by (simp_all add: l4_frame_def ex_reply_def ex_read)

lemma ex_csums:
  "csum_valid (ip_sum ex_tcp 0 20)" "csum_valid (l4_sum ex_tcp 0 20 40)" "length ex_tcp = 40"
  "has_l4_csum ex_tcp 20 6"
  by (simp_all add: csum_valid_def ip_sum_def l4_sum_def halves_def ex_tcp_def slice_def ex_read
      unat_hi16 unat_lo16 has_l4_csum_def hi16_def lo16_def)

lemma ex_reply_csums:
  "csum_valid (ip_sum ex_reply 14 34)" "csum_valid (l4_sum ex_reply 14 34 54)"
  by (simp_all add: csum_valid_def ip_sum_def l4_sum_def halves_def ex_reply_def slice_def ex_read
      unat_hi16 unat_lo16 hi16_def lo16_def)

lemma ex_snat:
  "ApplySNAT roomy_put 7 ex_tcp 1 (OpenNatTable Map.empty)
     = (Inr (snatRewrite ex_tcp 20 6 10 1 5000 61000), ex_table)"
  by (simp add: ApplySNAT_eq ex_tcp_fields ex_alloc)

subsection \<open>Properties\<close>

text \<open>
  C11: source NAT keeps the checksums a receiver verifies. A packet with a valid
  IP header checksum leaves with one, and if its TCP or UDP checksum (where the
  sender computed one) was valid for the client's address and port, the packet
  that leaves has a valid one for the WAN address and port.
\<close>

theorem snat_keeps_checksums:
  assumes "ApplySNAT put now pkt w t = (Inr pkt', t')" "20 \<le> ihl_of pkt" "ihl_of pkt \<le> length pkt"
    and "csum_valid (ip_sum pkt 0 (ihl_of pkt))"
  shows "csum_valid (ip_sum pkt' 0 (ihl_of pkt)) \<and>
    (has_l4_csum pkt (ihl_of pkt) (pkt ! 9) \<and> csum_valid (l4_sum pkt 0 (ihl_of pkt) (length pkt))
      \<longrightarrow> csum_valid (l4_sum pkt' 0 (ihl_of pkt) (length pkt)))"
proof (cases "snat_applies pkt w")
  case True
  from assms(1) True obtain wp where p: "pkt' = snatRewrite pkt (ihl_of pkt) (pkt ! 9) (get32 pkt 12) w
      (get16 pkt (ihl_of pkt)) wp"
    by (rule ApplySNAT_translated)
  have keep: "pkt' ! i = pkt ! i" if "i \<in> {0, 9}" for i
    unfolding p using snat_keeps_byte [OF True assms(2)] that assms(2) by auto
  have "0 < ip_sum pkt' 0 (ihl_of pkt)"
    using keep [of 0] snat_offsets(5) [OF True] assms(2,3) by (intro ip_sum_pos) (auto simp: p snat_length)
  moreover have "0 < l4_sum pkt' 0 (ihl_of pkt) (length pkt)"
    using keep [of 9] snat_offsets(6) [OF True] by (intro l4_sum_pos) simp
  ultimately show ?thesis
    using snat_ip_sum [OF True assms(2)] snat_l4_sum [OF True assms(2)] assms(4)
    by (auto simp: csum_valid_def p)
next
  case False
  then show ?thesis using assms by (simp add: ApplySNAT_eq)
qed

theorem snat_keeps_checksums_witness:
  "csum_valid (ip_sum (snatRewrite ex_tcp 20 6 10 1 5000 61000) 0 20) \<and>
   csum_valid (l4_sum (snatRewrite ex_tcp 20 6 10 1 5000 61000) 0 20 40)"
  using snat_keeps_checksums [OF ex_snat] ex_csums ex_tcp_fields by simp

text \<open>
  A translated packet carries the WAN address and the allocated port as its
  source, and every byte outside the source address, source port and the two
  checksum fields is the client's.
\<close>

theorem snat_rewrites_source_only:
  assumes "ApplySNAT put now pkt w t = (Inr pkt', t')" "snat_applies pkt w" "20 \<le> ihl_of pkt"
  shows "\<exists>wp. AllocPort put now w (pkt ! 9) (get32 pkt 16) (get16 pkt (ihl_of pkt + 2))
       (get32 pkt 12) (get16 pkt (ihl_of pkt)) t = (Inr wp, t') \<and>
     length pkt' = length pkt \<and> get32 pkt' 12 = w \<and> get16 pkt' (ihl_of pkt) = wp \<and>
     (\<forall>i. i \<notin> {10, 11, ihl_of pkt, ihl_of pkt + 1, ihl_of pkt + csum_off (pkt ! 9), ihl_of pkt + csum_off (pkt ! 9) + 1}
        \<longrightarrow> i < 12 \<or> 16 \<le> i \<longrightarrow> pkt' ! i = pkt ! i)"
proof -
  from assms(1,2) obtain wp where
    "AllocPort put now w (pkt ! 9) (get32 pkt 16) (get16 pkt (ihl_of pkt + 2))
       (get32 pkt 12) (get16 pkt (ihl_of pkt)) t = (Inr wp, t')"
    and p: "pkt' = snatRewrite pkt (ihl_of pkt) (pkt ! 9) (get32 pkt 12) w (get16 pkt (ihl_of pkt)) wp"
    by (rule ApplySNAT_translated)
  then show ?thesis
    unfolding p using snat_new_source [OF assms(2,3)] snat_keeps_byte [OF assms(2,3)] snat_length by blast
qed

theorem snat_rewrites_source_only_witness:
  "get32 (snatRewrite ex_tcp 20 6 10 1 5000 61000) 12 = 1"
  using snat_rewrites_source_only [OF ex_snat] ex_tcp_fields by simp

text \<open>
  C12: the XDP program keeps the checksums of every frame it passes on or
  redirects: valid IP header checksums stay valid, and so do TCP and UDP
  checksums, for any end \<open>hi\<close> of the segment inside the frame. Its host-order
  arithmetic with deferred carries agrees with the network-order sum.
\<close>

theorem xdp_keeps_checksums:
  assumes "masque_xdp_prog quic fwdq q now f t = (act, f', t')" "l4_frame f"
    and "f ! 14 \<noteq> 0" "csum_valid (ip_sum f 14 (fr_l4 f))"
  shows "csum_valid (ip_sum f' 14 (fr_l4 f)) \<and>
    (has_l4_csum f (fr_l4 f) (f ! 23) \<and> fr_l4 f + csum_off (f ! 23) + 2 \<le> hi \<and> hi \<le> length f \<and>
     csum_valid (l4_sum f 14 (fr_l4 f) hi) \<longrightarrow> csum_valid (l4_sum f' 14 (fr_l4 f) hi))"
proof (cases "f' = f")
  case True
  then show ?thesis using assms(4) by simp
next
  case False
  then obtain val where f': "f' = dnatRewrite f (fr_l4 f) (fr_l4 f + csum_off (f ! 23)) (f ! 23 = IPPROTO_UDP) val"
    using assms(1) by (auto simp: masque_xdp_prog_eq split: if_splits option.splits)
  have len: "length f' = length f" by (simp add: f' dnat_eq [OF assms(2)])
  have b: "f' ! i = f ! i" if "i < 24" for i unfolding f' by (rule dnat_first_byte [OF assms(2) that])
  have "0 < ip_sum f' 14 (fr_l4 f)"
    using b [of 14] assms(3) frame_offsets [OF assms(2)] len by (intro ip_sum_pos) auto
  moreover have "0 < l4_sum f' 14 (fr_l4 f) hi"
    using b [of 23] frame_offsets(6) [OF assms(2)] by (intro l4_sum_pos) simp
  ultimately show ?thesis
    using dnat_ip_sum [OF assms(2)] dnat_l4_sum [OF assms(2), of hi] assms(4)
    by (auto simp: csum_valid_def f' has_l4_csum_def csum_off_def)
qed

theorem xdp_keeps_checksums_witness:
  "csum_valid (ip_sum (fst (snd (masque_xdp_prog (\<lambda>_. True) (\<lambda>_. True) 3 8 ex_reply ex_table))) 14 34) \<and>
   csum_valid (l4_sum (fst (snd (masque_xdp_prog (\<lambda>_. True) (\<lambda>_. True) 3 8 ex_reply ex_table))) 14 34 54)"
proof -
  obtain a f' t' where r: "masque_xdp_prog (\<lambda>_. True) (\<lambda>_. True) 3 8 ex_reply ex_table = (a, f', t')"
    by (metis prod_cases3)
  have "ex_reply ! 14 \<noteq> 0" "csum_off 6 = 16" "has_l4_csum ex_reply 34 6" "length ex_reply = 54"
    by (simp_all add: ex_reply_def csum_off_def has_l4_csum_def ex_read)
  with xdp_keeps_checksums [OF r ex_reply_fields(1), of 54] ex_reply_csums ex_reply_fields r
  show ?thesis by simp
qed

text \<open>What the XDP program does with the reply to a translated packet.\<close>

lemma snat_reply_translated:
  assumes "nat_init t0" "(nat_step put_exact w)\<^sup>*\<^sup>* t0 t" "put_exact put"
    and "ApplySNAT put now pkt w t = (Inr pkt', t')" "snat_applies pkt w" "20 \<le> ihl_of pkt"
    and "l4_frame f" "f ! 23 = pkt ! 9" "fwdq q"
    and "get32 f 30 = get32 pkt' 12" "get16 f (fr_l4 f + 2) = get16 pkt' (ihl_of pkt)"
    and "get32 f 26 = get32 pkt 16" "get16 f (fr_l4 f) = get16 pkt (ihl_of pkt + 2)"
  obtains v t'' where "masque_xdp_prog quic fwdq q now' f t' =
      (RedirectFwd q, dnatRewrite f (fr_l4 f) (fr_l4 f + csum_off (f ! 23)) (f ! 23 = IPPROTO_UDP) v, t'')"
    "ClientIP v = get32 pkt 12" "ClientPort v = hostToNet16 (get16 pkt (ihl_of pkt))"
proof -
  from assms(4,5) obtain wp where
    a: "AllocPort put now w (pkt ! 9) (get32 pkt 16) (get16 pkt (ihl_of pkt + 2))
       (get32 pkt 12) (get16 pkt (ihl_of pkt)) t = (Inr wp, t')"
    and p: "pkt' = snatRewrite pkt (ihl_of pkt) (pkt ! 9) (get32 pkt 12) w (get16 pkt (ihl_of pkt)) wp"
    by (rule ApplySNAT_translated)
  from AllocPort_reverse [OF assms(1-3) a] obtain v where wp: "61000 \<le> unat wp"
    and v: "nt_m t' (makeNatKey w wp (pkt ! 9) (get32 pkt 16) (get16 pkt (ihl_of pkt + 2))) = Some v"
      "ClientIP v = get32 pkt 12" "ClientPort v = hostToNet16 (get16 pkt (ihl_of pkt))" by blast
  have src: "get32 pkt' 12 = w" "get16 pkt' (ihl_of pkt) = wp"
    unfolding p using snat_new_source [OF assms(5,6)] by auto
  have "wp \<noteq> 443" using wp by auto
  moreover have "revKeyOf f (fr_l4 f) (f ! 23)
      = makeNatKey w wp (pkt ! 9) (get32 pkt 16) (get16 pkt (ihl_of pkt + 2))"
    using src assms(8,10-13) by (simp add: revKeyOf_def makeNatKey_def hostToNet16_def)
  ultimately show ?thesis
    using v src assms(7,9,11) frame_offsets(3) [OF assms(7)] that
    by (simp add: masque_xdp_prog_eq hostToNet16_def)
qed



text \<open>
  The UDP branch can turn a present checksum into 0, the value that tells
  the receiver there is none: whenever the words of the new source equal, in
  ones' complement, the old checksum plus the words of the old source. The
  checksum of such a datagram is \<^verbatim>\<open>0xffff\<close> in RFC 768's encoding.
\<close>

theorem snat_udp_checksum_vanishes:
  assumes "ApplySNAT put now pkt w t = (Inr pkt', t')" "snat_applies pkt w" "20 \<le> ihl_of pkt"
    and "pkt ! 9 = IPPROTO_UDP" "get16 pkt (ihl_of pkt + 6) \<noteq> 0" "get16 pkt' (ihl_of pkt) \<noteq> 0"
    and "(unat (get16 pkt (ihl_of pkt + 6)) + halves (get32 pkt 12) + unat (get16 pkt (ihl_of pkt))) mod 65535
       = (halves w + unat (get16 pkt' (ihl_of pkt))) mod 65535"
  shows "get16 pkt' (ihl_of pkt + 6) = 0"
proof -
  from assms(1,2) obtain wp where
    p: "pkt' = snatRewrite pkt (ihl_of pkt) (pkt ! 9) (get32 pkt 12) w (get16 pkt (ihl_of pkt)) wp"
    by (rule ApplySNAT_translated)
  have wp: "get16 pkt' (ihl_of pkt) = wp" unfolding p by (rule snat_new_source [OF assms(2,3)])
  let ?c = "CsumUpdate16 (CsumUpdate32 (get16 pkt (ihl_of pkt + 6)) (get32 pkt 12) w) (get16 pkt (ihl_of pkt)) wp"
  have "get16 pkt' (ihl_of pkt + 6) = ?c"
    unfolding p snatRewrite_eq [OF assms(3) snat_offsets(4) [OF assms(2)]] rewrite_def
    using assms(4,5) snat_offsets(1) [OF assms(2)]
    by (simp add: csum_off_def has_l4_csum_def get16_put16_same get16_put16_other)
  moreover have "(unat ?c + (halves w + unat wp)) mod 65535 = (0 + (halves w + unat wp)) mod 65535"
    using snat_l4_cong [of "get16 pkt (ihl_of pkt + 6)" "get32 pkt 12" w "get16 pkt (ihl_of pkt)" wp] assms(7) wp
    by (simp only: add.assoc add_0)
  then have "unat ?c mod 65535 = 0" using sum_mod_cancel [of "unat ?c" _ 65535 0] by simp
  moreover have "?c \<noteq> 0xffff" using assms(6) wp by (intro CsumUpdate16_not_ffff) simp
  ultimately show ?thesis by (metis csum_zero_or_ffff)
qed

theorem snat_udp_checksum_vanishes_witness:
  "get16 (snatRewrite ex_udp 20 17 10 1 5000 61000) 26 = 0 \<and> get16 ex_udp 26 \<noteq> 0"
proof -
  have f: "snat_applies ex_udp 1" "ihl_of ex_udp = 20" "ex_udp ! 9 = 17" "get32 ex_udp 16 = 2"
    "get32 ex_udp 12 = 10" "get16 ex_udp 20 = 5000" "get16 ex_udp 22 = 443" "get16 ex_udp 26 = 0xdab7"
    by (simp_all add: snat_applies_def ex_udp_def ex_read)
  obtain t' where "AllocPort roomy_put 7 1 17 2 443 10 5000 (OpenNatTable Map.empty) = (Inr 61000, t')"
    using ex_alloc_first by blast
  then have a: "ApplySNAT roomy_put 7 ex_udp 1 (OpenNatTable Map.empty)
      = (Inr (snatRewrite ex_udp 20 17 10 1 5000 61000), t')"
    by (simp add: ApplySNAT_eq f)
  have "get16 (snatRewrite ex_udp 20 17 10 1 5000 61000) 20 = 61000"
    using snat_new_source(2) [OF f(1)] f by simp
  then show ?thesis
    using snat_udp_checksum_vanishes [OF a f(1)] f
    by (simp add: IPPROTO_UDP_def halves_def unat_hi16 unat_lo16)
qed

end
