(* ===== verification/Session.thy ===== *)
theory Session
  imports Prelude
begin

unbundle bit_operations_syntax

text \<open>
  The bonded-tunnel session table of \<^verbatim>\<open>xdp/tunnel.go\<close> and the flow hashes of
  \<^verbatim>\<open>xdp/tunnel.go\<close> and \<^verbatim>\<open>utility/flowhash.go\<close>.

  A \<^verbatim>\<open>*TunnelSession\<close> is a record with the identity of the object (\<open>ts_id\<close>), which is
  what the pointer comparison of \<^verbatim>\<open>RemoveSession\<close> compares. Whether the QUIC
  connection of a session accepts a datagram is an argument of \<open>Deliver\<close>. The
  read-write mutex makes each operation one step.
\<close>

subsection \<open>Flow hashes\<close>

text \<open>\<^verbatim>\<open>bytes.Compare\<close>.\<close>

fun bytesCompare :: "bytes \<Rightarrow> bytes \<Rightarrow> int" where
  "bytesCompare [] [] = 0"
| "bytesCompare [] (b # bs) = -1"
| "bytesCompare (a # as) [] = 1"
| "bytesCompare (a # as) (b # bs) = (if a < b then -1 else if b < a then 1 else bytesCompare as bs)"

definition offset32 :: u32 where "offset32 = 2166136261"
definition prime32 :: u32 where "prime32 = 16777619"

definition fnvUpd :: "byte \<Rightarrow> u32 \<Rightarrow> u32" where
  "fnvUpd b h = (h XOR ucast b) * prime32"

definition fnv :: "bytes \<Rightarrow> u32" where
  "fnv bs = fold fnvUpd bs offset32"

text \<open>The five fields the symmetric hash reads, and its canonical byte sequence.\<close>

definition flowPorts :: "bytes \<Rightarrow> u16 \<times> u16" where
  "flowPorts pkt =
     (let ihl = unat (pkt ! 0 AND 0x0f) * 4; proto = pkt ! 9
      in if (proto = 6 \<or> proto = 17) \<and> length pkt \<ge> ihl + 4
         then (get16 pkt ihl, get16 pkt (ihl + 2)) else (0, 0))"

definition canonicalTuple :: "bytes \<Rightarrow> u16 \<Rightarrow> bytes \<Rightarrow> u16 \<Rightarrow> byte \<Rightarrow> bytes" where
  "canonicalTuple srcIP srcPort dstIP dstPort proto =
     (let c = bytesCompare srcIP dstIP;
          (loIP, loPort, hiIP, hiPort) =
            (if c > 0 \<or> (c = 0 \<and> srcPort > dstPort)
             then (dstIP, dstPort, srcIP, srcPort) else (srcIP, srcPort, dstIP, dstPort))
      in loIP @ [hi8 loPort, lo8 loPort] @ hiIP @ [hi8 hiPort, lo8 hiPort] @ [proto])"

definition flowHashSym :: "bytes \<Rightarrow> u32" where
  "flowHashSym pkt =
     (let (srcPort, dstPort) = flowPorts pkt
      in fnv (canonicalTuple (slice pkt 12 16) srcPort (slice pkt 16 20) dstPort (pkt ! 9)))"

text \<open>\<^verbatim>\<open>FlowHash\<close> of \<^verbatim>\<open>utility/flowhash.go\<close>, which keeps the direction.\<close>

definition FlowHash :: "bytes \<Rightarrow> u32" where
  "FlowHash ip =
     (if length ip < 20 \<or> drop_bit 4 (ip ! 0) \<noteq> 4 then fnv (take 20 ip)
      else let proto = ip ! 9; ihl = unat (ip ! 0 AND 0x0f) * 4
           in fnv (slice ip 12 20 @ [proto] @
                (if (proto = 6 \<or> proto = 17) \<and> ihl \<ge> 20 \<and> length ip \<ge> ihl + 4
                 then slice ip ihl (ihl + 4) else [])))"

subsection \<open>The session table\<close>

record TunnelSession =
  ts_id :: nat
  InnerIP :: ip4
  TunnelIndex :: nat

record sessionGroup =
  sessions :: "TunnelSession option list"
  sg_count :: int

type_synonym SessionTable = "ip4 \<Rightarrow> sessionGroup option"

definition NewSessionTable :: SessionTable where
  "NewSessionTable = Map.empty"

fun firstLive :: "TunnelSession option list \<Rightarrow> TunnelSession option" where
  "firstLive [] = None"
| "firstLive (Some s # r) = Some s"
| "firstLive (None # r) = firstLive r"

definition pick :: "sessionGroup \<Rightarrow> bytes \<Rightarrow> TunnelSession option" where
  "pick g pkt =
     (if sg_count g \<le> 0 \<or> length (sessions g) = 0 then None
      else let idx = unat (flowHashSym pkt mod word_of_int (sg_count g))
           in if idx < length (sessions g) \<and> sessions g ! idx \<noteq> None then sessions g ! idx
              else firstLive (sessions g))"

text \<open>The loop \<^verbatim>\<open>for s.TunnelIndex >= len(g.sessions)\<close>, which appends \<^verbatim>\<open>nil\<close>.\<close>

definition growTo :: "nat \<Rightarrow> 'a option list \<Rightarrow> 'a option list" where
  "growTo i xs = xs @ replicate (Suc i - length xs) None"

definition Register :: "TunnelSession \<Rightarrow> int \<Rightarrow> SessionTable \<Rightarrow> SessionTable" where
  "Register s count t =
     (let count = (if count < 1 then 1 else count);
          k = InnerIP s;
          g = (case t k of Some g \<Rightarrow> g
               | None \<Rightarrow> \<lparr>sessions = replicate (nat count) None, sg_count = count\<rparr>);
          g = (if count > sg_count g then g\<lparr>sg_count := count\<rparr> else g);
          g = g\<lparr>sessions := growTo (TunnelIndex s) (sessions g)\<rparr>;
          g = g\<lparr>sessions := (sessions g)[TunnelIndex s := Some s]\<rparr>
      in t(k \<mapsto> g))"

definition same_session :: "TunnelSession \<Rightarrow> TunnelSession option \<Rightarrow> bool" where
  "same_session s x = (case x of Some y \<Rightarrow> ts_id y = ts_id s | None \<Rightarrow> False)"

definition RemoveSession :: "TunnelSession \<Rightarrow> SessionTable \<Rightarrow> SessionTable" where
  "RemoveSession s t =
     (let k = InnerIP s in
      case t k of
        None \<Rightarrow> t
      | Some g \<Rightarrow>
          let i = TunnelIndex s;
              g = (if i < length (sessions g) \<and> same_session s (sessions g ! i)
                   then g\<lparr>sessions := (sessions g)[i := None]\<rparr> else g)
          in if list_ex (\<lambda>x. x \<noteq> None) (sessions g) then t(k \<mapsto> g) else t(k := None))"

definition Deliver :: "(TunnelSession \<Rightarrow> bytes \<Rightarrow> bool) \<Rightarrow> bytes \<Rightarrow> ip4 \<Rightarrow> SessionTable
    \<Rightarrow> bool \<times> TunnelSession option \<times> SessionTable" where
  "Deliver sendDatagram pkt dstIP t =
     (if length pkt < 20 then (False, None, t)
      else case (case t dstIP of Some g \<Rightarrow> pick g pkt | None \<Rightarrow> None) of
             None \<Rightarrow> (False, None, t)
           | Some sess \<Rightarrow>
               if sendDatagram sess pkt then (True, Some sess, t)
               else (False, Some sess, RemoveSession sess t))"

subsection \<open>The address pool and stream framing\<close>

record IPPool =
  ip_next :: u32
  ip_base :: u32
  ip_size :: u32

definition NewIPPool :: "ip4 \<Rightarrow> nat \<Rightarrow> IPPool" where
  "NewIPPool base ones = \<lparr>ip_next = base + 1, ip_base = base, ip_size = push_bit (32 - ones) 1\<rparr>"

definition Allocate :: "IPPool \<Rightarrow> ip4 option \<times> IPPool" where
  "Allocate p =
     (if ip_next p \<ge> ip_base p + ip_size p - 1 then (None, p)
      else (Some (ip_next p), p\<lparr>ip_next := ip_next p + 1\<rparr>))"

text \<open>The writer is an argument: it takes the next bytes or fails.\<close>

definition WriteFramed :: "('w \<Rightarrow> bytes \<Rightarrow> 'w option) \<Rightarrow> 'w \<Rightarrow> bytes \<Rightarrow> 'w option" where
  "WriteFramed write w pkt =
     (case write w [of_nat (length pkt div 256), of_nat (length pkt)] of
        None \<Rightarrow> None
      | Some w \<Rightarrow> write w pkt)"

datatype read_error = EOF | UnexpectedEOF

text \<open>\<^verbatim>\<open>io.ReadFull\<close> of \<open>n\<close> bytes: the bytes read and the rest of the stream.\<close>

definition ReadFull :: "nat \<Rightarrow> bytes \<Rightarrow> (read_error + bytes) \<times> bytes" where
  "ReadFull n r =
     (if n \<le> length r then (Inr (take n r), drop n r)
      else (Inl (if r = [] then EOF else UnexpectedEOF), []))"

definition ReadFramed :: "bytes \<Rightarrow> (read_error + bytes) \<times> bytes" where
  "ReadFramed r =
     (case ReadFull 2 r of
        (Inl e, r) \<Rightarrow> (Inl e, r)
      | (Inr hdr, r) \<Rightarrow> ReadFull (unat (hdr ! 0) * 256 + unat (hdr ! 1)) r)"

subsection \<open>The hash does not see the direction\<close>

lemma bytesCompare_swap: "bytesCompare b a = - bytesCompare a b"
  by (induction a b rule: bytesCompare.induct) auto

lemma bytesCompare_eq_0: "bytesCompare a b = 0 \<longleftrightarrow> a = b"
  by (induction a b rule: bytesCompare.induct) auto

lemma canonicalTuple_swap:
  "canonicalTuple b q a p proto = canonicalTuple a p b q proto"
proof -
  consider "bytesCompare a b < 0" | "0 < bytesCompare a b" | "a = b" "bytesCompare a b = 0"
    using bytesCompare_eq_0 [of a b] by linarith
  then show ?thesis
    by cases (auto simp: canonicalTuple_def bytesCompare_swap [of b a] Let_def)
qed

definition reversed :: "bytes \<Rightarrow> bytes \<Rightarrow> bool" where
  "reversed pkt pkt' \<longleftrightarrow> slice pkt' 12 16 = slice pkt 16 20 \<and> slice pkt' 16 20 = slice pkt 12 16 \<and>
     pkt' ! 9 = pkt ! 9 \<and> flowPorts pkt' = prod.swap (flowPorts pkt)"

lemma flowHashSym_reversed: "reversed pkt pkt' \<Longrightarrow> flowHashSym pkt' = flowHashSym pkt"
  by (cases "flowPorts pkt")
    (simp add: reversed_def flowHashSym_def canonicalTuple_swap [of "slice pkt 16 20"])

lemma pick_reversed: "reversed pkt pkt' \<Longrightarrow> pick g pkt' = pick g pkt"
  by (simp add: pick_def flowHashSym_reversed)

subsection \<open>The table invariant\<close>

text \<open>
  A group is under its own inner address, every session sits at its own index,
  at least one is live, and the declared count is positive.
\<close>

definition group_inv :: "ip4 \<Rightarrow> sessionGroup \<Rightarrow> bool" where
  "group_inv k g \<longleftrightarrow> 1 \<le> sg_count g \<and> list_ex (\<lambda>x. x \<noteq> None) (sessions g) \<and>
     (\<forall>i s. i < length (sessions g) \<longrightarrow> sessions g ! i = Some s \<longrightarrow> TunnelIndex s = i \<and> InnerIP s = k)"

definition table_inv :: "SessionTable \<Rightarrow> bool" where
  "table_inv t \<longleftrightarrow> (\<forall>k g. t k = Some g \<longrightarrow> group_inv k g)"

lemma length_growTo [simp]: "i < length (growTo i xs)" "length xs \<le> length (growTo i xs)"
  by (auto simp: growTo_def)

lemma nth_growTo: "j < length (growTo i xs) \<Longrightarrow> growTo i xs ! j = (if j < length xs then xs ! j else None)"
  by (auto simp: growTo_def nth_append)

lemma Register_group:
  assumes "table_inv t"
  shows "\<exists>g. Register s count t = t(InnerIP s \<mapsto> g) \<and> group_inv (InnerIP s) g \<and>
     TunnelIndex s < length (sessions g) \<and> sessions g ! TunnelIndex s = Some s \<and> max 1 count \<le> sg_count g"
proof -
  let ?c = "if count < 1 then 1 else count"
  define g0 where "g0 = (case t (InnerIP s) of Some g \<Rightarrow> g
    | None \<Rightarrow> \<lparr>sessions = replicate (nat ?c) None, sg_count = ?c\<rparr>)"
  define g1 where "g1 = (if ?c > sg_count g0 then g0\<lparr>sg_count := ?c\<rparr> else g0)"
  let ?g = "g1\<lparr>sessions := (growTo (TunnelIndex s) (sessions g1))[TunnelIndex s := Some s]\<rparr>"
  have s: "sessions g1 = sessions g0" and c: "max 1 count \<le> sg_count g1"
    by (auto simp: g1_def)
  have old: "TunnelIndex x = i \<and> InnerIP x = InnerIP s" if "i < length (sessions g0)" "sessions g0 ! i = Some x" for i x
    using that assms by (auto simp: g0_def table_inv_def group_inv_def split: option.splits)
  have r: "Register s count t = t(InnerIP s \<mapsto> ?g)"
    unfolding Register_def Let_def g0_def [symmetric] g1_def [symmetric] by simp
  have l: "list_ex (\<lambda>x. x \<noteq> None) (sessions ?g)"
    by (auto simp: list_ex_iff intro!: bexI [of _ "Some s"] set_update_memI)
  have i: "TunnelIndex x = i \<and> InnerIP x = InnerIP s"
    if "i < length (sessions ?g)" "sessions ?g ! i = Some x" for i x
    using that old [of i x] by (auto simp: s nth_list_update nth_growTo split: if_splits)
  have "1 \<le> sg_count ?g" "max 1 count \<le> sg_count ?g" "sessions ?g ! TunnelIndex s = Some s"
    "TunnelIndex s < length (sessions ?g)" using c by simp_all
  moreover from this(1) l i have "group_inv (InnerIP s) ?g" unfolding group_inv_def by blast
  ultimately show ?thesis using r by blast
qed

lemma Register_inv: "table_inv t \<Longrightarrow> table_inv (Register s count t)"
  using Register_group [of t s count] by (auto simp: table_inv_def split: if_splits)

lemma RemoveSession_inv:
  assumes "table_inv t"
  shows "table_inv (RemoveSession s t)"
proof (cases "t (InnerIP s)")
  case None
  then show ?thesis using assms by (simp add: RemoveSession_def)
next
  case (Some g)
  then have "group_inv (InnerIP s) g" using assms by (simp add: table_inv_def)
  then show ?thesis
    using assms Some
    by (auto simp: RemoveSession_def Let_def table_inv_def group_inv_def nth_list_update split: if_splits)
qed

lemma Deliver_inv: "Deliver send pkt d t = (ok, to, t') \<Longrightarrow> table_inv t \<Longrightarrow> table_inv t'"
  by (auto simp: Deliver_def RemoveSession_inv split: option.splits if_splits)

inductive session_step :: "SessionTable \<Rightarrow> SessionTable \<Rightarrow> bool" where
  register: "session_step t (Register s count t)"
| remove: "session_step t (RemoveSession s t)"
| deliver: "Deliver send pkt d t = (ok, to, t') \<Longrightarrow> session_step t t'"

inductive_cases session_stepE: "session_step t t'"

definition session_init :: "SessionTable \<Rightarrow> bool" where
  "session_init t \<longleftrightarrow> t = NewSessionTable"

interpretation sessionSys: invariant_system session_init session_step table_inv
proof unfold_locales
  show "session_init t \<Longrightarrow> table_inv t" for t
    by (simp add: session_init_def NewSessionTable_def table_inv_def)
  show "session_step t t' \<Longrightarrow> table_inv t \<Longrightarrow> table_inv t'" for t t'
    by (auto elim!: session_stepE intro: Register_inv RemoveSession_inv Deliver_inv)
qed

lemma firstLive_Some: "firstLive xs = Some s \<Longrightarrow> Some s \<in> set xs"
  by (induction xs rule: firstLive.induct) auto

lemma firstLive_live: "list_ex (\<lambda>x. x \<noteq> None) xs \<Longrightarrow> firstLive xs \<noteq> None"
  by (induction xs rule: firstLive.induct) auto

lemma pick_group:
  assumes "group_inv k g"
  obtains s where "pick g pkt = Some s" "InnerIP s = k" "Some s \<in> set (sessions g)"
proof -
  have ne: "sessions g \<noteq> []" and c: "\<not> sg_count g \<le> 0" using assms by (auto simp: group_inv_def)
  have "pick g pkt \<noteq> None"
    using ne c firstLive_live [of "sessions g"] assms by (auto simp: pick_def Let_def group_inv_def)
  then obtain s where s: "pick g pkt = Some s" by blast
  then have "Some s \<in> set (sessions g)"
    by (auto simp: pick_def Let_def split: if_splits dest: firstLive_Some) (metis nth_mem)
  moreover from this have "InnerIP s = k"
    using assms by (auto simp: group_inv_def in_set_conv_nth)
  ultimately show ?thesis using s that by blast
qed

subsection \<open>Properties\<close>

text \<open>
  C14: the two directions of a flow use the same bonded tunnel: a packet and its
  reply (addresses and ports exchanged) are given to the same session, whatever
  tunnels of the group are up.
\<close>

theorem flow_directions_share_tunnel:
  assumes "reversed pkt pkt'" "20 \<le> length pkt" "20 \<le> length pkt'"
  shows "fst (snd (Deliver (\<lambda>_ _. True) pkt' d t)) = fst (snd (Deliver (\<lambda>_ _. True) pkt d t))"
  using assms pick_reversed [OF assms(1)] by (auto simp: Deliver_def split: option.splits)

definition ex_out :: bytes where
  "ex_out = [0x45, 0, 0, 24, 0, 0, 0, 0, 64, 17, 0, 0, 10, 0, 0, 2, 8, 8, 8, 8, 0x13, 0x88, 0, 53]"

definition ex_in :: bytes where
  "ex_in = [0x45, 0, 0, 24, 0, 0, 0, 0, 60, 17, 0, 0, 8, 8, 8, 8, 10, 0, 0, 2, 0, 53, 0x13, 0x88]"

definition ex_session :: "nat \<Rightarrow> TunnelSession" where
  "ex_session i = \<lparr>ts_id = i, InnerIP = 0x0a000002, TunnelIndex = i\<rparr>"

definition ex_sessions :: SessionTable where
  "ex_sessions = Register (ex_session 1) 2 (Register (ex_session 0) 2 NewSessionTable)"

lemma ex_reversed: "reversed ex_out ex_in" "length ex_out = 24" "length ex_in = 24"
  by (simp_all add: reversed_def ex_out_def ex_in_def slice_def flowPorts_def get16_def Let_def)

theorem flow_directions_share_tunnel_witness:
  "fst (snd (Deliver (\<lambda>_ _. True) ex_in 0x0a000002 ex_sessions))
     = fst (snd (Deliver (\<lambda>_ _. True) ex_out 0x0a000002 ex_sessions))"
  by (rule flow_directions_share_tunnel) (simp_all add: ex_reversed)

lemma ex_reachable: "session_init NewSessionTable" "session_step\<^sup>*\<^sup>* NewSessionTable ex_sessions"
  unfolding ex_sessions_def session_init_def
  by (auto intro: rtranclp.rtrancl_into_rtrancl session_step.register)

lemma deliver_owner:
  assumes "session_init t0" "session_step\<^sup>*\<^sup>* t0 t" "20 \<le> length pkt"
  shows "case t d of
      None \<Rightarrow> Deliver send pkt d t = (False, None, t)
    | Some g \<Rightarrow> (\<exists>s. InnerIP s = d \<and> Some s \<in> set (sessions g) \<and>
        Deliver send pkt d t = (send s pkt, Some s, if send s pkt then t else RemoveSession s t))"
proof (cases "t d")
  case None
  then show ?thesis using assms(3) by (simp add: Deliver_def)
next
  case (Some g)
  have "group_inv d g" using sessionSys.reachable_inv [OF assms(1,2)] Some by (simp add: table_inv_def)
  then obtain s where "pick g pkt = Some s" "InnerIP s = d" "Some s \<in> set (sessions g)" by (rule pick_group)
  then show ?thesis using Some assms(3) by (auto simp: Deliver_def)
qed

text \<open>
  C15: in every reachable table a return packet for an inner address is offered to
  a live session of exactly that client, and to one whenever the client has any;
  a client without tunnels gets nothing, and no one else's packet.
\<close>

theorem deliver_to_owner:
  assumes "session_init t0" "session_step\<^sup>*\<^sup>* t0 t" "20 \<le> length pkt"
  shows "case t d of
      None \<Rightarrow> Deliver send pkt d t = (False, None, t)
    | Some g \<Rightarrow> (\<exists>s. InnerIP s = d \<and> Some s \<in> set (sessions g) \<and>
        Deliver send pkt d t = (send s pkt, Some s, if send s pkt then t else RemoveSession s t))"
  by (rule deliver_owner [OF assms])

theorem deliver_to_owner_witness:
  "\<exists>s. InnerIP s = 0x0a000002 \<and> fst (snd (Deliver (\<lambda>_ _. True) ex_in 0x0a000002 ex_sessions)) = Some s"
proof -
  obtain g where "ex_sessions 0x0a000002 = Some g"
    by (simp add: ex_sessions_def ex_session_def Register_def Let_def)
  with deliver_to_owner [OF ex_reachable, where pkt = ex_in and d = "0x0a000002" and send = "\<lambda>_ _. True"] ex_reversed(3)
  show ?thesis by auto
qed

text \<open>
  A tunnel that reconnects keeps its place. After a session registers, it is
  the one at its index; removing the session it replaced changes nothing; and
  removing it empties its slot.
\<close>

theorem register_replaces_and_survives:
  assumes "session_init t0" "session_step\<^sup>*\<^sup>* t0 t"
    and "InnerIP old = InnerIP s" "TunnelIndex old = TunnelIndex s" "ts_id old \<noteq> ts_id s"
  shows "RemoveSession old (Register s count t) = Register s count t \<and>
    (\<exists>g. Register s count t (InnerIP s) = Some g \<and> sessions g ! TunnelIndex s = Some s)"
proof -
  have "table_inv t" by (rule sessionSys.reachable_inv [OF assms(1,2)])
  from Register_group [OF this, of s count] obtain g where g: "Register s count t = t(InnerIP s \<mapsto> g)"
    "group_inv (InnerIP s) g" "sessions g ! TunnelIndex s = Some s" by blast
  then show ?thesis
    using assms(3-5) by (auto simp: RemoveSession_def Let_def same_session_def group_inv_def)
qed

theorem register_replaces_and_survives_witness:
  "RemoveSession (ex_session 1) (Register \<lparr>ts_id = 7, InnerIP = 0x0a000002, TunnelIndex = 1\<rparr> 2 ex_sessions)
     = Register \<lparr>ts_id = 7, InnerIP = 0x0a000002, TunnelIndex = 1\<rparr> 2 ex_sessions"
  using register_replaces_and_survives [OF ex_reachable, of "ex_session 1" "\<lparr>ts_id = 7, InnerIP = 0x0a000002, TunnelIndex = 1\<rparr>"]
  by (simp add: ex_session_def)

subsection \<open>Pool and framing\<close>

fun allocN :: "nat \<Rightarrow> IPPool \<Rightarrow> ip4 option list" where
  "allocN 0 p = []"
| "allocN (Suc n) p = (let (r, p) = Allocate p in r # allocN n p)"

definition pool_at :: "ip4 \<Rightarrow> nat \<Rightarrow> nat \<Rightarrow> IPPool" where
  "pool_at base h i = \<lparr>ip_next = base + of_nat (Suc i), ip_base = base, ip_size = push_bit h 1\<rparr>"

lemma unat_add_small: "unat (b :: u32) + n < 2 ^ 32 \<Longrightarrow> unat (b + of_nat n) = unat b + n"
  by (simp add: unat_word_ariths(1) unat_of_nat_small)

lemma pool_broadcast:
  assumes "unat (base :: ip4) + 2 ^ h \<le> 2 ^ 32"
  shows "unat (base + push_bit h 1 - 1) = unat base + 2 ^ h - 1"
proof -
  have "base + push_bit h 1 - 1 = base + of_nat (2 ^ h - 1)"
    by (simp add: push_bit_eq_mult of_nat_diff)
  moreover have one: "(1 :: nat) \<le> 2 ^ h" by simp
  moreover have "unat (base + of_nat (2 ^ h - 1)) = unat base + (2 ^ h - 1)"
    by (rule unat_add_small) (use assms one in linarith)
  ultimately show ?thesis by (simp only: add_diff_assoc)
qed

lemma Allocate_pool_at:
  assumes "unat base + 2 ^ h \<le> 2 ^ 32" "i < 2 ^ h - 1"
  shows "Allocate (pool_at base h i) =
    (if i < 2 ^ h - 2 then (Some (base + of_nat (Suc i)), pool_at base h (Suc i)) else (None, pool_at base h i))"
proof -
  have n: "unat (base + of_nat (Suc i)) = unat base + Suc i"
    using assms by (intro unat_add_small) linarith
  have "base + of_nat (Suc i) \<ge> base + push_bit h 1 - 1 \<longleftrightarrow> \<not> i < 2 ^ h - 2"
    unfolding word_le_nat_alt n pool_broadcast [OF assms(1)] using assms(2) by linarith
  then show ?thesis by (simp add: Allocate_def pool_at_def add_ac)
qed

lemma allocN_pool_at:
  assumes "unat base + 2 ^ h \<le> 2 ^ 32" "i < 2 ^ h - 1"
  shows "allocN n (pool_at base h i)
    = map (\<lambda>j. if j < 2 ^ h - 2 then Some (base + of_nat (Suc j)) else None) [i..<i + n]"
  using assms(2)
proof (induction n arbitrary: i)
  case (Suc n)
  show ?case
  proof (cases "i < 2 ^ h - 2")
    case True
    then have "Suc i < 2 ^ h - 1" by linarith
    moreover have "[i..<i + Suc n] = i # [Suc i..<Suc i + n]" by (simp add: upt_conv_Cons del: upt_Suc)
    ultimately show ?thesis
      using Suc.IH [of "Suc i"] True Allocate_pool_at [OF assms(1) Suc.prems] by (simp del: upt_Suc)
  next
    case False
    have "map (\<lambda>j. if j < 2 ^ h - 2 then Some (base + of_nat (Suc j)) else None) [i..<i + n]
        = map (\<lambda>j. if j < 2 ^ h - 2 then Some (base + of_nat (Suc j)) else None) [Suc i..<Suc i + n]"
      using False by (intro nth_equalityI) (auto simp del: upt_Suc)
    moreover have "[i..<i + Suc n] = i # [Suc i..<Suc i + n]" by (simp add: upt_conv_Cons del: upt_Suc)
    ultimately show ?thesis
      using Suc.IH [OF Suc.prems] Allocate_pool_at [OF assms(1) Suc.prems] False by (simp del: upt_Suc)
  qed
qed simp

text \<open>
  The address pool hands out every usable host address of its subnet once, in
  order, never the network or the broadcast address, and then reports exhaustion.
\<close>

theorem pool_allocates_subnet:
  assumes "1 \<le> h" "h \<le> 32" "unat base + 2 ^ h \<le> 2 ^ 32"
  shows "allocN n (NewIPPool base (32 - h))
    = map (\<lambda>i. if i < 2 ^ h - 2 then Some (base + of_nat (Suc i)) else None) [0..<n]"
proof -
  have "(2 :: nat) ^ 1 \<le> 2 ^ h" using assms(1) by (rule power_increasing) simp
  then have "(0 :: nat) < 2 ^ h - 1" by simp
  moreover have "NewIPPool base (32 - h) = pool_at base h 0" using assms(2) by (simp add: NewIPPool_def pool_at_def)
  ultimately show ?thesis using allocN_pool_at [OF assms(3), of 0 n] by simp
qed

theorem pool_allocates_subnet_witness:
  "allocN 4 (NewIPPool 0x0a000000 30) = [Some 0x0a000001, Some 0x0a000002, None, None]"
  using pool_allocates_subnet [of 2 "0x0a000000" 4] by (simp add: upt_rec)

definition append_writer :: "bytes \<Rightarrow> bytes \<Rightarrow> bytes option" where
  "append_writer w b = Some (w @ b)"

text \<open>
  Length-prefixed framing round-trips every packet that fits its 16-bit
  header, leaving the rest of the stream.
\<close>

theorem framed_roundtrip:
  assumes "length pkt < 65536"
  shows "\<exists>w'. WriteFramed append_writer w pkt = Some (w @ w') \<and> ReadFramed (w' @ rest) = (Inr pkt, rest)"
proof -
  have "unat (of_nat (length pkt div 256) :: byte) = length pkt div 256"
    using assms by (intro unat_of_nat_small) (simp add: less_mult_imp_div_less)
  moreover have "unat (of_nat (length pkt) :: byte) = length pkt mod 256"
    by (simp add: unat_of_nat take_bit_eq_mod)
  ultimately show ?thesis
    by (intro exI [of _ "[of_nat (length pkt div 256), of_nat (length pkt)] @ pkt"])
      (simp add: WriteFramed_def append_writer_def ReadFramed_def ReadFull_def)
qed

theorem framed_roundtrip_witness:
  "\<exists>w'. WriteFramed append_writer [] [1, 2, 3] = Some ([] @ w') \<and> ReadFramed (w' @ [9]) = (Inr [1, 2, 3], [9])"
  by (rule framed_roundtrip) simp

end
