(* ===== verification/Reseq.thy ===== *)
theory Reseq
  imports Prelude "HOL-Library.AList" "HOL-Library.Multiset"
begin

unbundle bit_operations_syntax

text \<open>
  The per-flow resequencer and the order observers of \<^verbatim>\<open>utility/reseq.go\<close>.

  A Go map whose length the code reads or whose entries it ranges over is an
  association list with distinct keys (\<open>AList\<close>): a lookup is \<open>map_of\<close>, \<^verbatim>\<open>delete\<close>
  is \<open>AList.delete\<close>, a store is \<open>AList.update\<close>, \<^verbatim>\<open>len\<close> is \<open>length\<close>, and the order of the
  list is the iteration order, about which nothing is assumed. Sequence numbers are
  32-bit words and their distance \<^verbatim>\<open>int32(a-b)\<close> is the signed value of the wrapped
  difference. Time stamps are integers.
\<close>

subsection \<open>Segments\<close>

type_synonym fkey = bytes

record tcp_seg =
  sg_seq :: u32
  sg_nextAfter :: u32
  sg_key :: fkey

text \<open>Sequence numbers a segment consumes: its payload, plus one for a SYN or FIN.\<close>

definition tcpConsumed :: "byte \<Rightarrow> nat \<Rightarrow> nat" where
  "tcpConsumed flags payloadLen =
     (if flags AND 0x02 \<noteq> 0 \<or> flags AND 0x01 \<noteq> 0 then payloadLen + 1 else payloadLen)"

definition parseTCP :: "bytes \<Rightarrow> tcp_seg option" where
  "parseTCP ip =
     (if length ip < 20 \<or> drop_bit 4 (ip ! 0) \<noteq> 4 then None
      else let ihl = unat (ip ! 0 AND 0x0f) * 4 in
        if ihl < 20 \<or> length ip < ihl + 20 \<or> ip ! 9 \<noteq> 6 then None
        else let tcp = drop ihl ip; dataOff = unat (drop_bit 4 (tcp ! 12)) * 4 in
          if dataOff < 20 \<or> length tcp < dataOff then None
          else let seq = get32 tcp 4;
                   payloadLen = length ip - ihl - dataOff;
                   consumed = tcpConsumed (tcp ! 13) payloadLen
               in if consumed = 0 then None
                  else Some \<lparr>sg_seq = seq, sg_nextAfter = seq + of_nat consumed,
                         sg_key = slice ip 12 16 @ slice ip 16 20 @ slice tcp 0 2 @ slice tcp 2 4 @ [6]\<rparr>)"

definition sdist :: "u32 \<Rightarrow> u32 \<Rightarrow> int" where
  "sdist a b = sint (a - b)"

subsection \<open>The resequencer\<close>

record reseqEntry =
  re_data :: bytes
  re_nextAfter :: u32

record reseqFlow =
  primed :: bool
  nextSeq :: u32
  buf :: "(u32 \<times> reseqEntry) list"
  lastSeen :: int

record ForwardReseq =
  flows :: "(fkey \<times> reseqFlow) list"
  window :: int
  maxAge :: int

definition NewForwardReseq :: "int \<Rightarrow> int \<Rightarrow> ForwardReseq" where
  "NewForwardReseq win age =
     \<lparr>flows = [], window = (if win \<le> 0 then 64 else win), maxAge = (if age \<le> 0 then 5000000 else age)\<rparr>"

lemma length_delete_less:
  "map_of al k = Some v \<Longrightarrow> length (AList.delete k al) < length al"
  unfolding AList.delete_eq by (rule length_filter_less [of "(k, v)"]) (auto dest: map_of_SomeD)

text \<open>\<^verbatim>\<open>drain\<close> loops until the expected sequence is not buffered.\<close>

function drain :: "reseqFlow \<Rightarrow> bytes list \<Rightarrow> reseqFlow \<times> bytes list" where
  "drain f out =
     (case map_of (buf f) (nextSeq f) of
        None \<Rightarrow> (f, out)
      | Some e \<Rightarrow> drain (f\<lparr>buf := AList.delete (nextSeq f) (buf f), nextSeq := re_nextAfter e\<rparr>)
                       (out @ [re_data e]))"
  by pat_completeness auto

termination
  by (relation "measure (\<lambda>(f, out). length (buf f))") (auto intro: length_delete_less)

declare drain.simps [simp del]

text \<open>
  The range loop of \<^verbatim>\<open>skipGap\<close>: entries not ahead of \<^verbatim>\<open>nextSeq\<close> are deleted, and
  the nearest one ahead is remembered.
\<close>

fun scanOldest :: "u32 \<Rightarrow> (u32 \<times> reseqEntry) list \<Rightarrow> (int \<times> u32) option \<Rightarrow> (int \<times> u32) option" where
  "scanOldest ns [] acc = acc"
| "scanOldest ns ((s, e) # b) acc =
     (let dist = sdist s ns in
      if dist \<le> 0 then scanOldest ns b acc
      else case acc of
             None \<Rightarrow> scanOldest ns b (Some (dist, s))
           | Some (best, oldest) \<Rightarrow>
               if dist < best then scanOldest ns b (Some (dist, s)) else scanOldest ns b acc)"

definition sweep :: "u32 \<Rightarrow> (u32 \<times> reseqEntry) list \<Rightarrow> (u32 \<times> reseqEntry) list" where
  "sweep ns b = filter (\<lambda>(s, e). \<not> sdist s ns \<le> 0) b"

text \<open>The value a Go map read yields for an absent key.\<close>

definition zeroEntry :: reseqEntry where
  "zeroEntry = \<lparr>re_data = [], re_nextAfter = 0\<rparr>"

definition skipGap :: "reseqFlow \<Rightarrow> bytes list \<Rightarrow> reseqFlow \<times> bytes list \<times> bool" where
  "skipGap f out =
     (let b = sweep (nextSeq f) (buf f) in
      case scanOldest (nextSeq f) (buf f) None of
        None \<Rightarrow> (f\<lparr>buf := b\<rparr>, out, False)
      | Some (best, oldest) \<Rightarrow>
          let e = (case map_of b oldest of Some e \<Rightarrow> e | None \<Rightarrow> zeroEntry);
              (f, out) = drain (f\<lparr>buf := AList.delete oldest b, nextSeq := re_nextAfter e\<rparr>)
                           (out @ [re_data e])
          in (f, out, True))"

text \<open>Buffering one segment ahead of the expected sequence.\<close>

definition bufferSeg :: "reseqFlow \<Rightarrow> bytes \<Rightarrow> u32 \<Rightarrow> u32 \<Rightarrow> reseqFlow" where
  "bufferSeg f ip q na =
     (case map_of (buf f) q of
        Some _ \<Rightarrow> f
      | None \<Rightarrow> f\<lparr>buf := AList.update q \<lparr>re_data = ip, re_nextAfter = na\<rparr> (buf f)\<rparr>)"

text \<open>The part of \<^verbatim>\<open>Push\<close> after the flow is looked up: the three-way switch.\<close>

definition pushFlow :: "int \<Rightarrow> reseqFlow \<Rightarrow> bytes \<Rightarrow> u32 \<Rightarrow> u32 \<Rightarrow> bytes list \<Rightarrow> reseqFlow \<times> bytes list" where
  "pushFlow win f ip seq nextAfter out =
     (let f = (if \<not> primed f then f\<lparr>primed := True, nextSeq := seq\<rparr> else f);
          d = sdist seq (nextSeq f)
      in if d = 0 then drain (f\<lparr>nextSeq := nextAfter\<rparr>) (out @ [ip])
         else if d < 0 then (f, out @ [ip])
         else let f = bufferSeg f ip seq nextAfter
              in if int (length (buf f)) > win
                 then (let (f, out, ok) = skipGap f out in (f, out))
                 else (f, out))"

definition newFlow :: reseqFlow where
  "newFlow = \<lparr>primed = False, nextSeq = 0, buf = [], lastSeen = 0\<rparr>"

definition Push :: "ForwardReseq \<Rightarrow> bytes \<Rightarrow> int \<Rightarrow> bytes list \<Rightarrow> ForwardReseq \<times> bytes list" where
  "Push r ip now out =
     (case parseTCP ip of
        None \<Rightarrow> (r, out @ [ip])
      | Some sg \<Rightarrow>
          let f = (case map_of (flows r) (sg_key sg) of Some f \<Rightarrow> f | None \<Rightarrow> newFlow);
              f = f\<lparr>lastSeen := now\<rparr>;
              (f, out) = pushFlow (window r) f ip (sg_seq sg) (sg_nextAfter sg) out
          in (r\<lparr>flows := AList.update (sg_key sg) f (flows r)\<rparr>, out))"

lemma length_delete_le [simp]: "length (AList.delete k al) \<le> length al"
  by (simp add: AList.delete_eq)

lemma drain_length: "length (buf (fst (drain f out))) \<le> length (buf f)"
proof (induction f out rule: drain.induct)
  case (1 f out)
  then show ?case
    by (subst drain.simps) (auto split: option.split intro: order_trans [OF _ length_delete_le])
qed

lemma scanOldest_Some:
  "scanOldest ns b acc = Some (d, s) \<Longrightarrow> acc = Some (d, s) \<or> (\<exists>e. (s, e) \<in> set b \<and> d = sdist s ns \<and> 0 < d)"
proof (induction b arbitrary: acc)
  case (Cons x b)
  obtain q e where x: "x = (q, e)" by fastforce
  show ?case
    using Cons.prems Cons.IH [of acc] Cons.IH [of "Some (sdist q ns, q)"]
    by (auto simp: x Let_def split: if_splits option.splits)
qed simp

lemma scanOldest_acc: "scanOldest ns b (Some a) \<noteq> None"
  by (induction b arbitrary: a) (auto simp: Let_def split: option.splits)

lemma scanOldest_None:
  "scanOldest ns b None = None \<longleftrightarrow> sweep ns b = []"
proof (induction b)
  case (Cons x b)
  obtain s e where "x = (s, e)" by fastforce
  with Cons show ?case
    by (auto simp: sweep_def Let_def scanOldest_acc)
qed (simp add: sweep_def)

lemma skipGap_length:
  assumes "skipGap f out = (f', out', True)"
  shows "length (buf f') < length (buf f)"
proof -
  obtain d s where sc: "scanOldest (nextSeq f) (buf f) None = Some (d, s)"
    using assms by (auto simp: skipGap_def Let_def split: option.splits)
  from scanOldest_Some [OF sc] obtain e where e: "(s, e) \<in> set (buf f)" "0 < sdist s (nextSeq f)" by auto
  let ?b = "sweep (nextSeq f) (buf f)"
  have "(s, e) \<in> set ?b" using e by (auto simp: sweep_def)
  then obtain e' where e': "map_of ?b s = Some e'" by (meson weak_map_of_SomeI)
  have "f' = fst (drain (f\<lparr>buf := AList.delete s ?b, nextSeq := re_nextAfter e'\<rparr>) (out @ [re_data e']))"
    using assms sc e' by (auto simp: skipGap_def Let_def split: prod.splits)
  then have "length (buf f') \<le> length (AList.delete s ?b)"
    using drain_length [of "f\<lparr>buf := AList.delete s ?b, nextSeq := re_nextAfter e'\<rparr>"] by simp
  also have "\<dots> < length ?b" using e' by (rule length_delete_less)
  also have "\<dots> \<le> length (buf f)" by (simp add: sweep_def)
  finally show ?thesis .
qed

text \<open>The inner loop of \<^verbatim>\<open>FlushExpired\<close>, and the range over the flows.\<close>

function flushFlow :: "reseqFlow \<Rightarrow> bytes list \<Rightarrow> reseqFlow \<times> bytes list" where
  "flushFlow f out =
     (if length (buf f) > 0 then
        (case skipGap f out of
           (f', out', ok) \<Rightarrow> if \<not> ok then (f', out') else flushFlow f' out')
      else (f, out))"
  by pat_completeness auto

termination
  by (relation "measure (\<lambda>(f, out). length (buf f))") (auto dest: skipGap_length [OF sym])

declare flushFlow.simps [simp del]

fun flushFlows :: "int \<Rightarrow> int \<Rightarrow> (fkey \<times> reseqFlow) list \<Rightarrow> bytes list \<Rightarrow> (fkey \<times> reseqFlow) list \<times> bytes list" where
  "flushFlows now age [] out = ([], out)"
| "flushFlows now age ((k, f) # fs) out =
     (if now - lastSeen f < age
      then (let (fs', out') = flushFlows now age fs out in ((k, f) # fs', out'))
      else (let (_, out') = flushFlow f out in flushFlows now age fs out'))"

definition FlushExpired :: "ForwardReseq \<Rightarrow> int \<Rightarrow> bytes list \<Rightarrow> ForwardReseq \<times> bytes list" where
  "FlushExpired r now out =
     (let (fs, out) = flushFlows now (maxAge r) (flows r) out in (r\<lparr>flows := fs\<rparr>, out))"

subsection \<open>Runs of consecutive segments\<close>

text \<open>
  \<open>ps\<close> are consecutive data segments of the flow \<open>k\<close>, the first with sequence
  number \<open>s\<close>.
\<close>

fun contiguous :: "fkey \<Rightarrow> u32 \<Rightarrow> bytes list \<Rightarrow> bool" where
  "contiguous k s [] \<longleftrightarrow> True"
| "contiguous k s (p # ps) \<longleftrightarrow>
     (case parseTCP p of
        None \<Rightarrow> False
      | Some g \<Rightarrow> sg_key g = k \<and> sg_seq g = s \<and> contiguous k (sg_nextAfter g) ps)"

definition seglen :: "bytes \<Rightarrow> nat" where
  "seglen p = (case parseTCP p of None \<Rightarrow> 0 | Some g \<Rightarrow> unat (sg_nextAfter g - sg_seq g))"

definition offs :: "bytes list \<Rightarrow> nat \<Rightarrow> nat" where
  "offs ps i = sum_list (map seglen (take i ps))"

definition sq :: "u32 \<Rightarrow> bytes list \<Rightarrow> nat \<Rightarrow> u32" where
  "sq s ps i = s + of_nat (offs ps i)"

definition is_run :: "fkey \<Rightarrow> u32 \<Rightarrow> bytes list \<Rightarrow> bool" where
  "is_run k s ps \<longleftrightarrow>
     (\<forall>i < length ps. parseTCP (ps ! i)
        = Some \<lparr>sg_seq = sq s ps i, sg_nextAfter = sq s ps (Suc i), sg_key = k\<rparr>) \<and>
     (\<forall>p \<in> set ps. 0 < seglen p) \<and> offs ps (length ps) < 2 ^ 31"

lemma seglen_bounds:
  assumes "parseTCP p = Some g" "length p < 65536"
  shows "0 < seglen p" "seglen p < 65536"
proof -
  obtain fl n where n: "tcpConsumed fl n \<noteq> 0" "n + 40 \<le> length p"
      "sg_nextAfter g = sg_seq g + of_nat (tcpConsumed fl n)"
    using assms(1) unfolding parseTCP_def Let_def
    by (auto split: if_split_asm)
  define c where "c = tcpConsumed fl n"
  have "c < 65536" using n(2) assms(2) by (simp add: c_def tcpConsumed_def)
  then have "seglen p = c"
    using assms(1) n(3) by (simp add: seglen_def unat_of_nat_small c_def)
  then show "0 < seglen p" "seglen p < 65536" using n(1) \<open>c < 65536\<close> by (simp_all add: c_def)
qed

lemma nextAfter_seglen: "parseTCP p = Some g \<Longrightarrow> sg_nextAfter g = sg_seq g + of_nat (seglen p)"
  by (simp add: seglen_def)

lemma contiguous_parse:
  "contiguous k s ps \<Longrightarrow> i < length ps \<Longrightarrow>
   parseTCP (ps ! i) = Some \<lparr>sg_seq = sq s ps i, sg_nextAfter = sq s ps (Suc i), sg_key = k\<rparr>"
proof (induction ps arbitrary: s i)
  case (Cons p ps)
  then obtain g where g: "parseTCP p = Some g" "sg_key g = k" "sg_seq g = s" "contiguous k (sg_nextAfter g) ps"
    by (auto split: option.splits)
  have n: "sg_nextAfter g = s + of_nat (seglen p)" using nextAfter_seglen [OF g(1)] g(3) by simp
  show ?case
  proof (cases i)
    case 0
    then show ?thesis using g n by (cases g) (simp add: sq_def offs_def)
  next
    case (Suc j)
    have "parseTCP (ps ! j) = Some \<lparr>sg_seq = sq (sg_nextAfter g) ps j,
        sg_nextAfter = sq (sg_nextAfter g) ps (Suc j), sg_key = k\<rparr>"
      using Cons.IH [OF g(4), of j] Cons.prems(2) Suc by simp
    then show ?thesis using Suc by (simp add: sq_def offs_def n add.assoc)
  qed
qed simp

lemma sum_list_bound: "(\<forall>x \<in> set xs. f x \<le> b) \<Longrightarrow> sum_list (map f xs) \<le> b * length xs" for b :: nat
  by (induction xs) auto

lemma contiguous_is_run:
  assumes "contiguous k s ps" "\<forall>p \<in> set ps. length p < 65536" "length ps \<le> 32767"
  shows "is_run k s ps"
proof -
  have par: "\<exists>g. parseTCP p = Some g" if "p \<in> set ps" for p
    using that contiguous_parse [OF assms(1)] by (auto simp: in_set_conv_nth)
  have "seglen p \<le> 65536" if "p \<in> set ps" for p
    using par [OF that] seglen_bounds(2) assms(2) that by fastforce
  then have "offs ps (length ps) \<le> 65536 * length ps"
    unfolding offs_def by (intro order_trans [OF sum_list_bound [of _ _ 65536]]) simp_all
  also have "\<dots> \<le> 65536 * 32767" using assms(3) by simp
  finally have "offs ps (length ps) < 2 ^ 31" by simp
  with par seglen_bounds(1) assms(2) contiguous_parse [OF assms(1)] show ?thesis
    unfolding is_run_def by blast
qed

lemma offs_Suc: "i < length ps \<Longrightarrow> offs ps (Suc i) = offs ps i + seglen (ps ! i)"
  by (simp add: offs_def take_Suc_conv_app_nth)

lemma offs_mono:
  assumes "is_run k s ps" "i < j" "j \<le> length ps"
  shows "offs ps i < offs ps j"
  using assms(2,3)
proof (induction j)
  case (Suc j)
  then have "offs ps (Suc j) = offs ps j + seglen (ps ! j)" "0 < seglen (ps ! j)"
    using assms(1) by (auto simp: offs_Suc is_run_def)
  then show ?case using Suc by (cases "i = j") auto
qed simp

lemma offs_bound:
  assumes "is_run k s ps" "i \<le> length ps"
  shows "offs ps i < 2 ^ 31"
proof (cases "i = length ps")
  case False
  then have "offs ps i < offs ps (length ps)" using offs_mono [OF assms(1)] assms(2) by simp
  then show ?thesis using assms(1) unfolding is_run_def by linarith
qed (use assms in \<open>simp add: is_run_def\<close>)

lemma sint_of_int_small: "- (2 ^ 31) \<le> i \<Longrightarrow> i < 2 ^ 31 \<Longrightarrow> sint (of_int i :: u32) = i"
  by (simp add: signed_of_int signed_take_bit_int_eq_self)

lemma sdist_sq:
  assumes "is_run k s ps" "i \<le> length ps" "j \<le> length ps"
  shows "sdist (sq s ps i) (sq s ps j) = int (offs ps i) - int (offs ps j)"
proof -
  have "sq s ps i - sq s ps j = of_int (int (offs ps i) - int (offs ps j))"
    by (simp add: sq_def)
  moreover have "int (offs ps i) < 2 ^ 31" "int (offs ps j) < 2 ^ 31"
    using offs_bound [OF assms(1)] assms(2,3) by fastforce+
  ultimately show ?thesis
    unfolding sdist_def by (simp only:) (intro sint_of_int_small; linarith)
qed

lemma sq_inj:
  assumes "is_run k s ps" "i \<le> length ps" "j \<le> length ps"
  shows "sq s ps i = sq s ps j \<longleftrightarrow> i = j"
proof
  assume "sq s ps i = sq s ps j"
  then have "int (offs ps i) - int (offs ps j) = 0"
    using sdist_sq [OF assms] by (simp add: sdist_def)
  then show "i = j"
    using offs_mono [OF assms(1), of i j] offs_mono [OF assms(1), of j i] assms(2,3)
    by (metis eq_iff_diff_eq_0 nat_neq_iff of_nat_eq_iff order_less_irrefl)
qed simp

text \<open>
  The flow state after the segments with indices \<open>S\<close> of a run arrived and the
  first \<open>m\<close> were emitted: exactly the arrived segments from \<open>m\<close> on are buffered.
\<close>

definition run_state :: "u32 \<Rightarrow> bytes list \<Rightarrow> nat set \<Rightarrow> nat \<Rightarrow> reseqFlow \<Rightarrow> bool" where
  "run_state s ps S m f \<longleftrightarrow> primed f \<and> nextSeq f = sq s ps m \<and> m \<le> length ps \<and> {..<m} \<subseteq> S \<and>
     S \<subseteq> {..<length ps} \<and> distinct (map fst (buf f)) \<and>
     (\<forall>i \<in> S. m \<le> i \<longrightarrow> map_of (buf f) (sq s ps i) = Some \<lparr>re_data = ps ! i, re_nextAfter = sq s ps (Suc i)\<rparr>) \<and>
     (\<forall>q \<in> fst ` set (buf f). \<exists>i \<in> S. m \<le> i \<and> q = sq s ps i)"

lemma run_state_emit:
  assumes "is_run k s ps" "run_state s ps S m f" "m \<in> S"
  shows "run_state s ps S (Suc m) (f\<lparr>buf := AList.delete (nextSeq f) (buf f), nextSeq := sq s ps (Suc m)\<rparr>)"
proof -
  have ne: "sq s ps i \<noteq> sq s ps m" if "i \<in> S" "Suc m \<le> i" for i
    using sq_inj [OF assms(1), of i m] assms(2) that unfolding run_state_def by fastforce
  have "map_of (AList.delete (nextSeq f) (buf f)) (sq s ps i)
      = Some \<lparr>re_data = ps ! i, re_nextAfter = sq s ps (Suc i)\<rparr>" if "i \<in> S" "Suc m \<le> i" for i
    using ne [OF that] assms(2) that by (simp add: run_state_def delete_conv')
  moreover have "\<exists>i \<in> S. Suc m \<le> i \<and> q = sq s ps i"
    if q: "q \<in> fst ` set (AList.delete (nextSeq f) (buf f))" for q
  proof -
    from q have "q \<in> fst ` set (buf f)" "q \<noteq> sq s ps m"
      using assms(2) by (auto simp: run_state_def AList.delete_eq)
    then show ?thesis using assms(2) unfolding run_state_def by (metis Suc_leI le_neq_implies_less)
  qed
  moreover have "distinct (map fst (AList.delete (nextSeq f) (buf f)))"
    using assms(2) by (intro distinct_delete) (simp add: run_state_def)
  moreover have "{..<Suc m} \<subseteq> S" "Suc m \<le> length ps"
    using assms(2,3) by (auto simp: run_state_def less_Suc_eq)
  ultimately show ?thesis using assms(2) by (simp add: run_state_def)
qed

lemma run_state_missing:
  assumes "is_run k s ps" "run_state s ps S m f" "m \<notin> S"
  shows "map_of (buf f) (nextSeq f) = None"
proof (rule ccontr)
  assume "map_of (buf f) (nextSeq f) \<noteq> None"
  then have "sq s ps m \<in> fst ` set (buf f)"
    using assms(2) by (simp add: run_state_def map_of_eq_None_iff)
  then obtain i where i: "i \<in> S" "m \<le> i" "sq s ps m = sq s ps i"
    using assms(2) by (auto simp: run_state_def)
  then have "i = m" using sq_inj [OF assms(1), of m i] assms(2) by (auto simp: run_state_def)
  with i(1) assms(3) show False by simp
qed

lemma drain_run_from:
  assumes "is_run k s ps" "run_state s ps S m f"
  shows "\<exists>m' f'. drain f out = (f', out @ map ((!) ps) [m..<m']) \<and> run_state s ps S m' f' \<and>
     m \<le> m' \<and> m' \<notin> S \<and> {m..<m'} \<subseteq> S"
  using assms(2)
proof (induction "length ps - m" arbitrary: m f out rule: less_induct)
  case less
  show ?case
  proof (cases "m \<in> S")
    case True
    then have m: "m < length ps" and e: "map_of (buf f) (nextSeq f) = Some \<lparr>re_data = ps ! m, re_nextAfter = sq s ps (Suc m)\<rparr>"
      using less.prems by (auto simp: run_state_def)
    let ?f = "f\<lparr>buf := AList.delete (nextSeq f) (buf f), nextSeq := sq s ps (Suc m)\<rparr>"
    have d: "drain f out = drain ?f (out @ [ps ! m])"
      using e by (simp add: drain.simps [of f])
    obtain m' f' where r: "drain ?f (out @ [ps ! m]) = (f', (out @ [ps ! m]) @ map ((!) ps) [Suc m..<m'])"
      "run_state s ps S m' f'" "Suc m \<le> m'" "m' \<notin> S" "{Suc m..<m'} \<subseteq> S"
      using less.hyps [OF _ run_state_emit [OF assms(1) less.prems True]] m by (metis diff_less_mono2 lessI)
    have "[m..<m'] = m # [Suc m..<m']" using r(3) by (intro upt_conv_Cons) simp
    moreover have "{m..<m'} \<subseteq> S" using r(5) True by (auto simp: atLeastLessThan_iff) (metis Suc_leI atLeastLessThan_iff le_neq_implies_less subsetD)
    ultimately show ?thesis
      using d r by (intro exI [of _ m'] exI [of _ f']) simp
  next
    case False
    then show ?thesis
      using less.prems run_state_missing [OF assms(1) less.prems False]
      by (intro exI [of _ m] exI [of _ f]) (simp add: drain.simps [of f])
  qed
qed

lemma take_append_upt:
  "m \<le> m' \<Longrightarrow> m' \<le> length ps \<Longrightarrow> take m ps @ map ((!) ps) [m..<m'] = take m' ps"
  by (rule nth_equalityI) (auto simp: nth_append)

lemma drain_run:
  assumes "is_run k s ps" "run_state s ps S m f"
  shows "\<exists>m' f'. drain f (out @ take m ps) = (f', out @ take m' ps) \<and> run_state s ps S m' f' \<and> m' \<notin> S"
proof -
  obtain m' f' where "drain f (out @ take m ps) = (f', (out @ take m ps) @ map ((!) ps) [m..<m'])"
    "run_state s ps S m' f'" "m \<le> m'" "m' \<notin> S"
    using drain_run_from [OF assms, of "out @ take m ps"] by blast
  then show ?thesis
    by (intro exI [of _ m'] exI [of _ f']) (simp add: take_append_upt run_state_def)
qed

lemma run_state_length:
  assumes "is_run k s ps" "run_state s ps S m f" "m \<notin> S" "m < length ps"
  shows "length (buf f) \<le> length ps - Suc m"
proof -
  have "length (buf f) = card (fst ` set (buf f))"
    using assms(2) distinct_card [of "map fst (buf f)"] by (simp add: run_state_def)
  also have "\<dots> \<le> card (sq s ps ` {Suc m..<length ps})"
  proof (rule card_mono)
    show "fst ` set (buf f) \<subseteq> sq s ps ` {Suc m..<length ps}"
    proof
      fix q
      assume "q \<in> fst ` set (buf f)"
      then obtain i where "i \<in> S" "m \<le> i" "q = sq s ps i" using assms(2) unfolding run_state_def by blast
      moreover from this assms(2,3) have "i \<noteq> m" "i < length ps" by (auto simp: run_state_def)
      ultimately show "q \<in> sq s ps ` {Suc m..<length ps}" by auto
    qed
  qed simp
  also have "\<dots> \<le> length ps - Suc m" using card_image_le [of "{Suc m..<length ps}" "sq s ps"] by simp
  finally show ?thesis .
qed

lemma run_state_buffer:
  assumes "is_run k s ps" "run_state s ps S m f" "i < length ps" "m < i" "i \<notin> S"
    and fresh: "map_of (buf f) (sq s ps i) = None"
  shows "run_state s ps (insert i S) m
    (f\<lparr>buf := AList.update (sq s ps i) \<lparr>re_data = ps ! i, re_nextAfter = sq s ps (Suc i)\<rparr> (buf f)\<rparr>)"
proof -
  have ne: "sq s ps j \<noteq> sq s ps i" if "j \<in> S" for j
    using sq_inj [OF assms(1), of j i] assms(2,3,5) that unfolding run_state_def by fastforce
  show ?thesis
    using assms(2-4) ne unfolding run_state_def
    by (auto simp: update_conv' distinct_update dom_update intro!: distinct_update)
qed

lemma run_state_not_buffered:
  assumes "is_run k s ps" "run_state s ps S m f" "i < length ps" "i \<notin> S"
  shows "map_of (buf f) (sq s ps i) = None"
proof (rule ccontr)
  assume "map_of (buf f) (sq s ps i) \<noteq> None"
  then have "sq s ps i \<in> fst ` set (buf f)" by (simp add: map_of_eq_None_iff)
  then obtain j where "j \<in> S" "sq s ps i = sq s ps j" "j < length ps"
    using assms(2) unfolding run_state_def by blast
  then show False using sq_inj [OF assms(1), of i j] assms(3,4) by simp
qed

lemma pushFlow_run:
  assumes run: "is_run k s ps" and st: "run_state s ps S m f" "m \<notin> S"
    and i: "i < length ps" "i \<notin> S" and win: "int (length ps) \<le> win + 1"
  shows "\<exists>m' f'. pushFlow win f (ps ! i) (sq s ps i) (sq s ps (Suc i)) (out @ take m ps)
      = (f', out @ take m' ps) \<and> run_state s ps (insert i S) m' f' \<and> m' \<notin> insert i S"
proof -
  have m: "m \<le> i" using st i by (auto simp: run_state_def not_less [symmetric])
  have d: "sdist (sq s ps i) (nextSeq f) = int (offs ps i) - int (offs ps m)"
    using sdist_sq [OF run, of i m] st i by (simp add: run_state_def)
  have pr: "primed f" using st by (simp add: run_state_def)
  show ?thesis
  proof (cases "i = m")
    case True
    let ?f = "f\<lparr>nextSeq := sq s ps (Suc m)\<rparr>"
    have "run_state s ps (insert m S) (Suc m) ?f"
      using st i True unfolding run_state_def
      by (auto simp: less_Suc_eq Suc_le_eq) (metis fst_conv le_neq_implies_less)
    moreover have "pushFlow win f (ps ! i) (sq s ps i) (sq s ps (Suc i)) (out @ take m ps)
        = drain ?f (out @ take (Suc m) ps)"
      using True d pr i by (simp add: pushFlow_def take_Suc_conv_app_nth)
    ultimately show ?thesis using drain_run [OF run, of "insert m S" "Suc m" ?f out] True by simp
  next
    case False
    then have lt: "m < i" using m by simp
    then have "0 < sdist (sq s ps i) (nextSeq f)" using d offs_mono [OF run lt] i by simp
    moreover have none: "map_of (buf f) (sq s ps i) = None" by (rule run_state_not_buffered [OF run st(1) i])
    let ?f = "f\<lparr>buf := AList.update (sq s ps i) \<lparr>re_data = ps ! i, re_nextAfter = sq s ps (Suc i)\<rparr> (buf f)\<rparr>"
    have st': "run_state s ps (insert i S) m ?f"
      by (rule run_state_buffer [OF run st(1) i(1) lt i(2) none])
    moreover have "m \<notin> insert i S" using st(2) lt by simp
    moreover from this st' have "length (buf ?f) \<le> length ps - Suc m"
      using lt i by (intro run_state_length [OF run st']) auto
    then have "\<not> win < int (length (buf ?f))" using win i by linarith
    ultimately have "pushFlow win f (ps ! i) (sq s ps i) (sq s ps (Suc i)) (out @ take m ps)
        = (?f, out @ take m ps)"
      using pr none by (simp add: pushFlow_def bufferSeg_def Let_def)
    then show ?thesis using st' \<open>m \<notin> insert i S\<close> by blast
  qed
qed

subsection \<open>Feeding a list of packets\<close>

fun pushAll :: "ForwardReseq \<Rightarrow> (bytes \<times> int) list \<Rightarrow> bytes list \<Rightarrow> ForwardReseq \<times> bytes list" where
  "pushAll r [] out = (r, out)"
| "pushAll r ((ip, now) # xs) out = (let (r, out) = Push r ip now out in pushAll r xs out)"

lemma run_state_lastSeen [simp]: "run_state s ps S m (f\<lparr>lastSeen := t\<rparr>) \<longleftrightarrow> run_state s ps S m f"
  by (simp add: run_state_def)

lemma pushAll_run:
  assumes run: "is_run k s ps" and win: "int (length ps) \<le> window r + 1"
    and "map_of (flows r) k = Some f" "run_state s ps S m f" "m \<notin> S"
    and "distinct (map fst xs)" "\<forall>i \<in> fst ` set xs. i < length ps \<and> i \<notin> S"
  shows "\<exists>r' f' m'. pushAll r (map (\<lambda>(i, t). (ps ! i, t)) xs) (out @ take m ps) = (r', out @ take m' ps) \<and>
     run_state s ps (S \<union> fst ` set xs) m' f' \<and> m' \<notin> S \<union> fst ` set xs \<and>
     map_of (flows r') k = Some f' \<and> window r' = window r"
  using assms(2-)
proof (induction xs arbitrary: r f S m)
  case Nil
  then show ?case by auto
next
  case (Cons x xs)
  obtain i t where x: "x = (i, t)" by fastforce
  have i: "i < length ps" "i \<notin> S" using Cons.prems(6) x by auto
  have g: "parseTCP (ps ! i) = Some \<lparr>sg_seq = sq s ps i, sg_nextAfter = sq s ps (Suc i), sg_key = k\<rparr>"
    using run i by (simp add: is_run_def)
  obtain m' f' where p: "pushFlow (window r) (f\<lparr>lastSeen := t\<rparr>) (ps ! i) (sq s ps i) (sq s ps (Suc i)) (out @ take m ps)
      = (f', out @ take m' ps)" "run_state s ps (insert i S) m' f'" "m' \<notin> insert i S"
    using pushFlow_run [OF run, of S m "f\<lparr>lastSeen := t\<rparr>" i "window r" out] Cons.prems i by auto
  let ?r = "r\<lparr>flows := AList.update k f' (flows r)\<rparr>"
  have push: "Push r (ps ! i) t (out @ take m ps) = (?r, out @ take m' ps)"
    using g p(1) Cons.prems(2) by (simp add: Push_def)
  have "\<forall>j \<in> fst ` set xs. j < length ps \<and> j \<notin> insert i S"
    using Cons.prems(5,6) x by (auto simp: image_iff)
  then show ?case
    using Cons.IH [of ?r f' "insert i S" m'] Cons.prems(1,5) p(2,3) push x
    by (auto simp: update_conv')
qed

subsection \<open>Invariant and conservation\<close>

definition bufm :: "reseqFlow \<Rightarrow> bytes multiset" where
  "bufm f = mset (map (re_data \<circ> snd) (buf f))"

text \<open>
  A flow of key \<open>k\<close> under window \<open>win\<close>: no more than \<open>win\<close> buffered segments, each
  stored under its own sequence number, and never the one expected next.
\<close>

definition flow_inv :: "int \<Rightarrow> fkey \<Rightarrow> reseqFlow \<Rightarrow> bool" where
  "flow_inv win k f \<longleftrightarrow> distinct (map fst (buf f)) \<and> int (length (buf f)) \<le> win \<and>
     (\<not> primed f \<longrightarrow> buf f = []) \<and> nextSeq f \<notin> fst ` set (buf f) \<and>
     (\<forall>(q, e) \<in> set (buf f). parseTCP (re_data e) = Some \<lparr>sg_seq = q, sg_nextAfter = re_nextAfter e, sg_key = k\<rparr>)"

definition reseq_inv :: "ForwardReseq \<Rightarrow> bool" where
  "reseq_inv r \<longleftrightarrow> 0 < window r \<and> distinct (map fst (flows r)) \<and>
     (\<forall>(k, f) \<in> set (flows r). flow_inv (window r) k f)"

lemma mset_delete:
  "distinct (map fst al) \<Longrightarrow> map_of al k = Some v \<Longrightarrow>
   add_mset (k, v) (mset (AList.delete k al)) = mset al"
proof (induction al)
  case (Cons x al)
  show ?case
  proof (cases "fst x = k")
    case True
    then have "AList.delete k al = al" using Cons.prems(1) by (intro delete_id) auto
    then show ?thesis using Cons.prems(2) True by (cases x) (simp add: AList.delete_eq)
  next
    case False
    then show ?thesis using Cons by (cases x) (auto simp: AList.delete_eq)
  qed
qed simp

lemma drain_buf_subset: "set (buf (fst (drain f out))) \<subseteq> set (buf f)"
proof (induction f out rule: drain.induct)
  case (1 f out)
  then show ?case
    by (subst drain.simps) (auto split: option.split simp: AList.delete_eq)
qed

lemma drain_facts:
  assumes "distinct (map fst (buf f))" "drain f out = (f', out')"
  shows "distinct (map fst (buf f')) \<and> nextSeq f' \<notin> fst ` set (buf f') \<and> primed f' = primed f \<and>
    mset out' + bufm f' = mset out + bufm f \<and> (\<exists>ds. out' = out @ ds)"
  using assms
proof (induction f out rule: drain.induct)
  case (1 f out)
  show ?case
  proof (cases "map_of (buf f) (nextSeq f)")
    case None
    then have "f' = f" "out' = out" using "1.prems"(2) by (simp_all add: drain.simps [of f])
    then show ?thesis using "1.prems"(1) None by (simp add: map_of_eq_None_iff)
  next
    case (Some e)
    let ?f = "f\<lparr>buf := AList.delete (nextSeq f) (buf f), nextSeq := re_nextAfter e\<rparr>"
    have "drain ?f (out @ [re_data e]) = (f', out')"
      using "1.prems"(2) Some by (simp add: drain.simps [of f])
    moreover have "distinct (map fst (buf ?f))" using "1.prems"(1) by (simp add: distinct_delete)
    ultimately have ih: "distinct (map fst (buf f')) \<and> nextSeq f' \<notin> fst ` set (buf f') \<and> primed f' = primed ?f \<and>
        mset out' + bufm f' = mset (out @ [re_data e]) + bufm ?f \<and> (\<exists>ds. out' = (out @ [re_data e]) @ ds)"
      by (intro "1.IH" [OF Some])
    moreover have "add_mset (re_data e) (bufm ?f) = bufm f"
      using mset_delete [OF "1.prems"(1) Some, THEN arg_cong, of "image_mset (re_data \<circ> snd)"]
      by (simp add: bufm_def)
    ultimately show ?thesis by auto
  qed
qed

lemma sweep_facts:
  "set (sweep ns b) \<subseteq> set b" "distinct (map fst b) \<Longrightarrow> distinct (map fst (sweep ns b))"
  by (auto simp: sweep_def distinct_map_filter)

text \<open>What \<^verbatim>\<open>skipGap\<close> sweeps away: buffered data at or behind the expected sequence.\<close>

definition swept :: "reseqFlow \<Rightarrow> bytes multiset" where
  "swept f = mset (map (re_data \<circ> snd) (filter (\<lambda>(s, e). sdist s (nextSeq f) \<le> 0) (buf f)))"

lemma swept_sweep: "swept f + bufm (f\<lparr>buf := sweep (nextSeq f) (buf f)\<rparr>) = bufm f"
proof -
  have "image_mset g (filter_mset P M) + image_mset g (filter_mset (\<lambda>x. \<not> P x) M) = image_mset g M"
    for g :: "(u32 \<times> reseqEntry) \<Rightarrow> bytes" and P M
    by (simp only: image_mset_union [symmetric] multiset_partition [symmetric])
  then show ?thesis by (simp add: swept_def bufm_def sweep_def case_prod_unfold)
qed

lemma skipGap_facts:
  assumes "distinct (map fst (buf f))" "skipGap f out = (f', out', ok)"
  shows "distinct (map fst (buf f')) \<and> set (buf f') \<subseteq> set (buf f) \<and> primed f' = primed f \<and>
    nextSeq f' \<notin> fst ` set (buf f') \<and> (\<not> ok \<longrightarrow> buf f' = [] \<and> out' = out) \<and>
    mset out' + bufm f' + swept f = mset out + bufm f"
proof (cases "scanOldest (nextSeq f) (buf f) None")
  case None
  then have "sweep (nextSeq f) (buf f) = []" by (simp only: scanOldest_None)
  moreover have "f' = f\<lparr>buf := []\<rparr>" "out' = out"
    using assms(2) None calculation by (auto simp: skipGap_def Let_def)
  ultimately show ?thesis using swept_sweep [of f] by (simp add: bufm_def)
next
  case (Some x)
  obtain d s where x: "x = (d, s)" by fastforce
  let ?b = "sweep (nextSeq f) (buf f)"
  from scanOldest_Some [OF Some [unfolded x]] have "s \<in> fst ` set ?b" by (force simp: sweep_def)
  then obtain e where e: "map_of ?b s = Some e" by (metis map_of_eq_None_iff not_None_eq)
  have db: "distinct (map fst ?b)" using assms(1) by (rule sweep_facts)
  let ?f = "f\<lparr>buf := AList.delete s ?b, nextSeq := re_nextAfter e\<rparr>"
  have dr: "drain ?f (out @ [re_data e]) = (f', out')" and "ok"
    using assms(2) Some x e by (auto simp: skipGap_def Let_def split: prod.splits)
  have "distinct (map fst (buf ?f))" using db by (simp add: distinct_delete)
  note df = drain_facts [OF this dr]
  have "add_mset (re_data e) (bufm ?f) = bufm (f\<lparr>buf := ?b\<rparr>)"
    using mset_delete [OF db e, THEN arg_cong, of "image_mset (re_data \<circ> snd)"] by (simp add: bufm_def)
  then have "mset out' + bufm f' + swept f = mset out + bufm f"
    using df swept_sweep [of f] by (metis (no_types, lifting) add.commute add_mset_add_single mset.simps union_assoc mset_append union_mset_add_mset_right add_mset_add_single)
  moreover have "set (buf f') \<subseteq> set (buf f)"
    using drain_buf_subset [of ?f "out @ [re_data e]"] dr sweep_facts(1) [of "nextSeq f" "buf f"]
    by (auto simp: AList.delete_eq)
  ultimately show ?thesis using df \<open>ok\<close> by simp
qed

lemma length_update_fresh:
  "map_of al k = None \<Longrightarrow> length (AList.update k v al) = Suc (length al)"
  by (induction al) (auto split: if_splits)

lemma update_fresh: "map_of al k = None \<Longrightarrow> AList.update k v al = al @ [(k, v)]"
  by (induction al) (auto split: if_splits)

lemma bufferSeg_facts:
  assumes "flow_inv win k f" "primed f" "q \<noteq> nextSeq f"
    and "parseTCP ip = Some \<lparr>sg_seq = q, sg_nextAfter = na, sg_key = k\<rparr>"
  shows "flow_inv (win + 1) k (bufferSeg f ip q na)" "bufm (bufferSeg f ip q na) \<subseteq># bufm f + {#ip#}"
proof -
  show "flow_inv (win + 1) k (bufferSeg f ip q na)"
  proof (cases "map_of (buf f) q")
    case None
    then have "buf (bufferSeg f ip q na) = buf f @ [(q, \<lparr>re_data = ip, re_nextAfter = na\<rparr>)]"
      by (simp add: bufferSeg_def update_fresh)
    moreover have "nextSeq (bufferSeg f ip q na) = nextSeq f" "primed (bufferSeg f ip q na)"
      using assms(2) None by (simp_all add: bufferSeg_def)
    ultimately show ?thesis
      using assms None unfolding flow_inv_def by (auto simp: map_of_eq_None_iff)
  qed (use assms in \<open>auto simp: bufferSeg_def flow_inv_def\<close>)
  show "bufm (bufferSeg f ip q na) \<subseteq># bufm f + {#ip#}"
    by (auto simp: bufferSeg_def bufm_def update_fresh split: option.split)
qed

lemma flow_inv_mono: "flow_inv w k f \<Longrightarrow> int (length (buf f)) \<le> w' \<Longrightarrow> flow_inv w' k f"
  by (simp add: flow_inv_def)

lemma skipGap_flow_inv:
  assumes "flow_inv (win + 1) k f" "0 < win" "primed f" "skipGap f out = (f', out', ok)"
  shows "flow_inv win k f'" "mset out' + bufm f' \<subseteq># mset out + bufm f"
proof -
  have d: "distinct (map fst (buf f))" using assms(1) by (simp add: flow_inv_def)
  note sf = skipGap_facts [OF d assms(4)]
  have "int (length (buf f')) \<le> win"
    using sf skipGap_length [of f out f' out'] assms by (cases ok) (auto simp: flow_inv_def)
  then show "flow_inv win k f'" using sf assms(1,3) by (auto simp: flow_inv_def)
  show "mset out' + bufm f' \<subseteq># mset out + bufm f" using sf by (metis mset_subset_eq_add_left)
qed

lemma pushFlow_facts:
  assumes inv: "flow_inv win k f" "0 < win"
    and g: "parseTCP ip = Some \<lparr>sg_seq = q, sg_nextAfter = na, sg_key = k\<rparr>"
    and p: "pushFlow win f ip q na out = (f', out')"
  shows "flow_inv win k f' \<and> mset out' + bufm f' \<subseteq># mset out + bufm f + {#ip#}"
proof -
  define f0 where "f0 = (if \<not> primed f then f\<lparr>primed := True, nextSeq := q\<rparr> else f)"
  have inv0: "flow_inv win k f0" "primed f0" "bufm f0 = bufm f"
    using inv(1) by (auto simp: f0_def flow_inv_def bufm_def)
  have pf: "(if sdist q (nextSeq f0) = 0 then drain (f0\<lparr>nextSeq := na\<rparr>) (out @ [ip])
      else if sdist q (nextSeq f0) < 0 then (f0, out @ [ip])
      else let f1 = bufferSeg f0 ip q na
           in if int (length (buf f1)) > win then (let (f, out, ok) = skipGap f1 out in (f, out)) else (f1, out))
      = (f', out')"
    using p by (simp add: pushFlow_def f0_def [symmetric] Let_def)
  consider (zero) "sdist q (nextSeq f0) = 0" | (neg) "sdist q (nextSeq f0) < 0" | (pos) "0 < sdist q (nextSeq f0)"
    by linarith
  then show ?thesis
  proof cases
    case zero
    then have dr: "drain (f0\<lparr>nextSeq := na\<rparr>) (out @ [ip]) = (f', out')" using pf by simp
    have "distinct (map fst (buf (f0\<lparr>nextSeq := na\<rparr>)))" using inv0 by (simp add: flow_inv_def)
    note df = drain_facts [OF this dr]
    have "set (buf f') \<subseteq> set (buf f0)" "length (buf f') \<le> length (buf f0)"
      using drain_buf_subset [of "f0\<lparr>nextSeq := na\<rparr>" "out @ [ip]"]
        drain_length [of "f0\<lparr>nextSeq := na\<rparr>" "out @ [ip]"] dr by simp_all
    then have "flow_inv win k f'" using inv0 df by (auto simp: flow_inv_def)
    moreover have "mset out' + bufm f' = mset out + bufm f + {#ip#}"
      using df inv0(3) by (simp add: bufm_def)
    ultimately show ?thesis by simp
  next
    case neg
    then show ?thesis using pf inv0 by auto
  next
    case pos
    let ?f = "bufferSeg f0 ip q na"
    have ne: "q \<noteq> nextSeq f0" using pos by (auto simp: sdist_def)
    note bf = bufferSeg_facts [OF inv0(1,2) ne g]
    have pr: "primed ?f" using inv0(2) by (simp add: bufferSeg_def split: option.split)
    have pf': "(if int (length (buf ?f)) > win then (let (f, out, ok) = skipGap ?f out in (f, out)) else (?f, out))
        = (f', out')"
      using pf pos by (simp only: Let_def) simp
    show ?thesis
    proof (cases "int (length (buf ?f)) > win")
      case True
      then obtain ok where sg: "skipGap ?f out = (f', out', ok)"
        using pf' by (auto split: prod.splits)
      from skipGap_flow_inv [OF bf(1) inv(2) pr sg] bf(2) inv0(3) show ?thesis
        by (metis (no_types, lifting) add.assoc subset_mset.add_left_mono subset_mset.order_trans)
    next
      case False
      then have "f' = ?f" "out' = out" using pf' by simp_all
      then show ?thesis
        using False bf inv0(3) by (auto intro: flow_inv_mono simp: add.assoc subset_mset.add_left_mono)
    qed
  qed
qed

subsection \<open>A gap is skipped in order\<close>

lemma scanOldest_least:
  "scanOldest ns b acc = Some (d, s) \<Longrightarrow>
   (\<forall>d0 s0. acc = Some (d0, s0) \<longrightarrow> d \<le> d0) \<and> (\<forall>(q, e) \<in> set b. 0 < sdist q ns \<longrightarrow> d \<le> sdist q ns)"
proof (induction b arbitrary: acc)
  case (Cons x b)
  obtain q e where x: "x = (q, e)" by fastforce
  show ?case
    using Cons.prems Cons.IH [of acc] Cons.IH [of "Some (sdist q ns, q)"]
    by (fastforce simp: x Let_def split: if_splits option.splits)
qed auto

lemma skipGap_run:
  assumes run: "is_run k s ps" and st: "run_state s ps S m f" "m \<notin> S"
    and i: "i \<in> S" "m < i" "\<And>j. j \<in> S \<Longrightarrow> m < j \<Longrightarrow> i \<le> j"
  shows "\<exists>m' f'. skipGap f out = (f', out @ map ((!) ps) [i..<m'], True) \<and>
     run_state s ps (S \<union> {..<i}) m' f' \<and> i < m' \<and> m' \<notin> S \<and> {i..<m'} \<subseteq> S"
proof -
  have lt: "j < length ps" if "j \<in> S" for j using st that by (auto simp: run_state_def)
  have ns: "nextSeq f = sq s ps m" "m \<le> length ps" "distinct (map fst (buf f))" using st by (simp_all add: run_state_def)
  have keys: "\<exists>j \<in> S. m < j \<and> q = sq s ps j" if "q \<in> fst ` set (buf f)" for q
    using that st unfolding run_state_def by (metis le_neq_implies_less)
  have pos: "0 < sdist q (nextSeq f)" if "q \<in> fst ` set (buf f)" for q
  proof -
    obtain j where "j \<in> S" "m < j" "q = sq s ps j" using keys [OF \<open>q \<in> fst ` set (buf f)\<close>] by blast
    then show ?thesis
      using sdist_sq [OF run, of j m] offs_mono [OF run, of m j] lt [of j] ns by simp
  qed
  have sw: "sweep (nextSeq f) (buf f) = buf f"
    unfolding sweep_def using pos by (intro filter_True) force
  let ?e = "\<lparr>re_data = ps ! i, re_nextAfter = sq s ps (Suc i)\<rparr>"
  have ei: "map_of (buf f) (sq s ps i) = Some ?e" using st i by (auto simp: run_state_def)
  have "\<exists>d. scanOldest (nextSeq f) (buf f) None = Some (d, sq s ps i)"
  proof (cases "scanOldest (nextSeq f) (buf f) None")
    case None
    then have "buf f = []" using sw by (simp add: scanOldest_None)
    then show ?thesis using ei by simp
  next
    case (Some x)
    obtain d q where x: "x = (d, q)" by fastforce
    from scanOldest_Some [OF Some [unfolded x]] have q: "q \<in> fst ` set (buf f)" "d = sdist q (nextSeq f)" by force+
    obtain j where j: "j \<in> S" "m < j" "q = sq s ps j" using keys [OF q(1)] by blast
    have "(sq s ps i, ?e) \<in> set (buf f)" using ei by (rule map_of_SomeD)
    then have "d \<le> sdist (sq s ps i) (nextSeq f)"
      using scanOldest_least [OF Some [unfolded x]] pos [of "sq s ps i"] by force
    then have "offs ps j \<le> offs ps i"
      using q(2) j sdist_sq [OF run, of j m] sdist_sq [OF run, of i m] lt [OF j(1)] lt [OF i(1)] ns by simp
    then have "j = i" using i(3) [OF j(1,2)] offs_mono [OF run, of i j] lt [OF j(1)] by fastforce
    then show ?thesis using Some x j by simp
  qed
  then obtain d where sc: "scanOldest (nextSeq f) (buf f) None = Some (d, sq s ps i)" by blast
  let ?g = "f\<lparr>nextSeq := sq s ps i\<rparr>"
  let ?f = "f\<lparr>buf := AList.delete (sq s ps i) (buf f), nextSeq := sq s ps (Suc i)\<rparr>"
  have st0: "run_state s ps (S \<union> {..<i}) i ?g"
    unfolding run_state_def
  proof (intro conjI ballI impI)
    show "S \<union> {..<i} \<subseteq> {..<length ps}" using lt lt [OF i(1)] by fastforce
    show "map_of (buf ?g) (sq s ps j) = Some \<lparr>re_data = ps ! j, re_nextAfter = sq s ps (Suc j)\<rparr>"
      if "j \<in> S \<union> {..<i}" "i \<le> j" for j
      using that st i(2) unfolding run_state_def by (auto simp: less_imp_le)
    show "\<exists>j \<in> S \<union> {..<i}. i \<le> j \<and> q = sq s ps j" if "q \<in> fst ` set (buf ?g)" for q
      using keys [of q] that i(3) by auto
  qed (use st lt [OF i(1)] in \<open>auto simp: run_state_def\<close>)
  have "run_state s ps (S \<union> {..<i}) (Suc i) ?f"
    using run_state_emit [OF run st0] i(1) by simp
  from drain_run_from [OF run this, of "out @ [ps ! i]"] obtain m' f' where
    r: "drain ?f (out @ [ps ! i]) = (f', (out @ [ps ! i]) @ map ((!) ps) [Suc i..<m'])"
    "run_state s ps (S \<union> {..<i}) m' f'" "Suc i \<le> m'" "m' \<notin> S \<union> {..<i}" "{Suc i..<m'} \<subseteq> S \<union> {..<i}" by blast
  have "skipGap f out = (f', out @ map ((!) ps) [i..<m'], True)"
    using sc sw ei r(1,3) by (simp add: skipGap_def Let_def upt_conv_Cons)
  moreover have "{i..<m'} \<subseteq> S"
    using r(5) i(1) by (auto simp: subset_iff) (metis Suc_leI le_neq_implies_less not_less)
  ultimately show ?thesis using r by (intro exI [of _ m'] exI [of _ f']) auto
qed

lemma sorted_list_prefix:
  assumes "finite A" "A = {i..<m} \<union> B" "\<forall>j \<in> B. m \<le> j"
  shows "sorted_list_of_set A = [i..<m] @ sorted_list_of_set B"
proof (rule sorted_list_of_set_unique [THEN iffD1])
  show "finite A" by fact
  have "finite B" using assms(1,2) by simp
  then show "sorted_wrt (<) ([i..<m] @ sorted_list_of_set B) \<and> set ([i..<m] @ sorted_list_of_set B) = A \<and>
      length ([i..<m] @ sorted_list_of_set B) = card A"
    using assms(2,3) card_Un_disjoint [of "{i..<m}" B] by (fastforce simp: sorted_wrt_append)
qed

lemma flushFlow_run:
  assumes run: "is_run k s ps" and st: "run_state s ps S m f" "m \<notin> S"
  shows "snd (flushFlow f out) = out @ map ((!) ps) (sorted_list_of_set {i \<in> S. m \<le> i})"
  using st
proof (induction "length ps - m" arbitrary: m f out S rule: less_induct)
  case less
  let ?A = "{i \<in> S. m \<le> i}"
  have fin: "finite ?A" using less.prems(1) by (auto simp: run_state_def intro: finite_subset)
  show ?case
  proof (cases "?A = {}")
    case True
    then have "buf f = []" using less.prems(1) unfolding run_state_def by force
    then show ?thesis unfolding True by (simp add: flushFlow.simps [of f])
  next
    case False
    define i where "i = Min ?A"
    have "i \<in> ?A" unfolding i_def using fin False by (rule Min_in)
    then have i: "i \<in> S" "m < i" using less.prems(2) by (auto simp: le_less)
    have least: "i \<le> j" if "j \<in> S" "m < j" for j
      unfolding i_def using fin that by (intro Min_le) auto
    obtain m' f' where r: "skipGap f out = (f', out @ map ((!) ps) [i..<m'], True)"
      "run_state s ps (S \<union> {..<i}) m' f'" "i < m'" "m' \<notin> S" "{i..<m'} \<subseteq> S"
      using skipGap_run [OF run less.prems i least] by blast
    have "map_of (buf f) (sq s ps i) \<noteq> None" using less.prems(1) i by (auto simp: run_state_def)
    then have "buf f \<noteq> []" by auto
    then have "snd (flushFlow f out) = snd (flushFlow f' (out @ map ((!) ps) [i..<m']))"
      using r(1) by (simp add: flushFlow.simps [of f])
    also have "\<dots> = (out @ map ((!) ps) [i..<m']) @ map ((!) ps) (sorted_list_of_set {j \<in> S \<union> {..<i}. m' \<le> j})"
      using less.hyps [OF _ r(2)] r(2-4) i less.prems(1) by (auto simp: run_state_def)
    also have "{j \<in> S \<union> {..<i}. m' \<le> j} = {j \<in> S. m' \<le> j}" using r(3) by auto
    finally have *: "snd (flushFlow f out) = out @ map ((!) ps) ([i..<m'] @ sorted_list_of_set {j \<in> S. m' \<le> j})"
      by simp
    have ge: "i \<le> j" if "j \<in> S" "m \<le> j" for j
      using least [of j] that less.prems(2) by (cases "m = j") auto
    have "?A = {i..<m'} \<union> {j \<in> S. m' \<le> j}"
    proof (intro set_eqI iffI)
      show "j \<in> ?A" if "j \<in> {i..<m'} \<union> {j \<in> S. m' \<le> j}" for j using that r(3,5) i by auto
      show "j \<in> {i..<m'} \<union> {j \<in> S. m' \<le> j}" if "j \<in> ?A" for j using that ge [of j] by auto
    qed
    then have "sorted_list_of_set ?A = [i..<m'] @ sorted_list_of_set {j \<in> S. m' \<le> j}"
      using fin by (intro sorted_list_prefix) auto
    with * show ?thesis by simp
  qed
qed

subsection \<open>The operations keep the invariant\<close>

definition buffered :: "ForwardReseq \<Rightarrow> bytes multiset" where
  "buffered r = sum_list (map (bufm \<circ> snd) (flows r))"

lemma set_update_distinct:
  "distinct (map fst al) \<Longrightarrow> set (AList.update k v al) = insert (k, v) (set al - {x. fst x = k})"
  by (induction al) (auto simp: image_iff)

lemma sum_update:
  assumes "distinct (map fst al)"
  shows "sum_list (map (g \<circ> snd) (AList.update k v al))
      + (case map_of al k of Some u \<Rightarrow> g u | None \<Rightarrow> {#}) = sum_list (map (g \<circ> snd) al) + g v"
  using assms by (induction al) (auto simp: add_ac split: option.splits)

lemma flow_inv_newFlow: "0 < win \<Longrightarrow> flow_inv win k newFlow"
  by (simp add: flow_inv_def newFlow_def)

lemma Push_facts:
  assumes "reseq_inv r" "Push r ip now out = (r', out')"
  shows "reseq_inv r' \<and> mset out' + buffered r' \<subseteq># mset out + buffered r + {#ip#}"
proof (cases "parseTCP ip")
  case None
  then show ?thesis using assms by (auto simp: Push_def)
next
  case (Some g)
  define f where "f = (case map_of (flows r) (sg_key g) of Some f \<Rightarrow> f | None \<Rightarrow> newFlow)"
  obtain f' out1 where p: "pushFlow (window r) (f\<lparr>lastSeen := now\<rparr>) ip (sg_seq g) (sg_nextAfter g) out = (f', out1)"
    by fastforce
  have r': "r' = r\<lparr>flows := AList.update (sg_key g) f' (flows r)\<rparr>" "out' = out1"
    using assms(2) Some p by (auto simp: Push_def f_def Let_def)
  have w: "0 < window r" and d: "distinct (map fst (flows r))" using assms(1) by (simp_all add: reseq_inv_def)
  have "flow_inv (window r) (sg_key g) f"
    using assms(1) flow_inv_newFlow [OF w]
    by (auto simp: f_def reseq_inv_def split: option.split dest: map_of_SomeD)
  then have "flow_inv (window r) (sg_key g) (f\<lparr>lastSeen := now\<rparr>)" by (simp add: flow_inv_def)
  from pushFlow_facts [OF this w _ p] Some
  have pf: "flow_inv (window r) (sg_key g) f'" "mset out1 + bufm f' \<subseteq># mset out + bufm (f\<lparr>lastSeen := now\<rparr>) + {#ip#}"
    by simp_all
  have bf: "bufm (f\<lparr>lastSeen := now\<rparr>) = (case map_of (flows r) (sg_key g) of Some u \<Rightarrow> bufm u | None \<Rightarrow> {#})"
    by (auto simp: f_def bufm_def newFlow_def split: option.split)
  have b: "buffered r' + bufm (f\<lparr>lastSeen := now\<rparr>) = buffered r + bufm f'"
    using sum_update [OF d, of bufm "sg_key g" f'] unfolding bf by (simp add: buffered_def r'(1))
  have "mset out' + buffered r' + bufm (f\<lparr>lastSeen := now\<rparr>) = (mset out1 + bufm f') + buffered r"
    unfolding r'(2) using b by (metis (no_types, lifting) add.assoc add.commute)
  also have "\<dots> \<subseteq># (mset out + bufm (f\<lparr>lastSeen := now\<rparr>) + {#ip#}) + buffered r"
    using pf(2) by (rule subset_mset.add_right_mono)
  also have "\<dots> = (mset out + buffered r + {#ip#}) + bufm (f\<lparr>lastSeen := now\<rparr>)" by simp
  finally have "mset out' + buffered r' \<subseteq># mset out + buffered r + {#ip#}" by simp
  moreover have "reseq_inv r'"
    using assms(1) pf(1) d by (auto simp: reseq_inv_def r'(1) set_update_distinct distinct_update)
  ultimately show ?thesis by simp
qed

lemma flushFlow_facts:
  "distinct (map fst (buf f)) \<Longrightarrow> flushFlow f out = (f', out') \<Longrightarrow>
   buf f' = [] \<and> mset out' \<subseteq># mset out + bufm f"
proof (induction f out rule: flushFlow.induct)
  case (1 f out)
  obtain f1 out1 ok where sg: "skipGap f out = (f1, out1, ok)" by (metis prod_cases3)
  note sf = skipGap_facts [OF "1.prems"(1) sg]
  then have sub: "mset out1 + bufm f1 \<subseteq># mset out + bufm f" by (metis mset_subset_eq_add_left)
  show ?case
  proof (cases "buf f = []")
    case True
    then show ?thesis using "1.prems"(2) by (simp add: flushFlow.simps [of f] bufm_def)
  next
    case ne: False
    show ?thesis
    proof (cases ok)
      case True
      then have fl: "flushFlow f1 out1 = (f', out')" using "1.prems"(2) ne sg by (simp add: flushFlow.simps [of f])
      have "buf f' = [] \<and> mset out' \<subseteq># mset out1 + bufm f1"
        using "1.IH" [OF _ sg [symmetric] refl] ne True sf fl by simp
      then show ?thesis using sub by (blast intro: subset_mset.order_trans)
    next
      case False
      then have "f' = f1" "out' = out1" using "1.prems"(2) ne sg by (simp_all add: flushFlow.simps [of f])
      then show ?thesis using sf False by simp
    qed
  qed
qed

lemma flushFlows_keep:
  "fst (flushFlows now age fs out) = filter (\<lambda>(k, f). now - lastSeen f < age) fs"
  by (induction fs arbitrary: out) (auto simp: case_prod_unfold Let_def)

lemma flushFlows_facts:
  assumes "\<forall>(k, f) \<in> set fs. distinct (map fst (buf f))"
  shows "mset (snd (flushFlows now age fs out)) + sum_list (map (bufm \<circ> snd) (fst (flushFlows now age fs out)))
    \<subseteq># mset out + sum_list (map (bufm \<circ> snd) fs)"
  using assms
proof (induction fs arbitrary: out)
  case (Cons x fs)
  obtain k f where x: "x = (k, f)" by fastforce
  have d: "distinct (map fst (buf f))" "\<forall>(k, f) \<in> set fs. distinct (map fst (buf f))" using Cons.prems x by auto
  show ?case
  proof (cases "now - lastSeen f < age")
    case True
    then show ?thesis
      using Cons.IH [OF d(2), of out] by (simp add: x case_prod_unfold Let_def)
  next
    case False
    obtain f' out1 where fl: "flushFlow f out = (f', out1)" by fastforce
    have "mset out1 \<subseteq># mset out + bufm f" using flushFlow_facts [OF d(1) fl] by simp
    then have "mset out1 + sum_list (map (bufm \<circ> snd) fs) \<subseteq># mset out + bufm f + sum_list (map (bufm \<circ> snd) fs)"
      by (rule subset_mset.add_right_mono)
    with Cons.IH [OF d(2), of out1] have "mset (snd (flushFlows now age fs out1))
        + sum_list (map (bufm \<circ> snd) (fst (flushFlows now age fs out1)))
        \<subseteq># mset out + bufm f + sum_list (map (bufm \<circ> snd) fs)"
      by (rule subset_mset.order_trans)
    then show ?thesis using False fl by (simp add: x add.assoc comp_def)
  qed
qed simp

lemma reseq_inv_distinct: "reseq_inv r \<Longrightarrow> \<forall>(k, f) \<in> set (flows r). distinct (map fst (buf f))"
  by (auto simp: reseq_inv_def flow_inv_def)

lemma FlushExpired_facts:
  assumes "reseq_inv r" "FlushExpired r now out = (r', out')"
  shows "reseq_inv r' \<and> mset out' + buffered r' \<subseteq># mset out + buffered r"
proof -
  let ?p = "flushFlows now (maxAge r) (flows r) out"
  have r': "r' = r\<lparr>flows := fst ?p\<rparr>" "out' = snd ?p"
    using assms(2) by (auto simp: FlushExpired_def case_prod_unfold Let_def)
  have "reseq_inv r'"
    using assms(1) unfolding r'(1) flushFlows_keep reseq_inv_def by (auto simp: distinct_map_filter)
  moreover have "mset out' + buffered r' \<subseteq># mset out + buffered r"
    using flushFlows_facts [OF reseq_inv_distinct [OF assms(1)]] by (simp add: r' buffered_def)
  ultimately show ?thesis by simp
qed

text \<open>The resequencer as a system: created once, then pushed to and flushed.\<close>

definition reseq_init :: "ForwardReseq \<Rightarrow> bool" where
  "reseq_init r \<longleftrightarrow> (\<exists>win age. r = NewForwardReseq win age)"

inductive reseq_step :: "ForwardReseq \<Rightarrow> ForwardReseq \<Rightarrow> bool" where
  push: "Push r ip now out = (r', out') \<Longrightarrow> reseq_step r r'"
| flush: "FlushExpired r now out = (r', out') \<Longrightarrow> reseq_step r r'"

inductive_cases reseq_stepE: "reseq_step r r'"

interpretation reseqSys: invariant_system reseq_init reseq_step reseq_inv
proof unfold_locales
  show "reseq_init r \<Longrightarrow> reseq_inv r" for r
    by (auto simp: reseq_init_def NewForwardReseq_def reseq_inv_def)
  show "reseq_step r r' \<Longrightarrow> reseq_inv r \<Longrightarrow> reseq_inv r'" for r r'
    by (auto elim!: reseq_stepE dest: Push_facts FlushExpired_facts)
qed

subsection \<open>In-order traffic\<close>

definition flow_ready :: "ForwardReseq \<Rightarrow> fkey \<Rightarrow> u32 \<Rightarrow> bool" where
  "flow_ready r k s \<longleftrightarrow>
     (case map_of (flows r) k of
        None \<Rightarrow> True
      | Some f \<Rightarrow> buf f = [] \<and> (primed f \<longrightarrow> nextSeq f = s))"

lemma Push_in_order:
  assumes "parseTCP ip = Some g" "flow_ready r (sg_key g) (sg_seq g)" "Push r ip now out = (r', out')"
  shows "out' = out @ [ip] \<and> flow_ready r' (sg_key g) (sg_nextAfter g)"
proof -
  define f where "f = (case map_of (flows r) (sg_key g) of Some f \<Rightarrow> f | None \<Rightarrow> newFlow)\<lparr>lastSeen := now\<rparr>"
  have b: "buf f = []" "primed f \<longrightarrow> nextSeq f = sg_seq g"
    using assms(2) by (auto simp: f_def flow_ready_def newFlow_def split: option.splits)
  let ?f = "f\<lparr>primed := True, nextSeq := sg_nextAfter g\<rparr>"
  have "pushFlow (window r) f ip (sg_seq g) (sg_nextAfter g) out = (?f, out @ [ip])"
    using b by (cases "primed f") (auto simp: pushFlow_def sdist_def drain.simps Let_def)
  then have "out' = out @ [ip]" "map_of (flows r') (sg_key g) = Some ?f"
    using assms(1,3) by (auto simp: Push_def f_def Let_def update_conv')
  then show ?thesis using b by (simp add: flow_ready_def)
qed

lemma pushAll_in_order:
  "contiguous k s (map fst xs) \<Longrightarrow> flow_ready r k s \<Longrightarrow> snd (pushAll r xs out) = out @ map fst xs"
proof (induction xs arbitrary: r s out)
  case (Cons x xs)
  obtain ip now where x: "x = (ip, now)" by fastforce
  obtain g where g: "parseTCP ip = Some g" "sg_key g = k" "sg_seq g = s" "contiguous k (sg_nextAfter g) (map fst xs)"
    using Cons.prems(1) x by (auto split: option.splits)
  obtain r' out' where p: "Push r ip now out = (r', out')" by fastforce
  have "out' = out @ [ip] \<and> flow_ready r' k (sg_nextAfter g)"
    using Push_in_order [OF g(1) _ p] Cons.prems(2) g by simp
  then show ?case using Cons.IH [OF g(4)] x p by simp
qed simp

lemma pushAll_restores:
  assumes "contiguous k s ps" "\<forall>p \<in> set ps. length p < 65536" "length ps \<le> 32767"
    and "int (length ps) \<le> window r + 1"
    and "map_of (flows r) k = Some f" "primed f" "nextSeq f = s" "buf f = []"
    and "distinct (map fst arr)" "set (map fst arr) = {..<length ps}"
  shows "snd (pushAll r (map (\<lambda>(i, t). (ps ! i, t)) arr) out) = out @ ps"
proof -
  have run: "is_run k s ps" using assms(1-3) by (rule contiguous_is_run)
  have st: "run_state s ps {} 0 f" using assms(6-8) by (simp add: run_state_def sq_def offs_def)
  have arr: "fst ` set arr = {..<length ps}" using assms(10) by simp
  have "\<forall>i \<in> fst ` set arr. i < length ps \<and> i \<notin> {}" and "0 \<notin> ({} :: nat set)" using arr by simp_all
  from pushAll_run [OF run assms(4,5) st this(2) assms(9) this(1), of out]
  obtain r' f' m' where r: "pushAll r (map (\<lambda>(i, t). (ps ! i, t)) arr) (out @ take 0 ps) = (r', out @ take m' ps)"
    "run_state s ps ({} \<union> fst ` set arr) m' f'" "m' \<notin> {} \<union> fst ` set arr"
    by blast
  then have "m' = length ps" using arr by (auto simp: run_state_def)
  with r(1) show ?thesis by simp
qed

text \<open>What the resequencer emits does not depend on what is already in the output.\<close>

lemma drain_append: "drain f (a @ b) = (fst (drain f b), a @ snd (drain f b))"
proof (induction f b rule: drain.induct)
  case (1 f b)
  show ?case
  proof (cases "map_of (buf f) (nextSeq f)")
    case None
    then show ?thesis by (simp add: drain.simps)
  next
    case (Some e)
    then show ?thesis using 1 [OF Some] by (simp add: drain.simps [of f])
  qed
qed

lemma skipGap_append: "skipGap f (a @ b) = (case skipGap f b of (f', out, ok) \<Rightarrow> (f', a @ out, ok))"
  using drain_append by (auto simp: skipGap_def Let_def split: option.split prod.split)

lemma pushFlow_append: "pushFlow w f ip q n (a @ b) = (case pushFlow w f ip q n b of (f', out) \<Rightarrow> (f', a @ out))"
  using drain_append by (auto simp: pushFlow_def Let_def skipGap_append split: prod.split)

lemma Push_append: "Push r ip now a = (fst (Push r ip now []), a @ snd (Push r ip now []))"
  using pushFlow_append [where a = a and b = "[]"] by (simp add: Push_def Let_def split: option.split prod.split)

subsection \<open>A concrete run\<close>

text \<open>A segment of flow \<open>0.0.0.1:1\<close> to \<open>0.0.0.2:2\<close> with one payload byte and sequence \<open>q\<close>.\<close>

definition ex_seg :: "byte \<Rightarrow> bytes" where
  "ex_seg q = [0x45, 0, 0, 41, 0, 0, 0, 0, 64, 6, 0, 0, 0, 0, 0, 1, 0, 0, 0, 2,
               0, 1, 0, 2, 0, 0, 0, q, 0, 0, 0, 0, 0x50, 0x10, 0, 0, 0, 0, 0, 0, 0xff]"

definition ex_flowkey :: fkey where
  "ex_flowkey = [0, 0, 0, 1, 0, 0, 0, 2, 0, 1, 0, 2, 6]"

definition ex_state :: ForwardReseq where
  "ex_state = \<lparr>flows = [(ex_flowkey, \<lparr>primed = True, nextSeq = 7, buf = [], lastSeen = 0\<rparr>)],
     window = 64, maxAge = 5000000\<rparr>"

lemma ex_seg_parse:
  "parseTCP (ex_seg q) = Some \<lparr>sg_seq = ucast q, sg_nextAfter = ucast q + 1, sg_key = ex_flowkey\<rparr>"
proof -
  have "get32 [0, 1, 0, 2, 0, 0, 0, q, 0, 0, 0, 0, 0x50, 0x10, 0, 0, 0, 0, 0, 0, 0xff] 4 = ucast q"
    by (rule word_unat_eq_iff [THEN iffD2])
      (simp add: get32_def get16_def unat_be32 unat_be16 unat_ucast_up)
  then show ?thesis
    by (simp add: parseTCP_def ex_seg_def Let_def tcpConsumed_def slice_def ex_flowkey_def)
qed

lemma ex_contiguous: "contiguous ex_flowkey 7 [ex_seg 7, ex_seg 8, ex_seg 9]"
  by (simp add: ex_seg_parse)

subsection \<open>Properties\<close>

text \<open>
  C4: the resequencer restores the order of a flow. Whatever order (and at
  whatever times) the consecutive segments of a flow arrive in, if no more of
  them are outstanding than the window holds, they leave in sequence order, none
  lost, none repeated.
\<close>

theorem reseq_restores_order:
  assumes "contiguous k s ps" "\<forall>p \<in> set ps. length p < 65536" "length ps \<le> 32767"
    and "int (length ps) \<le> window r + 1"
    and "map_of (flows r) k = Some f" "primed f" "nextSeq f = s" "buf f = []"
    and "distinct (map fst arr)" "set (map fst arr) = {..<length ps}"
  shows "snd (pushAll r (map (\<lambda>(i, t). (ps ! i, t)) arr) out) = out @ ps"
  by (rule pushAll_restores [OF assms])

theorem reseq_restores_order_witness:
  "snd (pushAll ex_state [(ex_seg 9, 1), (ex_seg 7, 2), (ex_seg 8, 3)] []) = [ex_seg 7, ex_seg 8, ex_seg 9]"
proof -
  have "set (map fst [(2, 1), (0, 2), (1, 3 :: int)]) = {..<length [ex_seg 7, ex_seg 8, ex_seg 9]}"
    by (auto simp: lessThan_Suc)
  moreover have "\<forall>p \<in> set [ex_seg 7, ex_seg 8, ex_seg 9]. length p < 65536" by (simp add: ex_seg_def)
  ultimately show ?thesis
    using reseq_restores_order [OF ex_contiguous, of ex_state
        "\<lparr>primed = True, nextSeq = 7, buf = [], lastSeen = 0\<rparr>" "[(2, 1), (0, 2), (1, 3)]" "[]"]
    by (simp add: ex_state_def)
qed

text \<open>
  C17: a lost segment never stalls the rest. After any subset of a run's segments
  arrived in any order and the flow then stayed idle for the maximum age, a flush
  has emitted exactly the received segments, in sequence order, and forgotten the
  flow.
\<close>

theorem reseq_flush_after_loss:
  assumes "contiguous k s ps" "\<forall>p \<in> set ps. length p < 65536" "length ps \<le> 32767"
    and "int (length ps) \<le> window r + 1"
    and "map_of (flows r) k = Some f" "primed f" "nextSeq f = s" "buf f = []"
    and "distinct (map fst arr)" "set (map fst arr) \<subseteq> {..<length ps}"
    and "pushAll r (map (\<lambda>(i, t). (ps ! i, t)) arr) out = (r', out')"
    and "flows r' = [(k, f')]" "maxAge r' \<le> now - lastSeen f'"
  shows "FlushExpired r' now out'
    = (r'\<lparr>flows := []\<rparr>, out @ map ((!) ps) (sorted_list_of_set (set (map fst arr))))"
proof -
  have run: "is_run k s ps" using assms(1-3) by (rule contiguous_is_run)
  have st: "run_state s ps {} 0 f" using assms(6-8) by (simp add: run_state_def sq_def offs_def)
  let ?A = "fst ` set arr"
  obtain f1 m where r: "out' = out @ take m ps" "run_state s ps ?A m f1" "m \<notin> ?A"
      "map_of (flows r') k = Some f1"
    using pushAll_run [OF run assms(4,5) st _ assms(9), of out] assms(10,11) by auto
  then have "f1 = f'" using assms(12) by simp
  then have fl: "snd (flushFlow f' out') = out' @ map ((!) ps) (sorted_list_of_set {i \<in> ?A. m \<le> i})"
    using flushFlow_run [OF run r(2,3)] by simp
  have m: "{..<m} \<subseteq> ?A" "m \<le> length ps" using r(2) by (simp_all add: run_state_def)
  have "?A = {0..<m} \<union> {i \<in> ?A. m \<le> i}" using m by auto
  then have "sorted_list_of_set ?A = [0..<m] @ sorted_list_of_set {i \<in> ?A. m \<le> i}"
    by (intro sorted_list_prefix) auto
  moreover have "map ((!) ps) [0..<m] = take m ps"
    using take_append_upt [of 0 m ps] m(2) by simp
  ultimately show ?thesis
    using fl r(1) assms(12,13) by (simp add: FlushExpired_def case_prod_unfold Let_def)
qed

theorem reseq_flush_after_loss_witness:
  "\<exists>r' out'. pushAll ex_state [(ex_seg 9, 1), (ex_seg 7, 2)] [] = (r', out') \<and>
     snd (FlushExpired r' 9000000 out') = [ex_seg 7, ex_seg 9]"
proof -
  let ?ps = "[ex_seg 7, ex_seg 8, ex_seg 9]"
  let ?f = "\<lparr>primed = True, nextSeq = 7, buf = [], lastSeen = 0\<rparr>"
  let ?g = "\<lparr>primed = True, nextSeq = 8, buf = [(9, \<lparr>re_data = ex_seg 9, re_nextAfter = 10\<rparr>)], lastSeen = 2\<rparr>"
  have p: "pushAll ex_state (map (\<lambda>(i, t). (?ps ! i, t)) [(2, 1), (0, 2)]) []
      = (ex_state\<lparr>flows := [(ex_flowkey, ?g)]\<rparr>, [ex_seg 7])"
    by (simp add: ex_state_def Push_def ex_seg_parse pushFlow_def sdist_def bufferSeg_def drain.simps Let_def)
  have "FlushExpired (ex_state\<lparr>flows := [(ex_flowkey, ?g)]\<rparr>) 9000000 [ex_seg 7]
     = (ex_state\<lparr>flows := [(ex_flowkey, ?g)]\<rparr>\<lparr>flows := []\<rparr>,
        [] @ map ((!) ?ps) (sorted_list_of_set (set (map fst [(2, 1), (0, 2 :: int)]))))"
    by (rule reseq_flush_after_loss [OF ex_contiguous, of ex_state ?f, OF _ _ _ _ _ _ _ _ _ p])
      (auto simp: ex_state_def ex_seg_def)
  moreover have "sorted_list_of_set {2, 0 :: nat} = [0, 2]" by (simp add: sorted_list_of_set_insert_remove)
  ultimately show ?thesis using p by (simp add: insert_commute)
qed

text \<open>
  On traffic that is already in order the resequencer is the identity: every
  prefix of consecutive segments has left as soon as it was pushed, with no limit
  on the number of segments and for new and known flows alike.
\<close>

theorem reseq_in_order_noop:
  assumes "contiguous k s (map fst xs)" "flow_ready r k s"
  shows "snd (pushAll r (take n xs) out) = out @ map fst (take n xs)"
proof -
  have "contiguous k s (take n ps)" if "contiguous k s ps" for ps
    using that by (induction ps arbitrary: s n) (auto simp: take_Cons' split: option.splits)
  from this [OF assms(1)] have "contiguous k s (map fst (take n xs))" by (simp only: take_map)
  then show ?thesis using assms(2) by (rule pushAll_in_order)
qed

theorem reseq_in_order_noop_witness:
  "snd (pushAll (NewForwardReseq 0 0) (take 2 [(ex_seg 7, 1), (ex_seg 8, 2), (ex_seg 9, 3)]) [])
     = [ex_seg 7, ex_seg 8]"
  using reseq_in_order_noop [of ex_flowkey 7 "[(ex_seg 7, 1), (ex_seg 8, 2), (ex_seg 9, 3)]" "NewForwardReseq 0 0" 2 "[]"]
    ex_contiguous by (simp add: flow_ready_def NewForwardReseq_def)



subsection \<open>Order observers\<close>

text \<open>
  \<^verbatim>\<open>UploadOrderObserver\<close> and \<^verbatim>\<open>PreReseqObserver\<close> are the same high-water counter on
  different counters; the two process-wide counters are part of the state.
\<close>

record orderObs =
  ob_maxSeq :: "(fkey \<times> u32) list"
  ob_total :: nat
  ob_ooo :: nat

definition highWaterObserve :: "bytes \<Rightarrow> orderObs \<Rightarrow> orderObs" where
  "highWaterObserve ip ob =
     (case parseTCP ip of
        None \<Rightarrow> ob
      | Some g \<Rightarrow>
          let ob = ob\<lparr>ob_total := ob_total ob + 1\<rparr> in
          (case map_of (ob_maxSeq ob) (sg_key g) of
             None \<Rightarrow>
               let ob = (if length (ob_maxSeq ob) \<ge> 2 ^ 16 then ob\<lparr>ob_maxSeq := []\<rparr> else ob)
               in ob\<lparr>ob_maxSeq := AList.update (sg_key g) (sg_seq g) (ob_maxSeq ob)\<rparr>
           | Some mx \<Rightarrow>
               if sdist (sg_seq g) mx < 0 then ob\<lparr>ob_ooo := ob_ooo ob + 1\<rparr>
               else ob\<lparr>ob_maxSeq := AList.update (sg_key g) (sg_seq g) (ob_maxSeq ob)\<rparr>))"

definition preSendRingSize :: nat where "preSendRingSize = 1024"

record preSendFlow =
  ps_maxSeq :: u32
  ps_ring :: "u32 list"
  ps_in :: "u32 list"
  ps_head :: nat
  ps_count :: nat

record preSendObs =
  po_flows :: "(fkey \<times> preSendFlow) list"
  po_total :: nat
  po_genuine :: nat
  po_retr :: nat

text \<open>
  One observed sequence number of one flow: the result says whether it was a
  retransmission, a genuine reorder, or neither. The ring is an array of 1024
  words; the set \<^verbatim>\<open>in\<close> is a list without repetitions.
\<close>

datatype obs_kind = Fresh | Retransmit | Genuine

definition preSendSeq :: "u32 \<Rightarrow> preSendFlow \<Rightarrow> obs_kind \<times> preSendFlow" where
  "preSendSeq seq f =
     (if seq \<in> set (ps_in f) then (Retransmit, f)
      else
        let f = (if ps_count f = preSendRingSize
                 then f\<lparr>ps_in := removeAll (ps_ring f ! ps_head f) (ps_in f)\<rparr>
                 else f\<lparr>ps_count := ps_count f + 1\<rparr>);
            f = f\<lparr>ps_ring := (ps_ring f)[ps_head f := seq],
                  ps_head := (ps_head f + 1) mod preSendRingSize,
                  ps_in := seq # ps_in f\<rparr>
        in if ps_count f = 1 \<or> sdist seq (ps_maxSeq f) \<ge> 0
           then (Fresh, f\<lparr>ps_maxSeq := seq\<rparr>)
           else (Genuine, f))"

definition newPreSendFlow :: preSendFlow where
  "newPreSendFlow = \<lparr>ps_maxSeq = 0, ps_ring = replicate preSendRingSize 0, ps_in = [], ps_head = 0, ps_count = 0\<rparr>"

definition preSendObserve :: "bytes \<Rightarrow> preSendObs \<Rightarrow> preSendObs" where
  "preSendObserve ip ob =
     (case parseTCP ip of
        None \<Rightarrow> ob
      | Some g \<Rightarrow>
          let ob = ob\<lparr>po_total := po_total ob + 1\<rparr>;
              (f, fs) = (case map_of (po_flows ob) (sg_key g) of
                           Some f \<Rightarrow> (f, po_flows ob)
                         | None \<Rightarrow> (newPreSendFlow, if length (po_flows ob) \<ge> 256 then [] else po_flows ob));
              (kind, f) = preSendSeq (sg_seq g) f;
              ob = ob\<lparr>po_flows := AList.update (sg_key g) f fs\<rparr>
          in (case kind of
                Retransmit \<Rightarrow> ob\<lparr>po_retr := po_retr ob + 1\<rparr>
              | Genuine \<Rightarrow> ob\<lparr>po_genuine := po_genuine ob + 1\<rparr>
              | Fresh \<Rightarrow> ob))"

text \<open>
  The ring's contents, oldest first, and the invariant that ties the ring, its
  counters and the set together.
\<close>

definition ring_window :: "preSendFlow \<Rightarrow> u32 list" where
  "ring_window f =
     (if ps_count f < preSendRingSize then take (ps_count f) (ps_ring f)
      else drop (ps_head f) (ps_ring f) @ take (ps_head f) (ps_ring f))"

definition ring_ok :: "preSendFlow \<Rightarrow> bool" where
  "ring_ok f \<longleftrightarrow> length (ps_ring f) = preSendRingSize \<and> ps_head f < preSendRingSize \<and>
     ps_count f \<le> preSendRingSize \<and> (ps_count f < preSendRingSize \<longrightarrow> ps_head f = ps_count f) \<and>
     distinct (ring_window f) \<and> set (ps_in f) = set (ring_window f)"

lemma ring_size_pos [simp]: "0 < preSendRingSize" "1 < preSendRingSize"
  by (simp_all add: preSendRingSize_def)

lemma length_ring_window: "ring_ok f \<Longrightarrow> length (ring_window f) = ps_count f"
  by (auto simp: ring_ok_def ring_window_def)

lemma update_last_of_take: "n < length xs \<Longrightarrow> take (Suc n) (xs[n := v]) = take n xs @ [v]"
  by (simp add: take_Suc_conv_app_nth)

lemma preSendSeq_window:
  assumes ok: "ring_ok f" and new: "seq \<notin> set (ps_in f)"
    and r: "preSendSeq seq f = (kind, f')"
  shows "ring_window f' = (if ps_count f = preSendRingSize then tl (ring_window f) else ring_window f) @ [seq]"
    and "set (ps_in f') = insert seq (if ps_count f = preSendRingSize
           then set (ps_in f) - {ps_ring f ! ps_head f} else set (ps_in f))"
    and "length (ps_ring f') = preSendRingSize" "ps_head f' = (ps_head f + 1) mod preSendRingSize"
    and "ps_count f' = (if ps_count f = preSendRingSize then preSendRingSize else ps_count f + 1)"
proof -
  let ?N = preSendRingSize
  have len: "length (ps_ring f) = ?N" and h: "ps_head f < ?N" and c: "ps_count f \<le> ?N"
    and hc: "ps_count f < ?N \<longrightarrow> ps_head f = ps_count f" using ok by (simp_all add: ring_ok_def)
  have f': "ps_ring f' = (ps_ring f)[ps_head f := seq]" "ps_head f' = (ps_head f + 1) mod ?N"
    "ps_count f' = (if ps_count f = ?N then ?N else ps_count f + 1)"
    "ps_in f' = seq # (if ps_count f = ?N then removeAll (ps_ring f ! ps_head f) (ps_in f) else ps_in f)"
    using r new by (auto simp: preSendSeq_def Let_def split: if_splits)
  show "length (ps_ring f') = ?N" "ps_head f' = (ps_head f + 1) mod ?N"
    "ps_count f' = (if ps_count f = ?N then ?N else ps_count f + 1)"
    "set (ps_in f') = insert seq (if ps_count f = ?N then set (ps_in f) - {ps_ring f ! ps_head f} else set (ps_in f))"
    using f' len by auto
  show "ring_window f' = (if ps_count f = ?N then tl (ring_window f) else ring_window f) @ [seq]"
  proof (cases "ps_head f = ?N - 1")
    case True
    then have n: "Suc (ps_head f) = ?N" "ps_head f' = 0" using f'(2) by simp_all
    then have "(ps_ring f)[ps_head f := seq] = take (ps_head f) (ps_ring f) @ [seq]"
      using update_last_of_take [of "ps_head f" "ps_ring f" seq] len h by simp
    then show ?thesis
      using n f' c hc len by (auto simp: ring_window_def Cons_nth_drop_Suc [symmetric])
  next
    case False
    then have n: "ps_head f' = Suc (ps_head f)" "Suc (ps_head f) < ?N" using f'(2) h by simp_all
    then show ?thesis
      using f' c hc len update_last_of_take [of "ps_head f" "ps_ring f" seq]
      by (auto simp: ring_window_def Cons_nth_drop_Suc [symmetric])
  qed
qed

lemma ring_window_hd:
  assumes "ring_ok f" "ps_count f = preSendRingSize"
  shows "ring_window f = ps_ring f ! ps_head f # tl (ring_window f)"
  using assms by (simp add: ring_ok_def ring_window_def Cons_nth_drop_Suc [symmetric])

lemma preSendSeq_ring_ok:
  assumes ok: "ring_ok f" and r: "preSendSeq seq f = (kind, f')"
  shows "ring_ok f'"
proof (cases "seq \<in> set (ps_in f)")
  case True
  then show ?thesis using r ok by (simp add: preSendSeq_def)
next
  case False
  note w = preSendSeq_window [OF ok False r]
  have nin: "seq \<notin> set (ring_window f)" using False ok by (simp add: ring_ok_def)
  have d: "distinct (ring_window f)" using ok by (simp add: ring_ok_def)
  have "distinct (ring_window f') \<and> set (ps_in f') = set (ring_window f')"
  proof (cases "ps_count f = preSendRingSize")
    case True
    obtain x xs where x: "ring_window f = x # xs" "x = ps_ring f ! ps_head f"
      using ring_window_hd [OF ok True] by blast
    have "set (ps_in f) = set (ring_window f)" using ok by (simp add: ring_ok_def)
    then show ?thesis using w(1,2) True x d nin by auto
  next
    case False
    have "set (ps_in f) = set (ring_window f)" using ok by (simp add: ring_ok_def)
    then show ?thesis using w(1,2) False d nin by auto
  qed
  then show ?thesis
    using w(3-5) ok by (auto simp: ring_ok_def)
qed

text \<open>The flow records an observer creates and updates.\<close>

definition obs_init :: "preSendFlow \<Rightarrow> bool" where
  "obs_init f \<longleftrightarrow> f = newPreSendFlow"

definition obs_step :: "preSendFlow \<Rightarrow> preSendFlow \<Rightarrow> bool" where
  "obs_step f f' \<longleftrightarrow> (\<exists>seq kind. preSendSeq seq f = (kind, f'))"

lemma newPreSendFlow_ok: "ring_ok newPreSendFlow"
  by (simp add: ring_ok_def newPreSendFlow_def ring_window_def)

interpretation obsSys: invariant_system obs_init obs_step ring_ok
  by unfold_locales (auto simp: obs_init_def obs_step_def newPreSendFlow_ok intro: preSendSeq_ring_ok)

text \<open>
  The seen-set of the genuine-reorder observer is exactly its ring. In every
  reachable record a sequence number counts as a retransmission iff it is one of
  the at most 1024 most recent distinct numbers, and a new one enters that window
  at its end and pushes out the oldest when the window is full.
\<close>

theorem presend_window_exact:
  assumes "obs_init f0" "obs_step\<^sup>*\<^sup>* f0 f" "preSendSeq seq f = (kind, f')"
  shows "(kind = Retransmit \<longleftrightarrow> seq \<in> set (ring_window f)) \<and> length (ring_window f) \<le> 1024 \<and>
    ring_window f' = (if kind = Retransmit then ring_window f
                      else (if length (ring_window f) = 1024 then tl (ring_window f) else ring_window f) @ [seq])"
proof -
  have ok: "ring_ok f" by (rule obsSys.reachable_inv [OF assms(1,2)])
  have len: "length (ring_window f) = ps_count f" "ps_count f \<le> 1024"
    using length_ring_window [OF ok] ok by (simp_all add: ring_ok_def preSendRingSize_def)
  have k: "kind = Retransmit \<longleftrightarrow> seq \<in> set (ps_in f)"
    using assms(3) by (auto simp: preSendSeq_def Let_def split: if_splits)
  then have "kind = Retransmit \<longleftrightarrow> seq \<in> set (ring_window f)" using ok by (simp add: ring_ok_def)
  moreover have "f' = f" if "kind = Retransmit" using assms(3) that k by (simp add: preSendSeq_def)
  moreover have "ring_window f' = (if length (ring_window f) = 1024 then tl (ring_window f) else ring_window f) @ [seq]"
    if "kind \<noteq> Retransmit"
    using preSendSeq_window(1) [OF ok _ assms(3)] that k len by (simp add: preSendRingSize_def)
  ultimately show ?thesis using len by auto
qed

theorem presend_window_exact_witness:
  "\<exists>kind f'. preSendSeq 5 newPreSendFlow = (kind, f') \<and> kind \<noteq> Retransmit \<and> ring_window f' = [5]"
proof -
  obtain kind f' where p: "preSendSeq 5 newPreSendFlow = (kind, f')" by fastforce
  have w: "ring_window newPreSendFlow = []" by (simp add: ring_window_def newPreSendFlow_def)
  have "obs_init newPreSendFlow" by (simp add: obs_init_def)
  from presend_window_exact [OF this rtranclp.rtrancl_refl p] w p show ?thesis by auto
qed

lemma sdist_next_nonneg:
  assumes "parseTCP p = Some g" "length p < 65536"
  shows "0 \<le> sdist (sg_nextAfter g) (sg_seq g)"
proof -
  have "sg_nextAfter g - sg_seq g = of_int (int (seglen p))"
    using nextAfter_seglen [OF assms(1)] by simp
  moreover have "sint (of_int (int (seglen p)) :: u32) = int (seglen p)"
    using seglen_bounds [OF assms] by (intro sint_of_int_small) simp_all
  ultimately show ?thesis unfolding sdist_def by simp
qed

definition below_mark :: "orderObs \<Rightarrow> fkey \<Rightarrow> u32 \<Rightarrow> bool" where
  "below_mark ob k s \<longleftrightarrow> (case map_of (ob_maxSeq ob) k of None \<Rightarrow> True | Some mx \<Rightarrow> 0 \<le> sdist s mx)"

text \<open>
  The high-water observers report no reordering on consecutive segments: the
  out-of-order counter stays and the total grows by their number.
\<close>

lemma observers_silent_in_order:
  assumes "contiguous k s ps" "\<forall>p \<in> set ps. length p < 65536" "below_mark ob k s"
  shows "ob_ooo (fold highWaterObserve ps ob) = ob_ooo ob \<and>
         ob_total (fold highWaterObserve ps ob) = ob_total ob + length ps"
  using assms
proof (induction ps arbitrary: s ob)
  case (Cons p ps)
  then obtain g where g: "parseTCP p = Some g" "sg_key g = k" "sg_seq g = s" "contiguous k (sg_nextAfter g) ps"
    by (auto split: option.splits)
  let ?o = "highWaterObserve p ob"
  have o: "ob_ooo ?o = ob_ooo ob" "ob_total ?o = ob_total ob + 1" "map_of (ob_maxSeq ?o) k = Some s"
    using g Cons.prems(3)
    by (auto simp: highWaterObserve_def below_mark_def Let_def update_conv' split: option.splits)
  have "below_mark ?o k (sg_nextAfter g)"
    using sdist_next_nonneg [OF g(1)] Cons.prems(2) g(3) o(3) by (simp add: below_mark_def)
  with Cons.IH [OF g(4)] Cons.prems(2) o show ?case by simp
qed simp

lemma observers_silent_in_order_witness:
  "ob_ooo (fold highWaterObserve [ex_seg 7, ex_seg 8, ex_seg 9] \<lparr>ob_maxSeq = [], ob_total = 0, ob_ooo = 0\<rparr>) = 0"
  using observers_silent_in_order [OF ex_contiguous, of "\<lparr>ob_maxSeq = [], ob_total = 0, ob_ooo = 0\<rparr>"]
  by (simp add: below_mark_def ex_seg_def)

end
