(* ===== verification/TunGso.thy ===== *)
theory TunGso
  imports Checksum "HOL-Library.AList"
begin

unbundle bit_operations_syntax

text \<open>
  Coalescing of TCP segments into GSO super-frames (\<^verbatim>\<open>utility/tun_gso.go\<close>). A slot's
  buffer is represented by the bytes between the virtio header and \<^verbatim>\<open>aoff\<close>, the only
  part the code reads while a frame is open; \<^verbatim>\<open>aoff\<close> is then ten plus its length. The
  \<^verbatim>\<open>slots\<close> map is an association list in the order an iteration visits it. Writing to
  the TUN device succeeds or fails as the argument \<open>ok\<close> says; a frame that was
  accepted is appended to \<open>tg_written\<close>. The close-reason counters are left out.
\<close>

definition vnetHdrLen :: nat where "vnetHdrLen = 10"
definition gsoMaxL3 :: nat where "gsoMaxL3 = 64000"
definition bufCap :: nat where "bufCap = gsoMaxL3 + 128"
definition tunMaxFlowSlots :: nat where "tunMaxFlowSlots = 32"
definition slotReapIdle :: int where "slotReapIdle = 10000000"

record tcpView =
  tv_ihl :: nat
  tv_thl :: nat
  tv_seq :: u32
  tv_payloadOff :: nat
  tv_payloadLen :: nat
  tv_key :: bytes

definition parseV4TCP :: "bytes \<Rightarrow> tcpView option" where
  "parseV4TCP pkt =
     (if length pkt < 20 \<or> drop_bit 4 (pkt ! 0) \<noteq> 4 then None
      else let ihl = unat (pkt ! 0 AND 0x0f) * 4 in
        if ihl < 20 \<or> length pkt < ihl + 20 \<or> pkt ! 9 \<noteq> 6 then None
        else let thl = unat (drop_bit 4 (pkt ! (ihl + 12))) * 4 in
          if thl < 20 \<or> length pkt - ihl < thl then None
          else Some \<lparr>tv_ihl = ihl, tv_thl = thl, tv_seq = get32 pkt (ihl + 4),
                 tv_payloadOff = ihl + thl, tv_payloadLen = length pkt - (ihl + thl),
                 tv_key = slice pkt 12 20 @ slice pkt ihl (ihl + 4)\<rparr>)"

record gsoSlot =
  gs_frame :: bytes
  gs_segs :: nat
  gs_ihl :: nat
  gs_thl :: nat
  gs_segSize :: nat
  gs_nextSeq :: u32
  gs_lastGrow :: int

record TunGSOBatch =
  tg_slots :: "(bytes \<times> gsoSlot) list"
  tg_free :: nat
  tg_open :: int
  tg_written :: "bytes list"
  tg_drops :: nat

definition NewTunGSOBatch :: "int \<Rightarrow> TunGSOBatch option" where
  "NewTunGSOBatch tunFd =
     (if tunFd < 0 then None
      else Some \<lparr>tg_slots = [], tg_free = 0, tg_open = 0, tg_written = [], tg_drops = 0\<rparr>)"

definition writeFrame :: "(bytes \<Rightarrow> bool) \<Rightarrow> bytes \<Rightarrow> TunGSOBatch \<Rightarrow> bool \<times> TunGSOBatch" where
  "writeFrame ok frame b =
     (if ok frame then (True, b\<lparr>tg_written := tg_written b @ [frame]\<rparr>)
      else (False, b\<lparr>tg_drops := tg_drops b + 1\<rparr>))"

definition writeNonGSO :: "(bytes \<Rightarrow> bool) \<Rightarrow> bytes \<Rightarrow> TunGSOBatch \<Rightarrow> bool \<times> TunGSOBatch" where
  "writeNonGSO ok pkt b =
     (if vnetHdrLen + length pkt > vnetHdrLen + bufCap then (True, b\<lparr>tg_drops := tg_drops b + 1\<rparr>)
      else writeFrame ok (replicate vnetHdrLen 0 @ pkt) b)"

text \<open>\<^verbatim>\<open>binary.LittleEndian.PutUint16\<close> of a length.\<close>

definition le16 :: "nat \<Rightarrow> bytes" where
  "le16 n = (let w = of_nat n :: u16 in [lo8 w, hi8 w])"

text \<open>The header edits of \<^verbatim>\<open>flushSlot\<close> on the IP packet of a coalesced frame.\<close>

definition finishHeaders :: "bytes \<Rightarrow> nat \<Rightarrow> bytes" where
  "finishHeaders ip ihl =
     (let l3 = length ip;
          ip = put16 ip 2 (of_nat l3);
          ip = put16 ip 10 0;
          ip = put16 ip 10 (NOT (fold16 (sum16 (take ihl ip) 0)));
          tcpLen = of_nat (l3 - ihl) :: u16;
          seed = tcpPseudoSeedV4 (slice ip 12 16) (slice ip 16 20) tcpLen
      in put16 ip (ihl + 16) seed)"

definition vnetHdr :: "nat \<Rightarrow> nat \<Rightarrow> nat \<Rightarrow> bytes" where
  "vnetHdr ihl thl segSize = [1, 1] @ le16 (ihl + thl) @ le16 segSize @ le16 ihl @ le16 16"

definition flushSlot :: "(bytes \<Rightarrow> bool) \<Rightarrow> gsoSlot \<Rightarrow> TunGSOBatch \<Rightarrow> gsoSlot \<times> TunGSOBatch" where
  "flushSlot ok s b =
     (if gs_segs s = 0 then (s, b)
      else
        let frame = (if gs_segs s = 1 then replicate vnetHdrLen 0 @ gs_frame s
                     else vnetHdr (gs_ihl s) (gs_thl s) (gs_segSize s) @ finishHeaders (gs_frame s) (gs_ihl s));
            b = snd (writeFrame ok frame b)
        in (s\<lparr>gs_segs := 0, gs_frame := []\<rparr>, b\<lparr>tg_open := tg_open b - 1\<rparr>))"

fun oldestSlot :: "(bytes \<times> gsoSlot) list \<Rightarrow> (bytes \<times> gsoSlot) option \<Rightarrow> (bytes \<times> gsoSlot) option" where
  "oldestSlot [] old = old"
| "oldestSlot ((k, s) # ss) old =
     (case old of
        None \<Rightarrow> oldestSlot ss (Some (k, s))
      | Some (k', s') \<Rightarrow> oldestSlot ss (if gs_lastGrow s < gs_lastGrow s' then Some (k, s) else old))"

definition evictOldest :: "(bytes \<Rightarrow> bool) \<Rightarrow> TunGSOBatch \<Rightarrow> TunGSOBatch" where
  "evictOldest ok b =
     (case oldestSlot (tg_slots b) None of
        None \<Rightarrow> b
      | Some (oldKey, old) \<Rightarrow>
          let b = (if gs_segs old > 0 then snd (flushSlot ok old b) else b)
          in b\<lparr>tg_slots := AList.delete oldKey (tg_slots b), tg_free := tg_free b + 1\<rparr>)"

definition emptySlot :: gsoSlot where
  "emptySlot = \<lparr>gs_frame = [], gs_segs = 0, gs_ihl = 0, gs_thl = 0, gs_segSize = 0, gs_nextSeq = 0, gs_lastGrow = 0\<rparr>"

text \<open>
  A slot from the freelist keeps its stale header fields and time stamp; all are
  overwritten before they are read, so the model takes the empty slot in both cases.
\<close>

definition getSlot :: "(bytes \<Rightarrow> bool) \<Rightarrow> bytes \<Rightarrow> TunGSOBatch \<Rightarrow> gsoSlot \<times> TunGSOBatch" where
  "getSlot ok key b =
     (case map_of (tg_slots b) key of
        Some s \<Rightarrow> (s, b)
      | None \<Rightarrow>
          let b = (if length (tg_slots b) \<ge> tunMaxFlowSlots then evictOldest ok b else b);
              b = b\<lparr>tg_free := tg_free b - 1\<rparr>
          in (emptySlot, b\<lparr>tg_slots := AList.update key emptySlot (tg_slots b)\<rparr>))"

definition tcpOptsEqual :: "bytes \<Rightarrow> tcpView \<Rightarrow> bytes \<Rightarrow> nat \<Rightarrow> nat \<Rightarrow> bool" where
  "tcpOptsEqual pkt v open ihl thl =
     (if tv_thl v \<noteq> thl then False
      else slice pkt (tv_ihl v + 20) (tv_ihl v + thl) = slice open (ihl + 20) (ihl + thl))"

definition coalesces :: "nat \<Rightarrow> bytes \<Rightarrow> tcpView \<Rightarrow> gsoSlot \<Rightarrow> bool" where
  "coalesces tunMaxSegs pkt v s \<longleftrightarrow>
     gs_segs s > 0 \<and> tv_seq v = gs_nextSeq s \<and> tv_ihl v = gs_ihl s \<and> tv_thl v = gs_thl s \<and>
     tv_payloadLen v \<le> gs_segSize s \<and> gs_segs s < tunMaxSegs \<and>
     length (gs_frame s) + tv_payloadLen v \<le> gsoMaxL3 \<and>
     tcpOptsEqual pkt v (gs_frame s) (gs_ihl s) (gs_thl s)"

definition grow :: "int \<Rightarrow> bytes \<Rightarrow> tcpView \<Rightarrow> gsoSlot \<Rightarrow> gsoSlot" where
  "grow now pkt v s =
     s\<lparr>gs_frame := gs_frame s @ slice pkt (tv_payloadOff v) (tv_payloadOff v + tv_payloadLen v),
       gs_segs := gs_segs s + 1, gs_nextSeq := gs_nextSeq s + of_nat (tv_payloadLen v), gs_lastGrow := now\<rparr>"

definition startFrame :: "int \<Rightarrow> bytes \<Rightarrow> tcpView \<Rightarrow> gsoSlot" where
  "startFrame now pkt v =
     \<lparr>gs_frame = take bufCap pkt, gs_segs = 1, gs_ihl = tv_ihl v, gs_thl = tv_thl v, gs_segSize = tv_payloadLen v,
      gs_nextSeq = tv_seq v + of_nat (tv_payloadLen v), gs_lastGrow = now\<rparr>"

definition setSlot :: "bytes \<Rightarrow> gsoSlot \<Rightarrow> TunGSOBatch \<Rightarrow> TunGSOBatch" where
  "setSlot key s b = b\<lparr>tg_slots := AList.update key s (tg_slots b)\<rparr>"

definition Add :: "bool \<Rightarrow> nat \<Rightarrow> (bytes \<Rightarrow> bool) \<Rightarrow> int \<Rightarrow> bytes \<Rightarrow> TunGSOBatch \<Rightarrow> bool \<times> TunGSOBatch" where
  "Add tunNoCoalesce tunMaxSegs ok now pkt b =
     (if tunNoCoalesce then writeNonGSO ok pkt b
      else case parseV4TCP pkt of
        None \<Rightarrow> writeNonGSO ok pkt b
      | Some v \<Rightarrow>
          let (s, b) = getSlot ok (tv_key v) b
          in if coalesces tunMaxSegs pkt v s then
               let s = grow now pkt v s
               in if tv_payloadLen v < gs_segSize s \<or> gs_segs s \<ge> tunMaxSegs \<or>
                     length (gs_frame s) + gs_segSize s > gsoMaxL3
                  then (let (s, b) = flushSlot ok s b in (True, setSlot (tv_key v) s b))
                  else (True, setSlot (tv_key v) s b)
             else
               let (_, b) = (if gs_segs s > 0 then flushSlot ok s b else (s, b));
                   b = setSlot (tv_key v) (startFrame now pkt v) b
               in (True, b\<lparr>tg_open := tg_open b + 1\<rparr>))"

text \<open>The sweep of \<^verbatim>\<open>Flush\<close> over the slots.\<close>

fun sweepSlots :: "(bytes \<Rightarrow> bool) \<Rightarrow> int \<Rightarrow> int \<Rightarrow> (bytes \<times> gsoSlot) list \<Rightarrow> TunGSOBatch
    \<Rightarrow> (bytes \<times> gsoSlot) list \<times> TunGSOBatch" where
  "sweepSlots ok flushIdle now [] b = ([], b)"
| "sweepSlots ok flushIdle now ((k, s) # ss) b =
     (if gs_segs s > 0 then
        (if now - gs_lastGrow s \<ge> flushIdle
         then (let (s', b) = flushSlot ok s b; (ss', b) = sweepSlots ok flushIdle now ss b in ((k, s') # ss', b))
         else (let (ss', b) = sweepSlots ok flushIdle now ss b in ((k, s) # ss', b)))
      else if now - gs_lastGrow s \<ge> slotReapIdle
      then sweepSlots ok flushIdle now ss (b\<lparr>tg_free := tg_free b + 1\<rparr>)
      else (let (ss', b) = sweepSlots ok flushIdle now ss b in ((k, s) # ss', b)))"

definition FlushBatch :: "(bytes \<Rightarrow> bool) \<Rightarrow> int \<Rightarrow> int \<Rightarrow> TunGSOBatch \<Rightarrow> TunGSOBatch" where
  "FlushBatch ok flushIdle now b =
     (let (ss, b) = sweepSlots ok flushIdle now (tg_slots b) b in b\<lparr>tg_slots := ss\<rparr>)"

definition EmptyBatch :: "TunGSOBatch \<Rightarrow> bool" where
  "EmptyBatch b \<longleftrightarrow> tg_open b = 0"

fun closeSlots :: "(bytes \<Rightarrow> bool) \<Rightarrow> (bytes \<times> gsoSlot) list \<Rightarrow> TunGSOBatch \<Rightarrow> (bytes \<times> gsoSlot) list \<times> TunGSOBatch" where
  "closeSlots ok [] b = ([], b)"
| "closeSlots ok ((k, s) # ss) b =
     (let (s', b) = flushSlot ok s b; (ss', b) = closeSlots ok ss b in ((k, s') # ss', b))"

definition CloseBatch :: "(bytes \<Rightarrow> bool) \<Rightarrow> TunGSOBatch \<Rightarrow> TunGSOBatch" where
  "CloseBatch ok b = (let (ss, b) = closeSlots ok (tg_slots b) b in b\<lparr>tg_slots := ss\<rparr>)"

subsection \<open>What a frame stands for\<close>

text \<open>
  The segments a payload is cut into, with their sequence numbers: what host TSO
  sends for a super-frame of segment size \<open>n\<close>.
\<close>

function segList :: "u32 \<Rightarrow> nat \<Rightarrow> bytes \<Rightarrow> (u32 \<times> bytes) list" where
  "segList q n xs =
     (if xs = [] then [] else if n = 0 then [(q, xs)]
      else (q, take n xs) # segList (q + of_nat n) n (drop n xs))"
  by pat_completeness auto
termination by (relation "measure (\<lambda>(q, n, xs). length xs)") auto

declare segList.simps [simp del]

lemma segList_Nil [simp]: "segList q n [] = []"
  by (simp add: segList.simps)

lemma segList_one: "xs \<noteq> [] \<Longrightarrow> length xs \<le> n \<Longrightarrow> segList q n xs = [(q, xs)]"
  by (subst segList.simps) auto

text \<open>Appending a segment to a payload of full segments.\<close>

lemma segList_append:
  "length p = m * n \<Longrightarrow> length x \<le> n \<Longrightarrow>
   segList q n (p @ x) = segList q n p @ (if x = [] then [] else [(q + of_nat (length p), x)])"
proof (induction m arbitrary: p q)
  case 0
  then show ?case using segList_one [of x n q] by simp
next
  case (Suc m)
  show ?case
  proof (cases "n = 0")
    case True
    then show ?thesis using Suc.prems by simp
  next
    case False
    have p: "p \<noteq> []" "n \<le> length p" "length (drop n p) = m * n" using Suc.prems False by auto
    have len: "of_nat (length p) = (of_nat n :: u32) + of_nat (m * n)"
      using Suc.prems(1) by simp
    show ?thesis
      using Suc.IH [OF p(3) Suc.prems(2), of "q + of_nat n"] p False len
      by (subst (1 2) segList.simps) (simp add: add.assoc)
  qed
qed

definition payloadOf :: "bytes \<Rightarrow> tcpView \<Rightarrow> bytes" where
  "payloadOf pkt v = drop (tv_payloadOff v) pkt"

text \<open>The data segments of flow \<open>k\<close> that a frame written to the device carries.\<close>

definition wireSegs :: "bytes \<Rightarrow> bytes \<Rightarrow> (u32 \<times> bytes) list" where
  "wireSegs k frame =
     (let pkt = drop vnetHdrLen frame in
      case parseV4TCP pkt of
        None \<Rightarrow> []
      | Some v \<Rightarrow>
          if tv_key v \<noteq> k then []
          else segList (tv_seq v)
                 (if frame ! 1 = 0 then length pkt else unat (be16 (frame ! 5) (frame ! 4))) (payloadOf pkt v))"

definition emitted :: "bytes \<Rightarrow> TunGSOBatch \<Rightarrow> (u32 \<times> bytes) list" where
  "emitted k b = concat (map (wireSegs k) (tg_written b))"

text \<open>The data segments an open slot still holds.\<close>

definition slotSegs :: "gsoSlot \<Rightarrow> (u32 \<times> bytes) list" where
  "slotSegs s =
     (if gs_segs s = 0 then []
      else case parseV4TCP (gs_frame s) of
             None \<Rightarrow> []
           | Some v \<Rightarrow> segList (tv_seq v) (gs_segSize s) (payloadOf (gs_frame s) v))"

definition pending :: "bytes \<Rightarrow> TunGSOBatch \<Rightarrow> (u32 \<times> bytes) list" where
  "pending k b = (case map_of (tg_slots b) k of None \<Rightarrow> [] | Some s \<Rightarrow> slotSegs s)"

text \<open>The data segments of flow \<open>k\<close> in a packet.\<close>

definition pktSegs :: "bytes \<Rightarrow> bytes \<Rightarrow> (u32 \<times> bytes) list" where
  "pktSegs k pkt =
     (case parseV4TCP pkt of
        None \<Rightarrow> []
      | Some v \<Rightarrow> if tv_key v = k \<and> payloadOf pkt v \<noteq> [] then [(tv_seq v, payloadOf pkt v)] else [])"

subsection \<open>Parsing\<close>

lemma parse_facts:
  assumes "parseV4TCP pkt = Some v"
  shows "20 \<le> tv_ihl v" "20 \<le> tv_thl v" "tv_ihl v + tv_thl v \<le> length pkt" "tv_payloadOff v = tv_ihl v + tv_thl v"
    "tv_payloadLen v = length pkt - tv_payloadOff v" "length (payloadOf pkt v) = tv_payloadLen v"
    "tv_ihl v \<le> 60" "tv_thl v \<le> 60" "tv_ihl v + 20 \<le> length pkt"
    "slice pkt (tv_payloadOff v) (tv_payloadOff v + tv_payloadLen v) = payloadOf pkt v"
proof -
  have nib: "unat (x AND 0x0f) \<le> 15" "unat (drop_bit 4 x) \<le> 15" for x :: byte
  proof -
    have "x AND 0x0f \<le> 0x0f" by (rule word_and_le1)
    then show "unat (x AND 0x0f) \<le> 15" by (simp add: word_le_nat_alt)
    have "unat (drop_bit 4 x) = unat x div 16" by (simp add: drop_bit_eq_div unat_div)
    then show "unat (drop_bit 4 x) \<le> 15" using unat_byte_less [of x] by linarith
  qed
  note p = assms [unfolded parseV4TCP_def Let_def]
  show "20 \<le> tv_ihl v" "20 \<le> tv_thl v" "tv_ihl v + tv_thl v \<le> length pkt" "tv_payloadOff v = tv_ihl v + tv_thl v"
    "tv_payloadLen v = length pkt - tv_payloadOff v" "length (payloadOf pkt v) = tv_payloadLen v"
    "tv_ihl v + 20 \<le> length pkt"
    using p by (auto simp: payloadOf_def split: if_splits)
  show "tv_ihl v \<le> 60" using p nib(1) [of "pkt ! 0"] by (auto split: if_splits)
  show "tv_thl v \<le> 60" using p nib(2) [of "pkt ! (tv_ihl v + 12)"] by (auto split: if_splits)
  show "slice pkt (tv_payloadOff v) (tv_payloadOff v + tv_payloadLen v) = payloadOf pkt v"
    using p by (auto simp: payloadOf_def slice_def split: if_splits)
qed

lemma parse_put16:
  assumes "parseV4TCP pkt = Some v" "j = 2 \<or> j = 10 \<or> j = tv_ihl v + 16"
  shows "parseV4TCP (put16 pkt j w) = Some v"
proof -
  note f = parse_facts [OF assms(1)]
  have eq: "put16 pkt j w ! 0 = pkt ! 0" "put16 pkt j w ! 9 = pkt ! 9"
    "put16 pkt j w ! (tv_ihl v + 12) = pkt ! (tv_ihl v + 12)"
    "get32 (put16 pkt j w) (tv_ihl v + 4) = get32 pkt (tv_ihl v + 4)"
    "slice (put16 pkt j w) 12 20 = slice pkt 12 20"
    "slice (put16 pkt j w) (tv_ihl v) (tv_ihl v + 4) = slice pkt (tv_ihl v) (tv_ihl v + 4)"
    using assms(2) f(1) by (auto simp: nth_put16_other get32_put16_other slice_put16_outside)
  have ihl: "tv_ihl v = unat (pkt ! 0 AND 0x0f) * 4" using assms(1) by (auto simp: parseV4TCP_def Let_def split: if_splits)
  show ?thesis using assms(1) eq unfolding parseV4TCP_def Let_def ihl by (simp split: if_splits)
qed

lemma payloadOf_put16:
  "parseV4TCP pkt = Some v \<Longrightarrow> j = 2 \<or> j = 10 \<or> j = tv_ihl v + 16 \<Longrightarrow> payloadOf (put16 pkt j w) v = payloadOf pkt v"
proof -
  assume p: "parseV4TCP pkt = Some v" and j: "j = 2 \<or> j = 10 \<or> j = tv_ihl v + 16"
  have "j + 1 < tv_payloadOff v" using j parse_facts [OF p] by auto
  then show ?thesis unfolding payloadOf_def put16_def by (simp add: drop_update_cancel)
qed

text \<open>The header edits of a super-frame change nothing the flow is identified by.\<close>

lemma parse_finishHeaders:
  assumes "parseV4TCP pkt = Some v"
  shows "parseV4TCP (finishHeaders pkt (tv_ihl v)) = Some v" "payloadOf (finishHeaders pkt (tv_ihl v)) v = payloadOf pkt v"
    "length (finishHeaders pkt (tv_ihl v)) = length pkt"
proof -
  obtain a b c where f: "finishHeaders pkt (tv_ihl v) = put16 (put16 (put16 pkt 2 a) 10 b) (tv_ihl v + 16) c"
    unfolding finishHeaders_def Let_def put16_overwrite by blast
  have 1: "parseV4TCP (put16 pkt 2 a) = Some v" using parse_put16 [OF assms] by simp
  have 2: "parseV4TCP (put16 (put16 pkt 2 a) 10 b) = Some v" using parse_put16 [OF 1] by simp
  show "parseV4TCP (finishHeaders pkt (tv_ihl v)) = Some v" unfolding f using parse_put16 [OF 2] by simp
  show "payloadOf (finishHeaders pkt (tv_ihl v)) v = payloadOf pkt v"
    unfolding f using payloadOf_put16 [OF assms] payloadOf_put16 [OF 1] payloadOf_put16 [OF 2] by simp
  show "length (finishHeaders pkt (tv_ihl v)) = length pkt" unfolding f by simp
qed

subsection \<open>The invariant of a slot\<close>

text \<open>
  \<open>slot_ok full k s\<close>: an open slot of flow \<open>k\<close> holds one packet of the flow, with
  the payloads of later segments appended; when \<open>full\<close>, all of them of segment size.
\<close>

definition slot_ok :: "bool \<Rightarrow> bytes \<Rightarrow> gsoSlot \<Rightarrow> bool" where
  "slot_ok full k s \<longleftrightarrow> (gs_segs s > 0 \<longrightarrow> (\<exists>v. parseV4TCP (gs_frame s) = Some v \<and> tv_key v = k \<and>
     tv_ihl v = gs_ihl s \<and> tv_thl v = gs_thl s \<and> gs_nextSeq s = tv_seq v + of_nat (tv_payloadLen v) \<and>
     (full \<longrightarrow> tv_payloadLen v = gs_segs s * gs_segSize s) \<and> tv_payloadLen v \<le> gs_segs s * gs_segSize s \<and>
     length (gs_frame s) \<le> bufCap \<and>
     (gs_segs s \<ge> 2 \<longrightarrow> length (gs_frame s) \<le> gsoMaxL3 \<and> gs_segSize s \<le> gsoMaxL3)))"

lemma slot_ok_weaken: "slot_ok full k s \<Longrightarrow> slot_ok False k s"
  by (auto simp: slot_ok_def)

lemma le16_nth: "le16 n = [lo8 (of_nat n), hi8 (of_nat n)]"
  by (simp add: le16_def Let_def)

lemma vnetHdr_fields:
  "length (vnetHdr ihl thl n) = vnetHdrLen" "(vnetHdr ihl thl n @ r) ! 1 = 1"
  "n < 65536 \<Longrightarrow> unat (be16 ((vnetHdr ihl thl n @ r) ! 5) ((vnetHdr ihl thl n @ r) ! 4)) = n"
proof -
  have v: "vnetHdr ihl thl n @ r = [1, 1, lo8 (of_nat (ihl + thl)), hi8 (of_nat (ihl + thl)), lo8 (of_nat n), hi8 (of_nat n)] @
      le16 ihl @ le16 16 @ r"
    by (simp add: vnetHdr_def le16_nth)
  show "length (vnetHdr ihl thl n) = vnetHdrLen" by (simp add: vnetHdr_def le16_nth vnetHdrLen_def)
  show "(vnetHdr ihl thl n @ r) ! 1 = 1" unfolding v by simp
  show "unat (be16 ((vnetHdr ihl thl n @ r) ! 5) ((vnetHdr ihl thl n @ r) ! 4)) = n" if "n < 65536"
    unfolding v using that by (simp add: unat_of_nat_small)
qed

text \<open>A flushed frame carries exactly the segments of its slot.\<close>

lemma flushed_segs:
  assumes ok: "slot_ok False k s" and open_: "gs_segs s > 0"
  shows "wireSegs k' (if gs_segs s = 1 then replicate vnetHdrLen 0 @ gs_frame s
     else vnetHdr (gs_ihl s) (gs_thl s) (gs_segSize s) @ finishHeaders (gs_frame s) (gs_ihl s)) = (if k' = k then slotSegs s else [])"
proof -
  obtain v where v: "parseV4TCP (gs_frame s) = Some v" "tv_key v = k" "tv_ihl v = gs_ihl s"
    "tv_payloadLen v \<le> gs_segs s * gs_segSize s" "gs_segs s \<ge> 2 \<longrightarrow> gs_segSize s \<le> gsoMaxL3"
    using ok open_ by (auto simp: slot_ok_def)
  note pf = parse_facts [OF v(1)]
  show ?thesis
  proof (cases "gs_segs s = 1")
    case True
    have z: "(replicate vnetHdrLen 0 @ gs_frame s) ! 1 = (0 :: byte)" by (simp add: vnetHdrLen_def nth_append)
    have "segList (tv_seq v) (length (gs_frame s)) (payloadOf (gs_frame s) v) = segList (tv_seq v) (gs_segSize s) (payloadOf (gs_frame s) v)"
    proof (cases "payloadOf (gs_frame s) v = []")
      case False
      then show ?thesis using segList_one [OF False] pf v(4) True by simp
    qed simp
    then show ?thesis using True open_ v(1,2) z by (simp add: wireSegs_def slotSegs_def Let_def)
  next
    case False
    then have "gs_segSize s < 65536" using v(5) open_ by (simp add: gsoMaxL3_def)
    note hd = vnetHdr_fields(1) vnetHdr_fields(2) vnetHdr_fields(3) [OF this]
    note fin = parse_finishHeaders [OF v(1), unfolded v(3)]
    show ?thesis using False open_ v(1,2) hd fin by (simp add: wireSegs_def slotSegs_def Let_def)
  qed
qed

lemma writeFrame_ok [simp]: "writeFrame (\<lambda>_. True) f b = (True, b\<lparr>tg_written := tg_written b @ [f]\<rparr>)"
  by (simp add: writeFrame_def)

abbreviation accept :: "bytes \<Rightarrow> bool" where
  "accept \<equiv> (\<lambda>_. True)"

lemma flushSlot_spec:
  assumes "slot_ok False k s" "flushSlot accept s b = (s', b')"
  shows "emitted k' b' = emitted k' b @ (if k' = k then slotSegs s else [])" "gs_segs s' = 0" "tg_slots b' = tg_slots b"
    "tg_open b' = tg_open b - (if gs_segs s > 0 then 1 else 0)" "gs_lastGrow s' = gs_lastGrow s"
proof -
  have "slotSegs s = []" if "gs_segs s = 0" using that by (simp add: slotSegs_def)
  then show "emitted k' b' = emitted k' b @ (if k' = k then slotSegs s else [])"
    using assms(2) flushed_segs [OF assms(1), of k'] by (auto simp: flushSlot_def emitted_def Let_def split: if_splits)
  show "gs_segs s' = 0" "tg_slots b' = tg_slots b" "tg_open b' = tg_open b - (if gs_segs s > 0 then 1 else 0)"
    "gs_lastGrow s' = gs_lastGrow s"
    using assms(2) by (auto simp: flushSlot_def Let_def split: if_splits)
qed

lemma slotSegs_empty [simp]: "gs_segs s = 0 \<Longrightarrow> slotSegs s = []"
  by (simp add: slotSegs_def)

subsection \<open>Starting and growing a frame\<close>

lemma start_ok:
  assumes "parseV4TCP pkt = Some v" "length pkt \<le> bufCap"
  shows "slot_ok True (tv_key v) (startFrame now pkt v)" "slotSegs (startFrame now pkt v) = pktSegs (tv_key v) pkt"
    "gs_segs (startFrame now pkt v) = 1"
  using assms parse_facts [OF assms(1)] segList_one [of "payloadOf pkt v" "tv_payloadLen v" "tv_seq v"]
  by (auto simp: slot_ok_def startFrame_def slotSegs_def pktSegs_def)

lemma parse_append:
  assumes "parseV4TCP f = Some u"
  shows "parseV4TCP (f @ x) = Some (u\<lparr>tv_payloadLen := tv_payloadLen u + length x\<rparr>)"
    and "payloadOf (f @ x) u = payloadOf f u @ x"
proof -
  note pf = parse_facts [OF assms]
  have ihl: "tv_ihl u = unat (f ! 0 AND 0x0f) * 4" using assms by (auto simp: parseV4TCP_def Let_def split: if_splits)
  have len: "20 \<le> length f" "tv_ihl u + 20 \<le> length f" using pf by auto
  have eq: "(f @ x) ! 0 = f ! 0" "(f @ x) ! 9 = f ! 9" "(f @ x) ! (tv_ihl u + 12) = f ! (tv_ihl u + 12)"
    "get32 (f @ x) (tv_ihl u + 4) = get32 f (tv_ihl u + 4)" "slice (f @ x) 12 20 = slice f 12 20"
    "slice (f @ x) (tv_ihl u) (tv_ihl u + 4) = slice f (tv_ihl u) (tv_ihl u + 4)"
    using len by (auto simp: nth_append get32_def get16_def slice_def)
  show "parseV4TCP (f @ x) = Some (u\<lparr>tv_payloadLen := tv_payloadLen u + length x\<rparr>)"
    using assms eq len unfolding parseV4TCP_def Let_def ihl by (auto split: if_splits)
  show "payloadOf (f @ x) u = payloadOf f u @ x" using pf by (simp add: payloadOf_def)
qed

lemma grow_ok:
  assumes sl: "slot_ok True k s" and co: "coalesces ms pkt v s" and v: "parseV4TCP pkt = Some v" "tv_key v = k"
  shows "slot_ok False k (grow now pkt v s)" "slotSegs (grow now pkt v s) = slotSegs s @ pktSegs k pkt"
    "tv_payloadLen v = gs_segSize s \<Longrightarrow> slot_ok True k (grow now pkt v s)"
proof -
  obtain u where u: "parseV4TCP (gs_frame s) = Some u" "tv_key u = k" "tv_ihl u = gs_ihl s" "tv_thl u = gs_thl s"
    "gs_nextSeq s = tv_seq u + of_nat (tv_payloadLen u)" "tv_payloadLen u = gs_segs s * gs_segSize s"
    using sl co by (auto simp: slot_ok_def coalesces_def)
  have c: "gs_segs s > 0" "tv_seq v = gs_nextSeq s" "tv_payloadLen v \<le> gs_segSize s"
    "length (gs_frame s) + tv_payloadLen v \<le> gsoMaxL3" using co by (auto simp: coalesces_def)
  note pu = parse_facts [OF u(1)] and pv = parse_facts [OF v(1)]
  have sz: "gs_segSize s \<le> gsoMaxL3"
  proof -
    have "gs_segSize s \<le> gs_segs s * gs_segSize s" using c(1) by simp
    also have "\<dots> \<le> length (gs_frame s)" using pu(5) u(6) by simp
    finally show ?thesis using c(4) by simp
  qed
  let ?x = "payloadOf pkt v" and ?g = "grow now pkt v s"
  have fr: "gs_frame ?g = gs_frame s @ ?x" using pv by (simp add: grow_def)
  have lx: "length ?x = tv_payloadLen v" using pv by simp
  note pa = parse_append [OF u(1), of ?x, folded fr]
  have cap: "length (gs_frame ?g) \<le> gsoMaxL3" "gsoMaxL3 \<le> bufCap" using fr lx c(4) by (simp_all add: bufCap_def)
  show "slot_ok False k ?g" "tv_payloadLen v = gs_segSize s \<Longrightarrow> slot_ok True k ?g"
    using pa(1) u c cap sz lx unfolding slot_ok_def by (auto simp: grow_def)
  have "slotSegs ?g = segList (tv_seq u) (gs_segSize s) (payloadOf (gs_frame s) u @ ?x)"
    using pa by (simp add: slotSegs_def grow_def payloadOf_def)
  also have "\<dots> = slotSegs s @ (if ?x = [] then [] else [(tv_seq u + of_nat (tv_payloadLen u), ?x)])"
    using segList_append [of "payloadOf (gs_frame s) u" "gs_segs s" "gs_segSize s" ?x "tv_seq u"] pu u(6) lx c(1,3) u(1)
    by (simp add: slotSegs_def)
  finally show "slotSegs ?g = slotSegs s @ pktSegs k pkt" using v c(2) u(5) by (simp add: pktSegs_def)
qed

subsection \<open>The invariant of the batch\<close>

definition nopen :: "(bytes \<times> gsoSlot) list \<Rightarrow> int" where
  "nopen ss = int (length (filter (\<lambda>(k, s). gs_segs s > 0) ss))"

definition batch_ok :: "TunGSOBatch \<Rightarrow> bool" where
  "batch_ok b \<longleftrightarrow> distinct (map fst (tg_slots b)) \<and> (\<forall>(k, s) \<in> set (tg_slots b). slot_ok True k s) \<and>
     length (tg_slots b) \<le> tunMaxFlowSlots \<and> tg_open b = nopen (tg_slots b)"

definition openBit :: "gsoSlot \<Rightarrow> int" where
  "openBit s = (if gs_segs s > 0 then 1 else 0)"

lemma nopen_simps [simp]: "nopen [] = 0" "nopen ((k, s) # ss) = openBit s + nopen ss" "nopen (xs @ ys) = nopen xs + nopen ys"
  by (simp_all add: nopen_def openBit_def)

lemma nopen_update_old:
  "distinct (map fst al) \<Longrightarrow> map_of al k = Some s \<Longrightarrow> nopen (AList.update k s' al) = nopen al - openBit s + openBit s'"
  by (induction al) (auto split: if_splits)

lemma nopen_update_new: "map_of al k = None \<Longrightarrow> nopen (AList.update k s' al) = nopen al + openBit s'"
  by (induction al) (auto split: if_splits)

lemma nopen_delete:
  "distinct (map fst al) \<Longrightarrow> map_of al k = Some s \<Longrightarrow> nopen (AList.delete k al) = nopen al - openBit s"
proof (induction al)
  case (Cons x al)
  obtain k' s' where x: "x = (k', s')" by fastforce
  show ?case
  proof (cases "k' = k")
    case True
    then have "AList.delete k al = al" using Cons.prems(1) x by (force simp: AList.delete_eq filter_id_conv)
    then show ?thesis using True Cons.prems x by simp
  next
    case False
    then show ?thesis using Cons x by (simp add: AList.delete_eq)
  qed
qed simp

lemma length_update_old: "map_of al k = Some s \<Longrightarrow> length (AList.update k s' al) = length al"
  by (induction al) (auto split: if_splits)

lemma length_update_new: "map_of al k = None \<Longrightarrow> length (AList.update k s' al) = Suc (length al)"
  by (induction al) (auto split: if_splits)

lemma set_update_sub: "distinct (map fst al) \<Longrightarrow> set (AList.update k s al) \<subseteq> insert (k, s) (set al)"
  by (induction al) auto

lemma batch_slot: "batch_ok b \<Longrightarrow> map_of (tg_slots b) k = Some s \<Longrightarrow> slot_ok True k s"
  by (auto simp: batch_ok_def dest!: map_of_SomeD)

lemma pending_setSlot: "pending k' (setSlot k s b) = (if k' = k then slotSegs s else pending k' b)"
  by (simp add: pending_def setSlot_def update_conv')

text \<open>Replacing the slot of a flow.\<close>

lemma batch_setSlot:
  assumes b: "distinct (map fst (tg_slots b))" "\<forall>(k, s) \<in> set (tg_slots b). slot_ok True k s"
      "length (tg_slots b) \<le> tunMaxFlowSlots"
    and old: "map_of (tg_slots b) k = Some s0" and new: "slot_ok True k s"
    and open_: "tg_open b = nopen (tg_slots b) - openBit s0 + openBit s"
  shows "batch_ok (setSlot k s b)"
  using assms set_update_sub [OF b(1), of k s]
  by (auto simp: batch_ok_def setSlot_def distinct_update nopen_update_old length_update_old subset_iff)


subsection \<open>Making room for a flow\<close>

text \<open>The segments of a flow, in the order it receives them: those on the wire, then those in its slot.\<close>

definition history :: "bytes \<Rightarrow> TunGSOBatch \<Rightarrow> (u32 \<times> bytes) list" where
  "history k b = emitted k b @ pending k b"

lemma oldestSlot_mem:
  "oldestSlot ss old = Some x \<Longrightarrow> x \<in> set ss \<or> old = Some x"
  by (induction ss arbitrary: old) (force split: option.splits if_splits)+

lemma oldestSlot_None: "oldestSlot ss old = None \<longleftrightarrow> ss = [] \<and> old = None"
  by (induction ss old rule: oldestSlot.induct) (auto split: option.splits if_splits)

lemma delete_shorter: "map_of al k = Some s \<Longrightarrow> length (AList.delete k al) < length al"
  by (induction al) (auto simp: AList.delete_eq less_Suc_eq_le split: if_splits)

lemma evictOldest_spec:
  assumes b: "batch_ok b" "tg_slots b \<noteq> []"
  shows "history k (evictOldest accept b) = history k b" "batch_ok (evictOldest accept b)"
    "length (tg_slots (evictOldest accept b)) < tunMaxFlowSlots"
    "map_of (tg_slots b) key = None \<Longrightarrow> map_of (tg_slots (evictOldest accept b)) key = None"
proof -
  obtain ok os where o: "oldestSlot (tg_slots b) None = Some (ok, os)"
    using b(2) oldestSlot_None [of "tg_slots b" None] by fastforce
  have d: "distinct (map fst (tg_slots b))" using b(1) by (simp add: batch_ok_def)
  then have m: "map_of (tg_slots b) ok = Some os" using oldestSlot_mem [OF o] by simp
  have s: "slot_ok False ok os" using batch_slot [OF b(1) m] by (rule slot_ok_weaken)
  obtain os' b1 where f: "flushSlot accept os b = (os', b1)" by fastforce
  note fs = flushSlot_spec [OF s f]
  let ?b = "if gs_segs os > 0 then b1 else b"
  have e: "evictOldest accept b = ?b\<lparr>tg_slots := AList.delete ok (tg_slots b), tg_free := tg_free ?b + 1\<rparr>"
    using fs(3) f by (simp add: evictOldest_def o)
  have em: "emitted k ?b = emitted k b @ (if k = ok then slotSegs os else [])"
    using fs(1) by (auto simp: slotSegs_def)
  show "history k (evictOldest accept b) = history k b"
    unfolding e using em m by (auto simp: history_def emitted_def pending_def delete_conv' fun_upd_def)
  have op: "tg_open ?b = tg_open b - openBit os" using fs(4) by (simp add: openBit_def)
  have sub: "set (AList.delete ok (tg_slots b)) \<subseteq> set (tg_slots b)" by (auto simp: AList.delete_eq)
  have len: "length (AList.delete ok (tg_slots b)) < length (tg_slots b)" by (rule delete_shorter [OF m])
  show "batch_ok (evictOldest accept b)"
    using b(1) op nopen_delete [OF d m] sub len distinct_delete [OF d, of ok] unfolding e
    by (auto simp: batch_ok_def)
  show "length (tg_slots (evictOldest accept b)) < tunMaxFlowSlots"
    using b(1) len unfolding e by (simp add: batch_ok_def)
  show "map_of (tg_slots (evictOldest accept b)) key = None" if "map_of (tg_slots b) key = None"
    using that unfolding e by (simp add: delete_conv')
qed

lemma emptySlot_ok [simp]: "slot_ok True k emptySlot" "gs_segs emptySlot = 0" "openBit emptySlot = 0"
  by (simp_all add: slot_ok_def emptySlot_def openBit_def)

lemma batch_addSlot:
  assumes "batch_ok b" "map_of (tg_slots b) k = None" "length (tg_slots b) < tunMaxFlowSlots"
  shows "batch_ok (b\<lparr>tg_free := n, tg_slots := AList.update k emptySlot (tg_slots b)\<rparr>)"
proof -
  have "\<forall>(k, s) \<in> set (AList.update k emptySlot (tg_slots b)). slot_ok True k s"
    using assms(1) set_update_sub [of "tg_slots b" k emptySlot] by (fastforce simp: batch_ok_def)
  then show ?thesis
    using assms by (simp add: batch_ok_def distinct_update nopen_update_new length_update_new)
qed

lemma history_addSlot:
  assumes "map_of (tg_slots b) k = None"
  shows "history k' (b\<lparr>tg_free := n, tg_slots := AList.update k emptySlot (tg_slots b)\<rparr>) = history k' b"
  using assms by (simp add: history_def emitted_def pending_def update_conv')

lemma getSlot_spec:
  assumes b: "batch_ok b" and g: "getSlot accept key b = (s, b')"
  shows "history k b' = history k b" "batch_ok b'" "map_of (tg_slots b') key = Some s"
proof -
  have "history k b' = history k b \<and> batch_ok b' \<and> map_of (tg_slots b') key = Some s"
  proof (cases "map_of (tg_slots b) key")
    case (Some x)
    then show ?thesis using b g by (simp add: getSlot_def)
  next
    case None
    define b1 where "b1 = (if length (tg_slots b) \<ge> tunMaxFlowSlots then evictOldest accept b else b)"
    have ne: "length (tg_slots b) \<ge> tunMaxFlowSlots \<Longrightarrow> tg_slots b \<noteq> []" by (auto simp: tunMaxFlowSlots_def)
    have b1: "history k b1 = history k b" "batch_ok b1" "length (tg_slots b1) < tunMaxFlowSlots" "map_of (tg_slots b1) key = None"
      using evictOldest_spec [OF b] ne b None unfolding b1_def by auto
    have "(s, b') = (emptySlot, b1\<lparr>tg_free := tg_free b1 - 1, tg_slots := AList.update key emptySlot (tg_slots b1)\<rparr>)"
      using g None by (simp add: getSlot_def b1_def Let_def)
    then show ?thesis
      using batch_addSlot [OF b1(2,4,3)] history_addSlot [OF b1(4)] b1(1) by (simp add: update_conv')
  qed
  then show "history k b' = history k b" "batch_ok b'" "map_of (tg_slots b') key = Some s" by auto
qed


subsection \<open>Adding a packet\<close>

lemma emitted_frame [simp]:
  "emitted k (b\<lparr>tg_slots := x\<rparr>) = emitted k b" "emitted k (b\<lparr>tg_open := n\<rparr>) = emitted k b"
  "emitted k (b\<lparr>tg_free := m\<rparr>) = emitted k b" "emitted k (b\<lparr>tg_drops := m\<rparr>) = emitted k b"
  by (simp_all add: emitted_def)

lemma emitted_setSlot [simp]: "emitted k' (setSlot k s b) = emitted k' b"
  by (simp add: setSlot_def)

lemma pktSegs_other: "parseV4TCP pkt = Some v \<Longrightarrow> k \<noteq> tv_key v \<Longrightarrow> pktSegs k pkt = []"
  by (simp add: pktSegs_def)

lemma setSlot_closed:
  assumes b: "batch_ok b" "map_of (tg_slots b) key = Some s0"
    and g: "slot_ok False key g" and op: "gs_segs s0 > 0" "gs_segs g > 0"
    and f: "flushSlot accept g b = (s', b1)"
  shows "batch_ok (setSlot key s' b1)"
    "history k (setSlot key s' b1) = emitted k b @ (if k = key then slotSegs g else pending k b)"
proof -
  note fs = flushSlot_spec [OF g f]
  have s': "slot_ok True key s'" "slotSegs s' = []" using fs(2) by (simp_all add: slot_ok_def)
  show "batch_ok (setSlot key s' b1)"
    by (rule batch_setSlot [where ?s0.0 = s0]) (use b fs op s' in \<open>auto simp: batch_ok_def openBit_def\<close>)
  show "history k (setSlot key s' b1) = emitted k b @ (if k = key then slotSegs g else pending k b)"
    using fs s'(2) by (simp add: history_def pending_setSlot) (simp add: pending_def)
qed

lemma Add_spec:
  assumes b: "batch_ok b" and len: "length pkt \<le> bufCap" and a: "Add False ms accept now pkt b = (r, b')"
  shows "history k b' = history k b @ pktSegs k pkt \<and> batch_ok b' \<and> r"
proof (cases "parseV4TCP pkt")
  case None
  then have "b' = b\<lparr>tg_written := tg_written b @ [replicate vnetHdrLen 0 @ pkt]\<rparr>" "r"
    using a len by (auto simp: Add_def writeNonGSO_def)
  then show ?thesis using None b by (simp add: history_def emitted_def pending_def pktSegs_def wireSegs_def batch_ok_def)
next
  case (Some v)
  obtain s b1 where g: "getSlot accept (tv_key v) b = (s, b1)" by fastforce
  note gs = getSlot_spec [OF b g]
  have sl: "slot_ok True (tv_key v) s" by (rule batch_slot [OF gs(2,3)])
  have pend: "pending (tv_key v) b1 = slotSegs s" using gs(3) by (simp add: pending_def)
  have hist: "history k b = emitted k b1 @ (if k = tv_key v then slotSegs s else pending k b1)"
    using gs(1) [of k] pend by (auto simp: history_def)
  show ?thesis
  proof (cases "coalesces ms pkt v s")
    case True
    let ?g = "grow now pkt v s"
    note gr = grow_ok [OF sl True Some refl, of now]
    have op: "gs_segs s > 0" "gs_segs ?g > 0" using True by (auto simp: coalesces_def grow_def)
    have sz: "gs_segSize ?g = gs_segSize s" by (simp add: grow_def)
    show ?thesis
    proof (cases "tv_payloadLen v < gs_segSize ?g \<or> gs_segs ?g \<ge> ms \<or> length (gs_frame ?g) + gs_segSize ?g > gsoMaxL3")
      case full: True
      obtain s' b2 where f: "flushSlot accept ?g b1 = (s', b2)" by fastforce
      have "b' = setSlot (tv_key v) s' b2" "r"
        using a Some g True full f by (auto simp: Add_def simp del: disj_not1)
      then show ?thesis
        using setSlot_closed [OF gs(2,3) gr(1) op f] gr(2) hist pktSegs_other [OF Some] by auto
    next
      case False
      have "tv_payloadLen v = gs_segSize s" using False True sz by (simp add: coalesces_def)
      then have ok: "slot_ok True (tv_key v) ?g" by (rule gr(3))
      have "b' = setSlot (tv_key v) ?g b1" "r" using a Some g True False by (auto simp: Add_def simp del: disj_not1)
      moreover have "batch_ok (setSlot (tv_key v) ?g b1)"
        by (rule batch_setSlot [where ?s0.0 = s]) (use gs(2,3) ok op in \<open>auto simp: batch_ok_def openBit_def\<close>)
      ultimately show ?thesis
        using gr(2) hist pktSegs_other [OF Some] by (auto simp: history_def pending_setSlot)
    qed
  next
    case False
    obtain s' b2 where f: "flushSlot accept s b1 = (s', b2)" by fastforce
    note fs = flushSlot_spec [OF slot_ok_weaken [OF sl] f]
    note st = start_ok [OF Some len, of now]
    let ?n = "startFrame now pkt v"
    have "(if gs_segs s > 0 then flushSlot accept s b1 else (s, b1)) = (s', b2)"
      using f by (simp add: flushSlot_def split: if_splits)
    then have b': "b' = (setSlot (tv_key v) ?n b2)\<lparr>tg_open := tg_open b2 + 1\<rparr>" "r"
      using a Some g False by (auto simp: Add_def setSlot_def Let_def split: prod.splits)
    have "batch_ok (setSlot (tv_key v) ?n (b2\<lparr>tg_open := tg_open b2 + 1\<rparr>))"
      by (rule batch_setSlot [where ?s0.0 = s]) (use gs(2,3) fs st in \<open>auto simp: batch_ok_def openBit_def\<close>)
    then have "batch_ok b'" using b' by (simp add: setSlot_def batch_ok_def)
    moreover have "history k b' = history k b @ pktSegs k pkt"
      using b'(1) fs st(2) hist pktSegs_other [OF Some]
      by (auto simp: history_def pending_def setSlot_def update_conv')
    ultimately show ?thesis using b'(2) by simp
  qed
qed


subsection \<open>Flushing and closing\<close>

definition pend :: "(bytes \<times> gsoSlot) list \<Rightarrow> bytes \<Rightarrow> (u32 \<times> bytes) list" where
  "pend ss k = (case map_of ss k of None \<Rightarrow> [] | Some s \<Rightarrow> slotSegs s)"

lemma pending_pend: "pending k b = pend (tg_slots b) k"
  by (simp add: pending_def pend_def)

lemma pend_simps [simp]:
  "pend [] k = []" "pend ((k', s) # ss) k = (if k = k' then slotSegs s else pend ss k)"
  "k \<notin> fst ` set ss \<Longrightarrow> pend ss k = []"
  by (force simp: pend_def split: option.splits dest!: map_of_SomeD)+

text \<open>What a pass over some slots does to them and to the batch.\<close>

definition passes :: "(bytes \<times> gsoSlot) list \<Rightarrow> TunGSOBatch \<Rightarrow> (bytes \<times> gsoSlot) list \<Rightarrow> TunGSOBatch \<Rightarrow> bool" where
  "passes ss b ss' b' \<longleftrightarrow> (\<forall>k. emitted k b' @ pend ss' k = emitted k b @ pend ss k) \<and>
     fst ` set ss' \<subseteq> fst ` set ss \<and> distinct (map fst ss') \<and> (\<forall>(k, s) \<in> set ss'. slot_ok True k s) \<and>
     length ss' \<le> length ss \<and> tg_open b' - nopen ss' = tg_open b - nopen ss \<and> tg_slots b' = tg_slots b"

lemma passes_keep:
  assumes "passes ss b1 ss' b'" "k \<notin> fst ` set ss" "slot_ok True k s'"
    and "\<forall>k'. emitted k' b1 @ (if k' = k then slotSegs s' else []) = emitted k' b @ (if k' = k then slotSegs s else [])"
    and "tg_open b1 - openBit s' = tg_open b - openBit s" "tg_slots b1 = tg_slots b"
  shows "passes ((k, s) # ss) b ((k, s') # ss') b'"
proof -
  have ss: "\<forall>k. emitted k b' @ pend ss' k = emitted k b1 @ pend ss k" "k \<notin> fst ` set ss'"
    using assms(1,2) by (auto simp: passes_def)
  have "emitted k' b' @ pend ((k, s') # ss') k' = emitted k' b @ pend ((k, s) # ss) k'" for k'
    using ss(1) [THEN spec, of k'] assms(4) [THEN spec, of k'] ss(2) assms(2) by (cases "k' = k") auto
  then show ?thesis using assms ss(2) by (auto simp: passes_def)
qed

lemma passes_drop:
  assumes "passes ss b1 ss' b'" "k \<notin> fst ` set ss" "gs_segs s = 0"
    and "\<forall>k'. emitted k' b1 = emitted k' b" "tg_open b1 = tg_open b" "tg_slots b1 = tg_slots b"
  shows "passes ((k, s) # ss) b ss' b'"
proof -
  have "pend ss' k = []" using assms(1,2) by (intro pend_simps(3)) (auto simp: passes_def)
  then show ?thesis using assms by (auto simp: passes_def openBit_def)
qed

lemma flush_keeps:
  assumes "passes ss b1 ss' b'" "k \<notin> fst ` set ss" "slot_ok True k s" "flushSlot accept s b = (s', b1)"
  shows "passes ((k, s) # ss) b ((k, s') # ss') b'"
proof -
  note fs = flushSlot_spec [OF slot_ok_weaken [OF assms(3)] assms(4)]
  show ?thesis
    using fs by (intro passes_keep [OF assms(1,2)]) (auto simp: slot_ok_def openBit_def)
qed

lemma sweepSlots_spec:
  "distinct (map fst ss) \<Longrightarrow> \<forall>(k, s) \<in> set ss. slot_ok True k s \<Longrightarrow> sweepSlots accept idle now ss b = (ss', b') \<Longrightarrow>
   passes ss b ss' b' \<and> (\<forall>(k, s) \<in> set ss'. gs_segs s > 0 \<longrightarrow> now - gs_lastGrow s < idle)"
proof (induction ss arbitrary: b ss' b')
  case Nil
  then show ?case by (simp add: passes_def)
next
  case (Cons x ss)
  obtain k s where x: "x = (k, s)" by fastforce
  have k: "k \<notin> fst ` set ss" "slot_ok True k s" and ih: "distinct (map fst ss)" "\<forall>(k, s) \<in> set ss. slot_ok True k s"
    using Cons.prems x by auto
  obtain s' b1 where f: "flushSlot accept s b = (s', b1)" by fastforce
  consider (flush) ss1 where "gs_segs s > 0" "now - gs_lastGrow s \<ge> idle" "sweepSlots accept idle now ss b1 = (ss1, b')" "ss' = (k, s') # ss1"
    | (keep) ss1 where "sweepSlots accept idle now ss b = (ss1, b')" "ss' = (k, s) # ss1" "gs_segs s > 0 \<longrightarrow> now - gs_lastGrow s < idle"
    | (reap) "gs_segs s = 0" "sweepSlots accept idle now ss (b\<lparr>tg_free := tg_free b + 1\<rparr>) = (ss', b')"
    using Cons.prems(3) x f by (auto split: if_splits prod.splits)
  then show ?case
  proof cases
    case flush
    have "gs_segs s' = 0" using flushSlot_spec(2) [OF slot_ok_weaken [OF k(2)] f] .
    then show ?thesis using Cons.IH [OF ih flush(3)] flush_keeps [OF _ k f] x flush(4) by auto
  next
    case keep
    then show ?thesis using Cons.IH [OF ih keep(1)] passes_keep [OF _ k, of b ss1 b' b s] x by auto
  next
    case reap
    then show ?thesis using Cons.IH [OF ih reap(2)] passes_drop [OF _ k(1) reap(1), of "b\<lparr>tg_free := tg_free b + 1\<rparr>"] x by auto
  qed
qed

lemma closeSlots_spec:
  "distinct (map fst ss) \<Longrightarrow> \<forall>(k, s) \<in> set ss. slot_ok True k s \<Longrightarrow> closeSlots accept ss b = (ss', b') \<Longrightarrow>
   passes ss b ss' b' \<and> (\<forall>(k, s) \<in> set ss'. gs_segs s = 0)"
proof (induction ss arbitrary: b ss' b')
  case Nil
  then show ?case by (simp add: passes_def)
next
  case (Cons x ss)
  obtain k s where x: "x = (k, s)" by fastforce
  have k: "k \<notin> fst ` set ss" "slot_ok True k s" and ih: "distinct (map fst ss)" "\<forall>(k, s) \<in> set ss. slot_ok True k s"
    using Cons.prems x by auto
  obtain s' b1 where f: "flushSlot accept s b = (s', b1)" by fastforce
  obtain ss1 where c: "closeSlots accept ss b1 = (ss1, b')" "ss' = (k, s') # ss1"
    using Cons.prems(3) x f by (auto split: prod.splits)
  have "gs_segs s' = 0" using flushSlot_spec(2) [OF slot_ok_weaken [OF k(2)] f] .
  then show ?case using Cons.IH [OF ih c(1)] flush_keeps [OF _ k f] x c(2) by auto
qed

lemma passes_batch:
  assumes "batch_ok b" "passes (tg_slots b) b ss' b1"
  shows "batch_ok (b1\<lparr>tg_slots := ss'\<rparr>)" "history k (b1\<lparr>tg_slots := ss'\<rparr>) = history k b"
  using assms by (auto simp: batch_ok_def passes_def history_def pending_pend)

lemma FlushBatch_spec:
  assumes "batch_ok b"
  shows "history k (FlushBatch accept idle now b) = history k b" "batch_ok (FlushBatch accept idle now b)"
    "(k', s) \<in> set (tg_slots (FlushBatch accept idle now b)) \<Longrightarrow> gs_segs s > 0 \<Longrightarrow> now - gs_lastGrow s < idle"
proof -
  obtain ss' b1 where w: "sweepSlots accept idle now (tg_slots b) b = (ss', b1)" by fastforce
  have sp: "passes (tg_slots b) b ss' b1" "\<forall>(k, s) \<in> set ss'. gs_segs s > 0 \<longrightarrow> now - gs_lastGrow s < idle"
    using sweepSlots_spec [OF _ _ w] assms by (auto simp: batch_ok_def)
  have f: "FlushBatch accept idle now b = b1\<lparr>tg_slots := ss'\<rparr>" using w by (simp add: FlushBatch_def)
  show "history k (FlushBatch accept idle now b) = history k b" "batch_ok (FlushBatch accept idle now b)"
    using passes_batch [OF assms sp(1)] f by simp_all
  show "now - gs_lastGrow s < idle" if "(k', s) \<in> set (tg_slots (FlushBatch accept idle now b))" "gs_segs s > 0"
    using that sp(2) f by auto
qed

lemma closed_pend: "\<forall>(k, s) \<in> set ss. gs_segs s = 0 \<Longrightarrow> pend ss k = []"
  by (auto simp: pend_def split: option.splits dest!: map_of_SomeD)

lemma CloseBatch_spec:
  assumes "batch_ok b"
  shows "emitted k (CloseBatch accept b) = history k b" "batch_ok (CloseBatch accept b)" "EmptyBatch (CloseBatch accept b)"
proof -
  obtain ss' b1 where w: "closeSlots accept (tg_slots b) b = (ss', b1)" by fastforce
  have sp: "passes (tg_slots b) b ss' b1" "\<forall>(k, s) \<in> set ss'. gs_segs s = 0"
    using closeSlots_spec [OF _ _ w] assms by (auto simp: batch_ok_def)
  have f: "CloseBatch accept b = b1\<lparr>tg_slots := ss'\<rparr>" using w by (simp add: CloseBatch_def)
  note ok = passes_batch [OF assms sp(1), folded f]
  show "batch_ok (CloseBatch accept b)" by (rule ok(1))
  show "emitted k (CloseBatch accept b) = history k b"
    using ok(2) [of k] closed_pend [OF sp(2)] f by (simp add: history_def pending_pend)
  have "nopen ss' = 0" using sp(2) by (auto simp: nopen_def filter_empty_conv)
  then show "EmptyBatch (CloseBatch accept b)" using ok(1) f by (simp add: batch_ok_def EmptyBatch_def)
qed


subsection \<open>A failing device\<close>

text \<open>
  Whether the device accepts a frame decides only what reaches the wire: the slots
  and the counter of open frames evolve in the same way.
\<close>

definition same_slots :: "TunGSOBatch \<Rightarrow> TunGSOBatch \<Rightarrow> bool" where
  "same_slots b c \<longleftrightarrow> tg_slots b = tg_slots c \<and> tg_free b = tg_free c \<and> tg_open b = tg_open c"

lemma same_flush:
  assumes "same_slots b c"
  shows "fst (flushSlot ok s b) = fst (flushSlot ok' s c)" "same_slots (snd (flushSlot ok s b)) (snd (flushSlot ok' s c))"
  using assms by (simp_all add: same_slots_def flushSlot_def writeFrame_def Let_def)

lemma same_evict: "same_slots b c \<Longrightarrow> same_slots (evictOldest ok b) (evictOldest ok' c)"
  using same_flush(2) [of b c ok _ ok'] by (simp add: same_slots_def evictOldest_def Let_def split: option.split)

lemma same_get:
  assumes "same_slots b c"
  shows "fst (getSlot ok k b) = fst (getSlot ok' k c)" "same_slots (snd (getSlot ok k b)) (snd (getSlot ok' k c))"
  using assms same_evict [OF assms, of ok ok'] by (simp_all add: same_slots_def getSlot_def Let_def split: option.split)

lemma same_set: "same_slots b c \<Longrightarrow> same_slots (setSlot k s b) (setSlot k s c)"
  by (simp add: same_slots_def setSlot_def)

lemma same_writeNonGSO: "same_slots b c \<Longrightarrow> same_slots (snd (writeNonGSO ok pkt b)) (snd (writeNonGSO ok' pkt c))"
  by (simp add: same_slots_def writeNonGSO_def writeFrame_def)

lemma same_open: "same_slots b c \<Longrightarrow> same_slots (b\<lparr>tg_open := tg_open b + 1\<rparr>) (c\<lparr>tg_open := tg_open c + 1\<rparr>)"
  by (simp add: same_slots_def)

lemma same_add:
  assumes "same_slots b c"
  shows "same_slots (snd (Add nc ms ok now pkt b)) (snd (Add nc ms ok' now pkt c))"
proof (cases "nc \<or> parseV4TCP pkt = None")
  case True
  then show ?thesis using same_writeNonGSO [OF assms] by (auto simp: Add_def)
next
  case False
  then obtain v where v: "\<not> nc" "parseV4TCP pkt = Some v" by auto
  obtain s b1 where b1: "getSlot ok (tv_key v) b = (s, b1)" by fastforce
  obtain c1 where c1: "getSlot ok' (tv_key v) c = (s, c1)" "same_slots b1 c1"
    using same_get [OF assms, of ok "tv_key v" ok'] b1 by (cases "getSlot ok' (tv_key v) c") auto
  note fl = same_flush [OF c1(2), of ok _ ok'] and up = same_set same_open
  show ?thesis
    using fl(1) [of s] up [OF fl(2) [of s]] fl(1) [of "grow now pkt v s"] up [OF fl(2) [of "grow now pkt v s"]] up [OF c1(2)]
    by (simp add: Add_def v b1 c1(1) Let_def split_beta same_open same_set)
qed

lemma same_sweep:
  "same_slots b c \<Longrightarrow> fst (sweepSlots ok idle now ss b) = fst (sweepSlots ok' idle now ss c) \<and>
   same_slots (snd (sweepSlots ok idle now ss b)) (snd (sweepSlots ok' idle now ss c))"
proof (induction ss arbitrary: b c)
  case (Cons x ss)
  note fl = same_flush [OF Cons.prems, of ok "snd x" ok']
  have fr: "same_slots (b\<lparr>tg_free := tg_free b + 1\<rparr>) (c\<lparr>tg_free := tg_free c + 1\<rparr>)"
    using Cons.prems by (simp add: same_slots_def)
  show ?case
    using Cons.IH [OF Cons.prems] Cons.IH [OF fl(2)] fl(1) Cons.IH [OF fr]
    by (cases x) (simp add: split_beta)
qed simp

lemma same_flushBatch: "same_slots b c \<Longrightarrow> same_slots (FlushBatch ok idle now b) (FlushBatch ok' idle now c)"
  using same_sweep [of b c ok idle now "tg_slots b" ok'] by (simp add: FlushBatch_def same_slots_def split_beta)

lemma same_batch_ok: "same_slots b c \<Longrightarrow> batch_ok b \<longleftrightarrow> batch_ok c"
  by (simp add: same_slots_def batch_ok_def)

lemma same_refl: "same_slots b b"
  by (simp add: same_slots_def)

subsection \<open>Runs of the writer\<close>

text \<open>The calls the drain loop makes: a packet, or the sweep at time \<open>now\<close>.\<close>

datatype gsoOp = Pkt int bytes | Sweep int int

fun gsoCall :: "nat \<Rightarrow> (bytes \<Rightarrow> bool) \<Rightarrow> gsoOp \<Rightarrow> TunGSOBatch \<Rightarrow> TunGSOBatch" where
  "gsoCall ms ok (Pkt now pkt) b = snd (Add False ms ok now pkt b)"
| "gsoCall ms ok (Sweep flushIdle now) b = FlushBatch ok flushIdle now b"

fun callSegs :: "bytes \<Rightarrow> gsoOp \<Rightarrow> (u32 \<times> bytes) list" where
  "callSegs k (Pkt now pkt) = pktSegs k pkt"
| "callSegs k (Sweep flushIdle now) = []"

fun call_ok :: "gsoOp \<Rightarrow> bool" where
  "call_ok (Pkt now pkt) \<longleftrightarrow> length pkt \<le> bufCap"
| "call_ok (Sweep flushIdle now) \<longleftrightarrow> True"

lemma gsoCall_accept:
  "batch_ok b \<Longrightarrow> call_ok c \<Longrightarrow> history k (gsoCall ms accept c b) = history k b @ callSegs k c \<and> batch_ok (gsoCall ms accept c b)"
proof (cases c)
  case (Pkt now pkt)
  assume "batch_ok b" "call_ok c"
  then show ?thesis using Add_spec [of b pkt ms now] Pkt by (cases "Add False ms accept now pkt b") simp
next
  case (Sweep idle now)
  assume "batch_ok b" "call_ok c"
  then show ?thesis using FlushBatch_spec Sweep by simp
qed

lemma same_call: "same_slots b c \<Longrightarrow> same_slots (gsoCall ms ok x b) (gsoCall ms ok' x c)"
  by (cases x) (simp_all add: same_add same_flushBatch)

lemma gsoCall_any: "batch_ok b \<Longrightarrow> call_ok c \<Longrightarrow> batch_ok (gsoCall ms ok c b)"
  using gsoCall_accept [of b c "[]" ms] same_batch_ok [OF same_call [OF same_refl]] by blast

definition gso_init :: "TunGSOBatch \<Rightarrow> bool" where
  "gso_init b \<longleftrightarrow> (\<exists>tunFd. NewTunGSOBatch tunFd = Some b)"

definition gso_step :: "nat \<Rightarrow> TunGSOBatch \<Rightarrow> TunGSOBatch \<Rightarrow> bool" where
  "gso_step ms b b' \<longleftrightarrow> (\<exists>ok c. call_ok c \<and> b' = gsoCall ms ok c b)"

lemma gso_step_call: "call_ok c \<Longrightarrow> gso_step ms b (gsoCall ms ok c b)"
  by (auto simp: gso_step_def)

lemma gso_init_ok: "gso_init b \<Longrightarrow> batch_ok b \<and> history k b = []"
  by (auto simp: gso_init_def NewTunGSOBatch_def batch_ok_def history_def emitted_def pending_def split: if_splits)

interpretation gsoSys: invariant_system gso_init "gso_step ms" batch_ok for ms
  by unfold_locales (auto simp: gso_step_def dest: gso_init_ok intro: gsoCall_any)


lemma gso_run_accept:
  "batch_ok b \<Longrightarrow> list_all call_ok cs \<Longrightarrow>
   history k (fold (gsoCall ms accept) cs b) = history k b @ concat (map (callSegs k) cs) \<and>
   batch_ok (fold (gsoCall ms accept) cs b)"
  by (induction cs arbitrary: b) (simp_all add: gsoCall_accept)

lemma nopen_pend: "nopen ss = 0 \<Longrightarrow> pend ss k = []"
  by (rule closed_pend) (auto simp: nopen_def filter_empty_conv)

subsection \<open>Example packets\<close>

text \<open>A TCP packet from 10.0.0.2:1234 to 192.0.2.1:80 with given sequence and acknowledgement numbers, flags and payload.\<close>

definition exPkt :: "byte \<Rightarrow> byte \<Rightarrow> byte \<Rightarrow> bytes \<Rightarrow> bytes" where
  "exPkt q a fl pay = [0x45, 0, 0, of_nat (40 + length pay), 0, 0, 0, 0, 64, 6, 0, 0, 10, 0, 0, 2, 192, 0, 2, 1,
     4, 210, 0, 80, 0, 0, 0, q, 0, 0, 0, a, 0x50, fl, 1, 0, 0, 0, 0, 0] @ pay"

definition exFlow :: bytes where
  "exFlow = [10, 0, 0, 2, 192, 0, 2, 1, 4, 210, 0, 80]"

definition exBatch :: TunGSOBatch where
  "exBatch = \<lparr>tg_slots = [], tg_free = 0, tg_open = 0, tg_written = [], tg_drops = 0\<rparr>"

lemma exPkt_parse:
  "parseV4TCP (exPkt q a fl pay) = Some \<lparr>tv_ihl = 20, tv_thl = 20, tv_seq = of_nat (unat q), tv_payloadOff = 40,
     tv_payloadLen = length pay, tv_key = exFlow\<rparr>"
  "tv_payloadOff v = 40 \<Longrightarrow> payloadOf (exPkt q a fl pay) v = pay"
proof -
  have "unat (be16 0 q) = unat q" by (simp add: unat_be16)
  then have "be32 (be16 0 0) (be16 0 q) = of_nat (unat q)" by (simp add: be32_def be16_def)
  then show "parseV4TCP (exPkt q a fl pay) = Some \<lparr>tv_ihl = 20, tv_thl = 20, tv_seq = of_nat (unat q), tv_payloadOff = 40,
     tv_payloadLen = length pay, tv_key = exFlow\<rparr>"
    by (simp add: parseV4TCP_def exPkt_def exFlow_def slice_def get32_def get16_def)
qed (simp add: payloadOf_def exPkt_def)

lemma exPkt_len [simp]: "length (exPkt q a fl pay) = 40 + length pay"
  by (simp add: exPkt_def)

lemma exBatch_new: "NewTunGSOBatch 3 = Some exBatch"
  by (simp add: NewTunGSOBatch_def exBatch_def)

subsection \<open>Properties\<close>



text \<open>
  C34: In every reachable batch, also when writes to the device fail, there are at most
  32 slots, one per flow, the \<^verbatim>\<open>open\<close> counter is the number of slots that hold a frame,
  every held frame is a TCP packet of its flow that fits its buffer, and \<^verbatim>\<open>Empty\<close> answers
  true exactly when no slot holds a frame, in which case no flow has data pending.
\<close>

theorem gso_slots_bounded:
  assumes "gso_init b0" "(gso_step ms)\<^sup>*\<^sup>* b0 b"
  shows "length (tg_slots b) \<le> 32 \<and> distinct (map fst (tg_slots b)) \<and>
    tg_open b = int (length (filter (\<lambda>(k, s). gs_segs s > 0) (tg_slots b))) \<and>
    (map_of (tg_slots b) k = Some s \<and> gs_segs s > 0 \<longrightarrow>
       length (gs_frame s) \<le> bufCap \<and> (\<exists>v. parseV4TCP (gs_frame s) = Some v \<and> tv_key v = k)) \<and>
    (EmptyBatch b \<longrightarrow> pending k b = [])"
proof -
  have ok: "batch_ok b" using gsoSys.reachable_inv assms .
  have "pending k b = []" if "EmptyBatch b" using ok that nopen_pend by (simp add: EmptyBatch_def batch_ok_def pending_pend)
  then show ?thesis using ok batch_slot [OF ok, of k s] by (auto simp: batch_ok_def tunMaxFlowSlots_def nopen_def slot_ok_def)
qed

theorem gso_slots_bounded_witness:
  "length (tg_slots (gsoCall 64 (\<lambda>_. False) (Pkt 0 (exPkt 0 7 16 [1, 2, 3])) exBatch)) \<le> 32"
proof -
  have 1: "gso_init exBatch" using exBatch_new by (auto simp: gso_init_def)
  have "gso_step 64 exBatch (gsoCall 64 (\<lambda>_. False) (Pkt 0 (exPkt 0 7 16 [1, 2, 3])) exBatch)"
    by (rule gso_step_call) (simp add: bufCap_def gsoMaxL3_def)
  then show ?thesis using gso_slots_bounded [OF 1 r_into_rtranclp [of "gso_step 64"]] by blast
qed

text \<open>
  The latency bound: after a \<^verbatim>\<open>Flush\<close> at time \<open>now\<close> every frame that is still open
  grew less than \<^verbatim>\<open>flushIdle\<close> ago, whether or not the device accepts the frames.
\<close>

theorem gso_flush_latency:
  assumes "gso_init b0" "(gso_step ms)\<^sup>*\<^sup>* b0 b" "(k, s) \<in> set (tg_slots (FlushBatch ok flushIdle now b))" "gs_segs s > 0"
  shows "now - gs_lastGrow s < flushIdle"
proof -
  have "batch_ok b" using gsoSys.reachable_inv assms(1,2) .
  then show ?thesis
    using FlushBatch_spec(3) [of b k s flushIdle now] assms(3,4) same_flushBatch [OF same_refl, of ok flushIdle now b accept]
    by (simp add: same_slots_def)
qed

definition exOpen :: TunGSOBatch where
  "exOpen = gsoCall 64 accept (Pkt 100 (exPkt 0 7 16 [1, 2, 3])) exBatch"

lemma exOpen_eq:
  "tg_slots exOpen = [(exFlow, startFrame 100 (exPkt 0 7 16 [1, 2, 3]) (the (parseV4TCP (exPkt 0 7 16 [1, 2, 3]))))]"
  by (simp add: exOpen_def Add_def exPkt_parse getSlot_def exBatch_def tunMaxFlowSlots_def coalesces_def setSlot_def)

theorem gso_flush_latency_witness:
  "(200 :: int) - gs_lastGrow (snd (hd (tg_slots (FlushBatch accept 250 200 exOpen)))) < 250"
proof -
  have 1: "gso_init exBatch" using exBatch_new by (auto simp: gso_init_def)
  have 2: "gso_step 64 exBatch exOpen"
    unfolding exOpen_def by (rule gso_step_call) (simp add: bufCap_def gsoMaxL3_def)
  have "(exFlow, snd (hd (tg_slots (FlushBatch accept 250 200 exOpen)))) \<in> set (tg_slots (FlushBatch accept 250 200 exOpen))"
    "gs_segs (snd (hd (tg_slots (FlushBatch accept 250 200 exOpen)))) > 0" by (simp_all add: exOpen_eq FlushBatch_def startFrame_def)
  then show ?thesis using gso_flush_latency [OF 1 r_into_rtranclp [of "gso_step 64", OF 2]] by blast
qed


text \<open>The header fields that \<^verbatim>\<open>flushSlot\<close> writes into a super-frame.\<close>

lemma finishHeaders_fields:
  assumes p: "parseV4TCP ip = Some v" and l: "length ip \<le> gsoMaxL3"
  shows "unat (get16 (finishHeaders ip (tv_ihl v)) 2) = length ip"
    "csum_valid (wsum (take (tv_ihl v) (finishHeaders ip (tv_ihl v))))"
    "get16 (finishHeaders ip (tv_ihl v)) (tv_ihl v + 16) =
       tcpPseudoSeedV4 (slice ip 12 16) (slice ip 16 20) (of_nat (length ip - tv_ihl v))"
proof -
  note f = parse_facts [OF p]
  let ?i = "tv_ihl v" and ?L = "of_nat (length ip) :: u16"
  define h where "h = put16 (take ?i ip) 2 ?L"
  let ?s = "sum16 (put16 h 10 0) 0"
  have take_put: "take ?i (put16 x j w) = put16 (take ?i x) j w" if "j + 2 \<le> ?i" for x j w
    using slice_put16_inside [of 0 j ?i x w] that by (simp add: slice_def)
  have take_out: "take ?i (put16 x (?i + 16) w) = take ?i x" for x w
    using slice_put16_outside [of "?i + 16" 0 ?i x w] by (simp add: slice_def)
  have fin: "finishHeaders ip ?i = put16 (put16 (put16 ip 2 ?L) 10 (NOT (fold16 ?s))) (?i + 16)
      (tcpPseudoSeedV4 (slice ip 12 16) (slice ip 16 20) (of_nat (length ip - ?i)))"
    using f(1) by (simp add: finishHeaders_def Let_def take_put h_def slice_put16_outside)
  show "unat (get16 (finishHeaders ip ?i) 2) = length ip"
    using f(1,9) l unfolding fin by (simp add: get16_put16_other get16_put16_same unat_of_nat_small gsoMaxL3_def)
  show "get16 (finishHeaders ip ?i) (?i + 16) = tcpPseudoSeedV4 (slice ip 12 16) (slice ip 16 20) (of_nat (length ip - ?i))"
    using f(9) unfolding fin by (simp add: get16_put16_same)
  have lh: "length h = ?i" using f(9) by (simp add: h_def)
  have "ip ! 0 \<noteq> 0" using p by (auto simp: parseV4TCP_def split: if_splits)
  then have "put16 h 10 0 ! 0 \<noteq> 0" using f(1) by (simp add: h_def nth_put16_other)
  then have pos: "0 < wsum (put16 h 10 0)" using wsum_pos [of 0 "put16 h 10 0"] lh f(1) by simp
  have "unat ?s = wsum (put16 h 10 0)" using wsum_fits [of "put16 h 10 0"] lh f(7) by (simp add: unat_sum16)
  moreover have "take ?i (finishHeaders ip ?i) = put16 h 10 (NOT (fold16 ?s))"
    using f(1) unfolding fin take_out by (simp add: take_put h_def)
  ultimately show "csum_valid (wsum (take ?i (finishHeaders ip ?i)))"
    using stored_checksum_valid [of 10 h ?s] pos lh f(1) by simp
qed


definition exTwo :: TunGSOBatch where
  "exTwo = gsoCall 64 accept (Pkt 101 (exPkt 3 7 16 [4, 5, 6])) exOpen"

definition exTwoSlot :: gsoSlot where
  "exTwoSlot = \<lparr>gs_frame = exPkt 0 7 16 [1, 2, 3] @ [4, 5, 6], gs_segs = 2, gs_ihl = 20, gs_thl = 20, gs_segSize = 3,
     gs_nextSeq = 6, gs_lastGrow = 101\<rparr>"

lemma exTwo_slots: "tg_slots exTwo = [(exFlow, exTwoSlot)]"
proof -
  have pay: "slice (exPkt 3 7 16 [4, 5, 6]) 40 43 = [4, 5, 6]" by (simp add: exPkt_def slice_def)
  have opt: "tcpOptsEqual (exPkt 3 7 16 [4, 5, 6]) v (exPkt 0 7 16 [1, 2, 3]) 20 20" if "tv_ihl v = 20" "tv_thl v = 20" for v
    using that by (simp add: tcpOptsEqual_def slice_def)
  show ?thesis
    by (simp add: exTwo_def exOpen_eq Add_def getSlot_def exPkt_parse startFrame_def coalesces_def gsoMaxL3_def bufCap_def opt
        grow_def setSlot_def exTwoSlot_def pay)
qed


text \<open>
  Coalescing compares the TCP options but neither the flags nor the acknowledgement
  number. Two data-less segments of a flow, say an ACK followed by a FIN or by a newer
  ACK, are merged into one super-frame whose \<^verbatim>\<open>gso_size\<close> is zero and that carries the
  flags and the acknowledgement number of the first: the second segment is lost.
\<close>

theorem gso_merges_pure_acks:
  "\<exists>f. tg_written (CloseBatch accept (gsoCall 64 accept (Pkt 1 (exPkt q a' fl' [])) (gsoCall 64 accept (Pkt 0 (exPkt q a fl [])) exBatch))) = [f] \<and>
     f ! 1 = 1 \<and> slice f 4 6 = [0, 0] \<and> f ! (vnetHdrLen + 31) = a \<and> f ! (vnetHdrLen + 33) = fl"
proof -
  let ?p = "exPkt q a fl []"
  let ?s = "\<lparr>gs_frame = ?p, gs_segs = 2, gs_ihl = 20, gs_thl = 20, gs_segSize = 0, gs_nextSeq = of_nat (unat q), gs_lastGrow = 1\<rparr>"
  have pay: "slice (exPkt q a' fl' []) 40 40 = []" by (simp add: slice_def)
  have opt: "tcpOptsEqual (exPkt q a' fl' []) v ?p 20 20" if "tv_ihl v = 20" "tv_thl v = 20" for v
    using that by (simp add: tcpOptsEqual_def slice_def)
  have 1: "gsoCall 64 accept (Pkt 0 ?p) exBatch =
      \<lparr>tg_slots = [(exFlow, startFrame 0 ?p (the (parseV4TCP ?p)))], tg_free = 0, tg_open = 1, tg_written = [], tg_drops = 0\<rparr>"
    by (simp add: Add_def exPkt_parse getSlot_def exBatch_def tunMaxFlowSlots_def coalesces_def setSlot_def)
  have 2: "gsoCall 64 accept (Pkt 1 (exPkt q a' fl' [])) (gsoCall 64 accept (Pkt 0 ?p) exBatch) =
      \<lparr>tg_slots = [(exFlow, ?s)], tg_free = 0, tg_open = 1, tg_written = [], tg_drops = 0\<rparr>"
    unfolding 1 by (simp add: Add_def getSlot_def exPkt_parse startFrame_def coalesces_def gsoMaxL3_def bufCap_def opt
        grow_def setSlot_def pay)
  have "tg_written (CloseBatch accept (gsoCall 64 accept (Pkt 1 (exPkt q a' fl' [])) (gsoCall 64 accept (Pkt 0 ?p) exBatch))) =
      [vnetHdr 20 20 0 @ finishHeaders ?p 20]"
    unfolding 2 by (simp add: CloseBatch_def flushSlot_def)
  moreover have "(vnetHdr 20 20 0 @ finishHeaders ?p 20) ! (vnetHdrLen + j) = ?p ! j" if "j \<in> {31, 33}" for j
    using that vnetHdr_fields(1) [of 20 20 0] by (auto simp: nth_append finishHeaders_def Let_def nth_put16_other)
  moreover have "?p ! 31 = a" "?p ! 33 = fl" by (simp_all add: exPkt_def)
  moreover have "(vnetHdr 20 20 0 @ finishHeaders ?p 20) ! 1 = 1" "slice (vnetHdr 20 20 0 @ finishHeaders ?p 20) 4 6 = [0, 0]"
    by (simp_all add: vnetHdr_def le16_def slice_def lo8_def hi8_def)
  ultimately show ?thesis by simp
qed

end
