(* ===== verification/XdpConn.thy ===== *)
theory XdpConn
  imports Checksum "HOL-Library.Sublist"
begin

unbundle bit_operations_syntax

text \<open>
  The AF_XDP packet connection (\<^verbatim>\<open>xdp/conn.go\<close>) and its transmit pump
  (\<^verbatim>\<open>xdp/txpump.go\<close>): learning of next-hop addresses, demultiplexing of received
  frames, the hand-over of QUIC payloads to \<^verbatim>\<open>ReadFrom\<close>, and the building and queueing
  of transmitted frames. The rings of the kernel are represented by what crosses them:
  the descriptors given back to the fill ring and the frames handed to the transmit
  ring. A \<^verbatim>\<open>net.IP\<close> is a byte list of length 4 or 16, and nil is the empty list; a
  \<^verbatim>\<open>netip.Addr\<close> is such a list of length 4 or 16 as well.
\<close>

type_synonym mac = bytes

record udpAddr =
  ua_IP :: bytes
  ua_Port :: int

text \<open>Go's \<^verbatim>\<open>copy(b[i:j], xs)\<close>.\<close>

definition blit :: "bytes \<Rightarrow> nat \<Rightarrow> nat \<Rightarrow> bytes \<Rightarrow> bytes" where
  "blit b i j xs = (let n = min (length xs) (min j (length b) - i) in take i b @ take n xs @ drop (i + n) b)"

text \<open>\<^verbatim>\<open>netip.Addr.Unmap\<close> and \<^verbatim>\<open>net.IP.To4\<close>.\<close>

definition Unmap :: "bytes \<Rightarrow> bytes" where
  "Unmap a = (if length a = 16 \<and> take 12 a = replicate 10 0 @ [0xff, 0xff] then drop 12 a else a)"

definition To4 :: "bytes \<Rightarrow> bytes" where
  "To4 ip = (if length (Unmap ip) = 4 then Unmap ip else [])"

definition AddrFromSlice :: "bytes \<Rightarrow> bytes option" where
  "AddrFromSlice ip = (if length ip = 4 \<or> length ip = 16 then Some ip else None)"

subsection \<open>The transmit pump\<close>

definition txPumpQueueLen :: nat where "txPumpQueueLen = 16384"
definition txPumpBatch :: nat where "txPumpBatch = 1024"
definition txPumpFrameCap :: nat where "txPumpFrameCap = 4096"

record txPump =
  tp_ch :: "bytes list"
  tp_drops :: nat
  tp_sent :: "bytes list"

definition newTxPump :: txPump where
  "newTxPump = \<lparr>tp_ch = [], tp_drops = 0, tp_sent = []\<rparr>"

text \<open>
  When the connection is closed and the queue has room, \<^verbatim>\<open>select\<close> takes either case;
  \<open>enq\<close> says which.
\<close>

definition Submit :: "bool \<Rightarrow> bool \<Rightarrow> bytes \<Rightarrow> txPump \<Rightarrow> txPump" where
  "Submit done enq frame p =
     (if length (tp_ch p) < txPumpQueueLen \<and> (\<not> done \<or> enq) then p\<lparr>tp_ch := tp_ch p @ [frame]\<rparr>
      else if done then p
      else p\<lparr>tp_drops := tp_drops p + 1\<rparr>)"

text \<open>
  One round of \<^verbatim>\<open>run\<close>: the first frame and those that are queued when the drain loop
  looks, up to a batch (\<open>extra\<close> of them), and as many of these as \<^verbatim>\<open>GetDescs\<close> finds free
  descriptors for (\<open>free\<close>).
\<close>

definition pumpRound :: "nat \<Rightarrow> nat \<Rightarrow> txPump \<Rightarrow> txPump" where
  "pumpRound extra free p =
     (case tp_ch p of
        [] \<Rightarrow> p
      | m # rest \<Rightarrow>
          let batch = m # take (min extra (txPumpBatch - 1)) rest;
              got = min free (length batch)
          in p\<lparr>tp_ch := drop (length batch) (tp_ch p),
               tp_sent := tp_sent p @ map (take txPumpFrameCap) (take got batch),
               tp_drops := tp_drops p + (length batch - got)\<rparr>)"

subsection \<open>State of a connection\<close>

definition ethHdr :: nat where "ethHdr = 14"
definition quicShardCap :: nat where "quicShardCap = 1024"

record quicFrame =
  qf_addr :: udpAddr
  qf_data :: bytes

text \<open>
  The forward handler is a callback over some state \<open>'s\<close> of its own. The pointer to
  the neighbour table is nil until something is learned, which behaves like the empty
  table. \<open>c_filled\<close> logs the descriptors given back to the fill ring of a queue.
\<close>

record 's Conn =
  c_txPumps :: "txPump list"
  c_localAddr :: udpAddr
  c_srcMAC :: mac
  c_gwMAC :: mac
  c_neigh :: "bytes \<rightharpoonup> mac"
  c_arpPending :: "bytes list"
  c_done :: bool
  c_quicShards :: "quicFrame list list"
  c_rxNotify :: bool
  c_rxPending :: "quicFrame list"
  c_rxPendIdx :: nat
  c_fwdHandler :: "(bytes \<Rightarrow> bytes \<Rightarrow> 's \<Rightarrow> bool \<times> 's) option"
  c_quicChDrops :: nat
  c_fwdDrops :: nat
  c_filled :: "(nat \<times> nat) list"

definition SetForwardHandler :: "(bytes \<Rightarrow> bytes \<Rightarrow> 's \<Rightarrow> bool \<times> 's) \<Rightarrow> 's Conn \<Rightarrow> 's Conn" where
  "SetForwardHandler h c = c\<lparr>c_fwdHandler := Some h\<rparr>"

text \<open>The connection \<^verbatim>\<open>NewConn\<close> returns once its sockets are bound.\<close>

definition newConn :: "nat \<Rightarrow> udpAddr \<Rightarrow> mac \<Rightarrow> mac \<Rightarrow> 's Conn" where
  "newConn numQueues localAddr srcMAC gwMAC =
     \<lparr>c_txPumps = replicate numQueues newTxPump, c_localAddr = localAddr, c_srcMAC = srcMAC, c_gwMAC = gwMAC,
      c_neigh = Map.empty, c_arpPending = [], c_done = False, c_quicShards = replicate numQueues [], c_rxNotify = False,
      c_rxPending = [], c_rxPendIdx = 0, c_fwdHandler = None, c_quicChDrops = 0, c_fwdDrops = 0, c_filled = []\<rparr>"

subsection \<open>Next hops\<close>

definition macEq :: "mac \<Rightarrow> bytes \<Rightarrow> bool" where
  "macEq a b = (if length a \<noteq> 6 \<or> length b < 6 then False else take 6 a = take 6 b)"

text \<open>The check without the lock and its repetition under the lock see the same table in one step.\<close>

definition learnNeighbour :: "bytes \<Rightarrow> bytes \<Rightarrow> 's Conn \<Rightarrow> 's Conn" where
  "learnNeighbour ip mac c =
     (if (case c_neigh c ip of Some cur \<Rightarrow> macEq cur mac | None \<Rightarrow> False) then c
      else c\<lparr>c_neigh := (c_neigh c)(ip \<mapsto> blit (replicate 6 0) 0 6 mac)\<rparr>)"

definition NextHopMACForIP :: "bytes \<Rightarrow> 's Conn \<Rightarrow> mac" where
  "NextHopMACForIP ip c =
     (case AddrFromSlice ip of
        None \<Rightarrow> c_gwMAC c
      | Some a \<Rightarrow> (case c_neigh c (Unmap a) of Some mac \<Rightarrow> mac | None \<Rightarrow> c_gwMAC c))"

text \<open>
  \<^verbatim>\<open>LanNextHopMAC\<close>: \<open>arp\<close> is the kernel's neighbour table. A cold miss marks the
  destination as being probed; the probe itself is a separate goroutine.
\<close>

definition LanNextHopMAC :: "(bytes \<Rightarrow> mac option) \<Rightarrow> bytes \<Rightarrow> 's Conn \<Rightarrow> mac \<times> 's Conn" where
  "LanNextHopMAC arp dst c =
     (case AddrFromSlice dst of
        None \<Rightarrow> ([], c)
      | Some a \<Rightarrow>
          let a = Unmap a in
          (case c_neigh c a of
             Some mac \<Rightarrow> (mac, c)
           | None \<Rightarrow>
               (case arp a of
                  Some mac \<Rightarrow>
                    if length mac = 6 then (mac, learnNeighbour a mac c)
                    else ([], c\<lparr>c_arpPending := List.insert a (c_arpPending c)\<rparr>)
                | None \<Rightarrow> ([], c\<lparr>c_arpPending := List.insert a (c_arpPending c)\<rparr>))))"

text \<open>One attempt of the probing goroutine, and its end.\<close>

definition probeAttempt :: "(bytes \<Rightarrow> mac option) \<Rightarrow> bytes \<Rightarrow> 's Conn \<Rightarrow> 's Conn" where
  "probeAttempt arp a c =
     (case arp a of
        Some mac \<Rightarrow> if length mac = 6 then learnNeighbour a mac c else c
      | None \<Rightarrow> c)"

definition probeDone :: "bytes \<Rightarrow> 's Conn \<Rightarrow> 's Conn" where
  "probeDone a c = c\<lparr>c_arpPending := removeAll a (c_arpPending c)\<rparr>"

subsection \<open>Receiving\<close>

definition refill :: "nat \<Rightarrow> nat \<Rightarrow> 's Conn \<Rightarrow> 's Conn" where
  "refill idx desc c = c\<lparr>c_filled := c_filled c @ [(idx, desc)]\<rparr>"

definition dispatchQUIC :: "nat \<Rightarrow> bytes \<Rightarrow> nat \<Rightarrow> nat \<Rightarrow> 's Conn \<Rightarrow> 's Conn" where
  "dispatchQUIC idx frame desc ihl c =
     (let udpBase = ethHdr + ihl in
      if length frame < udpBase + 8 then refill idx desc c
      else
        let srcPort = get16 frame udpBase;
            payload = drop (udpBase + 8) frame;
            srcIP = slice frame (ethHdr + 12) (ethHdr + 16);
            c = refill idx desc c
        in if length (c_quicShards c ! idx) \<ge> quicShardCap
           then c\<lparr>c_quicChDrops := c_quicChDrops c + 1\<rparr>
           else c\<lparr>c_quicShards := (c_quicShards c)[idx := c_quicShards c ! idx @
                    [\<lparr>qf_addr = \<lparr>ua_IP = srcIP, ua_Port = uint srcPort\<rparr>, qf_data = payload\<rparr>]],
                  c_rxNotify := True\<rparr>)"

definition dispatchFwd :: "nat \<Rightarrow> bytes \<Rightarrow> nat \<Rightarrow> 's Conn \<Rightarrow> 's \<Rightarrow> 's Conn \<times> 's" where
  "dispatchFwd idx frame desc c s =
     (if length frame \<le> ethHdr + 20 then (refill idx desc c, s)
      else
        let ipPkt = drop ethHdr frame;
            dstIP = (if drop_bit 4 (ipPkt ! 0) = 4 then Some (slice ipPkt 16 20) else None);
            (delivered, s) = (case (c_fwdHandler c, dstIP) of
                 (Some h, Some d) \<Rightarrow> h ipPkt d s
               | _ \<Rightarrow> (False, s));
            c = (if \<not> delivered then c\<lparr>c_fwdDrops := c_fwdDrops c + 1\<rparr> else c)
        in (refill idx desc c, s))"

definition dispatchFrame :: "nat \<Rightarrow> bytes \<Rightarrow> nat \<Rightarrow> 's Conn \<Rightarrow> 's \<Rightarrow> 's Conn \<times> 's" where
  "dispatchFrame idx frame desc c s =
     (if length frame < ethHdr + 1 then (refill idx desc c, s)
      else
        let ethertype = get16 frame 12 in
        if ethertype = 0x0800 then
          (if length frame < ethHdr + 20 then (refill idx desc c, s)
           else
             let ihl = unat (frame ! ethHdr AND 0x0f) * 4;
                 proto = frame ! (ethHdr + 9);
                 udpBase = ethHdr + ihl
             in if proto = 17 \<and> length frame \<ge> udpBase + 4 \<and> get16 frame (udpBase + 2) = 443
                then (dispatchQUIC idx frame desc ihl c, s)
                else dispatchFwd idx frame desc c s)
        else if ethertype = 0x86DD then dispatchFwd idx frame desc c s
        else (refill idx desc c, s))"

text \<open>The body of the loop of \<^verbatim>\<open>dispatchSocket\<close> for one received descriptor.\<close>

definition receiveFrame :: "nat \<Rightarrow> bytes \<Rightarrow> nat \<Rightarrow> 's Conn \<Rightarrow> 's \<Rightarrow> 's Conn \<times> 's" where
  "receiveFrame idx frame desc c s =
     (let c = (if length frame \<ge> ethHdr + 20 \<and> get16 frame 12 = 0x0800
               then learnNeighbour (slice frame (ethHdr + 12) (ethHdr + 16)) (slice frame 6 12) c else c)
      in dispatchFrame idx frame desc c s)"

text \<open>
  \<^verbatim>\<open>ReadFrom\<close> into a buffer of length \<open>plen\<close>: a payload and its source, the error after
  \<^verbatim>\<open>Close\<close>, or waiting for a notification.
\<close>

datatype readResult = Got bytes udpAddr | Closed | Waits

definition noFrame :: quicFrame where
  "noFrame = \<lparr>qf_addr = \<lparr>ua_IP = [], ua_Port = 0\<rparr>, qf_data = []\<rparr>"

definition servePending :: "nat \<Rightarrow> 's Conn \<Rightarrow> readResult \<times> 's Conn" where
  "servePending plen c =
     (let f = c_rxPending c ! c_rxPendIdx c
      in (Got (take plen (qf_data f)) (qf_addr f),
          c\<lparr>c_rxPending := (c_rxPending c)[c_rxPendIdx c := noFrame], c_rxPendIdx := c_rxPendIdx c + 1\<rparr>))"

definition sweepShards :: "'s Conn \<Rightarrow> 's Conn" where
  "sweepShards c = c\<lparr>c_rxPending := concat (c_quicShards c), c_rxPendIdx := 0,
     c_quicShards := map (\<lambda>_. []) (c_quicShards c)\<rparr>"

definition ReadFrom :: "nat \<Rightarrow> 's Conn \<Rightarrow> readResult \<times> 's Conn" where
  "ReadFrom plen c =
     (if c_rxPendIdx c < length (c_rxPending c) then servePending plen c
      else
        let c = sweepShards c in
        if c_rxPending c \<noteq> [] then servePending plen c
        else if c_done c then (Closed, c)
        else (Waits, c\<lparr>c_rxNotify := False\<rparr>))"

subsection \<open>Transmitting\<close>

fun fnvLoop :: "u64 \<Rightarrow> bytes \<Rightarrow> u64" where
  "fnvLoop h [] = h"
| "fnvLoop h (b # bs) = fnvLoop ((h XOR ucast b) * 1099511628211) bs"

definition txSocketIdx :: "udpAddr \<Rightarrow> 's Conn \<Rightarrow> nat" where
  "txSocketIdx dst c =
     (let h = fnvLoop 1469598103934665603 (ua_IP dst);
          h = (h XOR ucast (word_of_int (ua_Port dst) :: u16)) * 1099511628211
      in unat (h mod of_nat (length (c_txPumps c))))"

definition buildUDPFrame :: "bytes \<Rightarrow> mac \<Rightarrow> mac \<Rightarrow> udpAddr \<Rightarrow> udpAddr \<Rightarrow> bytes \<Rightarrow> bytes \<times> nat" where
  "buildUDPFrame frame srcMAC dstMAC src dst payload =
     (let frame = blit frame 0 6 dstMAC;
          frame = blit frame 6 12 srcMAC;
          frame = frame[12 := 0x08, 13 := 0x00];
          ipLen = 20 + 8 + length payload;
          frame = frame[14 := 0x45, 15 := 0x00];
          frame = put16 frame 16 (of_nat ipLen);
          frame = put16 frame 18 0;
          frame = put16 frame 20 0x4000;
          frame = frame[22 := 64, 23 := 17, 24 := 0, 25 := 0];
          frame = blit frame 26 30 (To4 (ua_IP src));
          frame = blit frame 30 34 (To4 (ua_IP dst));
          frame = put16 frame 24 (ipv4Checksum (slice frame 14 34));
          frame = put16 frame 34 (word_of_int (ua_Port src));
          frame = put16 frame 36 (word_of_int (ua_Port dst));
          frame = put16 frame 38 (of_nat (8 + length payload));
          frame = frame[40 := 0, 41 := 0];
          frame = blit frame 42 (length frame) payload
      in (frame, 42 + length payload))"

text \<open>
  A remote address that is no UDP address is \<open>None\<close>. A frame longer than the buffer
  makes the slice expression \<^verbatim>\<open>frame[:total]\<close> panic.
\<close>

datatype connError = ErrClosed | ErrNotUDP | SlicePanic

definition WriteTo :: "bool \<Rightarrow> bytes \<Rightarrow> udpAddr option \<Rightarrow> 's Conn \<Rightarrow> (connError + nat) \<times> 's Conn" where
  "WriteTo enq p addr c =
     (if c_done c then (Inl ErrClosed, c)
      else case addr of
        None \<Rightarrow> (Inl ErrNotUDP, c)
      | Some dst \<Rightarrow>
          let idx = txSocketIdx dst c;
              dstMAC = NextHopMACForIP (ua_IP dst) c;
              (frame, total) = buildUDPFrame (replicate txPumpFrameCap 0) (c_srcMAC c) dstMAC (c_localAddr c) dst p
          in if total > txPumpFrameCap then (Inl SlicePanic, c)
             else (Inr (length p), c\<lparr>c_txPumps := (c_txPumps c)[idx := Submit (c_done c) enq (take total frame) (c_txPumps c ! idx)]\<rparr>))"

fun writeFrames :: "bool \<Rightarrow> mac \<Rightarrow> udpAddr \<Rightarrow> nat \<Rightarrow> bytes \<Rightarrow> bytes list \<Rightarrow> 's Conn \<Rightarrow> connError option \<times> 's Conn" where
  "writeFrames enq dstMAC dst idx frame [] c = (None, c)"
| "writeFrames enq dstMAC dst idx frame (p # ps) c =
     (let (frame, total) = buildUDPFrame frame (c_srcMAC c) dstMAC (c_localAddr c) dst p
      in if total > length frame then (Some SlicePanic, c)
         else writeFrames enq dstMAC dst idx frame ps
                (c\<lparr>c_txPumps := (c_txPumps c)[idx := Submit (c_done c) enq (take total frame) (c_txPumps c ! idx)]\<rparr>))"

definition WriteBatch :: "bool \<Rightarrow> bytes list \<Rightarrow> udpAddr option \<Rightarrow> 's Conn \<Rightarrow> connError option \<times> 's Conn" where
  "WriteBatch enq pkts addr c =
     (if c_done c then (Some ErrClosed, c)
      else case addr of
        None \<Rightarrow> (Some ErrNotUDP, c)
      | Some dst \<Rightarrow>
          if pkts = [] then (None, c)
          else writeFrames enq (NextHopMACForIP (ua_IP dst) c) dst (txSocketIdx dst c) (replicate txPumpFrameCap 0) pkts c)"

definition CloseConn :: "'s Conn \<Rightarrow> 's Conn" where
  "CloseConn c = c\<lparr>c_done := True\<rparr>"


subsection \<open>The frame that is built\<close>

lemma length_blit [simp]: "length (blit b i j xs) = length b"
  by (auto simp: blit_def Let_def min_def)

lemma blit_skip:
  assumes "length xs \<le> i" "i \<le> j"
  shows "blit (xs @ ys) i j zs = xs @ blit ys (i - length xs) (j - length xs) zs"
proof -
  have "min j (length (xs @ ys)) - i = min (j - length xs) (length ys) - (i - length xs)"
    using assms by (auto simp: min_def)
  then show ?thesis using assms by (simp add: blit_def Let_def)
qed

lemma blit_Cons: "0 < i \<Longrightarrow> i \<le> j \<Longrightarrow> blit (x # ys) i j zs = x # blit ys (i - 1) (j - 1) zs"
  using blit_skip [of "[x]" i j ys zs] by simp

lemma blit_here: "length zs = j \<Longrightarrow> length xs = j \<Longrightarrow> blit (xs @ ys) 0 j zs = zs @ ys"
  by (simp add: blit_def)

lemma blit_tail: "length zs \<le> length ys \<Longrightarrow> blit ys 0 (length ys) zs = zs @ drop (length zs) ys"
  by (simp add: blit_def)

definition ipHeader :: "bytes \<Rightarrow> bytes \<Rightarrow> nat \<Rightarrow> u16 \<Rightarrow> bytes" where
  "ipHeader src dst n csum = (let l = of_nat n :: u16 in
     [0x45, 0, hi8 l, lo8 l, 0, 0, 0x40, 0, 64, 17, hi8 csum, lo8 csum] @ src @ dst)"

definition udpFrame :: "mac \<Rightarrow> mac \<Rightarrow> bytes \<Rightarrow> bytes \<Rightarrow> u16 \<Rightarrow> u16 \<Rightarrow> bytes \<Rightarrow> bytes" where
  "udpFrame dstMAC srcMAC src dst sport dport payload =
     (let h = ipHeader src dst (28 + length payload) 0; l = of_nat (8 + length payload) :: u16 in
      dstMAC @ srcMAC @ [0x08, 0] @ ipHeader src dst (28 + length payload) (ipv4Checksum h) @
      [hi8 sport, lo8 sport, hi8 dport, lo8 dport, hi8 l, lo8 l, 0, 0] @ payload)"

lemma length_udpFrame:
  "length dm = 6 \<Longrightarrow> length sm = 6 \<Longrightarrow> length a = 4 \<Longrightarrow> length b = 4 \<Longrightarrow> length (udpFrame dm sm a b sp dp payload) = 42 + length payload"
  by (simp add: udpFrame_def ipHeader_def Let_def)

lemma split_at:
  assumes "n \<le> length f"
  obtains x y where "f = x @ y" "length x = n" "length y = length f - n"
  using assms that [of "take n f" "drop n f"] by simp

lemma explicit14:
  assumes "length M = 14"
  obtains a b c d e f g h i j k l m n where "M = [a, b, c, d, e, f, g, h, i, j, k, l, m, n]"
  using assms by (auto simp: numeral_eq_Suc length_Suc_conv)

lemma explicit8:
  assumes "length M = 8"
  obtains a b c d e f g h where "M = [a, b, c, d, e, f, g, h]"
  using assms by (auto simp: numeral_eq_Suc length_Suc_conv)

lemma hi8_0 [simp]: "hi8 0 = 0" and lo8_0 [simp]: "lo8 0 = 0"
  and hi8_DF [simp]: "hi8 0x4000 = 0x40" and lo8_DF [simp]: "lo8 0x4000 = 0"
  by (simp_all add: hi8_def lo8_def)

lemma build_prefix:
  assumes macs: "length dm = 6" "length sm = 6" and ips: "length (To4 (ua_IP src)) = 4" "length (To4 (ua_IP dst)) = 4"
    and f: "42 + length payload \<le> length f" and b: "buildUDPFrame f sm dm src dst payload = (f', tot)"
  shows "take tot f' = udpFrame dm sm (To4 (ua_IP src)) (To4 (ua_IP dst)) (word_of_int (ua_Port src)) (word_of_int (ua_Port dst)) payload"
    "tot = 42 + length payload" "length f' = length f"
proof -
  have "6 \<le> length f" using f by simp
  from split_at [OF this] obtain D r1 where 1: "f = D @ r1" "length D = 6" "length r1 = length f - 6" .
  have "6 \<le> length r1" using f 1(3) by simp
  from split_at [OF this] obtain S r2 where 2: "r1 = S @ r2" "length S = 6" "length r2 = length r1 - 6" .
  have "14 \<le> length r2" using f 1(3) 2(3) by simp
  from split_at [OF this] obtain M r3 where 3: "r2 = M @ r3" "length M = 14" "length r3 = length r2 - 14" .
  have "4 \<le> length r3" using f 1(3) 2(3) 3(3) by simp
  from split_at [OF this] obtain A r4 where 4: "r3 = A @ r4" "length A = 4" "length r4 = length r3 - 4" .
  have "4 \<le> length r4" using f 1(3) 2(3) 3(3) 4(3) by simp
  from split_at [OF this] obtain B r5 where 5: "r4 = B @ r5" "length B = 4" "length r5 = length r4 - 4" .
  have "8 \<le> length r5" using f 1(3) 2(3) 3(3) 4(3) 5(3) by simp
  from split_at [OF this] obtain U P where 6: "r5 = U @ P" "length U = 8" "length P = length r5 - 8" .
  obtain m0 m1 m2 m3 m4 m5 m6 m7 m8 m9 m10 m11 m12 m13 where M: "M = [m0, m1, m2, m3, m4, m5, m6, m7, m8, m9, m10, m11, m12, m13]"
    using explicit14 [OF 3(2)] .
  obtain u0 u1 u2 u3 u4 u5 u6 u7 where U: "U = [u0, u1, u2, u3, u4, u5, u6, u7]" using explicit8 [OF 6(2)] .
  have lp: "length payload \<le> length P" using 1(3) 2(3) 3(3) 4(3) 5(3) 6(3) f by simp
  have fe: "f = D @ S @ [m0, m1, m2, m3, m4, m5, m6, m7, m8, m9, m10, m11, m12, m13] @ A @ B @ [u0, u1, u2, u3, u4, u5, u6, u7] @ P"
    using 1(1) 2(1) 3(1) 4(1) 5(1) 6(1) M U by simp
  note evals = blit_skip blit_Cons blit_here blit_tail [OF lp] list_update_append put16_def slice_def
  have "(f', tot) = (udpFrame dm sm (To4 (ua_IP src)) (To4 (ua_IP dst)) (word_of_int (ua_Port src)) (word_of_int (ua_Port dst)) payload @
      drop (length payload) P, 42 + length payload)"
    using b macs ips 1(2) 2(2) 4(2) 5(2) unfolding buildUDPFrame_def Let_def fe
    by (simp add: evals udpFrame_def ipHeader_def Let_def)
  then show "take tot f' = udpFrame dm sm (To4 (ua_IP src)) (To4 (ua_IP dst)) (word_of_int (ua_Port src)) (word_of_int (ua_Port dst)) payload"
    "tot = 42 + length payload" "length f' = length f"
    using length_udpFrame [OF macs ips] lp 1(3) 2(3) 3(3) 4(3) 5(3) 6(3) f by simp_all
qed


lemma ipHeader_length: "length a = 4 \<Longrightarrow> length b = 4 \<Longrightarrow> length (ipHeader a b n cs) = 20"
  by (simp add: ipHeader_def Let_def)

lemma ipHeader_put: "put16 (ipHeader a b n cs) 10 v = ipHeader a b n v"
  by (simp add: ipHeader_def Let_def put16_def)

lemma ipHeader_checksum:
  assumes "length a = 4" "length b = 4"
  shows "csum_valid (wsum (ipHeader a b n (ipv4Checksum (ipHeader a b n 0))))"
proof -
  let ?h = "ipHeader a b n 0"
  have l: "length ?h = 20" using ipHeader_length [OF assms] .
  have u: "unat (ipv4_words ?h 0) = wsum (put16 ?h 10 0)"
    using unat_ipv4_words [of ?h 0] wsum_fits [of ?h] l by (simp add: ipHeader_put)
  have "?h ! 0 \<noteq> 0" by (simp add: ipHeader_def Let_def)
  then have "0 < unat (ipv4_words ?h 0)" using u wsum_pos [of 0 ?h] l by (simp add: ipHeader_put)
  then show ?thesis using stored_checksum_valid [of 10 ?h, OF _ _ u] l by (simp add: ipHeader_put ipv4Checksum_def)
qed

text \<open>The fields a receiver reads from the frame.\<close>

lemma udpFrame_fields:
  assumes "length dm = 6" "length sm = 6" "length a = 4" "length b = 4"
    and f_def: "f = udpFrame dm sm a b sp dp payload"
  shows "get16 f 12 = 0x0800" "f ! 14 = 0x45" "f ! 23 = 17" "get16 f 34 = sp" "get16 f 36 = dp" "drop 42 f = payload"
    "slice f 26 30 = a" "slice f 30 34 = b" "slice f 6 12 = sm" "slice f 0 6 = dm" "slice f 14 34 = ipHeader a b (28 + length payload) (ipv4Checksum (ipHeader a b (28 + length payload) 0))"
    "get16 f 16 = of_nat (28 + length payload)" "get16 f 38 = of_nat (8 + length payload)"
proof -
  have b: "be16 8 0 = 0x0800" by (simp add: be16_def)
  show "get16 f 12 = 0x0800" "f ! 14 = 0x45" "f ! 23 = 17" "get16 f 34 = sp" "get16 f 36 = dp" "drop 42 f = payload"
    "slice f 26 30 = a" "slice f 30 34 = b" "slice f 6 12 = sm" "slice f 0 6 = dm" "get16 f 16 = of_nat (28 + length payload)" "get16 f 38 = of_nat (8 + length payload)"
    using assms(1-4) b by (simp_all add: f_def udpFrame_def ipHeader_def Let_def get16_def slice_def nth_append)
  show "slice f 14 34 = ipHeader a b (28 + length payload) (ipv4Checksum (ipHeader a b (28 + length payload) 0))"
    using assms(1-4) ipHeader_length [OF assms(3,4)] by (simp add: f_def udpFrame_def Let_def slice_def)
qed


subsection \<open>What reception does\<close>

text \<open>The QUIC payload a received frame carries: IPv4, UDP, destination port 443.\<close>

definition quicOf :: "bytes \<Rightarrow> quicFrame option" where
  "quicOf frame =
     (let u = ethHdr + unat (frame ! ethHdr AND 0x0f) * 4 in
      if ethHdr + 20 \<le> length frame \<and> get16 frame 12 = 0x0800 \<and> frame ! (ethHdr + 9) = 17 \<and> u + 8 \<le> length frame \<and>
         get16 frame (u + 2) = 443
      then Some \<lparr>qf_addr = \<lparr>ua_IP = slice frame (ethHdr + 12) (ethHdr + 16), ua_Port = uint (get16 frame u)\<rparr>, qf_data = drop (u + 8) frame\<rparr>
      else None)"

definition accepted :: "nat \<Rightarrow> bytes \<Rightarrow> 's Conn \<Rightarrow> quicFrame list" where
  "accepted idx frame c =
     (case quicOf frame of
        None \<Rightarrow> []
      | Some f \<Rightarrow> if length (c_quicShards c ! idx) < quicShardCap then [f] else [])"

lemma learn_frame [simp]:
  "c_quicShards (learnNeighbour ip m c) = c_quicShards c" "c_rxPending (learnNeighbour ip m c) = c_rxPending c"
  "c_rxPendIdx (learnNeighbour ip m c) = c_rxPendIdx c" "c_quicChDrops (learnNeighbour ip m c) = c_quicChDrops c"
  "c_filled (learnNeighbour ip m c) = c_filled c" "c_txPumps (learnNeighbour ip m c) = c_txPumps c"
  "c_done (learnNeighbour ip m c) = c_done c" "c_gwMAC (learnNeighbour ip m c) = c_gwMAC c"
  "c_srcMAC (learnNeighbour ip m c) = c_srcMAC c" "c_localAddr (learnNeighbour ip m c) = c_localAddr c"
  "c_fwdHandler (learnNeighbour ip m c) = c_fwdHandler c"
  by (auto simp: learnNeighbour_def split: option.split)

lemma dispatchFwd_keeps:
  assumes "dispatchFwd idx frame desc c s = (c', s')"
  shows "c_quicShards c' = c_quicShards c" "c_rxPending c' = c_rxPending c" "c_rxPendIdx c' = c_rxPendIdx c"
    "c_quicChDrops c' = c_quicChDrops c" "c_filled c' = c_filled c @ [(idx, desc)]" "c_neigh c' = c_neigh c" "c_gwMAC c' = c_gwMAC c"
  using assms by (auto simp: dispatchFwd_def refill_def Let_def split: if_splits prod.splits)

lemma dispatchFrame_spec:
  assumes "dispatchFrame idx frame desc c s = (c', s')" "idx < length (c_quicShards c)"
  shows "c_quicShards c' = (c_quicShards c)[idx := c_quicShards c ! idx @ accepted idx frame c]"
    "c_rxPending c' = c_rxPending c" "c_rxPendIdx c' = c_rxPendIdx c" "c_filled c' = c_filled c @ [(idx, desc)]"
    "c_quicChDrops c' + length (accepted idx frame c) = c_quicChDrops c + (if quicOf frame = None then 0 else 1)"
    "c_neigh c' = c_neigh c" "c_gwMAC c' = c_gwMAC c"
proof -
  let ?ihl = "unat (frame ! ethHdr AND 0x0f) * 4"
  let ?q = "ethHdr + 20 \<le> length frame \<and> get16 frame 12 = 0x0800 \<and> frame ! (ethHdr + 9) = 17 \<and>
      ethHdr + ?ihl + 4 \<le> length frame \<and> get16 frame (ethHdr + ?ihl + 2) = 443"
  consider (quic) "?q" "c' = dispatchQUIC idx frame desc ?ihl c" | (fwd) "\<not> ?q" "dispatchFwd idx frame desc c s = (c', s')"
    | (drop) "\<not> ?q" "c' = refill idx desc c"
    using assms(1) by (auto simp: dispatchFrame_def Let_def split: if_splits)
  then have "c_quicShards c' = (c_quicShards c)[idx := c_quicShards c ! idx @ accepted idx frame c] \<and>
    c_rxPending c' = c_rxPending c \<and> c_rxPendIdx c' = c_rxPendIdx c \<and> c_filled c' = c_filled c @ [(idx, desc)] \<and>
    c_quicChDrops c' + length (accepted idx frame c) = c_quicChDrops c + (if quicOf frame = None then 0 else 1) \<and>
    c_neigh c' = c_neigh c \<and> c_gwMAC c' = c_gwMAC c"
  proof cases
    case quic
    then show ?thesis by (auto simp: dispatchQUIC_def refill_def accepted_def quicOf_def Let_def)
  next
    case fwd
    have "quicOf frame = None" using fwd(1) by (auto simp: quicOf_def Let_def)
    then show ?thesis using dispatchFwd_keeps [OF fwd(2)] by (simp add: accepted_def)
  next
    case drop
    have "quicOf frame = None" using drop(1) by (auto simp: quicOf_def Let_def)
    then show ?thesis using drop(2) by (simp add: accepted_def refill_def)
  qed
  then show "c_quicShards c' = (c_quicShards c)[idx := c_quicShards c ! idx @ accepted idx frame c]"
    "c_rxPending c' = c_rxPending c" "c_rxPendIdx c' = c_rxPendIdx c" "c_filled c' = c_filled c @ [(idx, desc)]"
    "c_quicChDrops c' + length (accepted idx frame c) = c_quicChDrops c + (if quicOf frame = None then 0 else 1)"
    "c_neigh c' = c_neigh c" "c_gwMAC c' = c_gwMAC c" by auto
qed

lemma receiveFrame_spec:
  assumes "receiveFrame idx frame desc c s = (c', s')" "idx < length (c_quicShards c)"
  shows "c_quicShards c' = (c_quicShards c)[idx := c_quicShards c ! idx @ accepted idx frame c]"
    "c_rxPending c' = c_rxPending c" "c_rxPendIdx c' = c_rxPendIdx c" "c_filled c' = c_filled c @ [(idx, desc)]"
    "c_quicChDrops c' + length (accepted idx frame c) = c_quicChDrops c + (if quicOf frame = None then 0 else 1)"
    "c_neigh c' = c_neigh (if length frame \<ge> ethHdr + 20 \<and> get16 frame 12 = 0x0800
       then learnNeighbour (slice frame (ethHdr + 12) (ethHdr + 16)) (slice frame 6 12) c else c)" "c_gwMAC c' = c_gwMAC c"
proof -
  let ?c1 = "if length frame \<ge> ethHdr + 20 \<and> get16 frame 12 = 0x0800
       then learnNeighbour (slice frame (ethHdr + 12) (ethHdr + 16)) (slice frame 6 12) c else c"
  have 1: "dispatchFrame idx frame desc ?c1 s = (c', s')" using assms(1) by (simp add: receiveFrame_def Let_def)
  have sh: "c_quicShards ?c1 = c_quicShards c" "c_rxPending ?c1 = c_rxPending c" "c_rxPendIdx ?c1 = c_rxPendIdx c"
    "c_filled ?c1 = c_filled c" "c_quicChDrops ?c1 = c_quicChDrops c" "c_gwMAC ?c1 = c_gwMAC c" by simp_all
  have ac: "accepted idx frame ?c1 = accepted idx frame c" using sh(1) by (simp only: accepted_def)
  note sp = dispatchFrame_spec [OF 1, unfolded sh ac, OF assms(2)]
  show "c_quicShards c' = (c_quicShards c)[idx := c_quicShards c ! idx @ accepted idx frame c]"
    "c_rxPending c' = c_rxPending c" "c_rxPendIdx c' = c_rxPendIdx c" "c_filled c' = c_filled c @ [(idx, desc)]"
    "c_quicChDrops c' + length (accepted idx frame c) = c_quicChDrops c + (if quicOf frame = None then 0 else 1)"
    "c_neigh c' = c_neigh ?c1" "c_gwMAC c' = c_gwMAC c" by (fact sp)+
qed


subsection \<open>Queues of QUIC payloads\<close>

text \<open>What is queued for a remote address: the rest of the batch being read, then the shards.\<close>

definition held :: "udpAddr \<Rightarrow> 's Conn \<Rightarrow> quicFrame list" where
  "held a c = filter (\<lambda>f. qf_addr f = a) (drop (c_rxPendIdx c) (c_rxPending c) @ concat (c_quicShards c))"

text \<open>
  \<open>q\<close> is the queue the NIC hashes a remote address to. The invariant: frames are in the
  shard of their queue, no shard exceeds its capacity.
\<close>

definition rx_inv :: "nat \<Rightarrow> (udpAddr \<Rightarrow> nat) \<Rightarrow> 's Conn \<Rightarrow> bool" where
  "rx_inv n q c \<longleftrightarrow> length (c_quicShards c) = n \<and> c_rxPendIdx c \<le> length (c_rxPending c) \<and>
     (\<forall>i < n. length (c_quicShards c ! i) \<le> quicShardCap \<and> (\<forall>f \<in> set (c_quicShards c ! i). q (qf_addr f) = i))"

lemma concat_filter_one:
  assumes "i < length ss" "\<forall>j < length ss. j \<noteq> i \<longrightarrow> filter P (ss ! j) = []"
  shows "filter P (concat ss) = filter P (ss ! i)"
proof -
  have "filter P (concat (take i ss)) = []" "filter P (concat (drop (Suc i) ss)) = []"
    using assms by (auto simp: in_set_conv_nth filter_concat)
  moreover have "filter P (concat ss) = filter P (concat (take i ss)) @ filter P (ss ! i) @ filter P (concat (drop (Suc i) ss))"
    using arg_cong [OF id_take_nth_drop [OF assms(1)], of "\<lambda>s. filter P (concat s)"] by simp
  ultimately show ?thesis by simp
qed

lemma shard_filter:
  assumes "rx_inv n q c" "i < n" "q a = i"
  shows "filter (\<lambda>f. qf_addr f = a) (concat (c_quicShards c)) = filter (\<lambda>f. qf_addr f = a) (c_quicShards c ! i)"
  using assms by (intro concat_filter_one) (auto simp: rx_inv_def filter_empty_conv)

lemma receive_held:
  assumes inv: "rx_inv n q c" and i: "idx < n" and r: "receiveFrame idx frame desc c s = (c', s')"
    and rss: "\<forall>f. quicOf frame = Some f \<longrightarrow> q (qf_addr f) = idx"
  shows "rx_inv n q c'" "held a c' = held a c @ filter (\<lambda>f. qf_addr f = a) (accepted idx frame c)"
proof -
  have l: "idx < length (c_quicShards c)" using inv i by (simp add: rx_inv_def)
  note sp = receiveFrame_spec [OF r l]
  have acc: "\<forall>f \<in> set (accepted idx frame c). q (qf_addr f) = idx"
    using rss by (auto simp: accepted_def split: option.splits if_splits)
  have room: "length (c_quicShards c ! idx) + length (accepted idx frame c) \<le> quicShardCap"
    using inv i by (auto simp: accepted_def rx_inv_def split: option.splits)
  have nthc': "c_quicShards c' ! j = (if j = idx then c_quicShards c ! idx @ accepted idx frame c else c_quicShards c ! j)" for j
    using sp(1) l by (auto simp: nth_list_update)
  have len': "length (c_quicShards c') = length (c_quicShards c)" using sp(1) by simp
  show inv': "rx_inv n q c'"
    unfolding rx_inv_def len' nthc' sp(2,3) using inv acc room unfolding rx_inv_def by auto
  show "held a c' = held a c @ filter (\<lambda>f. qf_addr f = a) (accepted idx frame c)"
  proof (cases "q a < n")
    case True
    note sf = shard_filter [OF inv True refl] shard_filter [OF inv' True refl]
    have "q a \<noteq> idx \<longrightarrow> filter (\<lambda>f. qf_addr f = a) (accepted idx frame c) = []" using acc by (auto simp: filter_empty_conv)
    then show ?thesis using sf sp(2,3) by (auto simp: held_def nthc')
  next
    case False
    have none: "filter (\<lambda>f. qf_addr f = a) (concat (c_quicShards d)) = []" if "rx_inv n q d" for d :: "'s Conn"
      using that False by (force simp: rx_inv_def filter_empty_conv in_set_conv_nth [of _ "c_quicShards d"])
    have "filter (\<lambda>f. qf_addr f = a) (accepted idx frame c) = []" using acc False i by (auto simp: filter_empty_conv)
    then show ?thesis using none [OF inv] none [OF inv'] sp(2,3) by (simp add: held_def)
  qed
qed

lemma serve_spec:
  assumes "c_rxPendIdx c < length (c_rxPending c)" "servePending plen c = (r, c')"
  shows "\<exists>f. r = Got (take plen (qf_data f)) (qf_addr f) \<and> (\<forall>a. held a c = (if qf_addr f = a then [f] else []) @ held a c')"
    "c_quicShards c' = c_quicShards c" "c_rxPendIdx c' \<le> length (c_rxPending c')"
proof -
  let ?i = "c_rxPendIdx c"
  have "drop ?i (c_rxPending c) = c_rxPending c ! ?i # drop (Suc ?i) (c_rxPending c)"
    using assms(1) by (simp add: Cons_nth_drop_Suc)
  then show "\<exists>f. r = Got (take plen (qf_data f)) (qf_addr f) \<and> (\<forall>a. held a c = (if qf_addr f = a then [f] else []) @ held a c')"
    using assms(2) by (intro exI [of _ "c_rxPending c ! ?i"]) (auto simp: servePending_def held_def Let_def)
  show "c_quicShards c' = c_quicShards c" "c_rxPendIdx c' \<le> length (c_rxPending c')"
    using assms by (auto simp: servePending_def Let_def)
qed

lemma sweep_held:
  assumes "c_rxPendIdx c \<ge> length (c_rxPending c)" "rx_inv n q c"
  shows "held a (sweepShards c) = held a c" "rx_inv n q (sweepShards c)"
proof -
  have "concat (map (\<lambda>_. []) xs) = []" for xs :: "'z list" by (induction xs) simp_all
  then show "held a (sweepShards c) = held a c" using assms by (simp add: held_def sweepShards_def)
  show "rx_inv n q (sweepShards c)" using assms by (simp add: rx_inv_def sweepShards_def)
qed

lemma read_spec:
  assumes inv: "rx_inv n q c" and r: "ReadFrom plen c = (r, c')"
  shows "rx_inv n q c'"
    "(\<exists>f. r = Got (take plen (qf_data f)) (qf_addr f) \<and> (\<forall>a. held a c = (if qf_addr f = a then [f] else []) @ held a c')) \<or>
     ((r = Closed \<or> r = Waits) \<and> (\<forall>a. held a c = [] \<and> held a c' = []))"
proof -
  consider (pend) "c_rxPendIdx c < length (c_rxPending c)" "servePending plen c = (r, c')"
    | (swept) "c_rxPendIdx c \<ge> length (c_rxPending c)" "c_rxPending (sweepShards c) \<noteq> []" "servePending plen (sweepShards c) = (r, c')"
    | (none) "c_rxPendIdx c \<ge> length (c_rxPending c)" "c_rxPending (sweepShards c) = []" "r = Closed \<or> r = Waits"
        "c' = sweepShards c \<or> c' = (sweepShards c)\<lparr>c_rxNotify := False\<rparr>"
    using r by (auto simp: ReadFrom_def Let_def split: if_splits)
  then have "rx_inv n q c' \<and> ((\<exists>f. r = Got (take plen (qf_data f)) (qf_addr f) \<and> (\<forall>a. held a c = (if qf_addr f = a then [f] else []) @ held a c')) \<or>
     ((r = Closed \<or> r = Waits) \<and> (\<forall>a. held a c = [] \<and> held a c' = [])))"
  proof cases
    case pend
    then show ?thesis using serve_spec [OF pend] inv by (auto simp: rx_inv_def)
  next
    case swept
    note sw = sweep_held [OF swept(1) inv]
    have "c_rxPendIdx (sweepShards c) < length (c_rxPending (sweepShards c))" using swept(2) by (simp add: sweepShards_def)
    from serve_spec [OF this swept(3)] show ?thesis using sw by (auto simp: rx_inv_def)
  next
    case none
    note sw = sweep_held [OF none(1) inv]
    have "held a (sweepShards c) = []" for a using none(2) by (auto simp: held_def sweepShards_def filter_empty_conv)
    then show ?thesis using sw none(3,4) by (auto simp: rx_inv_def held_def)
  qed
  then show "rx_inv n q c'"
    "(\<exists>f. r = Got (take plen (qf_data f)) (qf_addr f) \<and> (\<forall>a. held a c = (if qf_addr f = a then [f] else []) @ held a c')) \<or>
     ((r = Closed \<or> r = Waits) \<and> (\<forall>a. held a c = [] \<and> held a c' = []))" by auto
qed


text \<open>
  A run of the receive side: frames arrive on queues, quic-go reads. The state carries
  the connection, the handler's state, what \<^verbatim>\<open>ReadFrom\<close> returned, and what the shards
  accepted, in order.
\<close>

datatype rxEvent = Rx nat bytes nat | Read nat

fun rxStep :: "rxEvent \<Rightarrow> 's Conn \<times> 's \<times> (udpAddr \<times> bytes) list \<times> quicFrame list
    \<Rightarrow> 's Conn \<times> 's \<times> (udpAddr \<times> bytes) list \<times> quicFrame list" where
  "rxStep (Rx idx frame desc) (c, s, out, acc) =
     (case receiveFrame idx frame desc c s of (c', s') \<Rightarrow> (c', s', out, acc @ accepted idx frame c))"
| "rxStep (Read plen) (c, s, out, acc) =
     (case ReadFrom plen c of
        (Got d a, c') \<Rightarrow> (c', s, out @ [(a, d)], acc)
      | (_, c') \<Rightarrow> (c', s, out, acc))"

text \<open>Frames fit the UMEM frame, arrive on the queue of their flow, and reads use a buffer that can hold a frame.\<close>

fun ev_ok :: "nat \<Rightarrow> (udpAddr \<Rightarrow> nat) \<Rightarrow> rxEvent \<Rightarrow> bool" where
  "ev_ok n q (Rx idx frame desc) \<longleftrightarrow> idx < n \<and> length frame \<le> 4096 \<and> (case quicOf frame of None \<Rightarrow> True | Some f \<Rightarrow> q (qf_addr f) = idx)"
| "ev_ok n q (Read plen) \<longleftrightarrow> 4096 \<le> plen"

definition delivered :: "udpAddr \<Rightarrow> (udpAddr \<times> bytes) list \<Rightarrow> bytes list" where
  "delivered a out = map snd (filter (\<lambda>(b, d). b = a) out)"

definition rx_rel :: "nat \<Rightarrow> (udpAddr \<Rightarrow> nat) \<Rightarrow> 's Conn \<times> 's \<times> (udpAddr \<times> bytes) list \<times> quicFrame list \<Rightarrow> bool" where
  "rx_rel n q x = (case x of (c, s, out, acc) \<Rightarrow> rx_inv n q c \<and>
     (\<forall>a. delivered a out @ map qf_data (held a c) = map qf_data (filter (\<lambda>f. qf_addr f = a) acc)) \<and>
     (\<forall>a. \<forall>f \<in> set (held a c). length (qf_data f) \<le> 4096))"

lemma quicOf_length: "quicOf frame = Some f \<Longrightarrow> length (qf_data f) \<le> length frame"
  by (auto simp: quicOf_def Let_def split: if_splits)

lemma rxStep_rel:
  assumes "rx_rel n q (c, s, out, acc)" "ev_ok n q e" "rxStep e (c, s, out, acc) = (c', s', out', acc')"
  shows "rx_rel n q (c', s', out', acc')"
proof (cases e)
  case (Rx idx frame desc)
  obtain c1 s1 where r: "receiveFrame idx frame desc c s = (c1, s1)" by fastforce
  have inv: "rx_inv n q c" "idx < n" "\<forall>f. quicOf frame = Some f \<longrightarrow> q (qf_addr f) = idx"
    using assms(1,2) Rx by (auto simp: rx_rel_def)
  note rh = receive_held [OF inv(1,2) r inv(3)]
  have "\<forall>f \<in> set (accepted idx frame c). length (qf_data f) \<le> 4096"
    using assms(2) Rx quicOf_length [of frame] by (fastforce simp: accepted_def split: option.splits if_splits)
  then show ?thesis using assms(1,3) Rx r rh by (auto simp: rx_rel_def)
next
  case (Read plen)
  obtain r c1 where r: "ReadFrom plen c = (r, c1)" by fastforce
  have inv: "rx_inv n q c" using assms(1) by (simp add: rx_rel_def)
  from read_spec(2) [OF inv r] show ?thesis
  proof
    assume "\<exists>f. r = Got (take plen (qf_data f)) (qf_addr f) \<and> (\<forall>a. held a c = (if qf_addr f = a then [f] else []) @ held a c1)"
    then obtain f where f: "r = Got (take plen (qf_data f)) (qf_addr f)" "\<forall>a. held a c = (if qf_addr f = a then [f] else []) @ held a c1" by blast
    have "f \<in> set (held (qf_addr f) c)" using f(2) by simp
    then have "take plen (qf_data f) = qf_data f" using assms(1,2) Read by (force simp: rx_rel_def)
    then have st: "c' = c1" "out' = out @ [(qf_addr f, qf_data f)]" "acc' = acc" using assms(3) Read r f(1) by auto
    have rel: "delivered a out @ map qf_data (held a c) = map qf_data (filter (\<lambda>f. qf_addr f = a) acc)" for a
      using assms(1) by (simp add: rx_rel_def)
    have "delivered a out' @ map qf_data (held a c1) = map qf_data (filter (\<lambda>f. qf_addr f = a) acc)" for a
      using rel [of a] f(2) st(2) by (simp add: delivered_def split: if_splits)
    then show ?thesis using st assms(1) f(2) read_spec(1) [OF inv r] by (auto simp: rx_rel_def)
  next
    assume n: "(r = Closed \<or> r = Waits) \<and> (\<forall>a. held a c = [] \<and> held a c1 = [])"
    then have "c' = c1" "out' = out" "acc' = acc" using assms(3) Read r by auto
    then show ?thesis using n assms(1) read_spec(1) [OF inv r] by (auto simp: rx_rel_def)
  qed
qed

lemma rxRun_rel: "rx_rel n q x \<Longrightarrow> list_all (ev_ok n q) es \<Longrightarrow> rx_rel n q (fold rxStep es x)"
proof (induction es arbitrary: x)
  case (Cons e es)
  obtain c s out acc c' s' out' acc' where "x = (c, s, out, acc)" "rxStep e x = (c', s', out', acc')"
    by (metis prod_cases4)
  then show ?case using Cons rxStep_rel [of n q c s out acc e] by auto
qed simp

lemma newConn_rel: "rx_rel n q (newConn n la sm gm, s, [], [])"
  by (auto simp: rx_rel_def rx_inv_def newConn_def held_def delivered_def filter_empty_conv)



subsection \<open>From one connection to another\<close>

lemma quicOf_udpFrame:
  assumes "length dm = 6" "length sm = 6" "length a = 4" "length b = 4"
  shows "quicOf (udpFrame dm sm a b sp 443 payload) = Some \<lparr>qf_addr = \<lparr>ua_IP = a, ua_Port = uint sp\<rparr>, qf_data = payload\<rparr>"
  using udpFrame_fields [OF assms refl, of sp 443 payload] length_udpFrame [OF assms, of sp 443 payload]
  by (simp add: quicOf_def ethHdr_def)

definition macs_ok :: "'s Conn \<Rightarrow> bool" where
  "macs_ok c \<longleftrightarrow> length (c_srcMAC c) = 6 \<and> length (c_gwMAC c) = 6 \<and> (\<forall>ip m. c_neigh c ip = Some m \<longrightarrow> length m = 6)"

lemma nextHop_length: "macs_ok c \<Longrightarrow> length (NextHopMACForIP ip c) = 6"
  by (auto simp: NextHopMACForIP_def macs_ok_def split: option.splits)

definition frameTo :: "'s Conn \<Rightarrow> udpAddr \<Rightarrow> bytes \<Rightarrow> bytes" where
  "frameTo c dst p = udpFrame (NextHopMACForIP (ua_IP dst) c) (c_srcMAC c) (To4 (ua_IP (c_localAddr c))) (To4 (ua_IP dst))
     (word_of_int (ua_Port (c_localAddr c))) (word_of_int (ua_Port dst)) p"

definition queueFrame :: "bool \<Rightarrow> nat \<Rightarrow> bytes \<Rightarrow> 's Conn \<Rightarrow> 's Conn" where
  "queueFrame enq idx frame c = c\<lparr>c_txPumps := (c_txPumps c)[idx := Submit (c_done c) enq frame (c_txPumps c ! idx)]\<rparr>"

lemma WriteTo_spec:
  assumes "\<not> c_done c" "macs_ok c" "length (To4 (ua_IP (c_localAddr c))) = 4" "length (To4 (ua_IP dst)) = 4" "length p \<le> 4054"
  shows "WriteTo enq p (Some dst) c = (Inr (length p), queueFrame enq (txSocketIdx dst c) (frameTo c dst p) c)"
proof -
  obtain f t where b: "buildUDPFrame (replicate txPumpFrameCap 0) (c_srcMAC c) (NextHopMACForIP (ua_IP dst) c) (c_localAddr c) dst p = (f, t)" by fastforce
  have "42 + length p \<le> length (replicate txPumpFrameCap (0 :: byte))" using assms(5) by (simp add: txPumpFrameCap_def)
  note bp = build_prefix [OF nextHop_length [OF assms(2)] _ assms(3,4) this b]
  show ?thesis using assms bp b by (simp add: WriteTo_def queueFrame_def frameTo_def macs_ok_def txPumpFrameCap_def Let_def)
qed

lemma queueFrame_frame [simp]:
  "NextHopMACForIP ip (queueFrame enq i f c) = NextHopMACForIP ip c" "c_srcMAC (queueFrame enq i f c) = c_srcMAC c"
  "c_localAddr (queueFrame enq i f c) = c_localAddr c" "c_done (queueFrame enq i f c) = c_done c"
  "macs_ok (queueFrame enq i f c) = macs_ok c" "txSocketIdx dst (queueFrame enq i f c) = txSocketIdx dst c"
  "frameTo (queueFrame enq i f c) dst p = frameTo c dst p"
  by (simp_all add: queueFrame_def NextHopMACForIP_def macs_ok_def txSocketIdx_def frameTo_def split: option.split)

lemma writeFrames_spec:
  "\<lbrakk>macs_ok c; length (To4 (ua_IP (c_localAddr c))) = 4; length (To4 (ua_IP dst)) = 4; list_all (\<lambda>p. length p \<le> 4054) ps;
    length frame = txPumpFrameCap; idx = txSocketIdx dst c; m = NextHopMACForIP (ua_IP dst) c\<rbrakk> \<Longrightarrow>
   writeFrames enq m dst idx frame ps c = (None, fold (\<lambda>p. queueFrame enq idx (frameTo c dst p)) ps c)"
proof (induction ps arbitrary: frame c)
  case (Cons p ps)
  obtain f t where b: "buildUDPFrame frame (c_srcMAC c) m (c_localAddr c) dst p = (f, t)" by fastforce
  have "42 + length p \<le> length frame" using Cons.prems by (simp add: txPumpFrameCap_def)
  note bp = build_prefix [OF _ _ Cons.prems(2,3) this b]
  have m: "length m = 6" "length (c_srcMAC c) = 6" using Cons.prems nextHop_length by (auto simp: macs_ok_def)
  let ?c = "queueFrame enq idx (frameTo c dst p) c"
  have "writeFrames enq m dst idx frame (p # ps) c = writeFrames enq m dst idx f ps ?c"
    using b bp [OF m] Cons.prems(4,5,7) by (simp add: queueFrame_def frameTo_def txPumpFrameCap_def)
  also have "\<dots> = (None, fold (\<lambda>p. queueFrame enq idx (frameTo ?c dst p)) ps ?c)"
    by (rule Cons.IH) (use Cons.prems bp(3) [OF m] in simp_all)
  finally show ?case by simp
qed simp

lemma WriteTo_fold:
  "\<lbrakk>\<not> c_done c; macs_ok c; length (To4 (ua_IP (c_localAddr c))) = 4; length (To4 (ua_IP dst)) = 4; list_all (\<lambda>p. length p \<le> 4054) ps\<rbrakk> \<Longrightarrow>
   fold (\<lambda>p c. snd (WriteTo enq p (Some dst) c)) ps c = fold (\<lambda>p. queueFrame enq (txSocketIdx dst c) (frameTo c dst p)) ps c"
  by (induction ps arbitrary: c) (simp_all add: WriteTo_spec)

text \<open>
  Sending a batch is the same as sending its packets one by one: for payloads that
  fit a frame, \<^verbatim>\<open>WriteBatch\<close> succeeds and leaves the connection exactly as successive
  calls of \<^verbatim>\<open>WriteTo\<close> do. In particular the frame buffer that the batch reuses leaks no
  byte of one packet into the next.
\<close>

theorem write_batch_is_writes:
  assumes "\<not> c_done c" "macs_ok c" "length (To4 (ua_IP (c_localAddr c))) = 4" "length (To4 (ua_IP dst)) = 4"
    and "list_all (\<lambda>p. length p \<le> 4054) pkts"
  shows "WriteBatch enq pkts (Some dst) c = (None, fold (\<lambda>p c. snd (WriteTo enq p (Some dst) c)) pkts c)"
  using assms writeFrames_spec [OF assms(2-5), of "replicate txPumpFrameCap 0" _ _ enq] WriteTo_fold [OF assms]
  by (simp add: WriteBatch_def)

lemma uint_port: "0 \<le> x \<Longrightarrow> x < 65536 \<Longrightarrow> uint (word_of_int x :: u16) = x"
  by (simp add: uint_word_of_int_eq take_bit_int_eq_self)



lemma txSocketIdx_less:
  assumes "c_txPumps c \<noteq> []" "length (c_txPumps c) < 2 ^ 64"
  shows "txSocketIdx dst c < length (c_txPumps c)"
proof -
  have n: "unat (of_nat (length (c_txPumps c)) :: u64) = length (c_txPumps c)"
    using assms(2) by (simp add: unat_of_nat_small)
  show ?thesis using assms(1) unfolding txSocketIdx_def Let_def unat_mod n by simp
qed

definition exConn :: "unit Conn" where
  "exConn = newConn 2 \<lparr>ua_IP = [192, 0, 2, 1], ua_Port = 443\<rparr> [2, 0, 0, 0, 0, 1] [2, 0, 0, 0, 0, 2]"

definition exDst :: udpAddr where
  "exDst = \<lparr>ua_IP = replicate 10 0 @ [0xff, 0xff, 192, 0, 2, 9], ua_Port = 443\<rparr>"

lemma exConn_facts:
  "\<not> c_done exConn" "macs_ok exConn" "length (To4 (ua_IP (c_localAddr exConn))) = 4" "length (To4 (ua_IP exDst)) = 4"
  "length (c_txPumps exConn) = 2" "length (c_quicShards exConn) = 2" "ua_Port (c_localAddr exConn) = 443" "ua_Port exDst = 443"
  "i < 2 \<Longrightarrow> c_txPumps exConn ! i = newTxPump" "i < 2 \<Longrightarrow> c_quicShards exConn ! i = []"
  "To4 (ua_IP (c_localAddr exConn)) = [192, 0, 2, 1]" "c_srcMAC exConn = [2, 0, 0, 0, 0, 1]"
  by (simp_all add: exConn_def newConn_def macs_ok_def To4_def Unmap_def exDst_def)

lemma exConn_idx: "txSocketIdx exDst exConn < 2"
  using txSocketIdx_less [of exConn exDst] exConn_facts(5) by (cases "c_txPumps exConn") auto

theorem write_batch_is_writes_witness:
  "WriteBatch False [[1, 2, 3], [4]] (Some exDst) exConn =
     (None, fold (\<lambda>p c. snd (WriteTo False p (Some exDst) c)) [[1, 2, 3], [4]] exConn)"
  by (rule write_batch_is_writes [OF exConn_facts(1-4)]) simp




subsection \<open>Next hops are learned, buffers are returned\<close>

text \<open>
  Receiving an IPv4 frame makes its sender's hardware address the next hop for its
  source address, whether the address is later given in 4-byte or in mapped 16-byte
  form, and changes the next hop of no other address. Whatever the frame is, its
  descriptor goes back to the fill ring of its queue exactly once.
\<close>

theorem receive_learns_next_hop:
  assumes "receiveFrame idx frame desc c s = (c', s')" "idx < length (c_quicShards c)"
    and "34 \<le> length frame" "get16 frame 12 = 0x0800"
  shows "NextHopMACForIP (slice frame 26 30) c' = slice frame 6 12 \<and>
    NextHopMACForIP (replicate 10 0 @ [0xff, 0xff] @ slice frame 26 30) c' = slice frame 6 12 \<and>
    (Unmap ip \<noteq> slice frame 26 30 \<longrightarrow> NextHopMACForIP ip c' = NextHopMACForIP ip c) \<and>
    c_filled c' = c_filled c @ [(idx, desc)]"
proof -
  note sp = receiveFrame_spec [OF assms(1,2)]
  let ?ip = "slice frame 26 30" and ?m = "slice frame 6 12"
  have l: "length ?ip = 4" "length ?m = 6" using assms(3) by simp_all
  have n: "c_neigh c' = c_neigh (learnNeighbour ?ip ?m c)" using sp(6) assms(3,4) by (simp add: ethHdr_def)
  have "c_neigh c' = (c_neigh c)(?ip \<mapsto> ?m)"
    unfolding n using l by (auto simp: learnNeighbour_def macEq_def blit_def split: option.splits)
  then show ?thesis using sp(4,7) l by (auto simp: NextHopMACForIP_def AddrFromSlice_def Unmap_def split: option.splits)
qed

theorem receive_learns_next_hop_witness:
  "NextHopMACForIP [198, 51, 100, 7]
     (fst (receiveFrame 1 (udpFrame [2, 0, 0, 0, 0, 1] [2, 0, 0, 0, 0, 3] [198, 51, 100, 7] [192, 0, 2, 1] 5000 443 [9, 8]) 4 exConn ())) =
   [2, 0, 0, 0, 0, 3]"
proof -
  let ?f = "udpFrame [2, 0, 0, 0, 0, 1] [2, 0, 0, 0, 0, 3] [198, 51, 100, 7] [192, 0, 2, 1] 5000 443 [9, 8]"
  have f: "34 \<le> length ?f" "get16 ?f 12 = 0x0800" "slice ?f 26 30 = [198, 51, 100, 7]" "slice ?f 6 12 = [2, 0, 0, 0, 0, 3]"
    using udpFrame_fields [OF _ _ _ _ refl] by (simp_all add: length_udpFrame)
  have "1 < length (c_quicShards exConn)" by (simp add: exConn_facts(6))
  then show ?thesis
    using receive_learns_next_hop [of 1 ?f 4 exConn "()", OF _ _ f(1,2)] f(3,4) by (cases "receiveFrame 1 ?f 4 exConn ()") auto
qed

subsection \<open>The pump keeps order\<close>

datatype pumpEvent = Send bytes | Round nat nat

fun pumpStep :: "pumpEvent \<Rightarrow> txPump \<Rightarrow> txPump" where
  "pumpStep (Send f) p = Submit False False f p"
| "pumpStep (Round extra free) p = pumpRound extra free p"

fun submitted :: "pumpEvent list \<Rightarrow> bytes list" where
  "submitted [] = []"
| "submitted (Send f # es) = take txPumpFrameCap f # submitted es"
| "submitted (Round extra free # es) = submitted es"

definition inPump :: "txPump \<Rightarrow> bytes list" where
  "inPump p = tp_sent p @ map (take txPumpFrameCap) (tp_ch p)"

definition pump_rel :: "bytes list \<Rightarrow> txPump \<Rightarrow> bool" where
  "pump_rel sub p \<longleftrightarrow> subseq (inPump p) sub \<and> length (inPump p) + tp_drops p = length sub \<and> length (tp_ch p) \<le> txPumpQueueLen"

lemma pump_submit: "pump_rel sub p \<Longrightarrow> pump_rel (sub @ [take txPumpFrameCap f]) (Submit False e f p)"
  by (auto simp: pump_rel_def inPump_def Submit_def subseq_append' list_emb_append_mono simp flip: append_assoc
      intro: subseq_rev_drop_many)

lemma pump_round:
  assumes "pump_rel sub p"
  shows "pump_rel sub (pumpRound extra free p)"
proof (cases "tp_ch p")
  case Nil
  then show ?thesis using assms by (simp add: pumpRound_def)
next
  case (Cons m rest)
  define batch where "batch = m # take (min extra (txPumpBatch - 1)) rest"
  have "take k rest @ drop (length (take k rest)) rest = rest" for k by (cases "k \<le> length rest") auto
  then have ch: "tp_ch p = batch @ drop (length batch) (tp_ch p)" unfolding batch_def Cons by simp
  define got where "got = min free (length batch)"
  have pr: "pumpRound extra free p = p\<lparr>tp_ch := drop (length batch) (tp_ch p),
      tp_sent := tp_sent p @ map (take txPumpFrameCap) (take got batch), tp_drops := tp_drops p + (length batch - got)\<rparr>"
    unfolding pumpRound_def Cons Let_def by (simp add: batch_def got_def)
  let ?t = "map (take txPumpFrameCap)"
  have "subseq (?t (take got batch)) (?t batch)" by (simp add: subseq_map take_is_prefix prefix_imp_subseq)
  then have "subseq (tp_sent p @ ?t (take got batch) @ ?t (drop (length batch) (tp_ch p))) (tp_sent p @ ?t batch @ ?t (drop (length batch) (tp_ch p)))"
    by (intro list_emb_append_mono) simp_all
  also have "\<dots> = inPump p" unfolding inPump_def by (subst (2) ch) simp
  finally have "subseq (inPump (pumpRound extra free p)) (inPump p)" unfolding pr inPump_def by simp
  moreover have "length (inPump (pumpRound extra free p)) + tp_drops (pumpRound extra free p) = length (inPump p) + tp_drops p"
  proof -
    have "length batch \<le> length (tp_ch p)" unfolding batch_def Cons by simp
    then show ?thesis unfolding pr inPump_def by (simp add: got_def)
  qed
  moreover have "length (tp_ch (pumpRound extra free p)) \<le> length (tp_ch p)" unfolding pr by simp
  ultimately show ?thesis using assms unfolding pump_rel_def by (metis le_trans subseq_order.trans)
qed

lemma pump_run: "pump_rel sub p \<Longrightarrow> pump_rel (sub @ submitted es) (fold pumpStep es p)"
proof (induction es arbitrary: sub p)
  case (Cons e es)
  show ?case
  proof (cases e)
    case (Send f)
    then show ?thesis using Cons.IH [OF pump_submit [OF Cons.prems, of f False]] by simp
  next
    case (Round x y)
    then show ?thesis using Cons.IH [OF pump_round [OF Cons.prems, of x y]] by simp
  qed
qed simp

text \<open>
  The transmit pump never reorders. After any sequence of submissions and rounds on
  a new pump, whatever number of frames a round finds and of descriptors that are free,
  the frames on the wire followed by those queued are a subsequence of the submitted
  ones; every missing frame is counted as a drop, so without drops they are all there,
  in order; and at most 16384 frames are queued.
\<close>

theorem pump_keeps_order:
  "subseq (inPump (fold pumpStep es newTxPump)) (submitted es) \<and>
   length (inPump (fold pumpStep es newTxPump)) + tp_drops (fold pumpStep es newTxPump) = length (submitted es) \<and>
   (tp_drops (fold pumpStep es newTxPump) = 0 \<longrightarrow> inPump (fold pumpStep es newTxPump) = submitted es) \<and>
   length (tp_ch (fold pumpStep es newTxPump)) \<le> 16384"
proof -
  have "pump_rel [] newTxPump" by (simp add: pump_rel_def inPump_def newTxPump_def)
  from pump_run [OF this, of es] show ?thesis
    using subseq_same_length by (auto simp: pump_rel_def txPumpQueueLen_def)
qed

theorem pump_keeps_order_witness:
  "inPump (fold pumpStep [Send [1], Send [2], Round 5 9, Send [3]] newTxPump) = [[1], [2], [3]]"
proof -
  have "tp_drops (fold pumpStep [Send [1], Send [2], Round 5 9, Send [3]] newTxPump) = 0"
    by (simp add: newTxPump_def Submit_def pumpRound_def txPumpQueueLen_def txPumpBatch_def)
  then show ?thesis
    using pump_keeps_order [of "[Send [1], Send [2], Round 5 9, Send [3]]"] by (simp add: txPumpFrameCap_def)
qed

end
