(* ===== verification/Egress.thy ===== *)
theory Egress
  imports Inet TunGso XdpConn
begin

text \<open>
  The egress batches of the forward path: \<^verbatim>\<open>utility/xdp_batch.go\<close> (frames for the
  transmit pump), \<^verbatim>\<open>utility/packet_tx.go\<close> (frames for an AF_PACKET socket),
  \<^verbatim>\<open>utility/socket.go\<close> (packets for a raw socket) and the batch that chooses between
  them, \<^verbatim>\<open>utility/forward_batch.go\<close>. The arrays of a batch are lists of slots; an array
  of messages of which the first \<^verbatim>\<open>count\<close> are in use is the list of those. A nil
  hardware address is the empty list. The flush statistics are left out.
\<close>

definition MaxXDPBatchSize :: nat where "MaxXDPBatchSize = 1024"
definition MaxSocketBatchSize :: nat where "MaxSocketBatchSize = 1024"
definition ethHdrSize :: nat where "ethHdrSize = 14"
definition maxFrameSize :: nat where "maxFrameSize = ethHdrSize + 4082"

text \<open>\<open>IndexPanic\<close> is the run-time panic of an array index that is out of range.\<close>

datatype egError = BatchFull | TooShort | UnknownVersion byte | TooLarge | Errno | IndexPanic

subsection \<open>Ethernet framing\<close>

text \<open>The switch over the IP version, as both framing batches have it.\<close>

definition ethertypeOf :: "bytes \<Rightarrow> egError + bytes" where
  "ethertypeOf pkt =
     (let v = IPVersion pkt in
      if v = 4 then (if length pkt < 20 then Inl TooShort else Inr [0x08, 0x00])
      else if v = 6 then (if length pkt < 40 then Inl TooShort else Inr [0x86, 0xDD])
      else Inl (UnknownVersion v))"

text \<open>Writing the Ethernet header and the packet over a slot.\<close>

definition fillFrame :: "bytes \<Rightarrow> mac \<Rightarrow> mac \<Rightarrow> bytes \<Rightarrow> bytes \<Rightarrow> bytes" where
  "fillFrame frame dstMAC srcMAC ethertype pkt =
     (let frame = blit frame 0 6 dstMAC;
          frame = blit frame 6 12 srcMAC;
          frame = frame[12 := ethertype ! 0, 13 := ethertype ! 1]
      in blit frame 14 (length frame) pkt)"

subsection \<open>Frames for the transmit pump\<close>

record XDPBatch =
  xb_srcMAC :: mac
  xb_dstMAC :: mac
  xb_bufs :: "bytes list"
  xb_lens :: "nat list"
  xb_count :: nat

definition NewXDPBatch :: "mac \<Rightarrow> mac \<Rightarrow> XDPBatch" where
  "NewXDPBatch srcMAC dstMAC =
     \<lparr>xb_srcMAC = srcMAC, xb_dstMAC = dstMAC, xb_bufs = replicate MaxXDPBatchSize (replicate maxFrameSize 0),
      xb_lens = replicate MaxXDPBatchSize 0, xb_count = 0\<rparr>"

definition XDPBatch_Add :: "bytes \<Rightarrow> mac \<Rightarrow> XDPBatch \<Rightarrow> egError option \<times> XDPBatch" where
  "XDPBatch_Add pkt dstMAC b =
     (if xb_count b \<ge> MaxXDPBatchSize then (Some BatchFull, b)
      else
        let dstMAC = (if dstMAC = [] then xb_dstMAC b else dstMAC) in
        case ethertypeOf pkt of
          Inl e \<Rightarrow> (Some e, b)
        | Inr ethertype \<Rightarrow>
            let tot = ethHdrSize + length pkt in
            if tot > maxFrameSize then (Some TooLarge, b)
            else
              let i = xb_count b;
                  frame = fillFrame (xb_bufs b ! i) dstMAC (xb_srcMAC b) ethertype pkt
              in (None, b\<lparr>xb_bufs := (xb_bufs b)[i := frame], xb_lens := (xb_lens b)[i := tot], xb_count := i + 1\<rparr>))"

definition xb_frames :: "XDPBatch \<Rightarrow> bytes list" where
  "xb_frames b = map (\<lambda>i. take (xb_lens b ! i) (xb_bufs b ! i)) [0..<xb_count b]"

text \<open>\<open>submit\<close> is the \<^verbatim>\<open>Submit\<close> of the frame submitter the batch was built with.\<close>

definition XDPBatch_Flush :: "(bytes \<Rightarrow> 'p \<Rightarrow> 'p) \<Rightarrow> XDPBatch \<Rightarrow> 'p \<Rightarrow> XDPBatch \<times> 'p" where
  "XDPBatch_Flush submit b p =
     (if xb_count b = 0 then (b, p) else (b\<lparr>xb_count := 0\<rparr>, fold submit (xb_frames b) p))"

definition XDPBatch_Full :: "XDPBatch \<Rightarrow> bool" where
  "XDPBatch_Full b \<longleftrightarrow> xb_count b \<ge> MaxXDPBatchSize"

definition XDPBatch_Empty :: "XDPBatch \<Rightarrow> bool" where
  "XDPBatch_Empty b \<longleftrightarrow> xb_count b = 0"

definition SendOne :: "(bytes \<Rightarrow> 'p \<Rightarrow> 'p) \<Rightarrow> mac \<Rightarrow> mac \<Rightarrow> bytes \<Rightarrow> 'p \<Rightarrow> egError option \<times> 'p" where
  "SendOne submit srcMAC dstMAC pkt p =
     (case XDPBatch_Add pkt [] (NewXDPBatch srcMAC dstMAC) of
        (Some e, b) \<Rightarrow> (Some e, p)
      | (None, b) \<Rightarrow> (None, snd (XDPBatch_Flush submit b p)))"

subsection \<open>Frames for an AF_PACKET socket\<close>

record PacketBatch =
  pb_srcMAC :: mac
  pb_bufs :: "bytes list"
  pb_lens :: "nat list"
  pb_count :: nat

definition NewPacketBatch :: "mac \<Rightarrow> PacketBatch" where
  "NewPacketBatch srcMAC =
     \<lparr>pb_srcMAC = srcMAC, pb_bufs = replicate MaxSocketBatchSize (replicate maxFrameSize 0),
      pb_lens = replicate MaxSocketBatchSize 0, pb_count = 0\<rparr>"

definition PacketBatch_Add :: "bytes \<Rightarrow> mac \<Rightarrow> PacketBatch \<Rightarrow> egError option \<times> PacketBatch" where
  "PacketBatch_Add pkt dstMAC b =
     (if pb_count b \<ge> MaxSocketBatchSize then (Some BatchFull, b)
      else case ethertypeOf pkt of
          Inl e \<Rightarrow> (Some e, b)
        | Inr ethertype \<Rightarrow>
            let tot = ethHdrSize + length pkt in
            if tot > maxFrameSize then (Some TooLarge, b)
            else
              let i = pb_count b;
                  frame = fillFrame (pb_bufs b ! i) dstMAC (pb_srcMAC b) ethertype pkt
              in (None, b\<lparr>pb_bufs := (pb_bufs b)[i := frame], pb_lens := (pb_lens b)[i := tot], pb_count := i + 1\<rparr>))"

definition pb_frames :: "PacketBatch \<Rightarrow> bytes list" where
  "pb_frames b = map (\<lambda>i. take (pb_lens b ! i) (pb_bufs b ! i)) [0..<pb_count b]"

text \<open>
  \<open>sendmmsg\<close> is the system call: how many of the messages it sent, or an error. The
  result lists the frames that left.
\<close>

definition PacketBatch_Flush :: "(bytes list \<Rightarrow> nat option) \<Rightarrow> PacketBatch \<Rightarrow> egError option \<times> bytes list \<times> PacketBatch" where
  "PacketBatch_Flush sendmmsg b =
     (if pb_count b = 0 then (None, [], b)
      else case sendmmsg (pb_frames b) of
             None \<Rightarrow> (Some Errno, [], b\<lparr>pb_count := 0\<rparr>)
           | Some n \<Rightarrow> (None, take n (pb_frames b), b\<lparr>pb_count := 0\<rparr>))"

definition PacketBatch_Full :: "PacketBatch \<Rightarrow> bool" where
  "PacketBatch_Full b \<longleftrightarrow> pb_count b \<ge> MaxSocketBatchSize"

definition PacketBatch_Empty :: "PacketBatch \<Rightarrow> bool" where
  "PacketBatch_Empty b \<longleftrightarrow> pb_count b = 0"

subsection \<open>Packets for the raw socket\<close>

text \<open>
  A message points to its bytes: to the batch's own copy for an IPv4 packet, to the
  caller's buffer for an IPv6 packet. The memory of the callers is a map from buffers
  to contents, and a packet is passed as a buffer.
\<close>

type_synonym memory = "nat \<Rightarrow> bytes"

datatype iovec = Own bytes | Caller nat nat

record sockMsg =
  sm_addr :: bytes
  sm_iov :: iovec

record SocketBatch =
  sb_msgs :: "sockMsg list"

definition sb_count :: "SocketBatch \<Rightarrow> nat" where
  "sb_count b = length (sb_msgs b)"

definition NewSocketBatch :: SocketBatch where
  "NewSocketBatch = \<lparr>sb_msgs = []\<rparr>"

definition SocketBatch_Add :: "memory \<Rightarrow> nat \<Rightarrow> SocketBatch \<Rightarrow> egError option \<times> SocketBatch" where
  "SocketBatch_Add mem p b =
     (let pkt = mem p in
      if sb_count b \<ge> MaxSocketBatchSize then (Some IndexPanic, b)
      else
        let buf = take 4096 pkt; v = IPVersion pkt in
        if v = 4 then
          (if length pkt < 20 then (Some TooShort, b)
           else (None, b\<lparr>sb_msgs := sb_msgs b @ [\<lparr>sm_addr = slice pkt 16 20, sm_iov = Own buf\<rparr>]\<rparr>))
        else if v = 6 then
          (if length pkt < 40 then (Some TooShort, b)
           else (None, b\<lparr>sb_msgs := sb_msgs b @ [\<lparr>sm_addr = slice pkt 24 40, sm_iov = Caller p (length pkt)\<rparr>]\<rparr>))
        else (Some (UnknownVersion v), b))"

fun iovBytes :: "memory \<Rightarrow> iovec \<Rightarrow> bytes" where
  "iovBytes mem (Own b) = b"
| "iovBytes mem (Caller p n) = take n (mem p)"

definition sb_out :: "memory \<Rightarrow> SocketBatch \<Rightarrow> (bytes \<times> bytes) list" where
  "sb_out mem b = map (\<lambda>m. (sm_addr m, iovBytes mem (sm_iov m))) (sb_msgs b)"

definition SocketBatch_Flush :: "memory \<Rightarrow> ((bytes \<times> bytes) list \<Rightarrow> nat option) \<Rightarrow> SocketBatch
    \<Rightarrow> egError option \<times> (bytes \<times> bytes) list \<times> SocketBatch" where
  "SocketBatch_Flush mem sendmmsg b =
     (if sb_count b = 0 then (None, [], b)
      else case sendmmsg (sb_out mem b) of
             None \<Rightarrow> (Some Errno, [], b\<lparr>sb_msgs := []\<rparr>)
           | Some n \<Rightarrow> (None, take n (sb_out mem b), b\<lparr>sb_msgs := []\<rparr>))"

definition SocketBatch_Full :: "SocketBatch \<Rightarrow> bool" where
  "SocketBatch_Full b \<longleftrightarrow> sb_count b \<ge> MaxSocketBatchSize"

definition SocketBatch_Empty :: "SocketBatch \<Rightarrow> bool" where
  "SocketBatch_Empty b \<longleftrightarrow> sb_count b = 0"

definition SendOnSocket :: "memory \<Rightarrow> ((bytes \<times> bytes) list \<Rightarrow> nat option) \<Rightarrow> nat \<Rightarrow> egError option \<times> (bytes \<times> bytes) list" where
  "SendOnSocket mem sendmmsg p =
     (case SocketBatch_Add mem p NewSocketBatch of
        (Some e, b) \<Rightarrow> (Some e, [])
      | (None, b) \<Rightarrow> (case SocketBatch_Flush mem sendmmsg b of (e, out, _) \<Rightarrow> (e, out)))"

subsection \<open>The batch of the forward path\<close>

text \<open>
  The interface \<^verbatim>\<open>fwdEgress\<close> as the record of its methods over a state \<open>'a\<close>, and the
  flags that select an implementation of it.
\<close>

record 'a fwdEgress =
  eg_Add :: "bytes \<Rightarrow> mac \<Rightarrow> 'a \<Rightarrow> egError option \<times> 'a"
  eg_Flush :: "'a \<Rightarrow> egError option \<times> 'a"
  eg_Full :: "'a \<Rightarrow> bool"
  eg_Empty :: "'a \<Rightarrow> bool"
  eg_Close :: "'a \<Rightarrow> 'a"

datatype altKind = TunVhost | TunUring | TunGSO | TunNapi | KernelTX

record fwdMode =
  forwardViaVhost :: bool
  forwardViaUring :: bool
  forwardViaTun :: bool
  forwardViaNapiTun :: bool
  forwardViaPacket :: bool

definition selectAlt :: "fwdMode \<Rightarrow> altKind option" where
  "selectAlt m =
     (if forwardViaVhost m then Some TunVhost
      else if forwardViaUring m then Some TunUring
      else if forwardViaTun m then Some TunGSO
      else if forwardViaNapiTun m then Some TunNapi
      else if forwardViaPacket m then Some KernelTX
      else None)"

definition SetForwardMode :: "bool \<Rightarrow> bool \<Rightarrow> fwdMode \<Rightarrow> fwdMode" where
  "SetForwardMode gso vhost m = m\<lparr>forwardViaTun := gso, forwardViaVhost := vhost\<rparr>"

definition ForwardCoalesces :: "fwdMode \<Rightarrow> bool" where
  "ForwardCoalesces m \<longleftrightarrow> forwardViaTun m \<or> forwardViaVhost m"

record 'a ForwardBatch =
  fb_xdp :: XDPBatch
  fb_alt :: "'a option"
  fb_sock :: SocketBatch

text \<open>\<open>newSock\<close> and \<open>newAlt\<close> say whether the sockets and devices can be opened.\<close>

definition NewForwardBatch :: "(egError + SocketBatch) \<Rightarrow> (altKind \<Rightarrow> egError + 'a) \<Rightarrow> fwdMode \<Rightarrow> mac \<Rightarrow> mac
    \<Rightarrow> egError + 'a ForwardBatch" where
  "NewForwardBatch newSock newAlt m srcMAC dstMAC =
     (case newSock of
        Inl e \<Rightarrow> Inl e
      | Inr sock \<Rightarrow>
          (case selectAlt m of
             None \<Rightarrow> Inr \<lparr>fb_xdp = NewXDPBatch srcMAC dstMAC, fb_alt = None, fb_sock = sock\<rparr>
           | Some k \<Rightarrow>
               (case newAlt k of
                  Inl e \<Rightarrow> Inl e
                | Inr t \<Rightarrow> Inr \<lparr>fb_xdp = NewXDPBatch srcMAC dstMAC, fb_alt = Some t, fb_sock = sock\<rparr>)))"

definition isXDPEligible :: "bytes \<Rightarrow> bool" where
  "isXDPEligible pkt =
     (let v = IPVersion pkt in
      if v = 4 then (if length pkt < 10 then False else pkt ! 9 = 6 \<or> pkt ! 9 = 17)
      else if v = 6 then (if length pkt < 7 then False else pkt ! 6 = 6 \<or> pkt ! 6 = 17)
      else False)"

definition ForwardBatch_Add :: "'a fwdEgress \<Rightarrow> bool \<Rightarrow> memory \<Rightarrow> nat \<Rightarrow> mac \<Rightarrow> 'a ForwardBatch
    \<Rightarrow> egError option \<times> 'a ForwardBatch" where
  "ForwardBatch_Add ops forwardAckViaSocket mem p dstMAC b =
     (let pkt = mem p;
          viaSock = (case SocketBatch_Add mem p (fb_sock b) of (e, s) \<Rightarrow> (e, b\<lparr>fb_sock := s\<rparr>))
      in if isXDPEligible pkt then
           (if forwardAckViaSocket \<and> length pkt < 128 then viaSock
            else case fb_alt b of
                   Some a \<Rightarrow> (case eg_Add ops pkt dstMAC a of (e, a) \<Rightarrow> (e, b\<lparr>fb_alt := Some a\<rparr>))
                 | None \<Rightarrow> (case XDPBatch_Add pkt dstMAC (fb_xdp b) of (e, x) \<Rightarrow> (e, b\<lparr>fb_xdp := x\<rparr>)))
         else viaSock)"

text \<open>The result of a flush: the error, what left by the raw socket, the batch, the pump.\<close>

definition ForwardBatch_Flush :: "'a fwdEgress \<Rightarrow> (bytes \<Rightarrow> 'p \<Rightarrow> 'p) \<Rightarrow> memory \<Rightarrow> ((bytes \<times> bytes) list \<Rightarrow> nat option)
    \<Rightarrow> 'a ForwardBatch \<Rightarrow> 'p \<Rightarrow> egError option \<times> (bytes \<times> bytes) list \<times> 'a ForwardBatch \<times> 'p" where
  "ForwardBatch_Flush ops submit mem sendmmsg b p =
     (let (x, p) = XDPBatch_Flush submit (fb_xdp b) p;
          (e2, out, s) = SocketBatch_Flush mem sendmmsg (fb_sock b);
          (e3, a) = (case fb_alt b of
                       None \<Rightarrow> (None, None)
                     | Some a \<Rightarrow> (case eg_Flush ops a of (e, a) \<Rightarrow> (e, Some a)))
      in (if e2 \<noteq> None then e2 else e3, out, b\<lparr>fb_xdp := x, fb_sock := s, fb_alt := a\<rparr>, p))"

definition ForwardBatch_Full :: "'a fwdEgress \<Rightarrow> 'a ForwardBatch \<Rightarrow> bool" where
  "ForwardBatch_Full ops b =
     (if (case fb_alt b of Some a \<Rightarrow> eg_Full ops a | None \<Rightarrow> False) then True
      else XDPBatch_Full (fb_xdp b) \<or> SocketBatch_Full (fb_sock b))"

definition ForwardBatch_Empty :: "'a fwdEgress \<Rightarrow> 'a ForwardBatch \<Rightarrow> bool" where
  "ForwardBatch_Empty ops b =
     (if (case fb_alt b of Some a \<Rightarrow> \<not> eg_Empty ops a | None \<Rightarrow> False) then False
      else XDPBatch_Empty (fb_xdp b) \<and> SocketBatch_Empty (fb_sock b))"

definition ForwardSendOne :: "(bytes \<Rightarrow> 'p \<Rightarrow> 'p) \<Rightarrow> memory \<Rightarrow> ((bytes \<times> bytes) list \<Rightarrow> nat option) \<Rightarrow> mac \<Rightarrow> mac \<Rightarrow> nat \<Rightarrow> 'p
    \<Rightarrow> egError option \<times> (bytes \<times> bytes) list \<times> 'p" where
  "ForwardSendOne submit mem sendmmsg srcMAC dstMAC q p =
     (if isXDPEligible (mem q) then (case SendOne submit srcMAC dstMAC (mem q) p of (e, p) \<Rightarrow> (e, [], p))
      else (case SendOnSocket mem sendmmsg q of (e, out) \<Rightarrow> (e, out, p)))"

definition ForwardBatch_Close :: "'a fwdEgress \<Rightarrow> 'a ForwardBatch \<Rightarrow> 'a ForwardBatch" where
  "ForwardBatch_Close ops b = b\<lparr>fb_alt := map_option (eg_Close ops) (fb_alt b)\<rparr>"

text \<open>The coalescing writer and the AF_PACKET batch as implementations of the interface.\<close>

definition gsoEgress :: "bool \<Rightarrow> nat \<Rightarrow> int \<Rightarrow> int \<Rightarrow> (bytes \<Rightarrow> bool) \<Rightarrow> TunGSOBatch fwdEgress" where
  "gsoEgress noCoalesce maxSegs flushIdle now ok =
     \<lparr>eg_Add = (\<lambda>pkt _ b. case Add noCoalesce maxSegs ok now pkt b of (r, b) \<Rightarrow> (if r then None else Some Errno, b)),
      eg_Flush = (\<lambda>b. (None, FlushBatch ok flushIdle now b)), eg_Full = (\<lambda>_. False), eg_Empty = EmptyBatch, eg_Close = CloseBatch ok\<rparr>"

definition packetEgress :: "(bytes list \<Rightarrow> nat option) \<Rightarrow> PacketBatch fwdEgress" where
  "packetEgress sendmmsg =
     \<lparr>eg_Add = PacketBatch_Add, eg_Flush = (\<lambda>b. case PacketBatch_Flush sendmmsg b of (e, _, b) \<Rightarrow> (e, b)),
      eg_Full = PacketBatch_Full, eg_Empty = PacketBatch_Empty, eg_Close = (\<lambda>b. b)\<rparr>"


subsection \<open>The contract of a batch\<close>

text \<open>
  What the three batches promise: a packet is queued, at the end and in its wire form,
  exactly when it is acceptable and there is room; otherwise the batch does not change;
  resetting the counter empties the batch. Adding a series of packets, as the forward
  loop does between two flushes, then queues the first acceptable ones in order.
\<close>

fun addAll :: "('x \<Rightarrow> 'b \<Rightarrow> egError option \<times> 'b) \<Rightarrow> 'x list \<Rightarrow> 'b \<Rightarrow> 'b" where
  "addAll add [] b = b"
| "addAll add (x # xs) b = addAll add xs (snd (add x b))"

locale batch_queue =
  fixes add :: "'x \<Rightarrow> 'b \<Rightarrow> egError option \<times> 'b" and reset :: "'b \<Rightarrow> 'b" and queued :: "'b \<Rightarrow> 'm list"
    and encode :: "'b \<Rightarrow> 'x \<Rightarrow> 'm" and acceptable :: "'x \<Rightarrow> bool" and valid :: "'x \<Rightarrow> bool" and good :: "'b \<Rightarrow> bool" and cap :: nat
  assumes add_iff: "good b \<Longrightarrow> fst (add x b) = None \<longleftrightarrow> acceptable x \<and> length (queued b) < cap"
    and add_ok: "good b \<Longrightarrow> valid x \<Longrightarrow> add x b = (None, b') \<Longrightarrow> good b' \<and> queued b' = queued b @ [encode b x] \<and> encode b' = encode b"
    and add_err: "add x b = (Some e, b') \<Longrightarrow> b' = b"
    and reset_ok: "good b \<Longrightarrow> good (reset b) \<and> queued (reset b) = [] \<and> encode (reset b) = encode b"
begin

lemma add_step:
  assumes "good b" "valid x"
  shows "good (snd (add x b)) \<and> encode (snd (add x b)) = encode b \<and>
    queued (snd (add x b)) = queued b @ (if acceptable x \<and> length (queued b) < cap then [encode b x] else [])"
proof (cases "add x b")
  case (Pair r b')
  then show ?thesis using assms add_iff [OF assms(1), of x] add_ok [of b x b'] add_err [of x b _ b'] by (cases r) auto
qed

lemma addAll_queued:
  "good b \<Longrightarrow> list_all valid xs \<Longrightarrow> good (addAll add xs b) \<and> encode (addAll add xs b) = encode b \<and>
   queued (addAll add xs b) = queued b @ map (encode b) (take (cap - length (queued b)) (filter acceptable xs))"
proof (induction xs arbitrary: b)
  case (Cons x xs)
  note st = add_step [of b x]
  have IH: "good (addAll add xs (snd (add x b))) \<and> encode (addAll add xs (snd (add x b))) = encode (snd (add x b)) \<and>
      queued (addAll add xs (snd (add x b))) = queued (snd (add x b)) @
        map (encode (snd (add x b))) (take (cap - length (queued (snd (add x b)))) (filter acceptable xs))"
    using Cons.IH [of "snd (add x b)"] Cons.prems st by simp
  show ?case
  proof (cases "acceptable x \<and> length (queued b) < cap")
    case True
    then show ?thesis using IH st Cons.prems by (simp add: take_Cons' Suc_diff_Suc)
  next
    case False
    then show ?thesis using IH st Cons.prems by auto
  qed
qed simp

end

subsection \<open>The batches fulfil it\<close>

definition etOf :: "bytes \<Rightarrow> bytes" where
  "etOf pkt = (if IPVersion pkt = 4 then [0x08, 0x00] else [0x86, 0xDD])"

definition wellFormed :: "bytes \<Rightarrow> bool" where
  "wellFormed pkt \<longleftrightarrow> IPVersion pkt = 4 \<and> 20 \<le> length pkt \<or> IPVersion pkt = 6 \<and> 40 \<le> length pkt"

lemma ethertypeOf_ok: "wellFormed pkt \<Longrightarrow> ethertypeOf pkt = Inr (etOf pkt)"
  by (auto simp: ethertypeOf_def wellFormed_def etOf_def)

lemma ethertypeOf_bad: "\<not> wellFormed pkt \<Longrightarrow> \<exists>e. ethertypeOf pkt = Inl e"
  by (auto simp: ethertypeOf_def wellFormed_def Let_def)

lemma fillFrame_prefix:
  assumes "length slot = maxFrameSize" "length d = 6" "length sm = 6" "length et = 2" "ethHdrSize + length pkt \<le> maxFrameSize"
  shows "take (ethHdrSize + length pkt) (fillFrame slot d sm et pkt) = d @ sm @ et @ pkt" "length (fillFrame slot d sm et pkt) = maxFrameSize"
proof -
  have sz: "length slot = 4096" "length pkt \<le> 4082" using assms by (simp_all add: maxFrameSize_def ethHdrSize_def)
  have "6 \<le> length slot" using sz by simp
  from split_at [OF this] obtain D r1 where 1: "slot = D @ r1" "length D = 6" "length r1 = length slot - 6" .
  have "6 \<le> length r1" using sz 1(3) by simp
  from split_at [OF this] obtain S r2 where 2: "r1 = S @ r2" "length S = 6" "length r2 = length r1 - 6" .
  have "2 \<le> length r2" using sz 1(3) 2(3) by simp
  from split_at [OF this] obtain M P where 3: "r2 = M @ P" "length M = 2" "length P = length r2 - 2" .
  obtain m0 m1 where M: "M = [m0, m1]" using 3(2) by (auto simp: numeral_eq_Suc length_Suc_conv)
  obtain e0 e1 where E: "et = [e0, e1]" using assms(4) by (auto simp: numeral_eq_Suc length_Suc_conv)
  have P: "length P = 4082" using sz 1(3) 2(3) 3(3) by simp
  then have lp: "length pkt \<le> length P" using sz by simp
  have "slot = D @ S @ [m0, m1] @ P" using 1(1) 2(1) 3(1) M by simp
  then have f: "fillFrame slot d sm et pkt = d @ sm @ [e0, e1] @ pkt @ drop (length pkt) P"
    using assms(2,3) 1(2) 2(2) by (simp add: fillFrame_def E Let_def blit_skip blit_Cons blit_here blit_tail [OF lp] list_update_append)
  show "take (ethHdrSize + length pkt) (fillFrame slot d sm et pkt) = d @ sm @ et @ pkt"
    using assms(2,3) unfolding f unfolding E by (simp add: ethHdrSize_def)
  show "length (fillFrame slot d sm et pkt) = maxFrameSize" using assms(1) by (simp add: fillFrame_def Let_def)
qed

definition slots_ok :: "bytes list \<Rightarrow> nat list \<Rightarrow> nat \<Rightarrow> bool" where
  "slots_ok bufs lens n \<longleftrightarrow> length bufs = 1024 \<and> length lens = 1024 \<and> n \<le> 1024 \<and> list_all (\<lambda>s. length s = maxFrameSize) bufs"

definition slotFrames :: "bytes list \<Rightarrow> nat list \<Rightarrow> nat \<Rightarrow> bytes list" where
  "slotFrames bufs lens n = map (\<lambda>i. take (lens ! i) (bufs ! i)) [0..<n]"

text \<open>Filling the next slot adds one frame.\<close>

lemma slots_add:
  assumes "slots_ok bufs lens n" "n < 1024" "length d = 6" "length sm = 6" "length et = 2" "ethHdrSize + length pkt \<le> maxFrameSize"
  defines "bufs' \<equiv> bufs[n := fillFrame (bufs ! n) d sm et pkt]" and "lens' \<equiv> lens[n := ethHdrSize + length pkt]"
  shows "slots_ok bufs' lens' (n + 1)" "slotFrames bufs' lens' (n + 1) = slotFrames bufs lens n @ [d @ sm @ et @ pkt]"
proof -
  have "length (bufs ! n) = maxFrameSize" using assms(1,2) by (simp add: slots_ok_def list_all_length)
  note ff = fillFrame_prefix [OF this assms(3-6)]
  show "slots_ok bufs' lens' (n + 1)"
    using assms(1,2) ff(2) by (auto simp: slots_ok_def bufs'_def lens'_def list_all_length nth_list_update)
  show "slotFrames bufs' lens' (n + 1) = slotFrames bufs lens n @ [d @ sm @ et @ pkt]"
    using assms(1,2) ff(1) by (simp add: slotFrames_def bufs'_def lens'_def slots_ok_def)
qed

definition frameable :: "bytes \<times> mac \<Rightarrow> bool" where
  "frameable x \<longleftrightarrow> wellFormed (fst x) \<and> length (fst x) \<le> 4082"

definition xdp_good :: "XDPBatch \<Rightarrow> bool" where
  "xdp_good b \<longleftrightarrow> slots_ok (xb_bufs b) (xb_lens b) (xb_count b) \<and> length (xb_srcMAC b) = 6 \<and> length (xb_dstMAC b) = 6"

definition xdpWire :: "mac \<Rightarrow> mac \<Rightarrow> bytes \<times> mac \<Rightarrow> bytes" where
  "xdpWire srcMAC dstMAC x = (if snd x = [] then dstMAC else snd x) @ srcMAC @ etOf (fst x) @ fst x"

lemma xb_frames_slot: "xb_frames b = slotFrames (xb_bufs b) (xb_lens b) (xb_count b)"
  by (simp add: xb_frames_def slotFrames_def)

lemma pb_frames_slot: "pb_frames b = slotFrames (pb_bufs b) (pb_lens b) (pb_count b)"
  by (simp add: pb_frames_def slotFrames_def)

lemma length_slotFrames [simp]: "length (slotFrames bufs lens n) = n" "slotFrames bufs lens 0 = []"
  by (simp_all add: slotFrames_def)

lemma etOf_length: "length (etOf pkt) = 2"
  by (simp add: etOf_def)

interpretation xdpQ: batch_queue "\<lambda>x. XDPBatch_Add (fst x) (snd x)" "\<lambda>b. b\<lparr>xb_count := 0\<rparr>" xb_frames
    "\<lambda>b. xdpWire (xb_srcMAC b) (xb_dstMAC b)" frameable "\<lambda>x. snd x = [] \<or> length (snd x) = 6" xdp_good MaxXDPBatchSize
proof
  fix b x
  show "xdp_good b \<Longrightarrow> (fst (XDPBatch_Add (fst x) (snd x) b) = None) = (frameable x \<and> length (xb_frames b) < MaxXDPBatchSize)"
    using ethertypeOf_ok [of "fst x"] ethertypeOf_bad [of "fst x"]
    by (cases "wellFormed (fst x)") (auto simp: XDPBatch_Add_def frameable_def xb_frames_slot MaxXDPBatchSize_def maxFrameSize_def ethHdrSize_def Let_def split: sum.split)
next
  fix b x b'
  assume g: "xdp_good b" and v: "snd x = [] \<or> length (snd x) = 6" and a: "XDPBatch_Add (fst x) (snd x) b = (None, b')"
  let ?d = "if snd x = [] then xb_dstMAC b else snd x" and ?i = "xb_count b"
  have c: "?i < 1024" "ethHdrSize + length (fst x) \<le> maxFrameSize" "wellFormed (fst x)"
    using a ethertypeOf_bad [of "fst x"] by (auto simp: XDPBatch_Add_def Let_def MaxXDPBatchSize_def split: if_splits sum.splits)
  have b': "b' = b\<lparr>xb_bufs := (xb_bufs b)[?i := fillFrame (xb_bufs b ! ?i) ?d (xb_srcMAC b) (etOf (fst x)) (fst x)],
      xb_lens := (xb_lens b)[?i := ethHdrSize + length (fst x)], xb_count := ?i + 1\<rparr>"
    using a c ethertypeOf_ok [OF c(3)] by (simp add: XDPBatch_Add_def Let_def MaxXDPBatchSize_def split: if_splits)
  have m: "length ?d = 6" "length (xb_srcMAC b) = 6" "slots_ok (xb_bufs b) (xb_lens b) ?i" using g v by (auto simp: xdp_good_def)
  note sa = slots_add [OF m(3) c(1) m(1,2) etOf_length c(2)]
  show "xdp_good b' \<and> xb_frames b' = xb_frames b @ [xdpWire (xb_srcMAC b) (xb_dstMAC b) x] \<and>
      xdpWire (xb_srcMAC b') (xb_dstMAC b') = xdpWire (xb_srcMAC b) (xb_dstMAC b)"
    using sa g unfolding b' by (simp add: xdp_good_def xb_frames_slot xdpWire_def)
next
  fix x b e b'
  show "XDPBatch_Add (fst x) (snd x) b = (Some e, b') \<Longrightarrow> b' = b"
    by (auto simp: XDPBatch_Add_def Let_def split: if_splits sum.splits)
next
  fix b
  show "xdp_good b \<Longrightarrow> xdp_good (b\<lparr>xb_count := 0\<rparr>) \<and> xb_frames (b\<lparr>xb_count := 0\<rparr>) = [] \<and>
      xdpWire (xb_srcMAC (b\<lparr>xb_count := 0\<rparr>)) (xb_dstMAC (b\<lparr>xb_count := 0\<rparr>)) = xdpWire (xb_srcMAC b) (xb_dstMAC b)"
    by (simp add: xdp_good_def xb_frames_slot slots_ok_def)
qed


definition packet_good :: "PacketBatch \<Rightarrow> bool" where
  "packet_good b \<longleftrightarrow> slots_ok (pb_bufs b) (pb_lens b) (pb_count b) \<and> length (pb_srcMAC b) = 6"

definition packetWire :: "mac \<Rightarrow> bytes \<times> mac \<Rightarrow> bytes" where
  "packetWire srcMAC x = snd x @ srcMAC @ etOf (fst x) @ fst x"

interpretation packetQ: batch_queue "\<lambda>x. PacketBatch_Add (fst x) (snd x)" "\<lambda>b. b\<lparr>pb_count := 0\<rparr>" pb_frames
    "\<lambda>b. packetWire (pb_srcMAC b)" frameable "\<lambda>x. length (snd x) = 6" packet_good MaxSocketBatchSize
proof
  fix b x
  show "packet_good b \<Longrightarrow> (fst (PacketBatch_Add (fst x) (snd x) b) = None) = (frameable x \<and> length (pb_frames b) < MaxSocketBatchSize)"
    using ethertypeOf_ok [of "fst x"] ethertypeOf_bad [of "fst x"]
    by (cases "wellFormed (fst x)")
      (auto simp: PacketBatch_Add_def frameable_def pb_frames_slot MaxSocketBatchSize_def maxFrameSize_def ethHdrSize_def Let_def split: sum.split)
next
  fix b x b'
  assume g: "packet_good b" and v: "length (snd x) = 6" and a: "PacketBatch_Add (fst x) (snd x) b = (None, b')"
  let ?i = "pb_count b"
  have c: "?i < 1024" "ethHdrSize + length (fst x) \<le> maxFrameSize" "wellFormed (fst x)"
    using a ethertypeOf_bad [of "fst x"] by (auto simp: PacketBatch_Add_def Let_def MaxSocketBatchSize_def split: if_splits sum.splits)
  have b': "b' = b\<lparr>pb_bufs := (pb_bufs b)[?i := fillFrame (pb_bufs b ! ?i) (snd x) (pb_srcMAC b) (etOf (fst x)) (fst x)],
      pb_lens := (pb_lens b)[?i := ethHdrSize + length (fst x)], pb_count := ?i + 1\<rparr>"
    using a c ethertypeOf_ok [OF c(3)] by (simp add: PacketBatch_Add_def Let_def MaxSocketBatchSize_def split: if_splits)
  have m: "length (pb_srcMAC b) = 6" "slots_ok (pb_bufs b) (pb_lens b) ?i" using g by (auto simp: packet_good_def)
  note sa = slots_add [OF m(2) c(1) v m(1) etOf_length c(2)]
  show "packet_good b' \<and> pb_frames b' = pb_frames b @ [packetWire (pb_srcMAC b) x] \<and> packetWire (pb_srcMAC b') = packetWire (pb_srcMAC b)"
    using sa g unfolding b' by (simp add: packet_good_def pb_frames_slot packetWire_def)
next
  fix x b e b'
  show "PacketBatch_Add (fst x) (snd x) b = (Some e, b') \<Longrightarrow> b' = b"
    by (auto simp: PacketBatch_Add_def Let_def split: if_splits sum.splits)
next
  fix b
  show "packet_good b \<Longrightarrow> packet_good (b\<lparr>pb_count := 0\<rparr>) \<and> pb_frames (b\<lparr>pb_count := 0\<rparr>) = [] \<and>
      packetWire (pb_srcMAC (b\<lparr>pb_count := 0\<rparr>)) = packetWire (pb_srcMAC b)"
    by (simp add: packet_good_def pb_frames_slot slots_ok_def)
qed

text \<open>The message of a well-formed packet in a buffer.\<close>

definition sockMsgOf :: "memory \<Rightarrow> nat \<Rightarrow> sockMsg" where
  "sockMsgOf mem p =
     (if IPVersion (mem p) = 4 then \<lparr>sm_addr = slice (mem p) 16 20, sm_iov = Own (take 4096 (mem p))\<rparr>
      else \<lparr>sm_addr = slice (mem p) 24 40, sm_iov = Caller p (length (mem p))\<rparr>)"

interpretation sockQ: batch_queue "SocketBatch_Add mem" "\<lambda>b. b\<lparr>sb_msgs := []\<rparr>" sb_msgs "\<lambda>_. sockMsgOf mem"
    "\<lambda>p. wellFormed (mem p)" "\<lambda>_. True" "\<lambda>_. True" MaxSocketBatchSize for mem
  by unfold_locales (auto simp: SocketBatch_Add_def sb_count_def wellFormed_def sockMsgOf_def Let_def split: if_splits)

subsection \<open>Properties\<close>

lemma NewXDPBatch_good: "length sm = 6 \<Longrightarrow> length dm = 6 \<Longrightarrow> xdp_good (NewXDPBatch sm dm) \<and> xb_frames (NewXDPBatch sm dm) = []"
  by (simp add: xdp_good_def NewXDPBatch_def slots_ok_def list_all_length MaxXDPBatchSize_def xb_frames_slot)

lemma pump_room:
  "length (tp_ch p) + length fs \<le> txPumpQueueLen \<Longrightarrow> fold (Submit False False) fs p = p\<lparr>tp_ch := tp_ch p @ fs\<rparr>"
  by (induction fs arbitrary: p) (simp_all add: Submit_def)

lemma flush_to_pump:
  assumes "xb_frames b = fs" "length (tp_ch p) + length fs \<le> txPumpQueueLen"
  shows "\<exists>b'. XDPBatch_Flush (Submit False False) b p = (b', p\<lparr>tp_ch := tp_ch p @ fs\<rparr>) \<and> XDPBatch_Empty b'"
proof (cases "xb_count b = 0")
  case True
  then have "fs = []" using assms(1) by (metis xb_frames_slot length_slotFrames(2))
  then show ?thesis using True by (simp add: XDPBatch_Flush_def XDPBatch_Empty_def)
next
  case False
  then show ?thesis using pump_room [OF assms(2)] assms(1) by (simp add: XDPBatch_Flush_def XDPBatch_Empty_def)
qed

text \<open>
  A batch hands the pump exactly what was added to it. After any series of packets
  added to a new batch, flushing it submits, in order, the Ethernet frames of the first
  1024 acceptable ones (IPv4 or IPv6 with a complete header and at most 4082 bytes),
  each the next hop's address, the source address, the EtherType and the packet itself,
  with nothing left over from earlier uses of the slot, and leaves the batch empty.
  Where the pump has room for all of them, they are appended to its queue.
\<close>

lemma xdp_cycle:
  assumes "length sm = 6" "length dm = 6" "list_all (\<lambda>x. snd x = [] \<or> length (snd x) = 6) xs"
    and "length (tp_ch p) + 1024 \<le> txPumpQueueLen"
  shows "\<exists>b. XDPBatch_Flush (Submit False False) (addAll (\<lambda>x. XDPBatch_Add (fst x) (snd x)) xs (NewXDPBatch sm dm)) p =
      (b, p\<lparr>tp_ch := tp_ch p @ map (xdpWire sm dm) (take 1024 (filter frameable xs))\<rparr>) \<and> XDPBatch_Empty b"
proof -
  note new = NewXDPBatch_good [OF assms(1,2)]
  let ?b = "addAll (\<lambda>x. XDPBatch_Add (fst x) (snd x)) xs (NewXDPBatch sm dm)"
  let ?fs = "map (xdpWire sm dm) (take 1024 (filter frameable xs))"
  have q: "xb_frames ?b = ?fs"
    using xdpQ.addAll_queued [of "NewXDPBatch sm dm" xs] new assms(3) by (simp add: NewXDPBatch_def MaxXDPBatchSize_def)
  show ?thesis using flush_to_pump [OF q, of p] assms(4) by simp
qed

definition exIp :: "byte \<Rightarrow> byte \<Rightarrow> bytes \<Rightarrow> bytes" where
  "exIp v proto body = [v * 16 + 5, 0, 0, 0, 0, 0, 0, 0, 64, proto, 0, 0, 10, 8, 0, 2, 192, 0, 2, 80] @ body"

text \<open>The packets that leave by the raw socket; all others leave as frames.\<close>

definition toSocket :: "bool \<Rightarrow> bytes \<Rightarrow> bool" where
  "toSocket ack pkt \<longleftrightarrow> \<not> isXDPEligible pkt \<or> (ack \<and> length pkt < 128)"

text \<open>Without an alternative egress, a forward batch is a socket batch beside a frame batch.\<close>

lemma forward_decomposes:
  "fb_alt b = None \<Longrightarrow>
   addAll (\<lambda>x. ForwardBatch_Add ops ack mem (fst x) (snd x)) xs b =
   b\<lparr>fb_xdp := addAll (\<lambda>x. XDPBatch_Add (fst x) (snd x)) (map (\<lambda>x. (mem (fst x), snd x)) (filter (\<lambda>x. \<not> toSocket ack (mem (fst x))) xs)) (fb_xdp b),
     fb_sock := addAll (SocketBatch_Add mem) (map fst (filter (\<lambda>x. toSocket ack (mem (fst x))) xs)) (fb_sock b)\<rparr>"
proof (induction xs arbitrary: b)
  case (Cons x xs)
  have "snd (ForwardBatch_Add ops ack mem (fst x) (snd x) b) =
      (if toSocket ack (mem (fst x)) then b\<lparr>fb_sock := snd (SocketBatch_Add mem (fst x) (fb_sock b))\<rparr>
       else b\<lparr>fb_xdp := snd (XDPBatch_Add (mem (fst x)) (snd x) (fb_xdp b))\<rparr>)"
    using Cons.prems by (auto simp: ForwardBatch_Add_def toSocket_def Let_def split: prod.splits)
  then show ?case using Cons.IH Cons.prems by (cases "toSocket ack (mem (fst x))") simp_all
qed simp

definition sockWire :: "bytes \<Rightarrow> bytes \<times> bytes" where
  "sockWire pkt = (if IPVersion pkt = 4 then (slice pkt 16 20, take 4096 pkt) else (slice pkt 24 40, pkt))"

lemma sb_out_msgs: "sb_out mem \<lparr>sb_msgs = map (sockMsgOf mem) ps\<rparr> = map (\<lambda>p. sockWire (mem p)) ps"
  by (auto simp: sb_out_def sockMsgOf_def sockWire_def)

lemma socket_queue:
  "sb_msgs (addAll (SocketBatch_Add mem) ps NewSocketBatch) = map (sockMsgOf mem) (take 1024 (filter (\<lambda>p. wellFormed (mem p)) ps))"
  using sockQ.addAll_queued [where b = NewSocketBatch and xs = ps and mem = mem] by (simp add: NewSocketBatch_def MaxSocketBatchSize_def list_all_length)

lemma socket_flush_all:
  assumes "sb_msgs b = map (sockMsgOf mem) ps"
  shows "SocketBatch_Flush mem (\<lambda>ms. Some (length ms)) b = (None, map (\<lambda>p. sockWire (mem p)) ps, \<lparr>sb_msgs = []\<rparr>)"
proof -
  have b: "b = \<lparr>sb_msgs = map (sockMsgOf mem) ps\<rparr>" using assms by simp
  show ?thesis unfolding b by (cases ps) (simp_all add: SocketBatch_Flush_def sb_count_def sb_out_msgs del: list.map)
qed



definition exMem :: memory where
  "exMem i = (if i = 0 then exIp 4 1 [7] else if i = 1 then exIp 4 6 (replicate 200 8) else exIp 4 6 [9])"

definition exMode :: fwdMode where
  "exMode = \<lparr>forwardViaVhost = False, forwardViaUring = False, forwardViaTun = False, forwardViaNapiTun = False, forwardViaPacket = False\<rparr>"

lemma exIp_facts:
  "IPVersion (exIp 4 pr bd) = 4" "length (exIp v pr bd) = 20 + length bd" "exIp v pr bd ! 9 = pr" "slice (exIp v pr bd) 16 20 = [192, 0, 2, 80]"
  by (simp_all add: exIp_def IPVersion_def slice_def)

lemma exIp_class:
  "wellFormed (exIp 4 pr bd)" "length bd \<le> 4000 \<Longrightarrow> frameable (exIp 4 pr bd, m)"
  "toSocket True (exIp 4 pr bd) \<longleftrightarrow> pr \<noteq> 6 \<and> pr \<noteq> 17 \<or> length bd < 108"
  "length bd \<le> 4000 \<Longrightarrow> sockWire (exIp 4 pr bd) = ([192, 0, 2, 80], exIp 4 pr bd)" "etOf (exIp 4 pr bd) = [8, 0]"
  by (auto simp: wellFormed_def frameable_def toSocket_def isXDPEligible_def sockWire_def etOf_def exIp_facts)


text \<open>
  Only IPv4 packets are copied when they are added. An IPv6 packet is queued by
  reference: if the caller's buffer is reused before the flush, as the pooled buffers of
  the forward loop are, what leaves is the new content, cut to the old length, while an
  IPv4 packet leaves as it was.
\<close>

theorem socket_ipv6_by_reference:
  assumes "wellFormed (mem p)" "SocketBatch_Add mem p NewSocketBatch = (e, b)"
  shows "e = None \<and> SocketBatch_Flush (mem(p := new)) (\<lambda>ms. Some (length ms)) b =
    (None, [if IPVersion (mem p) = 4 then (slice (mem p) 16 20, take 4096 (mem p)) else (slice (mem p) 24 40, take (length (mem p)) new)], NewSocketBatch)"
  using assms by (auto simp: SocketBatch_Add_def NewSocketBatch_def wellFormed_def sb_count_def MaxSocketBatchSize_def Let_def
      SocketBatch_Flush_def sb_out_def split: if_splits)

theorem socket_ipv6_by_reference_witness:
  "SocketBatch_Flush ((\<lambda>_. 0x60 # replicate 60 1)(3 := replicate 80 2)) (\<lambda>ms. Some (length ms))
     (snd (SocketBatch_Add (\<lambda>_. 0x60 # replicate 60 1) 3 NewSocketBatch)) = (None, [(replicate 16 1, replicate 61 2)], NewSocketBatch)"
proof -
  have v: "IPVersion (0x60 # replicate 60 1) = 6" by (simp add: IPVersion_def)
  let ?m = "\<lambda>_ :: nat. 0x60 # replicate 60 1 :: bytes"
  obtain e b where a: "SocketBatch_Add ?m 3 NewSocketBatch = (e, b)" by fastforce
  have "wellFormed (?m 3)" using v by (simp add: wellFormed_def)
  with socket_ipv6_by_reference [of ?m 3 e b "replicate 80 2"] a show ?thesis
    using v by (simp add: slice_def drop_Cons')
qed

text \<open>
  The raw-socket batch has no check of its own against overflow: once 1024
  acceptable packets have been added since the last flush, the next call panics with an
  index out of range, whatever the packet is.
\<close>

theorem socket_overflow_panics:
  assumes "list_all (\<lambda>p. wellFormed (mem p)) ps" "1024 \<le> length ps"
  shows "SocketBatch_Full (addAll (SocketBatch_Add mem) ps NewSocketBatch) \<and>
    fst (SocketBatch_Add mem q (addAll (SocketBatch_Add mem) ps NewSocketBatch)) = Some IndexPanic"
proof -
  have "filter (\<lambda>p. wellFormed (mem p)) ps = ps" using assms(1) by (simp add: list_all_iff filter_id_conv)
  then have "sb_count (addAll (SocketBatch_Add mem) ps NewSocketBatch) = 1024" using assms(2) by (simp add: sb_count_def socket_queue)
  then show ?thesis by (simp add: SocketBatch_Full_def SocketBatch_Add_def MaxSocketBatchSize_def Let_def)
qed

theorem socket_overflow_panics_witness:
  "fst (SocketBatch_Add (\<lambda>_. exIp 4 1 []) 0 (addAll (SocketBatch_Add (\<lambda>_. exIp 4 1 [])) (replicate 1024 0) NewSocketBatch)) = Some IndexPanic"
  using socket_overflow_panics [of "\<lambda>_. exIp 4 1 []" "replicate 1024 0" 0] exIp_class(1) by (simp add: list_all_length)

end
