(* ===== verification/Forward.thy ===== *)
theory Forward
  imports Snat Session Reseq Egress
begin

unbundle bit_operations_syntax

text \<open>
  The forward router of \<^verbatim>\<open>main.go\<close>: the table of tunnel channels that connections
  register in and leave (\<^verbatim>\<open>handleConn\<close>), the choice of a bonded tunnel
  (\<^verbatim>\<open>pickTunnel\<close>), the four-way decision for each packet a client sends
  (\<^verbatim>\<open>forwardOne\<close>), and its use behind the resequencer (\<^verbatim>\<open>handlePkt\<close>). A channel is its
  number and the packets buffered in it. The packet is passed as a buffer, since source
  NAT rewrites it in place. The primary interface's entry of \<open>fw_nics\<close> holds the batch
  that the code calls \<^verbatim>\<open>batch\<close> and the connection it calls \<^verbatim>\<open>afxdpConn\<close>.
\<close>

subsection \<open>Tunnel channels\<close>

type_synonym tunMap = "ip4 \<Rightarrow> nat option list option"

text \<open>The loop of \<^verbatim>\<open>pickTunnel\<close> with \<open>n - i\<close> rounds to go.\<close>

fun pickLoop :: "nat option list \<Rightarrow> nat \<Rightarrow> nat \<Rightarrow> nat \<Rightarrow> nat option" where
  "pickLoop chans start i 0 = None"
| "pickLoop chans start i (Suc k) =
     (case chans ! ((start + i) mod length chans) of
        Some c \<Rightarrow> Some c
      | None \<Rightarrow> pickLoop chans start (i + 1) k)"

definition pickTunnel :: "nat option list \<Rightarrow> bytes \<Rightarrow> nat option" where
  "pickTunnel chans ip =
     (let n = length chans in
      if n = 0 then None
      else pickLoop chans (unat (FlowHash ip mod of_nat n)) 0 n)"

definition chansOf :: "tunMap \<Rightarrow> ip4 \<Rightarrow> nat option list" where
  "chansOf m key = (case m key of Some cs \<Rightarrow> cs | None \<Rightarrow> [])"

text \<open>\<^verbatim>\<open>handleConn\<close> enters its channel, and clears its slot when it ends.\<close>

definition registerChan :: "ip4 \<Rightarrow> int \<Rightarrow> int \<Rightarrow> nat \<Rightarrow> tunMap \<Rightarrow> tunMap" where
  "registerChan key tunIdx tunCount tunChan m =
     (let chans = chansOf m key;
          chans = (if int (length chans) \<noteq> tunCount
                   then take (nat tunCount) chans @ replicate (nat tunCount - length chans) None else chans);
          chans = (if tunIdx \<ge> 0 \<and> tunIdx < tunCount then chans[nat tunIdx := Some tunChan] else chans)
      in m(key \<mapsto> chans))"

definition teardownChan :: "ip4 \<Rightarrow> int \<Rightarrow> tunMap \<Rightarrow> tunMap" where
  "teardownChan key tunIdx m =
     (let chans = chansOf m key;
          chans = (if tunIdx \<ge> 0 \<and> tunIdx < int (length chans) then chans[nat tunIdx := None] else chans);
          m = (case m key of None \<Rightarrow> m | Some _ \<Rightarrow> m(key \<mapsto> chans))
      in if list_ex (\<lambda>c. c \<noteq> None) chans then m else m(key := None))"

subsection \<open>The router\<close>

type_synonym prefix = "ip4 \<times> nat"

definition Contains :: "prefix \<Rightarrow> ip4 \<Rightarrow> bool" where
  "Contains p ip \<longleftrightarrow> drop_bit (32 - snd p) (fst p) = drop_bit (32 - snd p) ip"

record fwdConfig =
  wanAddr :: ip4
  serverTunIP :: ip4
  virtPrefix :: prefix
  lanRoutes :: "(prefix \<times> int) list"
  lanXDP :: bool
  lanEgressNeedsMAC :: bool
  ackViaSocket :: bool
  primaryNIC :: nat

record 'a nicEgress =
  ne_addr :: ip4
  ne_conn :: "unit Conn"
  ne_batch :: "'a ForwardBatch option"

record 'a fwdState =
  fw_mem :: memory
  fw_tunMap :: tunMap
  fw_chans :: "nat \<Rightarrow> bytes list"
  fw_nat :: NatTable
  fw_tun :: "bytes list"
  fw_nics :: "'a nicEgress list"
  fw_obs :: orderObs
  fw_c2cSends :: nat
  fw_c2cNoPeer :: nat
  fw_tunChanDrops :: nat
  fw_lanForwards :: nat
  fw_snatFailDrops :: nat
  fw_fwdAddDrops :: nat
  fw_panic :: bool

text \<open>
  Writing a packet to the TUN device, and adding one to the batch of an interface. An
  index out of range inside \<^verbatim>\<open>Add\<close> ends the process.
\<close>

definition tunWrite :: "bytes \<Rightarrow> 'a fwdState \<Rightarrow> 'a fwdState" where
  "tunWrite ip s = s\<lparr>fw_tun := fw_tun s @ [ip]\<rparr>"

definition batchAdd :: "'a fwdEgress \<Rightarrow> bool \<Rightarrow> nat \<Rightarrow> nat \<Rightarrow> mac \<Rightarrow> 'a fwdState \<Rightarrow> 'a fwdState" where
  "batchAdd ops ack i p mac s =
     (case ne_batch (fw_nics s ! i) of
        None \<Rightarrow> s
      | Some b \<Rightarrow>
          (case ForwardBatch_Add ops ack (fw_mem s) p mac b of
             (e, b) \<Rightarrow>
               let s = s\<lparr>fw_nics := (fw_nics s)[i := (fw_nics s ! i)\<lparr>ne_batch := Some b\<rparr>]\<rparr>
               in if e = Some IndexPanic then s\<lparr>fw_panic := True\<rparr>
                  else if e \<noteq> None then s\<lparr>fw_fwdAddDrops := fw_fwdAddDrops s + 1\<rparr> else s))"

text \<open>To another client: down one of its tunnels, unless it has none or the channel is full.\<close>

definition tunChanCap :: nat where "tunChanCap = 4096"

definition forwardPeer :: "bytes \<Rightarrow> ip4 \<Rightarrow> 'a fwdState \<Rightarrow> 'a fwdState" where
  "forwardPeer ip dst s =
     (case pickTunnel (chansOf (fw_tunMap s) dst) ip of
        None \<Rightarrow> s\<lparr>fw_c2cNoPeer := fw_c2cNoPeer s + 1\<rparr>
      | Some tc \<Rightarrow>
          if length (fw_chans s tc) < tunChanCap
          then s\<lparr>fw_chans := (fw_chans s)(tc := fw_chans s tc @ [take 4096 ip]), fw_c2cSends := fw_c2cSends s + 1\<rparr>
          else s\<lparr>fw_tunChanDrops := fw_tunChanDrops s + 1\<rparr>)"

definition countLan :: "'a fwdState \<Rightarrow> 'a fwdState" where
  "countLan s = s\<lparr>fw_lanForwards := fw_lanForwards s + 1\<rparr>"

text \<open>To a local network, by way of the interface \<open>egIdx\<close> that owns it.\<close>

definition forwardLan :: "fwdConfig \<Rightarrow> 'a fwdEgress \<Rightarrow> bpf_put \<Rightarrow> u64 \<Rightarrow> (nat \<Rightarrow> bytes \<Rightarrow> mac option) \<Rightarrow> nat \<Rightarrow> int
    \<Rightarrow> 'a fwdState \<Rightarrow> 'a fwdState" where
  "forwardLan cfg ops put now arp p egIdx s =
     (let ip = fw_mem s p; i = nat egIdx in
      if \<not> lanXDP cfg \<or> egIdx < 0 \<or> ne_batch (fw_nics s ! i) = None then countLan (tunWrite ip s)
      else
        case ApplySNAT put now ip (ne_addr (fw_nics s ! i)) (fw_nat s) of
          (Inl _, t) \<Rightarrow> countLan (s\<lparr>fw_nat := t, fw_snatFailDrops := fw_snatFailDrops s + 1\<rparr>)
        | (Inr ip, t) \<Rightarrow>
            let s = s\<lparr>fw_nat := t, fw_mem := (fw_mem s)(p := ip)\<rparr> in
            if lanEgressNeedsMAC cfg then
              (case LanNextHopMAC (arp i) (slice ip 16 20) (ne_conn (fw_nics s ! i)) of
                 (mac, c) \<Rightarrow>
                   let s = s\<lparr>fw_nics := (fw_nics s)[i := (fw_nics s ! i)\<lparr>ne_conn := c\<rparr>]\<rparr>
                   in if mac = [] then countLan (tunWrite ip s)
                      else countLan (batchAdd ops (ackViaSocket cfg) i p mac s))
            else countLan (batchAdd ops (ackViaSocket cfg) i p [] s))"

definition forwardWan :: "fwdConfig \<Rightarrow> 'a fwdEgress \<Rightarrow> bpf_put \<Rightarrow> u64 \<Rightarrow> nat \<Rightarrow> 'a fwdState \<Rightarrow> 'a fwdState" where
  "forwardWan cfg ops put now p s =
     (let ip = fw_mem s p;
          s = s\<lparr>fw_obs := highWaterObserve ip (fw_obs s)\<rparr> in
      case ApplySNAT put now ip (wanAddr cfg) (fw_nat s) of
        (Inl _, t) \<Rightarrow> s\<lparr>fw_nat := t, fw_snatFailDrops := fw_snatFailDrops s + 1\<rparr>
      | (Inr ip, t) \<Rightarrow>
          let s = s\<lparr>fw_nat := t, fw_mem := (fw_mem s)(p := ip)\<rparr> in
          batchAdd ops (ackViaSocket cfg) (primaryNIC cfg) p
            (NextHopMACForIP (slice ip 16 20) (ne_conn (fw_nics s ! primaryNIC cfg))) s)"

definition forwardOne :: "fwdConfig \<Rightarrow> 'a fwdEgress \<Rightarrow> bpf_put \<Rightarrow> u64 \<Rightarrow> (nat \<Rightarrow> bytes \<Rightarrow> mac option) \<Rightarrow> nat
    \<Rightarrow> 'a fwdState \<Rightarrow> 'a fwdState" where
  "forwardOne cfg ops put now arp p s =
     (let ip = fw_mem s p; dst = get32 ip 16 in
      if dst = wanAddr cfg \<or> dst = serverTunIP cfg then tunWrite ip s
      else if Contains (virtPrefix cfg) dst then forwardPeer ip dst s
      else case List.find (\<lambda>lr. Contains (fst lr) dst) (lanRoutes cfg) of
             Some lr \<Rightarrow> forwardLan cfg ops put now arp p (snd lr) s
           | None \<Rightarrow> forwardWan cfg ops put now p s)"

text \<open>
  \<^verbatim>\<open>handlePkt\<close>: with the resequencer, everything it releases is forwarded, in order.
  The released packets other than IPv6 are copied by whatever queues them, so it does
  not matter which buffer they pass through.
\<close>

fun forwardAll :: "fwdConfig \<Rightarrow> 'a fwdEgress \<Rightarrow> bpf_put \<Rightarrow> u64 \<Rightarrow> (nat \<Rightarrow> bytes \<Rightarrow> mac option) \<Rightarrow> nat \<Rightarrow> bytes list
    \<Rightarrow> 'a fwdState \<Rightarrow> 'a fwdState" where
  "forwardAll cfg ops put now arp p [] s = s"
| "forwardAll cfg ops put now arp p (ip # ips) s =
     forwardAll cfg ops put now arp p ips (forwardOne cfg ops put now arp p (s\<lparr>fw_mem := (fw_mem s)(p := ip)\<rparr>))"

definition handlePkt :: "fwdConfig \<Rightarrow> 'a fwdEgress \<Rightarrow> bpf_put \<Rightarrow> u64 \<Rightarrow> (nat \<Rightarrow> bytes \<Rightarrow> mac option) \<Rightarrow> int \<Rightarrow> nat
    \<Rightarrow> ForwardReseq option \<Rightarrow> 'a fwdState \<Rightarrow> ForwardReseq option \<times> 'a fwdState" where
  "handlePkt cfg ops put now arp clock p uploadReseq s =
     (case uploadReseq of
        Some r \<Rightarrow>
          (case Push r (fw_mem s p) clock [] of
             (r, reseqOut) \<Rightarrow> (Some r, forwardAll cfg ops put now arp p reseqOut s))
      | None \<Rightarrow> (None, forwardOne cfg ops put now arp p s))"

text \<open>What the loop does with the segments the resequencer gives up waiting for.\<close>

definition forwardExpired :: "fwdConfig \<Rightarrow> 'a fwdEgress \<Rightarrow> bpf_put \<Rightarrow> u64 \<Rightarrow> (nat \<Rightarrow> bytes \<Rightarrow> mac option) \<Rightarrow> int \<Rightarrow> nat
    \<Rightarrow> ForwardReseq option \<Rightarrow> 'a fwdState \<Rightarrow> ForwardReseq option \<times> 'a fwdState" where
  "forwardExpired cfg ops put now arp clock p uploadReseq s =
     (case uploadReseq of
        Some r \<Rightarrow> (case FlushExpired r clock [] of (r, reseqOut) \<Rightarrow> (Some r, forwardAll cfg ops put now arp p reseqOut s))
      | None \<Rightarrow> (None, s))"

subsection \<open>Choosing a tunnel\<close>

lemma pickLoop_Some: "pickLoop chans start i k = Some c \<Longrightarrow> chans \<noteq> [] \<Longrightarrow> Some c \<in> set chans"
proof (induction k arbitrary: i)
  case (Suc k)
  have m: "chans ! ((start + i) mod length chans) \<in> set chans" using Suc.prems(2) by simp
  show ?case
  proof (cases "chans ! ((start + i) mod length chans)")
    case None
    then show ?thesis using Suc by simp
  next
    case (Some d)
    then show ?thesis using Suc.prems(1) m by simp
  qed
qed simp

lemma pickLoop_None: "pickLoop chans start i k = None \<Longrightarrow> j < k \<Longrightarrow> chans ! ((start + i + j) mod length chans) = None"
proof (induction k arbitrary: i j)
  case (Suc k)
  then show ?case using Suc.IH [of "i + 1" "j - 1"] by (cases j) (auto split: option.splits)
qed simp

lemma mod_onto: "m < n \<Longrightarrow> \<exists>j < n. (start + j) mod n = m" for n :: nat
proof -
  assume m: "m < n"
  let ?j = "(m + (n - start mod n)) mod n"
  have "(start + ?j) mod n = (start mod n + (m + (n - start mod n))) mod n" by (metis mod_add_eq mod_mod_trivial)
  also have "start mod n + (m + (n - start mod n)) = m + n" using m mod_less_divisor [of n start] by linarith
  also have "(m + n) mod n = m" using m by simp
  finally show ?thesis using m by (intro exI [of _ ?j] conjI) simp_all
qed

text \<open>A tunnel is found exactly when one is live, and it is one of the client's.\<close>

lemma pickTunnel_live: "pickTunnel chans ip = Some c \<Longrightarrow> Some c \<in> set chans"
  using pickLoop_Some by (cases "chans = []") (auto simp: pickTunnel_def Let_def)

lemma pickTunnel_none: "pickTunnel chans ip = None \<longleftrightarrow> (\<forall>c \<in> set chans. c = None)"
proof -
  have "chans ! m = None" if n: "pickTunnel chans ip = None" and m: "m < length chans" for m
  proof -
    let ?st = "unat (FlowHash ip mod of_nat (length chans))"
    obtain j where "j < length chans" "(?st + j) mod length chans = m" using mod_onto [OF m] by blast
    moreover have "pickLoop chans ?st 0 (length chans) = None" using n m by (auto simp: pickTunnel_def Let_def split: if_splits)
    ultimately show ?thesis using pickLoop_None [of chans ?st 0 "length chans" j] by auto
  qed
  then show ?thesis
    using pickTunnel_live by (cases "pickTunnel chans ip") (auto simp: in_set_conv_nth)
qed

lemma pickTunnel_flow: "FlowHash ip = FlowHash ip' \<Longrightarrow> pickTunnel chans ip = pickTunnel chans ip'"
  by (simp add: pickTunnel_def Let_def)

subsection \<open>Properties\<close>

text \<open>
  C8: Traffic between clients stays inside the overlay. A packet for an address of the
  virtual network other than the server's goes, unmodified, into the channel of one of
  that client's own live tunnels; it is dropped and counted when the client has none or
  the channel is full; and it touches neither the NAT table nor any interface nor the
  TUN device. The tunnel depends only on the hash of the flow.
\<close>

theorem peer_traffic_stays_inside:
  assumes "dst = get32 (fw_mem s p) 16" "dst \<noteq> wanAddr cfg" "dst \<noteq> serverTunIP cfg" "Contains (virtPrefix cfg) dst"
    and "s' = forwardOne cfg ops put now arp p s"
  shows "fw_nat s' = fw_nat s \<and> fw_nics s' = fw_nics s \<and> fw_tun s' = fw_tun s \<and> fw_mem s' = fw_mem s \<and> fw_tunMap s' = fw_tunMap s \<and>
    (if \<forall>c \<in> set (chansOf (fw_tunMap s) dst). c = None then fw_chans s' = fw_chans s \<and> fw_c2cNoPeer s' = fw_c2cNoPeer s + 1
     else \<exists>tc. Some tc \<in> set (chansOf (fw_tunMap s) dst) \<and>
       (\<forall>ip'. FlowHash ip' = FlowHash (fw_mem s p) \<longrightarrow> pickTunnel (chansOf (fw_tunMap s) dst) ip' = Some tc) \<and>
       (if length (fw_chans s tc) < 4096
        then fw_chans s' = (fw_chans s)(tc := fw_chans s tc @ [take 4096 (fw_mem s p)]) \<and> fw_c2cSends s' = fw_c2cSends s + 1
        else fw_chans s' = fw_chans s \<and> fw_tunChanDrops s' = fw_tunChanDrops s + 1))"
proof -
  have s': "s' = forwardPeer (fw_mem s p) dst s" using assms by (simp add: forwardOne_def Let_def)
  show ?thesis
  proof (cases "pickTunnel (chansOf (fw_tunMap s) dst) (fw_mem s p)")
    case None
    then have "\<forall>c \<in> set (chansOf (fw_tunMap s) dst). c = None" using pickTunnel_none by blast
    then show ?thesis using None s' by (simp add: forwardPeer_def)
  next
    case (Some tc)
    have live: "Some tc \<in> set (chansOf (fw_tunMap s) dst)" by (rule pickTunnel_live [OF Some])
    have pin: "\<forall>ip'. FlowHash ip' = FlowHash (fw_mem s p) \<longrightarrow> pickTunnel (chansOf (fw_tunMap s) dst) ip' = Some tc"
      using Some pickTunnel_flow by metis
    have nl: "\<not> (\<forall>c \<in> set (chansOf (fw_tunMap s) dst). c = None)" using live by auto
    show ?thesis
      unfolding if_not_P [OF nl] using live pin Some s' by (auto simp: forwardPeer_def tunChanCap_def)
  qed
qed

definition exState :: "unit fwdState" where
  "exState = \<lparr>fw_mem = (\<lambda>_. replicate 12 0x45 @ [10, 8, 0, 2, 10, 8, 0, 3]), fw_tunMap = [0x0a080003 \<mapsto> [None, Some 7]], fw_chans = (\<lambda>_. []),
     fw_nat = OpenNatTable Map.empty, fw_tun = [], fw_nics = [], fw_obs = \<lparr>ob_maxSeq = [], ob_total = 0, ob_ooo = 0\<rparr>,
     fw_c2cSends = 0, fw_c2cNoPeer = 0, fw_tunChanDrops = 0, fw_lanForwards = 0, fw_snatFailDrops = 0, fw_fwdAddDrops = 0, fw_panic = False\<rparr>"

definition exCfg :: fwdConfig where
  "exCfg = \<lparr>wanAddr = 0xc0000201, serverTunIP = 0x0a080001, virtPrefix = (0x0a080000, 24), lanRoutes = [((0xac100000, 12), 0)],
     lanXDP = True, lanEgressNeedsMAC = False, ackViaSocket = True, primaryNIC = 0\<rparr>"

definition exOps :: "unit fwdEgress" where
  "exOps = \<lparr>eg_Add = (\<lambda>_ _ a. (None, a)), eg_Flush = (\<lambda>a. (None, a)), eg_Full = (\<lambda>_. False), eg_Empty = (\<lambda>_. True), eg_Close = (\<lambda>a. a)\<rparr>"

lemma exState_dst: "get32 (fw_mem exState 0) 16 = 0x0a080003"
proof -
  have "unat (be16 10 8) = 2568" "unat (be16 0 3) = 3" by (simp_all add: unat_be16)
  then show ?thesis by (simp add: exState_def get32_def get16_def nth_append be32_def)
qed

theorem peer_traffic_stays_inside_witness:
  "fw_chans (forwardOne exCfg exOps (\<lambda>_ _ _. None) 0 (\<lambda>_ _. None) 0 exState) 7 = [replicate 12 0x45 @ [10, 8, 0, 2, 10, 8, 0, 3]]"
proof -
  have c: "Contains (virtPrefix exCfg) 0x0a080003" by (simp add: Contains_def exCfg_def)
  have ne: "(0x0a080003 :: ip4) \<noteq> wanAddr exCfg" "(0x0a080003 :: ip4) \<noteq> serverTunIP exCfg" by (simp_all add: exCfg_def)
  have ch: "chansOf (fw_tunMap exState) 0x0a080003 = [None, Some 7]" by (simp add: chansOf_def exState_def)
  show ?thesis
    using peer_traffic_stays_inside [OF exState_dst [symmetric] ne c refl, of exOps "\<lambda>_ _ _. None" 0 "\<lambda>_ _. None"]
    unfolding ch by (auto simp: exState_def)
qed

text \<open>
  The end of a connection clears its slot in the channel table without checking
  that the slot still holds its channel. When a client has reconnected on the same
  tunnel before the old connection ends, the old connection's end removes the new
  channel: with a single tunnel the client then has no entry at all, and packets from
  its peers are dropped although its new tunnel is up.
\<close>

theorem teardown_unregisters_successor:
  "chansOf (registerChan key 0 1 new (registerChan key 0 1 old m)) key = [Some new] \<and>
   teardownChan key 0 (registerChan key 0 1 new (registerChan key 0 1 old m)) key = None \<and>
   pickTunnel (chansOf (teardownChan key 0 (registerChan key 0 1 new (registerChan key 0 1 old m))) key) ip = None"
proof -
  have one: "chansOf (registerChan key 0 1 c m') key = [Some c]" for c m'
  proof -
    have "take 1 xs @ replicate (1 - length xs) None \<noteq> []" for xs :: "nat option list" by (cases xs) auto
    moreover have "length (take 1 xs @ replicate (1 - length xs) None) = 1" for xs :: "nat option list" by (cases xs) auto
    moreover have "xs[0 := Some c] = [Some c]" if "length xs = 1" for xs :: "nat option list" using that by (cases xs) auto
    ultimately show ?thesis unfolding registerChan_def Let_def by (simp add: chansOf_def)
  qed
  have "teardownChan key 0 m' key = None" if "chansOf m' key = [Some c]" for m' c
    using that by (simp add: teardownChan_def Let_def)
  then have t: "teardownChan key 0 (registerChan key 0 1 new (registerChan key 0 1 old m)) key = None" using one by blast
  then have "chansOf (teardownChan key 0 (registerChan key 0 1 new (registerChan key 0 1 old m))) key = []" by (simp add: chansOf_def)
  then show ?thesis using one t by (simp add: pickTunnel_def)
qed

subsection \<open>Accounting\<close>

definition batchCount :: "'a nicEgress \<Rightarrow> nat" where
  "batchCount n = (case ne_batch n of None \<Rightarrow> 0 | Some b \<Rightarrow> xb_count (fb_xdp b) + sb_count (fb_sock b))"

definition outcomes :: "'a fwdState \<Rightarrow> nat" where
  "outcomes s = length (fw_tun s) + fw_c2cSends s + fw_c2cNoPeer s + fw_tunChanDrops s + fw_snatFailDrops s + fw_fwdAddDrops s +
     sum_list (map batchCount (fw_nics s))"

definition batch_ready :: "'a ForwardBatch \<Rightarrow> bool" where
  "batch_ready b \<longleftrightarrow> fb_alt b = None \<and> \<not> SocketBatch_Full (fb_sock b)"

definition nics_ready :: "'a fwdState \<Rightarrow> bool" where
  "nics_ready s \<longleftrightarrow> list_all (\<lambda>n. pred_option batch_ready (ne_batch n)) (fw_nics s)"

lemma xdp_add_count: "XDPBatch_Add pkt m b = (e, b') \<Longrightarrow> xb_count b' = xb_count b + (if e = None then 1 else 0)"
  by (auto simp: XDPBatch_Add_def Let_def split: if_splits sum.splits)

lemma sock_add_count: "SocketBatch_Add mem p b = (e, b') \<Longrightarrow> sb_count b' = sb_count b + (if e = None then 1 else 0)"
  by (auto simp: SocketBatch_Add_def sb_count_def Let_def split: if_splits)

lemma forward_add_count:
  assumes "ForwardBatch_Add ops ack mem p m b = (e, b')" "fb_alt b = None"
  shows "xb_count (fb_xdp b') + sb_count (fb_sock b') = xb_count (fb_xdp b) + sb_count (fb_sock b) + (if e = None then 1 else 0)"
  using assms by (auto simp: ForwardBatch_Add_def Let_def split: if_splits prod.splits dest!: xdp_add_count sock_add_count)

lemma forward_add_no_panic:
  assumes "ForwardBatch_Add ops ack mem p m b = (e, b')" "batch_ready b"
  shows "e \<noteq> Some IndexPanic"
  using assms
  by (auto simp: ForwardBatch_Add_def SocketBatch_Add_def XDPBatch_Add_def SocketBatch_Full_def batch_ready_def ethertypeOf_def Let_def
      split: if_splits prod.splits sum.splits)

lemma sum_list_upd: "i < length xs \<Longrightarrow> sum_list (map f (xs[i := y])) + f (xs ! i) = sum_list (map f xs) + f y" for f :: "'a \<Rightarrow> nat"
proof (induction xs arbitrary: i)
  case (Cons x xs)
  then show ?case by (cases i) auto
qed simp

lemma batchAdd_outcomes:
  assumes "i < length (fw_nics s)" "ne_batch (fw_nics s ! i) = Some b" "batch_ready b"
  shows "outcomes (batchAdd ops ack i p m s) = outcomes s + 1"
proof -
  obtain e b' where a: "ForwardBatch_Add ops ack (fw_mem s) p m b = (e, b')" by fastforce
  note cnt = forward_add_count [OF a] and upd = sum_list_upd [OF assms(1), of batchCount "(fw_nics s ! i)\<lparr>ne_batch := Some b'\<rparr>"]
  have bc: "batchCount ((fw_nics s ! i)\<lparr>ne_batch := Some b'\<rparr>) = batchCount (fw_nics s ! i) + (if e = None then 1 else 0)"
    using cnt assms(2,3) by (simp add: batchCount_def batch_ready_def)
  show ?thesis
    using upd bc assms(2) a forward_add_no_panic [OF a assms(3)] by (cases "e = None") (simp_all add: batchAdd_def outcomes_def Let_def)
qed

lemma outcomes_frame [simp]:
  "outcomes (s\<lparr>fw_nat := t\<rparr>) = outcomes s" "outcomes (s\<lparr>fw_mem := mm\<rparr>) = outcomes s" "outcomes (s\<lparr>fw_obs := ob\<rparr>) = outcomes s"
  "outcomes (countLan s) = outcomes s" "outcomes (tunWrite ip s) = outcomes s + 1"
  "outcomes (s\<lparr>fw_snatFailDrops := fw_snatFailDrops s + 1\<rparr>) = outcomes s + 1"
  by (simp_all add: outcomes_def countLan_def tunWrite_def)

lemma wan_outcomes:
  assumes "primaryNIC cfg < length (fw_nics s)" "ne_batch (fw_nics s ! primaryNIC cfg) = Some b" "batch_ready b"
  shows "outcomes (forwardWan cfg ops put now p s) = outcomes s + 1"
proof (cases "ApplySNAT put now (fw_mem s p) (wanAddr cfg) (fw_nat s)")
  case (Pair r t)
  then show ?thesis
    using assms by (cases r) (simp_all add: forwardWan_def Let_def batchAdd_outcomes, simp add: outcomes_def)
qed


lemma conn_outcomes:
  assumes "i < length (fw_nics s)"
  shows "outcomes (s\<lparr>fw_nics := (fw_nics s)[i := (fw_nics s ! i)\<lparr>ne_conn := c\<rparr>]\<rparr>) = outcomes s"
proof -
  have "batchCount ((fw_nics s ! i)\<lparr>ne_conn := c\<rparr>) = batchCount (fw_nics s ! i)" by (simp add: batchCount_def)
  then show ?thesis using sum_list_upd [OF assms, of batchCount "(fw_nics s ! i)\<lparr>ne_conn := c\<rparr>"] by (simp add: outcomes_def)
qed

lemma lan_outcomes:
  assumes i: "egIdx < int (length (fw_nics s))" and r: "nics_ready s"
  shows "outcomes (forwardLan cfg ops put now arp p egIdx s) = outcomes s + 1"
proof (cases "\<not> lanXDP cfg \<or> egIdx < 0 \<or> ne_batch (fw_nics s ! nat egIdx) = None")
  case True
  then show ?thesis by (simp add: forwardLan_def Let_def)
next
  case False
  let ?i = "nat egIdx"
  have l: "?i < length (fw_nics s)" using i False by auto
  obtain b where b: "ne_batch (fw_nics s ! ?i) = Some b" "batch_ready b"
    using False r l by (fastforce simp: nics_ready_def list_all_length)
  obtain r t where sn: "ApplySNAT put now (fw_mem s p) (ne_addr (fw_nics s ! ?i)) (fw_nat s) = (r, t)" by fastforce
  show ?thesis
  proof (cases r)
    case (Inl e)
    then show ?thesis using False sn by (simp add: forwardLan_def Let_def) (simp add: outcomes_def)
  next
    case (Inr ip)
    let ?s = "s\<lparr>fw_nat := t, fw_mem := (fw_mem s)(p := ip)\<rparr>"
    obtain mac c where m: "LanNextHopMAC (arp ?i) (slice ip 16 20) (ne_conn (fw_nics s ! ?i)) = (mac, c)" by fastforce
    let ?s1 = "?s\<lparr>fw_nics := (fw_nics ?s)[?i := (fw_nics ?s ! ?i)\<lparr>ne_conn := c\<rparr>]\<rparr>"
    have o1: "outcomes ?s1 = outcomes s" using conn_outcomes [of ?i ?s c] l by simp
    have a: "outcomes (batchAdd ops ack ?i p [] ?s) = outcomes s + 1" "outcomes (batchAdd ops ack ?i p mac ?s1) = outcomes s + 1" for ack
      using batchAdd_outcomes [of ?i ?s b] batchAdd_outcomes [of ?i ?s1 b] l b o1 by simp_all
    have "forwardLan cfg ops put now arp p egIdx s =
        (if lanEgressNeedsMAC cfg then
           if mac = [] then countLan (tunWrite ip ?s1) else countLan (batchAdd ops (ackViaSocket cfg) ?i p mac ?s1)
         else countLan (batchAdd ops (ackViaSocket cfg) ?i p [] ?s))"
      using False sn Inr m b(1) by (simp add: forwardLan_def Let_def)
    then show ?thesis using a o1 by (simp only: outcomes_frame split: if_split) simp
  qed
qed

text \<open>
  No packet is lost without trace. When no batch is full and none has an
  alternative egress, \<^verbatim>\<open>forwardOne\<close> has exactly one of these outcomes for a packet: it
  is written to the TUN device, put into a peer's channel, queued in a batch, or counted
  as a drop for want of a peer, of channel space, of a NAT port or of an acceptable
  packet.
\<close>

theorem every_packet_has_one_outcome:
  assumes "nics_ready s" "primaryNIC cfg < length (fw_nics s)" "ne_batch (fw_nics s ! primaryNIC cfg) \<noteq> None"
    and "list_all (\<lambda>lr. snd lr < int (length (fw_nics s))) (lanRoutes cfg)"
  shows "outcomes (forwardOne cfg ops put now arp p s) = outcomes s + 1"
proof -
  obtain b where b: "ne_batch (fw_nics s ! primaryNIC cfg) = Some b" "batch_ready b"
    using assms(1-3) by (fastforce simp: nics_ready_def list_all_length)
  note wan = wan_outcomes [OF assms(2) b]
  have lan: "outcomes (forwardLan cfg ops put now arp p (snd lr) s) = outcomes s + 1"
    if "List.find (\<lambda>lr. Contains (fst lr) dst) (lanRoutes cfg) = Some lr" for dst lr
    using lan_outcomes [OF _ assms(1)] that assms(4) by (auto simp: find_Some_iff list_all_length)
  have peer: "outcomes (forwardPeer ip dst s) = outcomes s + 1" for ip dst
    by (simp add: forwardPeer_def outcomes_def split: option.split)
  show ?thesis unfolding forwardOne_def Let_def using wan lan peer by (simp split: option.split)
qed

definition exNic :: "unit nicEgress" where
  "exNic = \<lparr>ne_addr = 0xc0000201, ne_conn = exConn,
     ne_batch = Some \<lparr>fb_xdp = NewXDPBatch [2, 0, 0, 0, 0, 1] [2, 0, 0, 0, 0, 2], fb_alt = None, fb_sock = NewSocketBatch\<rparr>\<rparr>"

theorem every_packet_has_one_outcome_witness:
  "outcomes (forwardOne exCfg exOps (\<lambda>_ _ _. None) 0 (\<lambda>_ _. None) 0 (exState\<lparr>fw_nics := [exNic]\<rparr>)) = outcomes (exState\<lparr>fw_nics := [exNic]\<rparr>) + 1"
  by (rule every_packet_has_one_outcome)
    (simp_all add: nics_ready_def exNic_def batch_ready_def SocketBatch_Full_def sb_count_def NewSocketBatch_def MaxSocketBatchSize_def exCfg_def)

subsection \<open>Packets for the Internet\<close>

lemma batchAdd_frame [simp]:
  "fw_mem (batchAdd ops ack i p m s) = fw_mem s" "fw_nat (batchAdd ops ack i p m s) = fw_nat s"
  "fw_tun (batchAdd ops ack i p m s) = fw_tun s" "fw_chans (batchAdd ops ack i p m s) = fw_chans s"
  "fw_snatFailDrops (batchAdd ops ack i p m s) = fw_snatFailDrops s"
  by (auto simp: batchAdd_def Let_def split: option.split prod.split)

text \<open>A packet for none of the local destinations is translated and queued on the primary interface.\<close>

lemma forwardOne_wan:
  assumes "get32 (fw_mem s p) 16 \<notin> {wanAddr cfg, serverTunIP cfg}" "\<not> Contains (virtPrefix cfg) (get32 (fw_mem s p) 16)"
    and "list_all (\<lambda>lr. \<not> Contains (fst lr) (get32 (fw_mem s p) 16)) (lanRoutes cfg)"
    and "ApplySNAT put now (fw_mem s p) (wanAddr cfg) (fw_nat s) = (Inr ip', t')"
  shows "fw_mem (forwardOne cfg ops put now arp p s) p = ip'" "fw_nat (forwardOne cfg ops put now arp p s) = t'"
    "fw_tun (forwardOne cfg ops put now arp p s) = fw_tun s" "fw_chans (forwardOne cfg ops put now arp p s) = fw_chans s"
proof -
  have "List.find (\<lambda>lr. Contains (fst lr) (get32 (fw_mem s p) 16)) (lanRoutes cfg) = None"
    using assms(3) by (auto simp: find_None_iff list_all_iff)
  then have "forwardOne cfg ops put now arp p s = forwardWan cfg ops put now p s"
    using assms(1,2) by (simp add: forwardOne_def Let_def)
  then show "fw_mem (forwardOne cfg ops put now arp p s) p = ip'" "fw_nat (forwardOne cfg ops put now arp p s) = t'"
    "fw_tun (forwardOne cfg ops put now arp p s) = fw_tun s" "fw_chans (forwardOne cfg ops put now arp p s) = fw_chans s"
    using assms(4) by (simp_all add: forwardWan_def Let_def)
qed

end
