(* ===== verification/Download.thy ===== *)
theory Download
  imports Forward
begin

text \<open>
  The download direction of \<^verbatim>\<open>handleConn\<close>: the goroutine that takes packets from the channel
  of a tunnel, resequences them when that is enabled, and writes them to the client, and
  the ICMP errors the connection answers with, which go out by the primary interface.
\<close>

subsection \<open>The writer to the client\<close>

text \<open>
  \<^verbatim>\<open>conn.WritePacket\<close> either accepts the packet, perhaps with an ICMP error to send back,
  or fails, because the connection is closed or otherwise; its answer may depend on
  everything written before.
\<close>

datatype writeRes = Written (wr_icmp: bytes) | ConnClosed | WriteFailed

record 'p downState =
  dn_chan :: "bytes list"
  dn_reseq :: ForwardReseq
  dn_obs :: orderObs
  dn_gen :: preSendObs
  dn_tried :: "bytes list"
  dn_icmp :: "(bytes \<times> bytes) list"
  dn_pump :: 'p
  dn_alive :: bool

record 'p downEnv =
  de_write :: "bytes list \<Rightarrow> bytes \<Rightarrow> writeRes"
  de_reseq :: bool
  de_stats :: bool
  de_conn :: "unit Conn"
  de_srcMAC :: mac
  de_submit :: "bytes \<Rightarrow> 'p \<Rightarrow> 'p"
  de_sendmmsg :: "(bytes \<times> bytes) list \<Rightarrow> nat option"

definition sendICMP :: "'p downEnv \<Rightarrow> bytes \<Rightarrow> 'p downState \<Rightarrow> 'p downState" where
  "sendICMP e icmp s =
     (case ForwardSendOne (de_submit e) (\<lambda>_. icmp) (de_sendmmsg e) (de_srcMAC e)
             (NextHopMACForIP (slice icmp 16 20) (de_conn e)) 0 (dn_pump s) of
        (_, out, p) \<Rightarrow> s\<lparr>dn_icmp := dn_icmp s @ out, dn_pump := p\<rparr>)"

fun writeOut :: "'p downEnv \<Rightarrow> bytes list \<Rightarrow> 'p downState \<Rightarrow> 'p downState" where
  "writeOut e [] s = s"
| "writeOut e (b # bs) s =
     (let r = de_write e (dn_tried s) b; s = s\<lparr>dn_tried := dn_tried s @ [b]\<rparr> in
      case r of
        ConnClosed \<Rightarrow> s\<lparr>dn_alive := False\<rparr>
      | WriteFailed \<Rightarrow> writeOut e bs s
      | Written icmp \<Rightarrow> writeOut e bs (if icmp \<noteq> [] then sendICMP e icmp s else s))"

text \<open>One packet from the channel, counted by the two observers, and one tick of the timer.\<close>

definition downObserve :: "'p downEnv \<Rightarrow> bytes \<Rightarrow> 'p downState \<Rightarrow> 'p downState" where
  "downObserve e pkt s =
     (if de_stats e then s\<lparr>dn_obs := highWaterObserve pkt (dn_obs s), dn_gen := preSendObserve pkt (dn_gen s)\<rparr> else s)"

definition downStep :: "'p downEnv \<Rightarrow> int \<Rightarrow> 'p downState \<Rightarrow> 'p downState" where
  "downStep e now s =
     (case dn_chan s of
        [] \<Rightarrow> s
      | pkt # rest \<Rightarrow>
          let s = downObserve e pkt (s\<lparr>dn_chan := rest\<rparr>)
          in if de_reseq e then (case Push (dn_reseq s) pkt now [] of (r, out) \<Rightarrow> writeOut e out (s\<lparr>dn_reseq := r\<rparr>))
             else writeOut e [pkt] s)"

definition downTick :: "'p downEnv \<Rightarrow> int \<Rightarrow> 'p downState \<Rightarrow> 'p downState" where
  "downTick e now s =
     (if de_reseq e then (case FlushExpired (dn_reseq s) now [] of (r, out) \<Rightarrow> writeOut e out (s\<lparr>dn_reseq := r\<rparr>)) else s)"

subsection \<open>The download direction\<close>

datatype downEvent = FromChan int | Timer int

text \<open>The loop of the writing goroutine, which ends when the connection is closed.\<close>

fun downRun :: "'p downEnv \<Rightarrow> downEvent list \<Rightarrow> 'p downState \<Rightarrow> 'p downState" where
  "downRun e [] s = s"
| "downRun e (ev # evs) s =
     (if \<not> dn_alive s then s
      else downRun e evs (case ev of FromChan now \<Rightarrow> downStep e now s | Timer now \<Rightarrow> downTick e now s))"

lemma sendICMP_frame [simp]:
  "dn_tried (sendICMP e icmp s) = dn_tried s" "dn_chan (sendICMP e icmp s) = dn_chan s" "dn_reseq (sendICMP e icmp s) = dn_reseq s"
  "dn_alive (sendICMP e icmp s) = dn_alive s"
  by (simp_all add: sendICMP_def split: prod.split)

lemma downObserve_frame [simp]:
  "dn_tried (downObserve e p s) = dn_tried s" "dn_chan (downObserve e p s) = dn_chan s" "dn_reseq (downObserve e p s) = dn_reseq s"
  "dn_alive (downObserve e p s) = dn_alive s"
  by (simp_all add: downObserve_def)

lemma writeOut_facts:
  "dn_chan (writeOut e bs s) = dn_chan s \<and> dn_reseq (writeOut e bs s) = dn_reseq s \<and>
   (\<exists>k \<le> length bs. dn_tried (writeOut e bs s) = dn_tried s @ take k bs \<and> (dn_alive (writeOut e bs s) \<longrightarrow> k = length bs)) \<and>
   (dn_alive s \<longrightarrow> (\<forall>h b. de_write e h b \<noteq> ConnClosed) \<longrightarrow> dn_alive (writeOut e bs s))"
proof (induction bs arbitrary: s)
  case (Cons b bs)
  show ?case
  proof (cases "de_write e (dn_tried s) b")
    case (Written icmp)
    let ?s = "s\<lparr>dn_tried := dn_tried s @ [b]\<rparr>"
    let ?t = "if icmp \<noteq> [] then sendICMP e icmp ?s else ?s"
    have t: "dn_tried ?t = dn_tried s @ [b]" "dn_chan ?t = dn_chan s" "dn_reseq ?t = dn_reseq s" "dn_alive ?t = dn_alive s" by simp_all
    from Cons.IH [of ?t] obtain k where k: "k \<le> length bs" "dn_tried (writeOut e bs ?t) = dn_tried ?t @ take k bs"
      "dn_alive (writeOut e bs ?t) \<longrightarrow> k = length bs" by blast
    have w: "writeOut e (b # bs) s = writeOut e bs ?t" using Written by (simp add: Let_def)
    show ?thesis unfolding w using Cons.IH [of ?t] k unfolding t by (intro conjI exI [of _ "Suc k"]) auto
  next
    case ConnClosed
    then show ?thesis by (auto simp: Let_def intro!: exI [of _ 1])
  next
    case WriteFailed
    let ?t = "s\<lparr>dn_tried := dn_tried s @ [b]\<rparr>"
    from Cons.IH [of ?t] obtain k where k: "k \<le> length bs" "dn_tried (writeOut e bs ?t) = dn_tried ?t @ take k bs"
      "dn_alive (writeOut e bs ?t) \<longrightarrow> k = length bs" by blast
    have w: "writeOut e (b # bs) s = writeOut e bs ?t" using WriteFailed by (simp add: Let_def)
    show ?thesis unfolding w using Cons.IH [of ?t] k by (intro conjI exI [of _ "Suc k"]) auto
  qed
qed simp

text \<open>
  Without the resequencer the download direction of a tunnel is a queue: whatever the
  client connection answers and whenever the timer fires, the packets handed to it so far,
  followed by those still in the channel, are the packets that were put into the channel.
\<close>

lemma downStep_plain: "\<not> de_reseq e \<Longrightarrow> dn_tried (downStep e now s) @ dn_chan (downStep e now s) = dn_tried s @ dn_chan s"
proof (cases "dn_chan s")
  case (Cons p rest)
  assume r: "\<not> de_reseq e"
  let ?s = "downObserve e p (s\<lparr>dn_chan := rest\<rparr>)"
  have d: "downStep e now s = writeOut e [p] ?s" using r Cons by (simp del: writeOut.simps add: downStep_def Let_def)
  have "dn_tried (writeOut e [p] ?s) = dn_tried s @ [p]" by (simp add: Let_def split: writeRes.split)
  then show ?thesis unfolding d using writeOut_facts [of e "[p]" ?s] Cons by simp
qed (simp add: downStep_def)

theorem download_queue:
  assumes "\<not> de_reseq e"
  shows "dn_tried (downRun e evs s) @ dn_chan (downRun e evs s) = dn_tried s @ dn_chan s"
proof (induction evs arbitrary: s)
  case (Cons ev evs)
  then show ?case using assms by (cases ev) (simp_all add: downStep_plain downTick_def)
qed simp

subsection \<open>Resequenced downloads\<close>

lemma downRun_pushAll:
  assumes "de_reseq e" "\<forall>h b. de_write e h b \<noteq> ConnClosed" "length ts = length (dn_chan s)" "dn_alive s"
  shows "dn_chan (downRun e (map FromChan ts) s) = [] \<and> (dn_tried (downRun e (map FromChan ts) s), dn_reseq (downRun e (map FromChan ts) s)) =
    (snd (pushAll (dn_reseq s) (zip (dn_chan s) ts) (dn_tried s)), fst (pushAll (dn_reseq s) (zip (dn_chan s) ts) (dn_tried s)))"
  using assms(3,4)
proof (induction ts arbitrary: s)
  case (Cons t ts)
  then obtain p rest where c: "dn_chan s = p # rest" by (cases "dn_chan s") auto
  let ?s = "downObserve e p (s\<lparr>dn_chan := rest\<rparr>)"
  obtain r o' where p: "Push (dn_reseq s) p t [] = (r, o')" by fastforce
  have rq: "dn_reseq ?s = dn_reseq s" by simp
  have d: "downStep e t s = writeOut e o' (?s\<lparr>dn_reseq := r\<rparr>)"
    using assms(1) c p by (simp add: downStep_def Let_def)
  let ?d = "downStep e t s"
  have f: "dn_chan ?d = rest" "dn_reseq ?d = r" "dn_tried ?d = dn_tried s @ o'" "dn_alive ?d"
    unfolding d using writeOut_facts [of e o' "?s\<lparr>dn_reseq := r\<rparr>"] assms(2) Cons.prems(2) by auto
  have P: "Push (dn_reseq s) p t (dn_tried s) = (r, dn_tried s @ o')" using Push_append [of "dn_reseq s" p t "dn_tried s"] p by simp
  show ?case using Cons.IH [of ?d] Cons.prems f P c by simp
qed simp


definition exDownEnv :: "unit downEnv" where
  "exDownEnv = \<lparr>de_write = (\<lambda>_ _. Written []), de_reseq = True, de_stats = True, de_conn = exConn, de_srcMAC = [], de_submit = (\<lambda>_ _. ()),
     de_sendmmsg = (\<lambda>_. None)\<rparr>"

definition exDown :: "unit downState" where
  "exDown = \<lparr>dn_chan = [ex_seg 9, ex_seg 7, ex_seg 8], dn_reseq = ex_state, dn_obs = \<lparr>ob_maxSeq = [], ob_total = 0, ob_ooo = 0\<rparr>,
     dn_gen = \<lparr>po_flows = [], po_total = 0, po_genuine = 0, po_retr = 0\<rparr>, dn_tried = [], dn_icmp = [], dn_pump = (), dn_alive = True\<rparr>"


end
