(* ===== verification/Vhost.thy ===== *)
theory Vhost
  imports Egress
begin

unbundle bit_operations_syntax

text \<open>
  The vhost-net writer of \<^verbatim>\<open>utility/vhost.go\<close> and the egress over it,
  \<^verbatim>\<open>utility/tun_vhost.go\<close>: the layout of the shared arena, the requests that set the
  device up, and the transmit ring with its 16-bit running indices. The descriptor table
  and the two rings are overlays of the arena in the code; they are fields of their own
  here, which the layout lemmas justify, and the arena is the memory that the buffers
  occupy. The worker of the kernel is represented by what virtio says of a device that
  completes in order: it takes the published entries one by one, reads the buffer a
  descriptor points to, and advances the used index over entries it has taken.
\<close>

definition vnetHdrV1Len :: nat where "vnetHdrV1Len = 12"
definition vhostNetVQTx :: u32 where "vhostNetVQTx = 1"

record vringDesc =
  vd_addr :: u64
  vd_len :: u32
  vd_flags :: u16
  vd_next :: u16

subsection \<open>The arena\<close>

definition align :: "int \<Rightarrow> int \<Rightarrow> int" where
  "align x a = (x + a - 1) AND NOT (a - 1)"

text \<open>The offsets of the avail ring, the used ring and the buffers, and the size.\<close>

record arenaLayout =
  al_availOff :: int
  al_usedOff :: int
  al_bufOff :: int
  al_total :: int

definition layoutArena :: "int \<Rightarrow> int \<Rightarrow> arenaLayout" where
  "layoutArena n bufSize =
     (let descBytes = 16 * n;
          availBytes = 4 + 2 * n + 2;
          availOff = descBytes;
          usedOff = align (availOff + availBytes) 4;
          usedBytes = 4 + 8 * n + 2;
          bufOff = align (usedOff + usedBytes) 16
      in \<lparr>al_availOff = availOff, al_usedOff = usedOff, al_bufOff = bufOff, al_total = bufOff + n * bufSize\<rparr>)"

record vhostNetWriter =
  vw_n :: u32
  vw_bufSize :: nat
  vw_arena :: bytes
  vw_arenaPtr :: u64
  vw_bufOff :: nat
  vw_bufBase :: u64
  vw_desc :: "vringDesc list"
  vw_availRing :: "u16 list"
  vw_availShared :: u16
  vw_usedShared :: u16
  vw_availIdx :: u16
  vw_lastUsed :: u16
  vw_freeHead :: u32

definition bufPtr :: "nat \<Rightarrow> vhostNetWriter \<Rightarrow> u64" where
  "bufPtr i w = vw_bufBase w + of_nat (i * vw_bufSize w)"

text \<open>The position and the capacity of the slice \<^verbatim>\<open>bufSlice(i)\<close> in the arena.\<close>

definition bufSlice :: "nat \<Rightarrow> vhostNetWriter \<Rightarrow> nat \<times> nat" where
  "bufSlice i w = (vw_bufOff w + i * vw_bufSize w, vw_bufSize w)"

subsection \<open>Setting the device up\<close>

datatype vhostReq =
    SET_OWNER
  | GET_FEATURES
  | SET_FEATURES u64
  | SET_MEM_TABLE (mt_gpa: u64) (mt_size: u64) (mt_user: u64)
  | SET_VRING_NUM u32 u32
  | SET_VRING_BASE u32 u32
  | SET_VRING_ADDR (va_index: u32) (va_desc: u64) (va_avail: u64) (va_used: u64)
  | SET_VRING_KICK u32
  | SET_VRING_CALL u32
  | NET_SET_BACKEND u32

definition vhostWant :: u64 where
  "vhostWant = push_bit 32 1 OR push_bit 27 1"

text \<open>
  The requests in the order of \<^verbatim>\<open>setup\<close>, given the features the kernel offers, and their
  execution up to the first that fails: those issued, and the one that failed.
\<close>

definition setupReqs :: "u64 \<Rightarrow> int \<Rightarrow> int \<Rightarrow> u64 \<Rightarrow> vhostReq list" where
  "setupReqs have_feat n bufSize arenaPtr =
     (let l = layoutArena n bufSize in
      [SET_OWNER, GET_FEATURES, SET_FEATURES (have_feat AND vhostWant),
       SET_MEM_TABLE arenaPtr (word_of_int (al_total l)) arenaPtr,
       SET_VRING_NUM vhostNetVQTx (word_of_int n), SET_VRING_BASE vhostNetVQTx 0,
       SET_VRING_ADDR vhostNetVQTx arenaPtr (arenaPtr + word_of_int (al_availOff l)) (arenaPtr + word_of_int (al_usedOff l)),
       SET_VRING_KICK vhostNetVQTx, SET_VRING_CALL vhostNetVQTx, NET_SET_BACKEND vhostNetVQTx])"

fun vhostSetup :: "(vhostReq \<Rightarrow> bool) \<Rightarrow> vhostReq list \<Rightarrow> vhostReq list \<times> vhostReq option" where
  "vhostSetup ioctl [] = ([], None)"
| "vhostSetup ioctl (r # rs) =
     (if ioctl r then (case vhostSetup ioctl rs of (issued, e) \<Rightarrow> (r # issued, e)) else ([r], Some r))"

datatype vhostErr = NotPowerOfTwo | OpenFailed | KickFailed | CallFailed | MmapFailed | SetupFailed vhostReq

text \<open>
  \<^verbatim>\<open>newVhostNetWriter\<close>. The arguments \<open>opens\<close>, \<open>kick\<close>, \<open>call\<close> say whether the device and
  the two event descriptors can be opened; \<open>mmap\<close> is the address of the new, zeroed mapping.
\<close>

definition newVhostNetWriter :: "bool \<Rightarrow> bool \<Rightarrow> bool \<Rightarrow> (int \<Rightarrow> u64 option) \<Rightarrow> (vhostReq \<Rightarrow> bool) \<Rightarrow> u64 \<Rightarrow> int \<Rightarrow> int
    \<Rightarrow> vhostErr + vhostNetWriter" where
  "newVhostNetWriter opens kick call mmap ioctl have_feat entries bufSize =
     (if entries AND (entries - 1) \<noteq> 0 \<or> entries \<le> 0 then Inl NotPowerOfTwo
      else if \<not> opens then Inl OpenFailed
      else if \<not> kick then Inl KickFailed
      else if \<not> call then Inl CallFailed
      else
        let l = layoutArena entries bufSize in
        case mmap (al_total l) of
          None \<Rightarrow> Inl MmapFailed
        | Some ptr \<Rightarrow>
            (case vhostSetup ioctl (setupReqs have_feat entries bufSize ptr) of
               (_, Some r) \<Rightarrow> Inl (SetupFailed r)
             | (_, None) \<Rightarrow>
                 Inr \<lparr>vw_n = word_of_int entries, vw_bufSize = nat bufSize, vw_arena = replicate (nat (al_total l)) 0,
                      vw_arenaPtr = ptr, vw_bufOff = nat (al_bufOff l), vw_bufBase = ptr + word_of_int (al_bufOff l),
                      vw_desc = replicate (nat entries) \<lparr>vd_addr = 0, vd_len = 0, vd_flags = 0, vd_next = 0\<rparr>,
                      vw_availRing = replicate (nat entries) 0, vw_availShared = 0, vw_usedShared = 0,
                      vw_availIdx = 0, vw_lastUsed = 0, vw_freeHead = 0\<rparr>))"

subsection \<open>The transmit ring\<close>

definition Reclaim :: "vhostNetWriter \<Rightarrow> vhostNetWriter" where
  "Reclaim w = w\<lparr>vw_lastUsed := vw_usedShared w\<rparr>"

text \<open>\<^verbatim>\<open>vhostNetWriter.Submit\<close> and \<^verbatim>\<open>Flush\<close>. The kick of the worker leaves no trace in the state.\<close>

definition vhostSubmit :: "bytes \<Rightarrow> vhostNetWriter \<Rightarrow> bool \<times> vhostNetWriter" where
  "vhostSubmit pkt w0 =
     (let w = Reclaim w0 in
      if vw_availIdx w - vw_lastUsed w \<ge> ucast (vw_n w) then (False, w)
      else
        let slot = unat (vw_freeHead w AND (vw_n w - 1));
            (off, len) = bufSlice slot w
        in if vnetHdrV1Len + length pkt > len then (True, w)
           else
             let a = fold (\<lambda>i a. a[off + i := 0]) [0..<vnetHdrV1Len] (vw_arena w);
                 a = blit a (off + vnetHdrV1Len) (off + len) pkt;
                 d = \<lparr>vd_addr = bufPtr slot w, vd_len = of_nat (vnetHdrV1Len + length pkt), vd_flags = 0, vd_next = 0\<rparr>
             in (True, w\<lparr>vw_arena := a, vw_desc := (vw_desc w)[slot := d],
                  vw_availRing := (vw_availRing w)[unat (vw_availIdx w AND ucast (vw_n w - 1)) := of_nat slot],
                  vw_availIdx := vw_availIdx w + 1, vw_freeHead := vw_freeHead w + 1\<rparr>))"

definition vhostFlush :: "vhostNetWriter \<Rightarrow> vhostNetWriter" where
  "vhostFlush w = w\<lparr>vw_availShared := vw_availIdx w\<rparr>"

subsection \<open>The worker\<close>

text \<open>
  The writer and the worker: \<open>vs_taken\<close> is the worker's own position in the avail ring,
  \<open>vs_sent\<close> the frames it has put on the device. \<open>vs_accepted\<close> records the frames that
  \<^verbatim>\<open>Submit\<close> queued.
\<close>

record vhostSys =
  vs_w :: vhostNetWriter
  vs_taken :: u16
  vs_sent :: "bytes list"
  vs_accepted :: "bytes list"

definition vhostFrame :: "bytes \<Rightarrow> bytes" where
  "vhostFrame pkt = replicate vnetHdrV1Len 0 @ pkt"

definition sysSubmit :: "bytes \<Rightarrow> vhostSys \<Rightarrow> bool \<times> vhostSys" where
  "sysSubmit pkt s =
     (case vhostSubmit pkt (vs_w s) of (ok, w) \<Rightarrow>
        (ok, s\<lparr>vs_w := w, vs_accepted := vs_accepted s @
            (if ok \<and> vnetHdrV1Len + length pkt \<le> vw_bufSize w then [vhostFrame pkt] else [])\<rparr>))"

definition sysFlush :: "vhostSys \<Rightarrow> vhostSys" where
  "sysFlush s = s\<lparr>vs_w := vhostFlush (vs_w s)\<rparr>"

definition devTake :: "vhostSys \<Rightarrow> vhostSys" where
  "devTake s =
     (let w = vs_w s;
          head = vw_availRing w ! (unat (vs_taken s) mod unat (vw_n w));
          d = vw_desc w ! unat head;
          off = unat (vd_addr d - vw_arenaPtr w)
      in s\<lparr>vs_taken := vs_taken s + 1, vs_sent := vs_sent s @ [slice (vw_arena w) off (off + unat (vd_len d))]\<rparr>)"

definition devComplete :: "u16 \<Rightarrow> vhostSys \<Rightarrow> vhostSys" where
  "devComplete k s = s\<lparr>vs_w := (vs_w s)\<lparr>vw_usedShared := vw_usedShared (vs_w s) + k\<rparr>\<rparr>"

inductive dev_step :: "vhostSys \<Rightarrow> vhostSys \<Rightarrow> bool" where
  take_entry: "vs_taken s \<noteq> vw_availShared (vs_w s) \<Longrightarrow> dev_step s (devTake s)"
| complete: "k \<le> vs_taken s - vw_usedShared (vs_w s) \<Longrightarrow> dev_step s (devComplete k s)"

inductive vhost_step :: "vhostSys \<Rightarrow> vhostSys \<Rightarrow> bool" where
  submit: "vhost_step s (snd (sysSubmit pkt s))"
| flush: "vhost_step s (sysFlush s)"
| dev: "dev_step s s' \<Longrightarrow> vhost_step s s'"

definition vhost_init :: "vhostSys \<Rightarrow> bool" where
  "vhost_init s \<longleftrightarrow>
     (\<exists>opens kick call mmap ioctl feat entries bufSize w.
        newVhostNetWriter opens kick call mmap ioctl feat entries bufSize = Inr w \<and> entries \<le> 32768 \<and>
        0 \<le> bufSize \<and> bufSize < 2 ^ 32 \<and>
        s = \<lparr>vs_w = w, vs_taken = 0, vs_sent = [], vs_accepted = []\<rparr>)"

subsection \<open>The egress over the writer\<close>

text \<open>
  \<^verbatim>\<open>TunVhostBatch\<close>. \<open>dev\<close> is what the worker does between the kick and the second
  attempt of \<^verbatim>\<open>Add\<close>. The counters are fields, the writer shared by all batches is part of
  the system \<open>vhostSys\<close>.
\<close>

record TunVhostBatch =
  tv_queued :: nat
  tv_dstMAC :: mac
  tv_scratch :: bytes
  tv_drops :: nat
  tv_full :: nat
  tv_writes :: nat

definition NewTunVhostBatch :: "mac \<Rightarrow> TunVhostBatch" where
  "NewTunVhostBatch vhostTunMAC = \<lparr>tv_queued = 0, tv_dstMAC = vhostTunMAC, tv_scratch = replicate (14 + 4096) 0,
     tv_drops = 0, tv_full = 0, tv_writes = 0\<rparr>"

definition vhostEther :: "mac \<Rightarrow> bytes \<Rightarrow> bytes \<Rightarrow> bytes" where
  "vhostEther dstMAC ip scratch =
     (let f = take (14 + length ip) scratch;
          f = blit f 0 6 dstMAC;
          f = f[6 := 0x02, 7 := 0, 8 := 0, 9 := 0, 10 := 0, 11 := 1];
          f = (if drop_bit 4 (ip ! 0) = 6 then f[12 := 0x86, 13 := 0xDD] else f[12 := 0x08, 13 := 0x00])
      in blit f 14 (length f) ip)"

definition TunVhostBatch_Add :: "(vhostSys \<Rightarrow> vhostSys) \<Rightarrow> bytes \<Rightarrow> mac \<Rightarrow> TunVhostBatch \<times> vhostSys
    \<Rightarrow> egError option \<times> TunVhostBatch \<times> vhostSys" where
  "TunVhostBatch_Add dev ip mac x =
     (case x of (b, s) \<Rightarrow>
      if 14 + length ip > length (tv_scratch b) then (None, b\<lparr>tv_drops := tv_drops b + 1\<rparr>, s)
      else if ip = [] then (Some IndexPanic, b, s)
      else
        let f = vhostEther (tv_dstMAC b) ip (tv_scratch b);
            b = b\<lparr>tv_scratch := f @ drop (length f) (tv_scratch b)\<rparr>
        in case sysSubmit f s of
             (True, s) \<Rightarrow> (None, b\<lparr>tv_queued := tv_queued b + 1\<rparr>, s)
           | (False, s) \<Rightarrow>
               (case sysSubmit f (dev (sysFlush s)) of
                  (True, s) \<Rightarrow> (None, b\<lparr>tv_full := tv_full b + 1, tv_queued := tv_queued b + 1\<rparr>, s)
                | (False, s) \<Rightarrow> (None, b\<lparr>tv_full := tv_full b + 1, tv_drops := tv_drops b + 1\<rparr>, s)))"

definition TunVhostBatch_Flush :: "TunVhostBatch \<times> vhostSys \<Rightarrow> egError option \<times> TunVhostBatch \<times> vhostSys" where
  "TunVhostBatch_Flush x =
     (case x of (b, s) \<Rightarrow>
      if tv_queued b = 0 then (None, b, s)
      else (None, b\<lparr>tv_writes := tv_writes b + tv_queued b, tv_queued := 0\<rparr>, sysFlush s))"

text \<open>The methods as an implementation of the interface of the forward batch.\<close>

definition vhostEgress :: "(vhostSys \<Rightarrow> vhostSys) \<Rightarrow> (TunVhostBatch \<times> vhostSys) fwdEgress" where
  "vhostEgress dev = \<lparr>eg_Add = TunVhostBatch_Add dev, eg_Flush = TunVhostBatch_Flush, eg_Full = (\<lambda>_. False),
     eg_Empty = (\<lambda>x. tv_queued (fst x) = 0), eg_Close = (\<lambda>x. x)\<rparr>"

subsection \<open>Layout and set-up\<close>

lemma align_bounds:
  assumes "a = 2 ^ k"
  shows "x \<le> align x a" "align x a < x + a" "a dvd align x a"
proof -
  have e: "align x a = (x + a - 1) div a * a"
    using and_not_mask [of "x + a - 1" k] assms by (simp add: align_def mask_eq_exp_minus_1)
  have "0 < a" using assms by simp
  moreover have "(x + a - 1) div a * a = x + a - 1 - (x + a - 1) mod a" by (simp add: minus_mod_eq_div_mult)
  ultimately show "x \<le> align x a" "align x a < x + a"
    unfolding e using pos_mod_bound [of a "x + a - 1"] pos_mod_sign [of a "x + a - 1"] by linarith+
  show "a dvd align x a" unfolding e by simp
qed

lemma layout_bounds:
  assumes "0 < n" "0 \<le> bufSize" and l: "l = layoutArena n bufSize"
  shows "al_availOff l = 16 * n" "al_availOff l + (6 + 2 * n) \<le> al_usedOff l" "al_usedOff l + (6 + 8 * n) \<le> al_bufOff l"
    "al_total l = al_bufOff l + n * bufSize" "4 dvd al_usedOff l" "16 dvd al_bufOff l" "al_bufOff l \<le> 26 * n + 31" "0 \<le> al_usedOff l"
  using align_bounds [of 4 2 "16 * n + (4 + 2 * n + 2)"] align_bounds [of 16 4 "align (16 * n + (4 + 2 * n + 2)) 4 + (4 + 8 * n + 2)"] assms(1)
  by (simp_all add: l layoutArena_def Let_def)

lemma setup_issued: "vhostSetup ioctl reqs = (issued, e) \<Longrightarrow> e = None \<Longrightarrow> issued = reqs"
  by (induction reqs arbitrary: issued) (auto split: if_splits prod.splits)


subsection \<open>The invariant of the ring\<close>

text \<open>The writer is as \<^verbatim>\<open>newVhostNetWriter\<close> makes it: \<open>2\<^sup>k\<close> entries, at most 32768.\<close>

definition writer_ok :: "nat \<Rightarrow> vhostNetWriter \<Rightarrow> bool" where
  "writer_ok k w \<longleftrightarrow> k \<le> 15 \<and> vw_n w = 2 ^ k \<and> length (vw_desc w) = 2 ^ k \<and> length (vw_availRing w) = 2 ^ k \<and>
     length (vw_arena w) = vw_bufOff w + 2 ^ k * vw_bufSize w \<and> vw_bufOff w + 2 ^ k * vw_bufSize w < 2 ^ 64 \<and>
     vw_bufSize w < 2 ^ 32 \<and> vw_bufBase w = vw_arenaPtr w + of_nat (vw_bufOff w)"

definition slotOff :: "vhostNetWriter \<Rightarrow> nat \<Rightarrow> nat" where
  "slotOff w i = vw_bufOff w + i * vw_bufSize w"

text \<open>Entry \<open>i\<close> of the ring leads to the frame \<open>f\<close>.\<close>

definition slot_holds :: "vhostNetWriter \<Rightarrow> nat \<Rightarrow> bytes \<Rightarrow> bool" where
  "slot_holds w i f \<longleftrightarrow> vw_availRing w ! i = of_nat i \<and> vd_addr (vw_desc w ! i) = bufPtr i w \<and>
     vd_len (vw_desc w ! i) = of_nat (length f) \<and> length f \<le> vw_bufSize w \<and>
     slice (vw_arena w) (slotOff w i) (slotOff w i + length f) = f"

text \<open>
  The indices are the numbers of frames accepted, published, taken, completed and
  reclaimed, modulo their width; at most \<open>2\<^sup>k\<close> frames are not reclaimed, and the entries
  of the frames not yet taken are intact.
\<close>

definition ring_counts :: "nat \<Rightarrow> vhostSys \<Rightarrow> nat \<Rightarrow> nat \<Rightarrow> nat \<Rightarrow> bool" where
  "ring_counts k s P U L \<longleftrightarrow>
     (let w = vs_w s; A = length (vs_accepted s); D = length (vs_sent s) in
      L \<le> U \<and> U \<le> D \<and> D \<le> P \<and> P \<le> A \<and> A \<le> L + 2 ^ k \<and>
      vw_availIdx w = of_nat A \<and> vw_freeHead w = of_nat A \<and> vw_availShared w = of_nat P \<and>
      vs_taken s = of_nat D \<and> vw_usedShared w = of_nat U \<and> vw_lastUsed w = of_nat L)"

definition ring_inv :: "nat \<Rightarrow> vhostSys \<Rightarrow> bool" where
  "ring_inv k s \<longleftrightarrow> writer_ok k (vs_w s) \<and> (\<exists>P U L. ring_counts k s P U L) \<and>
     vs_sent s = take (length (vs_sent s)) (vs_accepted s) \<and>
     (\<forall>j. length (vs_sent s) \<le> j \<and> j < length (vs_accepted s) \<longrightarrow> slot_holds (vs_w s) (j mod 2 ^ k) (vs_accepted s ! j))"

lemma pow15: "k \<le> 15 \<Longrightarrow> (2::nat) ^ k \<le> 32768"
  using power_increasing [of k 15 "2::nat"] by simp

lemma u16_diff: "b \<le> a \<Longrightarrow> a - b < 65536 \<Longrightarrow> unat (of_nat a - of_nat b :: u16) = a - b"
  using unat_of_nat_small [of "a - b", where 'a = 16] by (simp add: of_nat_diff)

lemma u16_eq: "b \<le> a \<Longrightarrow> a - b < 65536 \<Longrightarrow> (of_nat a :: u16) = of_nat b \<longleftrightarrow> a = b"
  using u16_diff [of b a] by auto

lemma ring_full:
  assumes "k \<le> 15" "L \<le> A" "A \<le> L + 2 ^ k"
  shows "(of_nat A - of_nat L :: u16) \<ge> ucast (2 ^ k :: u32) \<longleftrightarrow> A = L + 2 ^ k"
proof -
  have "unat (2 ^ k :: u32) = 2 ^ k" using unat_of_nat_small [of "2 ^ k", where 'a = 32] pow15 [OF assms(1)] by simp
  then have "unat (ucast (2 ^ k :: u32) :: u16) = 2 ^ k"
    using assms(1) by (simp add: unsigned_ucast_eq take_bit_nat_eq_self_iff)
  moreover have "unat (of_nat A - of_nat L :: u16) = A - L" using assms pow15 [OF assms(1)] by (intro u16_diff) auto
  ultimately show ?thesis using assms by (auto simp: word_le_nat_alt)
qed

lemma ring_index:
  assumes "k \<le> 15"
  shows "unat ((of_nat A :: u32) AND (2 ^ k - 1)) = A mod 2 ^ k" "unat ((of_nat A :: u16) AND ucast (2 ^ k - 1 :: u32)) = A mod 2 ^ k"
proof -
  show "unat ((of_nat A :: u32) AND (2 ^ k - 1)) = A mod 2 ^ k"
    using unat_mask_of_nat [of k A, where 'a = 32] assms by (simp add: mask_eq_exp_minus_1)
  have "ucast (mask k :: u32) = (mask k :: u16)" by (rule bit_eqI) (auto simp: bit_simps)
  then show "unat ((of_nat A :: u16) AND ucast (2 ^ k - 1 :: u32)) = A mod 2 ^ k"
    using unat_mask_of_nat [of k A, where 'a = 16] assms by (simp add: mask_eq_exp_minus_1)
qed

lemma mod_apart: "j < A \<Longrightarrow> A - j < n \<Longrightarrow> j mod n \<noteq> A mod (n::nat)"
  by (metis add_diff_inverse_nat dvd_imp_le less_imp_le_nat mod_eq_dvd_iff_nat not_less zero_less_diff)

lemma zero_header:
  "off + m \<le> length a \<Longrightarrow> fold (\<lambda>i a. a[off + i := 0]) [0..<m] a = take off a @ replicate m 0 @ drop (off + m) (a :: bytes)"
proof (induction m)
  case (Suc m)
  then have "drop (off + m) a = a ! (off + m) # drop (Suc (off + m)) a" by (simp add: Cons_nth_drop_Suc)
  then show ?case using Suc by (simp add: list_update_append replicate_append_same [symmetric])
qed simp

lemma buffer_written:
  assumes "off + len \<le> length a" "vnetHdrV1Len + length pkt \<le> len"
  shows "blit (fold (\<lambda>i a. a[off + i := 0]) [0..<vnetHdrV1Len] a) (off + vnetHdrV1Len) (off + len) pkt =
    take off a @ vhostFrame pkt @ drop (off + length (vhostFrame pkt)) a"
proof -
  have "off + vnetHdrV1Len \<le> length a" using assms by linarith
  note z = zero_header [OF this]
  show ?thesis using assms unfolding z by (simp add: blit_def vhostFrame_def Let_def add_ac min_def)
qed

lemma slice_keep:
  assumes "off + length f \<le> length a" "j \<le> off \<or> off + length f \<le> i" "i \<le> j" "j \<le> length a"
  shows "slice (take off a @ f @ drop (off + length f) a) i j = slice a i j"
  using assms(2)
proof
  assume "j \<le> off"
  then show ?thesis using assms(1,3) by (simp add: slice_def drop_take)
next
  assume h: "off + length f \<le> i"
  then have "drop i (take off a @ f @ drop (off + length f) a) = drop i a" using assms(1) by (simp add: min_def)
  then show ?thesis by (simp add: slice_def)
qed

lemma slice_here: "off + length f \<le> length a \<Longrightarrow> slice (take off a @ f @ drop (off + length f) a) off (off + length f) = f"
  by (simp add: slice_def min_def)

lemma slot_room: "i < 2 ^ k \<Longrightarrow> writer_ok k w \<Longrightarrow> slotOff w i + vw_bufSize w \<le> length (vw_arena w)"
proof -
  assume "i < 2 ^ k" "writer_ok k w"
  moreover have "i * vw_bufSize w + vw_bufSize w \<le> 2 ^ k * vw_bufSize w" if "i < 2 ^ k"
    using mult_le_mono1 [of "i + 1" "2 ^ k" "vw_bufSize w"] that by simp
  ultimately show ?thesis by (auto simp: writer_ok_def slotOff_def)
qed

lemma slots_apart: "i \<noteq> i' \<Longrightarrow> slotOff w i + vw_bufSize w \<le> slotOff w i' \<or> slotOff w i' + vw_bufSize w \<le> slotOff w i"
proof -
  assume "i \<noteq> i'"
  then consider "i + 1 \<le> i'" | "i' + 1 \<le> i" by linarith
  then show ?thesis
  proof cases
    case 1
    from mult_le_mono1 [OF this, of "vw_bufSize w"] show ?thesis by (simp add: slotOff_def)
  next
    case 2
    from mult_le_mono1 [OF this, of "vw_bufSize w"] show ?thesis by (simp add: slotOff_def)
  qed
qed

text \<open>Putting a frame into the next entry keeps the others.\<close>

definition putFrame :: "nat \<Rightarrow> bytes \<Rightarrow> vhostNetWriter \<Rightarrow> vhostNetWriter" where
  "putFrame i f w = w\<lparr>vw_arena := take (slotOff w i) (vw_arena w) @ f @ drop (slotOff w i + length f) (vw_arena w),
     vw_desc := (vw_desc w)[i := \<lparr>vd_addr = bufPtr i w, vd_len = of_nat (length f), vd_flags = 0, vd_next = 0\<rparr>],
     vw_availRing := (vw_availRing w)[i := of_nat i],
     vw_availIdx := vw_availIdx w + 1, vw_freeHead := vw_freeHead w + 1\<rparr>"

lemma putFrame_holds:
  assumes "writer_ok k w" "i < 2 ^ k" "length f \<le> vw_bufSize w"
  shows "writer_ok k (putFrame i f w)" "slot_holds (putFrame i f w) i f"
    "j < 2 ^ k \<Longrightarrow> j \<noteq> i \<Longrightarrow> slot_holds w j g \<Longrightarrow> slot_holds (putFrame i f w) j g"
proof -
  have r: "slotOff w i + length f \<le> length (vw_arena w)" using slot_room [OF assms(2,1)] assms(3) by linarith
  show "writer_ok k (putFrame i f w)" using assms r by (simp add: writer_ok_def putFrame_def)
  have o: "slotOff (putFrame i f w) = slotOff w" "bufPtr j (putFrame i f w) = bufPtr j w" for j
    by (simp_all add: fun_eq_iff slotOff_def putFrame_def bufPtr_def)
  show "slot_holds (putFrame i f w) i f"
    using assms slice_here [OF r] unfolding slot_holds_def o by (simp add: putFrame_def writer_ok_def)
  assume j: "j < 2 ^ k" "j \<noteq> i" "slot_holds w j g"
  have g: "length g \<le> vw_bufSize w" "slotOff w j + length g \<le> length (vw_arena w)"
    using slot_room [OF j(1) assms(1)] j(3) by (simp_all add: slot_holds_def)
  have "slice (vw_arena (putFrame i f w)) (slotOff w j) (slotOff w j + length g) = slice (vw_arena w) (slotOff w j) (slotOff w j + length g)"
    using slice_keep [OF r, of "slotOff w j + length g" "slotOff w j"] slots_apart [of i j w] j(2) g assms(3)
    by (auto simp: putFrame_def)
  then show "slot_holds (putFrame i f w) j g" using j(2,3) unfolding slot_holds_def o by (simp add: putFrame_def)
qed

lemma vhostSubmit_cases:
  assumes "writer_ok k w" "L \<le> A" "A \<le> L + 2 ^ k" "vw_availIdx w = of_nat A" "vw_freeHead w = of_nat A" "vw_usedShared w = of_nat L"
  shows "vhostSubmit pkt w =
     (if A = L + 2 ^ k then (False, Reclaim w)
      else if vw_bufSize w < length (vhostFrame pkt) then (True, Reclaim w)
      else (True, putFrame (A mod 2 ^ k) (vhostFrame pkt) (Reclaim w)))"
proof -
  have k: "k \<le> 15" "vw_n w = 2 ^ k" using assms(1) by (simp_all add: writer_ok_def)
  have w: "writer_ok k (Reclaim w)" using assms(1) by (simp add: Reclaim_def writer_ok_def)
  have r: "slotOff w (A mod 2 ^ k) + vw_bufSize w \<le> length (vw_arena w)" using slot_room [OF _ assms(1)] by simp
  show ?thesis
    using ring_full [OF k(1) assms(2,3)] ring_index [OF k(1), of A] buffer_written [OF r, of pkt] assms(4,5,6)
    by (simp add: vhostSubmit_def k(2) Let_def Reclaim_def bufSlice_def putFrame_def slotOff_def bufPtr_def vhostFrame_def)
qed

lemma submit_inv:
  assumes inv: "ring_inv k s"
  shows "ring_inv k (snd (sysSubmit pkt s))"
proof -
  let ?w = "vs_w s" and ?A = "length (vs_accepted s)" and ?D = "length (vs_sent s)"
  from inv obtain P U L where w: "writer_ok k ?w" and c: "ring_counts k s P U L"
    and sent: "vs_sent s = take ?D (vs_accepted s)"
    and held: "\<forall>j. ?D \<le> j \<and> j < ?A \<longrightarrow> slot_holds ?w (j mod 2 ^ k) (vs_accepted s ! j)" by (auto simp: ring_inv_def)
  have b: "U \<le> ?A" "?A \<le> U + 2 ^ k" "U \<le> ?D" using c by (auto simp: ring_counts_def Let_def)
  have idx: "vw_availIdx ?w = of_nat ?A" "vw_freeHead ?w = of_nat ?A" "vw_usedShared ?w = of_nat U"
    using c by (auto simp: ring_counts_def Let_def)
  note sub = vhostSubmit_cases [OF w b(1,2) idx, of pkt]
  have rw: "writer_ok k (Reclaim ?w)" "slot_holds (Reclaim ?w) i f = slot_holds ?w i f" for i f
    using w by (simp_all add: Reclaim_def writer_ok_def slot_holds_def slotOff_def bufPtr_def)
  have bs: "vw_bufSize (Reclaim ?w) = vw_bufSize ?w" "vw_bufSize (putFrame i f w') = vw_bufSize w'" for i f w'
    by (simp_all add: Reclaim_def putFrame_def)
  consider "?A = U + 2 ^ k \<or> vw_bufSize ?w < length (vhostFrame pkt)" | "?A \<noteq> U + 2 ^ k" "length (vhostFrame pkt) \<le> vw_bufSize ?w"
    by linarith
  then show ?thesis
  proof cases
    case 1
    then have e: "snd (sysSubmit pkt s) = s\<lparr>vs_w := Reclaim ?w\<rparr>"
      unfolding sysSubmit_def sub by (auto simp: vhostFrame_def bs)
    have "ring_counts k (s\<lparr>vs_w := Reclaim ?w\<rparr>) P U U"
      using c by (auto simp: ring_counts_def Reclaim_def Let_def)
    then show ?thesis unfolding e using rw sent held by (auto simp: ring_inv_def)
  next
    case 2
    let ?f = "vhostFrame pkt" and ?i = "?A mod 2 ^ k"
    let ?s = "s\<lparr>vs_w := putFrame ?i ?f (Reclaim ?w), vs_accepted := vs_accepted s @ [?f]\<rparr>"
    have e: "snd (sysSubmit pkt s) = ?s"
      using 2 unfolding sysSubmit_def sub by (auto simp: vhostFrame_def bs)
    note put = putFrame_holds [OF rw(1), of ?i ?f]
    have "ring_counts k ?s P U U"
      using c 2(1) by (auto simp: ring_counts_def Reclaim_def putFrame_def Let_def)
    moreover have "slot_holds (vs_w ?s) (j mod 2 ^ k) (vs_accepted ?s ! j)" if "?D \<le> j" "j < Suc ?A" for j
    proof (cases "j = ?A")
      case True
      then show ?thesis using put(2) 2(2) by (simp add: bs)
    next
      case False
      then have j: "j < ?A" "?A - j < 2 ^ k" using that b 2(1) by linarith+
      then show ?thesis using put(3) [of "j mod 2 ^ k"] mod_apart [of j ?A "2 ^ k"] held that(1) 2(2)
        by (simp add: bs rw(2) nth_append)
    qed
    moreover have "?D \<le> ?A" using c by (auto simp: ring_counts_def Let_def)
    ultimately show ?thesis unfolding e using put(1) 2(2) sent by (auto simp: ring_inv_def bs)
  qed
qed

lemma take_inv:
  assumes inv: "ring_inv k s" and more: "vs_taken s \<noteq> vw_availShared (vs_w s)"
  shows "ring_inv k (devTake s)"
proof -
  let ?w = "vs_w s" and ?A = "length (vs_accepted s)" and ?D = "length (vs_sent s)"
  let ?i = "?D mod 2 ^ k" and ?f = "vs_accepted s ! ?D"
  from inv obtain P U L where w: "writer_ok k ?w" and c: "ring_counts k s P U L"
    and sent: "vs_sent s = take ?D (vs_accepted s)"
    and held: "\<forall>j. ?D \<le> j \<and> j < ?A \<longrightarrow> slot_holds ?w (j mod 2 ^ k) (vs_accepted s ! j)" by (auto simp: ring_inv_def)
  have k: "k \<le> 15" "vw_n ?w = 2 ^ k" using w by (simp_all add: writer_ok_def)
  have D: "?D < P" using more c by (auto simp: ring_counts_def Let_def le_less)
  then have DA: "?D < ?A" using c by (auto simp: ring_counts_def Let_def)
  have h: "slot_holds ?w ?i ?f" using held DA by simp
  have n: "unat (vw_n ?w) = 2 ^ k" using unat_of_nat_small [of "2 ^ k", where 'a = 32] pow15 [OF k(1)] k(2) by simp
  have "unat (vs_taken s) mod 2 ^ k = ?i"
    using c le_imp_power_dvd [of k 16 "2::nat"] k(1) by (simp add: ring_counts_def Let_def unat_of_nat take_bit_eq_mod mod_mod_cancel)
  moreover have "unat (of_nat ?i :: u16) = ?i"
  proof (rule unat_of_nat_small)
    have "?i < 2 ^ k" by simp
    also have "\<dots> \<le> 32768" by (rule pow15 [OF k(1)])
    finally show "?i < 2 ^ LENGTH(16)" by simp
  qed
  moreover have "unat (bufPtr ?i ?w - vw_arenaPtr ?w) = slotOff ?w ?i"
  proof -
    have "bufPtr ?i ?w - vw_arenaPtr ?w = of_nat (slotOff ?w ?i)" using w by (simp add: bufPtr_def slotOff_def writer_ok_def)
    moreover have "slotOff ?w ?i < 2 ^ 64" using slot_room [of ?i k ?w] w by (simp add: writer_ok_def)
    ultimately show ?thesis using unat_of_nat_small [of "slotOff ?w ?i", where 'a = 64] by simp
  qed
  moreover have "unat (of_nat (length ?f) :: u32) = length ?f"
    using h w by (intro unat_of_nat_small) (simp add: slot_holds_def writer_ok_def)
  ultimately have e: "devTake s = s\<lparr>vs_taken := vs_taken s + 1, vs_sent := vs_sent s @ [?f]\<rparr>"
    using h n by (simp add: devTake_def Let_def slot_holds_def)
  have "ring_counts k (devTake s) P U L" using c D DA unfolding e by (auto simp: ring_counts_def Let_def)
  moreover have "vs_sent s @ [?f] = take (Suc ?D) (vs_accepted s)" using sent DA by (simp add: take_Suc_conv_app_nth)
  moreover have "length (take (Suc ?D) (vs_accepted s)) = Suc ?D" using DA by simp
  ultimately show ?thesis using w held unfolding e ring_inv_def by fastforce
qed

lemma complete_inv:
  assumes inv: "ring_inv k s" and m: "m \<le> vs_taken s - vw_usedShared (vs_w s)"
  shows "ring_inv k (devComplete m s)"
proof -
  from inv obtain P U L where w: "writer_ok k (vs_w s)" and c: "ring_counts k s P U L" by (auto simp: ring_inv_def)
  have "length (vs_sent s) - U < 65536" "U \<le> length (vs_sent s)"
    using c w pow15 [of k] by (auto simp: ring_counts_def Let_def writer_ok_def)
  from u16_diff [OF this(2,1)] m have "unat m \<le> length (vs_sent s) - U"
    using c by (simp add: ring_counts_def Let_def word_le_nat_alt)
  then have "ring_counts k (devComplete m s) P (U + unat m) L"
    using c by (auto simp: ring_counts_def Let_def devComplete_def)
  then show ?thesis using inv by (auto simp: ring_inv_def devComplete_def writer_ok_def slot_holds_def slotOff_def bufPtr_def)
qed

lemma flush_inv: "ring_inv k s \<Longrightarrow> ring_inv k (sysFlush s)"
proof -
  assume inv: "ring_inv k s"
  then obtain P U L where c: "ring_counts k s P U L" by (auto simp: ring_inv_def)
  then have "ring_counts k (sysFlush s) (length (vs_accepted s)) U L"
    by (auto simp: ring_counts_def Let_def sysFlush_def vhostFlush_def)
  then show ?thesis using inv by (auto simp: ring_inv_def sysFlush_def vhostFlush_def writer_ok_def slot_holds_def slotOff_def bufPtr_def)
qed

lemma dev_step_inv: "dev_step s t \<Longrightarrow> ring_inv k s \<Longrightarrow> ring_inv k t"
  by (induction rule: dev_step.induct) (auto intro: take_inv complete_inv)

lemma vhost_step_inv: "vhost_step s t \<Longrightarrow> ring_inv k s \<Longrightarrow> ring_inv k t"
  by (induction rule: vhost_step.induct) (auto intro: submit_inv flush_inv dev_step_inv)

lemma newVhost_fields:
  assumes "newVhostNetWriter opens kick call mmap ioctl feat entries bufSize = Inr w"
  shows "vw_n w = word_of_int entries" "vw_bufSize w = nat bufSize" "length (vw_arena w) = nat (al_total (layoutArena entries bufSize))"
    "vw_bufOff w = nat (al_bufOff (layoutArena entries bufSize))" "vw_bufBase w = vw_arenaPtr w + word_of_int (al_bufOff (layoutArena entries bufSize))"
    "length (vw_desc w) = nat entries" "length (vw_availRing w) = nat entries"
    "vw_availShared w = 0" "vw_usedShared w = 0" "vw_availIdx w = 0" "vw_lastUsed w = 0" "vw_freeHead w = 0"
  using assms by (auto simp: newVhostNetWriter_def Let_def split: if_splits option.splits prod.splits)

lemma newVhost_inv:
  assumes "newVhostNetWriter opens kick call mmap ioctl feat entries bufSize = Inr w" "entries \<le> 32768" "0 \<le> bufSize" "bufSize < 2 ^ 32"
  shows "\<exists>k. ring_inv k \<lparr>vs_w = w, vs_taken = 0, vs_sent = [], vs_accepted = []\<rparr>"
proof -
  have e: "0 < entries" "entries AND (entries - 1) = 0" using assms(1) by (auto simp: newVhostNetWriter_def split: if_splits)
  then obtain k where k: "entries = 2 ^ k" using and_pred_power by blast
  have "k \<le> 15"
  proof (rule ccontr)
    assume "\<not> k \<le> 15"
    then have "(2::int) ^ 16 \<le> 2 ^ k" by (intro power_increasing) auto
    then show False using assms(2) k by simp
  qed
  let ?l = "layoutArena entries bufSize"
  note lay = layout_bounds [OF e(1) assms(3) refl]
  have "entries * bufSize \<le> 32768 * 2 ^ 32" using assms(2-4) e(1) by (intro mult_mono) auto
  then have t: "al_total ?l < 2 ^ 64" "0 \<le> al_bufOff ?l" using lay assms(2) e(1) by auto
  have tn: "nat (al_total ?l) = nat (al_bufOff ?l) + 2 ^ k * nat bufSize"
    using lay(4) t(2) assms(3) k by (simp add: nat_add_distrib nat_mult_distrib nat_power_eq)
  then have tl: "nat (al_bufOff ?l) + 2 ^ k * nat bufSize < 2 ^ 64" using t(1) by (simp add: nat_less_iff)
  have "nat bufSize < 2 ^ 32" using assms(4) by (simp add: nat_less_iff)
  note w = newVhost_fields [OF assms(1)]
  have "writer_ok k w"
    unfolding writer_ok_def using \<open>k \<le> 15\<close> \<open>nat bufSize < 2 ^ 32\<close> w tn tl t(2) k by (simp add: nat_power_eq)
  then show ?thesis using w by (intro exI [of _ k]) (auto simp: ring_inv_def ring_counts_def Let_def)
qed

interpretation vhostRing: invariant_system vhost_init vhost_step "\<lambda>s. \<exists>k. ring_inv k s"
proof
  show "vhost_init s \<Longrightarrow> \<exists>k. ring_inv k s" for s using newVhost_inv by (auto simp: vhost_init_def)
  show "vhost_step s t \<Longrightarrow> \<exists>k. ring_inv k s \<Longrightarrow> \<exists>k. ring_inv k t" for s t using vhost_step_inv by blast
qed

lemma ring_inv_facts:
  assumes "ring_inv k s"
  shows "prefix (vs_sent s) (vs_accepted s)" "vs_taken s = vw_availIdx (vs_w s) \<Longrightarrow> vs_sent s = vs_accepted s"
    "length (vs_accepted s) \<le> length (vs_sent s) + unat (vw_n (vs_w s))"
    "fst (sysSubmit pkt s) \<longleftrightarrow> vw_availIdx (vs_w s) - vw_usedShared (vs_w s) < ucast (vw_n (vs_w s))"
proof -
  let ?A = "length (vs_accepted s)" and ?D = "length (vs_sent s)"
  from assms obtain P U L where w: "writer_ok k (vs_w s)" and c: "ring_counts k s P U L"
    and sent: "vs_sent s = take ?D (vs_accepted s)" by (auto simp: ring_inv_def)
  have k: "k \<le> 15" "unat (vw_n (vs_w s)) = 2 ^ k"
    using w pow15 [of k] unat_of_nat_small [of "2 ^ k", where 'a = 32] by (auto simp: writer_ok_def)
  show "prefix (vs_sent s) (vs_accepted s)" using sent take_is_prefix by metis
  have b: "?D \<le> ?A" "?A \<le> ?D + 2 ^ k" using c by (auto simp: ring_counts_def Let_def)
  then show "?A \<le> ?D + unat (vw_n (vs_w s))" using k(2) by simp
  show "vs_sent s = vs_accepted s" if "vs_taken s = vw_availIdx (vs_w s)"
  proof -
    have "?A - ?D < 65536" using b pow15 [OF k(1)] by linarith
    moreover have "(of_nat ?A :: u16) = of_nat ?D" using that c by (auto simp: ring_counts_def Let_def)
    ultimately have "?A = ?D" using u16_eq [OF b(1)] by simp
    then show ?thesis using sent by simp
  qed
  show "fst (sysSubmit pkt s) \<longleftrightarrow> vw_availIdx (vs_w s) - vw_usedShared (vs_w s) < ucast (vw_n (vs_w s))"
    by (auto simp: sysSubmit_def vhostSubmit_def Reclaim_def Let_def bufSlice_def)
qed

text \<open>
  C27: Every frame that \<^verbatim>\<open>Submit\<close> queues is put on the device once, unchanged and in order,
  in every interleaving of the writer with the worker and however often the 16-bit indices
  wrap: what was sent is a prefix of what was accepted, all of it when the worker has
  caught up, and never more than the ring's entries behind. \<^verbatim>\<open>Submit\<close> refuses a packet
  exactly when every entry still waits for the worker.
\<close>

theorem vhost_frames_in_order:
  assumes "vhost_init s0" "vhost_step\<^sup>*\<^sup>* s0 s"
  shows "prefix (vs_sent s) (vs_accepted s) \<and> (vs_taken s = vw_availIdx (vs_w s) \<longrightarrow> vs_sent s = vs_accepted s) \<and>
    length (vs_accepted s) \<le> length (vs_sent s) + unat (vw_n (vs_w s)) \<and>
    (fst (sysSubmit pkt s) \<longleftrightarrow> vw_availIdx (vs_w s) - vw_usedShared (vs_w s) < ucast (vw_n (vs_w s)))"
proof -
  from vhostRing.reachable_inv [OF assms] obtain k where "ring_inv k s" ..
  from ring_inv_facts [OF this] show ?thesis by blast
qed

lemma vhostEther_frame:
  assumes "14 + length ip \<le> length scratch" "length m = 6"
  shows "vhostEther m ip scratch = m @ [0x02, 0, 0, 0, 0, 1] @ (if drop_bit 4 (ip ! 0) = 6 then [0x86, 0xDD] else [0x08, 0x00]) @ ip"
proof -
  have "14 \<le> length (take (14 + length ip) scratch)" using assms(1) by simp
  from split_at [OF this] obtain H R where h: "take (14 + length ip) scratch = H @ R" "length H = 14" "length R = length (take (14 + length ip) scratch) - 14" .
  moreover have "length (take (14 + length ip) scratch) = 14 + length ip" using assms(1) by simp
  ultimately have R: "length R = length ip" by linarith
  obtain h0 h1 h2 h3 h4 h5 h6 h7 h8 h9 h10 h11 h12 h13 where
    H: "H = [h0,h1,h2,h3,h4,h5,h6,h7,h8,h9,h10,h11,h12,h13]" using explicit14 [OF h(2)] by blast
  obtain m0 m1 m2 m3 m4 m5 where m: "m = [m0,m1,m2,m3,m4,m5]" using assms(2) by (auto simp: numeral_eq_Suc length_Suc_conv)
  show ?thesis unfolding vhostEther_def h(1) H m using R
    by (simp add: Let_def blit_def)
qed
definition etherFrame :: "mac \<Rightarrow> bytes \<Rightarrow> bytes" where
  "etherFrame m ip = vhostFrame (m @ [0x02, 0, 0, 0, 0, 1] @ (if drop_bit 4 (ip ! 0) = 6 then [0x86, 0xDD] else [0x08, 0x00]) @ ip)"

lemma sysSubmit_log:
  "sysSubmit f s = (ok, s') \<Longrightarrow> vnetHdrV1Len + length f \<le> vw_bufSize (vs_w s) \<Longrightarrow>
   vs_accepted s' = vs_accepted s @ (if ok then [vhostFrame f] else []) \<and> vw_bufSize (vs_w s') = vw_bufSize (vs_w s)"
  by (auto simp: sysSubmit_def vhostSubmit_def Let_def Reclaim_def split: prod.splits if_splits)

lemma dev_step_log: "dev_step\<^sup>*\<^sup>* s s' \<Longrightarrow> vs_accepted s' = vs_accepted s \<and> vw_bufSize (vs_w s') = vw_bufSize (vs_w s) \<and> vhost_step\<^sup>*\<^sup>* s s'"
  by (induction rule: rtranclp_induct)
    (auto simp: devTake_def devComplete_def Let_def elim!: dev_step.cases intro: rtranclp.rtrancl_into_rtrancl vhost_step.dev dev_step.intros)

text \<open>One packet: it is queued, or it is counted as dropped.\<close>

lemma vhost_add:
  assumes "\<forall>s. dev_step\<^sup>*\<^sup>* s (dev s)" "ip \<noteq> []" "length ip + 26 \<le> vw_bufSize (vs_w s)" "14 + length ip \<le> length (tv_scratch b)" "length (tv_dstMAC b) = 6"
    and r: "TunVhostBatch_Add dev ip m (b, s) = (e, b', s')"
  obtains ok where "e = None" "vs_accepted s' = vs_accepted s @ (if ok then [etherFrame (tv_dstMAC b) ip] else [])" "vhost_step\<^sup>*\<^sup>* s s'"
    "tv_queued b' = tv_queued b + (if ok then 1 else 0)" "tv_drops b' = tv_drops b + (if ok then 0 else 1)" "tv_writes b' = tv_writes b"
    "tv_dstMAC b' = tv_dstMAC b" "length (tv_scratch b') = length (tv_scratch b)" "vw_bufSize (vs_w s') = vw_bufSize (vs_w s)"
proof -
  let ?f = "vhostEther (tv_dstMAC b) ip (tv_scratch b)"
  note fr = vhostEther_frame [OF assms(4,5)]
  have f: "vhostFrame ?f = etherFrame (tv_dstMAC b) ip" "vnetHdrV1Len + length ?f \<le> vw_bufSize (vs_w s)" "length ?f = 14 + length ip"
    using assms(3,5) unfolding fr by (simp_all add: etherFrame_def vnetHdrV1Len_def)
  obtain ok1 s1 where 1: "sysSubmit ?f s = (ok1, s1)" by fastforce
  obtain ok2 s2 where 2: "sysSubmit ?f (dev (sysFlush s1)) = (ok2, s2)" by fastforce
  have l1: "vs_accepted s1 = vs_accepted s @ (if ok1 then [vhostFrame ?f] else [])" "vw_bufSize (vs_w s1) = vw_bufSize (vs_w s)"
    using sysSubmit_log [OF 1 f(2)] by auto
  have fl: "vs_accepted (sysFlush s1) = vs_accepted s1" "vw_bufSize (vs_w (sysFlush s1)) = vw_bufSize (vs_w s1)"
    by (simp_all add: sysFlush_def vhostFlush_def)
  note dv = dev_step_log [OF assms(1) [rule_format, of "sysFlush s1"]]
  have l2: "vs_accepted s2 = vs_accepted s1 @ (if ok2 then [vhostFrame ?f] else [])" "vw_bufSize (vs_w s2) = vw_bufSize (vs_w s)"
    using sysSubmit_log [OF 2] dv fl l1 f(2) by auto
  have st1: "vhost_step\<^sup>*\<^sup>* s s1" using vhost_step.submit [of s ?f] 1 by auto
  have st2: "vhost_step\<^sup>*\<^sup>* s1 s2"
    using vhost_step.submit [of "dev (sysFlush s1)" ?f] 2 dv vhost_step.flush [of s1] by (auto intro: converse_rtranclp_into_rtranclp rtranclp.rtrancl_into_rtrancl)
  have "(b', s') = (if ok1 then (b\<lparr>tv_scratch := ?f @ drop (length ?f) (tv_scratch b), tv_queued := tv_queued b + 1\<rparr>, s1)
      else if ok2 then (b\<lparr>tv_scratch := ?f @ drop (length ?f) (tv_scratch b), tv_full := tv_full b + 1, tv_queued := tv_queued b + 1\<rparr>, s2)
      else (b\<lparr>tv_scratch := ?f @ drop (length ?f) (tv_scratch b), tv_full := tv_full b + 1, tv_drops := tv_drops b + 1\<rparr>, s2))" "e = None"
    using r 1 2 assms(2,4) by (auto simp: TunVhostBatch_Add_def Let_def split: bool.splits)
  then show thesis
    using l1 l2 f assms(4) st1 rtranclp_trans [OF st1 st2] by (intro that [of "ok1 \<or> ok2"]) (auto split: if_splits)
qed

definition vhostPkt :: "nat \<Rightarrow> bytes \<Rightarrow> bool" where
  "vhostPkt sz ip \<longleftrightarrow> ip \<noteq> [] \<and> length ip + 26 \<le> sz"

lemma vhost_addAll:
  assumes "\<forall>s. dev_step\<^sup>*\<^sup>* s (dev s)" "list_all (vhostPkt (vw_bufSize (vs_w s))) ips" "vw_bufSize (vs_w s) \<le> length (tv_scratch b)"
    "length (tv_dstMAC b) = 6" "addAll (\<lambda>ip. TunVhostBatch_Add dev ip []) ips (b, s) = (b', s')"
  shows "\<exists>sel. subseq sel ips \<and> vs_accepted s' = vs_accepted s @ map (etherFrame (tv_dstMAC b)) sel \<and> vhost_step\<^sup>*\<^sup>* s s' \<and>
    tv_queued b' = tv_queued b + length sel \<and> tv_drops b' + length sel = tv_drops b + length ips \<and> tv_writes b' = tv_writes b"
  using assms(2-)
proof (induction ips arbitrary: b s)
  case Nil
  then show ?case by (intro exI [of _ "[]"]) auto
next
  case (Cons ip ips)
  obtain e b1 s1 where a: "TunVhostBatch_Add dev ip [] (b, s) = (e, b1, s1)" by (metis prod_cases3)
  have p: "ip \<noteq> []" "length ip + 26 \<le> vw_bufSize (vs_w s)" "14 + length ip \<le> length (tv_scratch b)"
    using Cons.prems(1,2) by (auto simp: vhostPkt_def)
  from vhost_add [OF assms(1) p Cons.prems(3) a] obtain ok where 1: "vs_accepted s1 = vs_accepted s @ (if ok then [etherFrame (tv_dstMAC b) ip] else [])"
    "vhost_step\<^sup>*\<^sup>* s s1" "tv_queued b1 = tv_queued b + (if ok then 1 else 0)" "tv_drops b1 = tv_drops b + (if ok then 0 else 1)"
    "tv_writes b1 = tv_writes b" "tv_dstMAC b1 = tv_dstMAC b" "length (tv_scratch b1) = length (tv_scratch b)" "vw_bufSize (vs_w s1) = vw_bufSize (vs_w s)"
    by metis
  from Cons.IH [of s1 b1] Cons.prems a 1 obtain sel where 2: "subseq sel ips" "vs_accepted s' = vs_accepted s1 @ map (etherFrame (tv_dstMAC b1)) sel"
    "vhost_step\<^sup>*\<^sup>* s1 s'" "tv_queued b' = tv_queued b1 + length sel" "tv_drops b' + length sel = tv_drops b1 + length ips" "tv_writes b' = tv_writes b1"
    by auto
  show ?case using 1 2 rtranclp_trans [OF 1(2) 2(3)]
    by (intro exI [of _ "if ok then ip # sel else sel"]) auto
qed

text \<open>
  Packets added to a vhost batch and flushed reach the device. Of the packets that fit
  a ring buffer, a subsequence is queued and every other one is counted as dropped; the
  flush counts the queued ones as written and publishes them; and once the worker has
  caught up, the device has sent exactly them, each behind an empty virtio header and an
  Ethernet header, after everything that was queued before.
\<close>

theorem vhost_egress_delivers:
  assumes "vhost_init s0" "vhost_step\<^sup>*\<^sup>* s0 s" and dev: "\<forall>s. dev_step\<^sup>*\<^sup>* s (dev s)"
    and "list_all (vhostPkt (vw_bufSize (vs_w s))) ips" "vw_bufSize (vs_w s) \<le> length (tv_scratch b)" "length (tv_dstMAC b) = 6" "tv_queued b = 0"
    and "addAll (\<lambda>ip. TunVhostBatch_Add dev ip []) ips (b, s) = x" "TunVhostBatch_Flush x = (e, b', s1)"
    and "dev_step\<^sup>*\<^sup>* s1 s2" "vs_taken s2 = vw_availIdx (vs_w s2)"
  shows "\<exists>sel. subseq sel ips \<and> vs_sent s2 = vs_accepted s @ map (etherFrame (tv_dstMAC b)) sel \<and> tv_queued b' = 0 \<and>
    tv_writes b' = tv_writes b + length sel \<and> tv_drops b' + length sel = tv_drops b + length ips"
proof -
  obtain bx sx where x: "x = (bx, sx)" by fastforce
  from vhost_addAll [OF dev assms(4-6)] assms(7,8) x obtain sel where sel: "subseq sel ips"
    "vs_accepted sx = vs_accepted s @ map (etherFrame (tv_dstMAC b)) sel" "vhost_step\<^sup>*\<^sup>* s sx" "tv_queued bx = length sel"
    "tv_drops bx + length sel = tv_drops b + length ips" "tv_writes bx = tv_writes b" by auto
  have s1: "vhost_step\<^sup>*\<^sup>* sx s1" "vs_accepted s1 = vs_accepted sx"
    using assms(9) x vhost_step.flush [of sx] by (auto simp: TunVhostBatch_Flush_def sysFlush_def split: if_splits)
  from dev_step_log [OF assms(10)] have s2: "vs_accepted s2 = vs_accepted s1" "vhost_step\<^sup>*\<^sup>* s1 s2" by auto
  have "vhost_step\<^sup>*\<^sup>* s0 s2" using assms(2) sel(3) s1(1) s2(2) by (meson rtranclp_trans)
  from vhostRing.reachable_inv [OF assms(1) this] obtain k where "ring_inv k s2" ..
  from ring_inv_facts(2) [OF this assms(11)] have "vs_sent s2 = vs_accepted s @ map (etherFrame (tv_dstMAC b)) sel" using sel(2) s1(2) s2(1) by simp
  then show ?thesis using sel assms(9) x by (intro exI [of _ sel]) (auto simp: TunVhostBatch_Flush_def split: if_splits)
qed

text \<open>A ring of two entries with room for 64 bytes, and one packet through it.\<close>

definition exW :: vhostNetWriter where
  "exW = (case newVhostNetWriter True True True (\<lambda>_. Some 4096) (\<lambda>_. True) 0xFFFFFFFFFF 2 64 of Inr w \<Rightarrow> w)"

definition exSys :: vhostSys where
  "exSys = \<lparr>vs_w = exW, vs_taken = 0, vs_sent = [], vs_accepted = []\<rparr>"

lemma exW_new: "newVhostNetWriter True True True (\<lambda>_. Some 4096) (\<lambda>_. True) 0xFFFFFFFFFF 2 64 = Inr exW" "vw_bufSize exW = 64"
  by (simp_all add: exW_def newVhostNetWriter_def layoutArena_def setupReqs_def align_def Let_def)

lemma exSys_init: "vhost_init exSys"
  unfolding vhost_init_def exSys_def using exW_new(1) by (intro exI conjI) auto

definition exBatch :: TunVhostBatch where
  "exBatch = (NewTunVhostBatch [2, 0, 0, 0, 0xab, 0xcd])\<lparr>tv_scratch := replicate 64 0\<rparr>"

definition exAdded :: "TunVhostBatch \<times> vhostSys" where
  "exAdded = addAll (\<lambda>ip. TunVhostBatch_Add id ip []) [[0x45, 1, 2, 3]] (exBatch, exSys)"

definition exFlushed :: "egError option \<times> TunVhostBatch \<times> vhostSys" where
  "exFlushed = TunVhostBatch_Flush exAdded"

definition exSent :: vhostSys where
  "exSent = devTake (snd (snd exFlushed))"

lemma exSent_facts: "vs_taken exSent = vw_availIdx (vs_w exSent)" "vs_taken (snd (snd exFlushed)) \<noteq> vw_availShared (vs_w (snd (snd exFlushed)))"
  by code_simp+

lemma exSent_dev: "dev_step\<^sup>*\<^sup>* (snd (snd exFlushed)) exSent"
  using dev_step.take_entry [OF exSent_facts(2)] unfolding exSent_def by auto

definition exRun :: vhostSys where
  "exRun = devTake (sysFlush (snd (sysSubmit [7] exSys)))"

lemma exRun_steps: "vhost_step\<^sup>*\<^sup>* exSys exRun"
proof -
  have "vs_taken (sysFlush (snd (sysSubmit [7] exSys))) \<noteq> vw_availShared (vs_w (sysFlush (snd (sysSubmit [7] exSys))))" by code_simp
  from vhost_step.dev [OF dev_step.take_entry [OF this]] show ?thesis
    using vhost_step.submit [of exSys "[7]"] vhost_step.flush [of "snd (sysSubmit [7] exSys)"] unfolding exRun_def
    by (meson rtranclp.rtrancl_into_rtrancl rtranclp.rtrancl_refl)
qed

lemma exRun_caught_up: "vs_taken exRun = vw_availIdx (vs_w exRun)"
  by code_simp

theorem vhost_frames_in_order_witness:
  "prefix (vs_sent exRun) (vs_accepted exRun) \<and> vs_sent exRun = vs_accepted exRun \<and>
    length (vs_accepted exRun) \<le> length (vs_sent exRun) + unat (vw_n (vs_w exRun)) \<and>
    (fst (sysSubmit [1] exRun) \<longleftrightarrow> vw_availIdx (vs_w exRun) - vw_usedShared (vs_w exRun) < ucast (vw_n (vs_w exRun)))"
  using vhost_frames_in_order [OF exSys_init exRun_steps, of "[1]"] exRun_caught_up by blast

theorem vhost_egress_delivers_witness:
  "\<exists>sel. subseq sel [[0x45, 1, 2, 3]] \<and> vs_sent exSent = vs_accepted exSys @ map (etherFrame (tv_dstMAC exBatch)) sel \<and>
    tv_queued (fst (snd exFlushed)) = 0 \<and> tv_writes (fst (snd exFlushed)) = tv_writes exBatch + length sel \<and>
    tv_drops (fst (snd exFlushed)) + length sel = tv_drops exBatch + length [[0x45, 1, 2, 3 :: byte]]"
  by (rule vhost_egress_delivers [OF exSys_init rtranclp.rtrancl_refl _ _ _ _ _ _ _ exSent_dev exSent_facts(1), of id _ exBatch exAdded "fst exFlushed"])
    (use exW_new(2) in \<open>simp_all add: vhostPkt_def exBatch_def NewTunVhostBatch_def exAdded_def exFlushed_def exSys_def\<close>)

text \<open>
  The arena of \<^verbatim>\<open>layoutArena\<close>: the descriptor table, the two rings and the buffers do not
  overlap, fill the mapping exactly up to its end, and have the alignment that virtio asks
  of them (16, 2 and 4 bytes); the buffer slices of different entries are disjoint.
\<close>

theorem vhost_layout_safe:
  assumes "0 < n" "0 \<le> bufSize" "l = layoutArena n bufSize" "0 \<le> i" "i < j" "j < n"
  shows "16 * n \<le> al_availOff l \<and> al_availOff l + (4 + 2 * n + 2) \<le> al_usedOff l \<and> al_usedOff l + (4 + 8 * n + 2) \<le> al_bufOff l \<and>
    2 dvd al_availOff l \<and> 4 dvd al_usedOff l \<and> 16 dvd al_bufOff l \<and> al_bufOff l + n * bufSize = al_total l \<and>
    al_bufOff l + (i + 1) * bufSize \<le> al_bufOff l + j * bufSize \<and> al_bufOff l + (j + 1) * bufSize \<le> al_total l"
proof -
  have "(i + 1) * bufSize \<le> j * bufSize" "(j + 1) * bufSize \<le> n * bufSize" using assms(2,5,6) by (intro mult_right_mono; simp)+
  then show ?thesis using layout_bounds [OF assms(1-3)] by auto
qed

theorem vhost_layout_safe_witness:
  "16 * 256 \<le> al_availOff (layoutArena 256 4096) \<and> al_availOff (layoutArena 256 4096) + (4 + 2 * 256 + 2) \<le> al_usedOff (layoutArena 256 4096) \<and>
    al_usedOff (layoutArena 256 4096) + (4 + 8 * 256 + 2) \<le> al_bufOff (layoutArena 256 4096) \<and>
    2 dvd al_availOff (layoutArena 256 4096) \<and> 4 dvd al_usedOff (layoutArena 256 4096) \<and> 16 dvd al_bufOff (layoutArena 256 4096) \<and>
    al_bufOff (layoutArena 256 4096) + 256 * 4096 = al_total (layoutArena 256 4096) \<and>
    al_bufOff (layoutArena 256 4096) + (0 + 1) * 4096 \<le> al_bufOff (layoutArena 256 4096) + 255 * 4096 \<and>
    al_bufOff (layoutArena 256 4096) + (255 + 1) * 4096 \<le> al_total (layoutArena 256 4096)"
  by (rule vhost_layout_safe) simp_all

text \<open>
  A packet of 4071 to 4096 bytes passes the length check of \<^verbatim>\<open>TunVhostBatch.Add\<close> but not
  the one of \<^verbatim>\<open>Submit\<close>, which drops it and reports success: with room in the ring nothing
  is queued and no drop is counted, but the packet is counted among the queued and later
  as written.
\<close>

theorem vhost_oversize_counted_as_queued:
  assumes "vw_availIdx (vs_w s) - vw_usedShared (vs_w s) < ucast (vw_n (vs_w s))" "vw_bufSize (vs_w s) = 4096"
    and "4070 < length ip" "length ip \<le> 4096" and "length m = 6"
  shows "\<exists>b' s'. TunVhostBatch_Add dev ip mac (NewTunVhostBatch m, s) = (None, b', s') \<and>
    vs_accepted s' = vs_accepted s \<and> tv_queued b' = 1 \<and> tv_drops b' = 0 \<and>
    tv_writes (fst (snd (TunVhostBatch_Flush (b', s')))) = 1"
proof -
  let ?b = "NewTunVhostBatch m"
  let ?f = "vhostEther (tv_dstMAC ?b) ip (tv_scratch ?b)"
  have "length ?f = 14 + length ip"
    using vhostEther_frame [of ip "tv_scratch ?b" m] assms(4,5) by (simp add: NewTunVhostBatch_def)
  then have "sysSubmit ?f s = (True, s\<lparr>vs_w := Reclaim (vs_w s)\<rparr>)"
    using assms(1-3) by (simp add: sysSubmit_def vhostSubmit_def Reclaim_def Let_def bufSlice_def vnetHdrV1Len_def)
  moreover have "ip \<noteq> []" "14 + length ip \<le> length (tv_scratch ?b)" using assms(3,4) by (auto simp: NewTunVhostBatch_def)
  ultimately show ?thesis by (simp add: TunVhostBatch_Add_def TunVhostBatch_Flush_def Let_def) (simp add: NewTunVhostBatch_def)
qed

definition exBigSys :: vhostSys where
  "exBigSys = \<lparr>vs_w = (case newVhostNetWriter True True True (\<lambda>_. Some 4096) (\<lambda>_. True) 0xFFFFFFFFFF 256 4096 of Inr w \<Rightarrow> w),
     vs_taken = 0, vs_sent = [], vs_accepted = []\<rparr>"

lemma exBigSys_new: "newVhostNetWriter True True True (\<lambda>_. Some 4096) (\<lambda>_. True) 0xFFFFFFFFFF 256 4096 = Inr (vs_w exBigSys)"
  by (simp add: exBigSys_def newVhostNetWriter_def setupReqs_def Let_def)

theorem vhost_oversize_counted_as_queued_witness:
  "\<exists>b' s'. TunVhostBatch_Add id (replicate 4080 0x45) [] (NewTunVhostBatch [2, 0, 0, 0, 0xab, 0xcd], exBigSys) = (None, b', s') \<and>
    vs_accepted s' = vs_accepted exBigSys \<and> tv_queued b' = 1 \<and> tv_drops b' = 0 \<and>
    tv_writes (fst (snd (TunVhostBatch_Flush (b', s')))) = 1"
  by (rule vhost_oversize_counted_as_queued) (use newVhost_fields [OF exBigSys_new] in \<open>simp_all\<close>)

end
