(* ===== verification/Uring.thy ===== *)
theory Uring
  imports Egress
begin

unbundle bit_operations_syntax

text \<open>
  The io_uring writer of \<^verbatim>\<open>utility/uring.go\<close> and the two egresses that write to the NAPI
  TUN device, \<^verbatim>\<open>utility/tun_uring.go\<close> and \<^verbatim>\<open>utility/tun_napi.go\<close>. The rings are memory
  shared with the kernel: their indices and entries are fields of the writer, which the
  kernel changes as io_uring documents. On \<^verbatim>\<open>io_uring_enter\<close> it takes the given number of
  published submission entries, in order, performs their writes, and later posts their
  completions; a call that fails takes none. How many completions are posted by each call
  is an argument, so that the reaping loop sees every schedule.
\<close>

definition ioringOpWrite :: byte where "ioringOpWrite = 23"
definition uringDepth :: nat where "uringDepth = 512"

record ioUringSQE =
  sq_opcode :: byte
  sq_fd :: "32 word"
  sq_addr :: u64
  sq_len :: u32
  sq_userData :: u64

record ioUringCQE =
  cq_userData :: u64
  cq_res :: "32 word"

text \<open>What \<^verbatim>\<open>io_uring_setup\<close> reports: the sizes of the rings and the offsets the sizes of the mappings depend on.\<close>

record ioUringParams =
  up_sqEntries :: u32
  up_cqEntries :: u32
  up_features :: u32
  up_sqArrayOff :: u32
  up_cqesOff :: u32

definition ringSizes :: "ioUringParams \<Rightarrow> u32 \<times> u32" where
  "ringSizes p =
     (let sqSize = up_sqArrayOff p + up_sqEntries p * 4;
          cqSize = up_cqesOff p + up_cqEntries p * 16
      in if up_features p AND 1 \<noteq> 0
         then let sqSize = (if cqSize > sqSize then cqSize else sqSize) in (sqSize, sqSize)
         else (sqSize, cqSize))"

record uringWriter =
  ur_entries :: u32
  ur_sqHead :: u32
  ur_sqTail :: u32
  ur_sqMask :: u32
  ur_sqArray :: "u32 list"
  ur_sqes :: "ioUringSQE list"
  ur_cqHead :: u32
  ur_cqTail :: u32
  ur_cqMask :: u32
  ur_cqes :: "ioUringCQE list"
  ur_arena :: bytes
  ur_arenaPtr :: u64
  ur_maxFrame :: nat
  ur_queued :: u32
  ur_tail :: u32

datatype uringErr = SetupErr | MmapSq | MmapCq | MmapSqes

text \<open>
  \<^verbatim>\<open>newUringWriter\<close>: \<open>mmap\<close> says which of the three mappings succeed; the mapped rings are
  as the kernel initialises them, with the submission tail at \<open>t0\<close> and the completion
  tail at \<open>c0\<close>.
\<close>

definition newUringWriter :: "ioUringParams option \<Rightarrow> (nat \<Rightarrow> u32 \<Rightarrow> bool) \<Rightarrow> u32 \<Rightarrow> u32 \<Rightarrow> u64 \<Rightarrow> nat \<Rightarrow> uringErr + uringWriter" where
  "newUringWriter params mmap t0 c0 arenaPtr maxFrame =
     (case params of
        None \<Rightarrow> Inl SetupErr
      | Some p \<Rightarrow>
          let (sqSize, cqSize) = ringSizes p in
          if \<not> mmap 0 sqSize then Inl MmapSq
          else if up_features p AND 1 = 0 \<and> \<not> mmap 1 cqSize then Inl MmapCq
          else if \<not> mmap 2 (up_sqEntries p * 64) then Inl MmapSqes
          else Inr \<lparr>ur_entries = up_sqEntries p, ur_sqHead = t0, ur_sqTail = t0, ur_sqMask = up_sqEntries p - 1,
                    ur_sqArray = replicate (unat (up_sqEntries p)) 0,
                    ur_sqes = replicate (unat (up_sqEntries p)) \<lparr>sq_opcode = 0, sq_fd = 0, sq_addr = 0, sq_len = 0, sq_userData = 0\<rparr>,
                    ur_cqHead = c0, ur_cqTail = c0, ur_cqMask = up_cqEntries p - 1,
                    ur_cqes = replicate (unat (up_cqEntries p)) \<lparr>cq_userData = 0, cq_res = 0\<rparr>,
                    ur_arena = replicate (unat (up_sqEntries p) * maxFrame) 0, ur_arenaPtr = arenaPtr, ur_maxFrame = maxFrame,
                    ur_queued = 0, ur_tail = t0\<rparr>)"

subsection \<open>Queueing writes\<close>

text \<open>\<^verbatim>\<open>uringWriter.Submit\<close>. The slot is the arena from the entry's offset to its end.\<close>

definition uringSubmit :: "32 word \<Rightarrow> bytes \<Rightarrow> uringWriter \<Rightarrow> uringWriter" where
  "uringSubmit targetFd pkt w =
     (let idx = ur_tail w AND ur_sqMask w;
          off = unat idx * ur_maxFrame w;
          n = min (length pkt) (length (ur_arena w) - off);
          sqe = \<lparr>sq_opcode = ioringOpWrite, sq_fd = targetFd, sq_addr = ur_arenaPtr w + of_nat off, sq_len = of_nat n, sq_userData = ucast idx\<rparr>
      in w\<lparr>ur_arena := blit (ur_arena w) off (length (ur_arena w)) pkt, ur_sqes := (ur_sqes w)[unat idx := sqe],
           ur_sqArray := (ur_sqArray w)[unat idx := idx], ur_tail := ur_tail w + 1, ur_queued := ur_queued w + 1\<rparr>)"

definition uringFull :: "uringWriter \<Rightarrow> bool" where
  "uringFull w \<longleftrightarrow> ur_queued w \<ge> ur_entries w"

subsection \<open>The kernel\<close>

text \<open>
  \<open>us_out\<close> are the writes performed, \<open>us_inflight\<close> the completions not yet posted. \<open>wr\<close>
  gives the result of a write.
\<close>

record uringSys =
  us_w :: uringWriter
  us_inflight :: "ioUringCQE list"
  us_out :: "(32 word \<times> bytes) list"

type_synonym writeResult = "32 word \<Rightarrow> bytes \<Rightarrow> 32 word"

definition kTake :: "writeResult \<Rightarrow> uringSys \<Rightarrow> uringSys" where
  "kTake wr s =
     (let w = us_w s;
          e = ur_sqes w ! unat (ur_sqArray w ! unat (ur_sqHead w AND ur_sqMask w));
          off = unat (sq_addr e - ur_arenaPtr w);
          data = slice (ur_arena w) off (off + unat (sq_len e))
      in s\<lparr>us_w := w\<lparr>ur_sqHead := ur_sqHead w + 1\<rparr>, us_out := us_out s @ [(sq_fd e, data)],
           us_inflight := us_inflight s @ [\<lparr>cq_userData = sq_userData e, cq_res = wr (sq_fd e) data\<rparr>]\<rparr>)"

fun kSubmit :: "writeResult \<Rightarrow> nat \<Rightarrow> uringSys \<Rightarrow> uringSys" where
  "kSubmit wr 0 s = s"
| "kSubmit wr (Suc n) s = (if ur_sqHead (us_w s) = ur_sqTail (us_w s) then s else kSubmit wr n (kTake wr s))"

fun kPost :: "nat \<Rightarrow> uringSys \<Rightarrow> uringSys" where
  "kPost 0 s = s"
| "kPost (Suc k) s =
     (case us_inflight s of
        [] \<Rightarrow> s
      | c # cs \<Rightarrow>
          let w = us_w s in
          kPost k (s\<lparr>us_inflight := cs, us_w := w\<lparr>ur_cqes := (ur_cqes w)[unat (ur_cqTail w AND ur_cqMask w) := c],
                      ur_cqTail := ur_cqTail w + 1\<rparr>\<rparr>))"

subsection \<open>Flushing\<close>

text \<open>The inner loop: \<open>k\<close> completions from \<open>head\<close> on; the number of failed ones.\<close>

fun countFails :: "uringWriter \<Rightarrow> u32 \<Rightarrow> nat \<Rightarrow> nat" where
  "countFails w head 0 = 0"
| "countFails w head (Suc k) =
     (if cq_res (ur_cqes w ! unat (head AND ur_cqMask w)) <s 0 then 1 else 0) + countFails w (head + 1) k"

text \<open>
  The reaping loop of \<^verbatim>\<open>Flush\<close>. \<open>waits\<close> are the numbers of completions that the following
  calls of \<^verbatim>\<open>io_uring_enter\<close> post; None means that the loop still waits when they are used up.
\<close>

function reap :: "nat \<Rightarrow> nat list \<Rightarrow> nat \<Rightarrow> nat \<Rightarrow> uringSys \<Rightarrow> (nat \<times> uringSys) option" where
  "reap n waits got fails s =
     (if n \<le> got then Some (fails, s)
      else
        let w = us_w s; head = ur_cqHead w; tail = ur_cqTail w in
        if head = tail then
          (case waits of [] \<Rightarrow> None | k # ks \<Rightarrow> reap n ks got fails (kPost k s))
        else
          let k = unat (tail - head) in
          reap n waits (got + k) (fails + countFails w head k) (s\<lparr>us_w := w\<lparr>ur_cqHead := tail\<rparr>\<rparr>))"
  by pat_completeness auto
termination
  by (relation "measures [\<lambda>(n, waits, got, fails, s). length waits,
        \<lambda>(n, waits, got, fails, s). if ur_cqHead (us_w s) = ur_cqTail (us_w s) then 0 else 1]") auto

definition uringFlush :: "writeResult \<Rightarrow> bool \<Rightarrow> nat list \<Rightarrow> uringSys \<Rightarrow> (nat \<times> uringSys) option" where
  "uringFlush wr entered waits s =
     (let w = us_w s in
      if ur_queued w = 0 then Some (0, s)
      else
        let n = unat (ur_queued w);
            s = s\<lparr>us_w := w\<lparr>ur_sqTail := ur_tail w\<rparr>\<rparr>
        in if \<not> entered then Some (n, s\<lparr>us_w := (us_w s)\<lparr>ur_queued := 0\<rparr>\<rparr>)
           else
             let s = kPost (if waits = [] then 0 else hd waits) (kSubmit wr n s) in
             case reap n (tl waits) 0 0 s of
               None \<Rightarrow> None
             | Some (fails, s) \<Rightarrow> Some (fails, s\<lparr>us_w := (us_w s)\<lparr>ur_queued := 0\<rparr>\<rparr>))"

subsection \<open>The egress over the writer\<close>

record TunUringBatch =
  tu_fd :: "32 word"
  tu_maxFrame :: nat
  tu_queued :: nat
  tu_writes :: int
  tu_fails :: nat
  tu_drops :: nat

definition NewTunUringBatch :: "32 word \<Rightarrow> TunUringBatch" where
  "NewTunUringBatch fd = \<lparr>tu_fd = fd, tu_maxFrame = 4096, tu_queued = 0, tu_writes = 0, tu_fails = 0, tu_drops = 0\<rparr>"

definition TunUringBatch_Flush :: "writeResult \<Rightarrow> bool \<Rightarrow> nat list \<Rightarrow> TunUringBatch \<times> uringSys \<Rightarrow> (TunUringBatch \<times> uringSys) option" where
  "TunUringBatch_Flush wr entered waits x =
     (case x of (b, s) \<Rightarrow>
      if tu_queued b = 0 then Some (b, s)
      else
        let n = tu_queued b in
        case uringFlush wr entered waits s of
          None \<Rightarrow> None
        | Some (fails, s) \<Rightarrow>
            Some (b\<lparr>tu_queued := 0, tu_writes := tu_writes b + (int n - int fails),
                    tu_fails := (if fails > 0 then tu_fails b + fails else tu_fails b)\<rparr>, s))"

definition TunUringBatch_Add :: "writeResult \<Rightarrow> bool \<Rightarrow> nat list \<Rightarrow> bytes \<Rightarrow> TunUringBatch \<times> uringSys \<Rightarrow> (TunUringBatch \<times> uringSys) option" where
  "TunUringBatch_Add wr entered waits pkt x =
     (case x of (b, s) \<Rightarrow>
      if length pkt > tu_maxFrame b then Some (b\<lparr>tu_drops := tu_drops b + 1\<rparr>, s)
      else
        case (if uringFull (us_w s) then TunUringBatch_Flush wr entered waits (b, s) else Some (b, s)) of
          None \<Rightarrow> None
        | Some (b, s) \<Rightarrow>
            Some (b\<lparr>tu_queued := tu_queued b + 1\<rparr>, s\<lparr>us_w := uringSubmit (tu_fd b) pkt (us_w s)\<rparr>))"

subsection \<open>The egress without batching\<close>

text \<open>\<^verbatim>\<open>TunNapiBatch\<close>: every packet is written at once; \<open>wr\<close> is the result of the write.\<close>

record TunNapiBatch =
  tn_wrote :: nat
  tn_writes :: nat
  tn_drops :: nat
  tn_out :: "bytes list"

definition TunNapiBatch_Add :: "(bytes \<Rightarrow> bool) \<Rightarrow> bytes \<Rightarrow> mac \<Rightarrow> TunNapiBatch \<Rightarrow> egError option \<times> TunNapiBatch" where
  "TunNapiBatch_Add wr pkt mac b =
     (if \<not> wr pkt then (Some Errno, b\<lparr>tn_drops := tn_drops b + 1\<rparr>)
      else (None, b\<lparr>tn_wrote := tn_wrote b + 1, tn_writes := tn_writes b + 1, tn_out := tn_out b @ [pkt]\<rparr>))"

definition TunNapiBatch_Flush :: "TunNapiBatch \<Rightarrow> egError option \<times> TunNapiBatch" where
  "TunNapiBatch_Flush b = (None, b\<lparr>tn_wrote := 0\<rparr>)"

definition napiEgress :: "(bytes \<Rightarrow> bool) \<Rightarrow> TunNapiBatch fwdEgress" where
  "napiEgress wr = \<lparr>eg_Add = TunNapiBatch_Add wr, eg_Flush = TunNapiBatch_Flush, eg_Full = (\<lambda>_. False),
     eg_Empty = (\<lambda>_. True), eg_Close = (\<lambda>b. b)\<rparr>"

subsection \<open>The submission ring\<close>

text \<open>The writer is as \<^verbatim>\<open>newUringWriter\<close> makes it: \<open>2\<^sup>k\<close> and \<open>2\<^sup>c\<close> entries, frames of \<open>M\<close> bytes.\<close>

definition uring_ok :: "nat \<Rightarrow> nat \<Rightarrow> nat \<Rightarrow> uringWriter \<Rightarrow> bool" where
  "uring_ok k c M w \<longleftrightarrow> k \<le> c \<and> c \<le> 16 \<and> ur_entries w = 2 ^ k \<and> ur_sqMask w = 2 ^ k - 1 \<and> ur_cqMask w = 2 ^ c - 1 \<and>
     length (ur_sqArray w) = 2 ^ k \<and> length (ur_sqes w) = 2 ^ k \<and> length (ur_cqes w) = 2 ^ c \<and> ur_maxFrame w = M \<and>
     length (ur_arena w) = 2 ^ k * M \<and> M < 2 ^ 32"

definition entry_holds :: "uringWriter \<Rightarrow> nat \<Rightarrow> 32 word \<times> bytes \<Rightarrow> bool" where
  "entry_holds w i x \<longleftrightarrow> ur_sqArray w ! i = of_nat i \<and> sq_fd (ur_sqes w ! i) = fst x \<and>
     sq_addr (ur_sqes w ! i) = ur_arenaPtr w + of_nat (i * ur_maxFrame w) \<and> sq_len (ur_sqes w ! i) = of_nat (length (snd x)) \<and>
     length (snd x) \<le> ur_maxFrame w \<and> slice (ur_arena w) (i * ur_maxFrame w) (i * ur_maxFrame w + length (snd x)) = snd x"

text \<open>From position \<open>T\<close> of the submission ring on, the entries lead to the writes \<open>pnd\<close>.\<close>

definition entries_hold :: "nat \<Rightarrow> nat \<Rightarrow> (32 word \<times> bytes) list \<Rightarrow> uringWriter \<Rightarrow> bool" where
  "entries_hold k T pnd w \<longleftrightarrow> length pnd \<le> 2 ^ k \<and> (\<forall>j<length pnd. entry_holds w ((T + j) mod 2 ^ k) (pnd ! j))"

lemma ring_slot:
  assumes "k \<le> 16"
  shows "unat ((of_nat T :: u32) AND (2 ^ k - 1)) = T mod 2 ^ k"
  using unat_mask_of_nat [of k T, where 'a = 32] assms by (simp add: mask_eq_exp_minus_1)

lemma pow16: "k \<le> 16 \<Longrightarrow> (2::nat) ^ k \<le> 65536"
  using power_increasing [of k 16 "2::nat"] by simp

lemma mod_offsets_apart: "i < j \<Longrightarrow> j < n \<Longrightarrow> (T + i) mod n \<noteq> (T + j) mod (n::nat)"
proof
  assume "i < j" "j < n" "(T + i) mod n = (T + j) mod n"
  then have "n dvd j - i" using mod_eq_dvd_iff_nat [of "T + i" "T + j" n] by simp
  then show False using \<open>i < j\<close> \<open>j < n\<close> by (auto dest: dvd_imp_le)
qed

lemma frame_room: "i < 2 ^ k \<Longrightarrow> i * M + M \<le> 2 ^ k * (M::nat)"
  using mult_le_mono1 [of "i + 1" "2 ^ k" M] by simp

lemma frames_apart: "i \<noteq> i' \<Longrightarrow> i * M + M \<le> i' * M \<or> i' * M + M \<le> i * (M::nat)"
proof -
  assume "i \<noteq> i'"
  then consider "i + 1 \<le> i'" | "i' + 1 \<le> i" by linarith
  then show ?thesis by cases (use mult_le_mono1 [of "i + 1" i' M] mult_le_mono1 [of "i' + 1" i M] in auto)
qed

lemma blit_here_slice:
  assumes "off + length f \<le> length a"
  shows "length (blit a off (length a) f) = length a" "slice (blit a off (length a) f) off (off + length f) = f"
    "i \<le> j \<Longrightarrow> j \<le> length a \<Longrightarrow> j \<le> off \<or> off + length f \<le> i \<Longrightarrow> slice (blit a off (length a) f) i j = slice a i j"
proof -
  have e: "blit a off (length a) f = take off a @ f @ drop (off + length f) a" using assms by (simp add: blit_def Let_def)
  show "length (blit a off (length a) f) = length a" "slice (blit a off (length a) f) off (off + length f) = f"
    unfolding e using assms by (simp_all add: slice_def)
  assume ij: "i \<le> j" "j \<le> length a" "j \<le> off \<or> off + length f \<le> i"
  from ij(3) show "slice (blit a off (length a) f) i j = slice a i j"
  proof
    assume "j \<le> off"
    then show ?thesis unfolding e using assms ij by (simp add: slice_def drop_take)
  next
    assume h: "off + length f \<le> i"
    then have "drop i (take off a @ f @ drop (off + length f) a) = drop i a" using assms by (simp add: min_def)
    then show ?thesis unfolding e by (simp add: slice_def)
  qed
qed

lemma submit_holds:
  assumes ok: "uring_ok k c M w" and t: "ur_tail w = of_nat (T + length pnd)" and h: "entries_hold k T pnd w"
    and room: "length pnd < 2 ^ k" and len: "length pkt \<le> M"
  shows "uring_ok k c M (uringSubmit fd pkt w)" "entries_hold k T (pnd @ [(fd, pkt)]) (uringSubmit fd pkt w)"
proof -
  let ?n = "length pnd" and ?w = "uringSubmit fd pkt w"
  let ?i = "(T + ?n) mod 2 ^ k"
  have k: "k \<le> 16" "ur_maxFrame w = M" "ur_sqMask w = 2 ^ k - 1" using ok by (auto simp: uring_ok_def)
  have i: "unat (ur_tail w AND ur_sqMask w) = ?i" unfolding t k(3) by (rule ring_slot [OF k(1)])
  have iw: "ur_tail w AND ur_sqMask w = of_nat ?i" using i by (metis of_nat_unat ucast_id)
  have i2: "?i < 2 ^ k" by simp
  have r: "?i * M + length pkt \<le> length (ur_arena w)" using frame_room [OF i2, of M] len ok by (simp add: uring_ok_def)
  have w: "?w = w\<lparr>ur_arena := blit (ur_arena w) (?i * M) (length (ur_arena w)) pkt,
      ur_sqes := (ur_sqes w)[?i := \<lparr>sq_opcode = ioringOpWrite, sq_fd = fd, sq_addr = ur_arenaPtr w + of_nat (?i * M), sq_len = of_nat (length pkt), sq_userData = ucast (of_nat ?i :: u32)\<rparr>],
      ur_sqArray := (ur_sqArray w)[?i := of_nat ?i], ur_tail := ur_tail w + 1, ur_queued := ur_queued w + 1\<rparr>"
  proof -
    have "unat (of_nat ?i :: u32) = ?i" using i iw by simp
    moreover have "min (length pkt) (length (ur_arena w) - ?i * M) = length pkt" using r by simp
    ultimately show ?thesis unfolding uringSubmit_def Let_def iw by (simp only: k(2))
  qed
  show "uring_ok k c M ?w" using ok blit_here_slice(1) [OF r] unfolding w by (simp add: uring_ok_def)
  have new: "entry_holds ?w ?i (fd, pkt)"
    using ok len blit_here_slice(2) [OF r] i2 unfolding w by (simp add: entry_holds_def uring_ok_def)
  have old: "entry_holds ?w j x" if "j < 2 ^ k" "j \<noteq> ?i" "entry_holds w j x" for j x
  proof -
    have "j * M + length (snd x) \<le> length (ur_arena w)" "length (snd x) \<le> M"
      using frame_room [OF that(1), of M] that(3) ok by (auto simp: entry_holds_def uring_ok_def)
    then have "slice (blit (ur_arena w) (?i * M) (length (ur_arena w)) pkt) (j * M) (j * M + length (snd x)) = slice (ur_arena w) (j * M) (j * M + length (snd x))"
      using frames_apart [OF that(2), of M] len by (intro blit_here_slice(3) [OF r]) auto
    then show ?thesis using that(2,3) k(2) unfolding w by (simp add: entry_holds_def)
  qed
  show "entries_hold k T (pnd @ [(fd, pkt)]) ?w"
    unfolding entries_hold_def
  proof (intro conjI allI impI)
    show "length (pnd @ [(fd, pkt)]) \<le> 2 ^ k" using room by simp
    fix j assume "j < length (pnd @ [(fd, pkt)])"
    then consider "j < ?n" | "j = ?n" by fastforce
    then show "entry_holds ?w ((T + j) mod 2 ^ k) ((pnd @ [(fd, pkt)]) ! j)"
    proof cases
      case 1
      then show ?thesis using old [of "(T + j) mod 2 ^ k"] mod_offsets_apart [of j ?n "2 ^ k" T] room h
        by (auto simp: entries_hold_def nth_append)
    next
      case 2
      then show ?thesis using new by simp
    qed
  qed
qed

subsection \<open>The completion ring\<close>

text \<open>What the kernel and the reaping loop leave alone.\<close>

definition sqSide :: "uringWriter \<Rightarrow> uringWriter" where
  "sqSide w = w\<lparr>ur_cqHead := 0, ur_cqTail := 0, ur_cqes := []\<rparr>"

lemma sqSide_fields:
  assumes "sqSide w = sqSide w'"
  shows "ur_entries w = ur_entries w'" "ur_sqHead w = ur_sqHead w'" "ur_sqTail w = ur_sqTail w'" "ur_sqMask w = ur_sqMask w'"
    "ur_sqArray w = ur_sqArray w'" "ur_sqes w = ur_sqes w'" "ur_cqMask w = ur_cqMask w'" "ur_arena w = ur_arena w'" "ur_arenaPtr w = ur_arenaPtr w'"
    "ur_maxFrame w = ur_maxFrame w'" "ur_queued w = ur_queued w'" "ur_tail w = ur_tail w'"
  using assms by (cases w; cases w'; simp add: sqSide_def)+

definition cq_holds :: "nat \<Rightarrow> nat \<Rightarrow> 32 word list \<Rightarrow> uringWriter \<Rightarrow> bool" where
  "cq_holds c H rs w \<longleftrightarrow> c \<le> 16 \<and> ur_cqMask w = 2 ^ c - 1 \<and> length (ur_cqes w) = 2 ^ c \<and> length rs \<le> 2 ^ c \<and>
     ur_cqHead w = of_nat H \<and> ur_cqTail w = of_nat (H + length rs) \<and> (\<forall>j<length rs. cq_res (ur_cqes w ! ((H + j) mod 2 ^ c)) = rs ! j)"

definition failed :: "32 word list \<Rightarrow> nat" where
  "failed rs = length (filter (\<lambda>r. r <s 0) rs)"

lemma kPost_spec:
  "cq_holds c H rs (us_w s) \<Longrightarrow> length rs + length (us_inflight s) \<le> 2 ^ c \<Longrightarrow>
   cq_holds c H (rs @ map cq_res (take n (us_inflight s))) (us_w (kPost n s)) \<and> us_inflight (kPost n s) = drop n (us_inflight s) \<and>
   us_out (kPost n s) = us_out s \<and> sqSide (us_w (kPost n s)) = sqSide (us_w s)"
proof (induction n arbitrary: rs s)
  case (Suc n)
  show ?case
  proof (cases "us_inflight s")
    case (Cons x xs)
    let ?w = "us_w s" and ?i = "(H + length rs) mod 2 ^ c"
    have c: "c \<le> 16" "ur_cqMask ?w = 2 ^ c - 1" "ur_cqTail ?w = of_nat (H + length rs)" using Suc.prems(1) by (auto simp: cq_holds_def)
    have i: "unat (ur_cqTail ?w AND ur_cqMask ?w) = ?i" unfolding c(2,3) by (rule ring_slot [OF c(1)])
    let ?s = "s\<lparr>us_inflight := xs, us_w := ?w\<lparr>ur_cqes := (ur_cqes ?w)[?i := x], ur_cqTail := ur_cqTail ?w + 1\<rparr>\<rparr>"
    have e: "kPost (Suc n) s = kPost n ?s" using Cons i by (simp add: Let_def)
    have lt: "length rs < 2 ^ c" using Suc.prems(2) Cons by simp
    have "cq_holds c H (rs @ [cq_res x]) (us_w ?s)"
      unfolding cq_holds_def
    proof (intro conjI allI impI)
      fix j assume "j < length (rs @ [cq_res x])"
      then consider "j < length rs" | "j = length rs" by fastforce
      then show "cq_res (ur_cqes (us_w ?s) ! ((H + j) mod 2 ^ c)) = (rs @ [cq_res x]) ! j"
        by cases (use Suc.prems(1) lt mod_offsets_apart [of j "length rs" "2 ^ c" H] in \<open>auto simp: cq_holds_def nth_append\<close>)
    qed (use Suc.prems(1) lt in \<open>auto simp: cq_holds_def\<close>)
    from Suc.IH [OF this] Suc.prems(2) Cons show ?thesis unfolding e by (simp add: sqSide_def)
  qed (use Suc.prems in auto)
qed simp

lemma countFails_spec: "cq_holds c H rs w \<Longrightarrow> countFails w (of_nat H) (length rs) = failed rs"
proof -
  assume h: "cq_holds c H rs w"
  then have c: "c \<le> 16" "ur_cqMask w = 2 ^ c - 1" by (auto simp: cq_holds_def)
  have "countFails w (of_nat (H + i)) (length rs - i) = failed (drop i rs)" if "i \<le> length rs" for i
    using that
  proof (induction i rule: inc_induct)
    case (step i)
    then have d: "length rs - i = Suc (length rs - Suc i)" "drop i rs = rs ! i # drop (Suc i) rs" by (auto simp: Cons_nth_drop_Suc)
    have "cq_res (ur_cqes w ! unat (of_nat (H + i) AND ur_cqMask w)) = rs ! i"
      unfolding c(2) ring_slot [OF c(1)] using h step(2) by (simp add: cq_holds_def)
    moreover have "(of_nat (H + i) :: u32) + 1 = of_nat (H + Suc i)" by simp
    ultimately show ?case using step.IH unfolding d by (simp only: countFails.simps failed_def filter.simps) simp
  qed (simp add: failed_def)
  from this [of 0] show ?thesis by simp
qed

lemma failed_append [simp]: "failed (xs @ ys) = failed xs + failed ys" "failed [] = 0"
  by (simp_all add: failed_def)

declare reap.simps [simp del]

lemma reap_spec:
  "cq_holds c H rs (us_w s) \<Longrightarrow> got + length rs + length (us_inflight s) = n \<Longrightarrow> n \<le> 2 ^ c \<Longrightarrow> length (us_inflight s) \<le> sum_list waits \<Longrightarrow>
   \<exists>s'. reap n waits got fails s = Some (fails + failed (rs @ map cq_res (us_inflight s)), s') \<and> us_inflight s' = [] \<and>
     cq_holds c (H + length rs + length (us_inflight s)) [] (us_w s') \<and> us_out s' = us_out s \<and> sqSide (us_w s') = sqSide (us_w s)"
proof (induction n waits got fails s arbitrary: H rs rule: reap.induct)
  case (1 n waits got fails s)
  let ?w = "us_w s"
  have len: "length rs < 2 ^ 32" "c \<le> 16" using 1(3) pow16 [of c] by (auto simp: cq_holds_def)
  have ht: "ur_cqHead ?w = ur_cqTail ?w \<longleftrightarrow> rs = []" "unat (ur_cqTail ?w - ur_cqHead ?w) = length rs"
    using 1(3) unat_of_nat_small [of "length rs", where 'a = 32] len(1) by (auto simp: cq_holds_def)
  consider "n \<le> got" | "got < n" "rs = []" | "got < n" "rs \<noteq> []" by linarith
  then show ?case
  proof cases
    case 1
    then have "rs = []" "us_inflight s = []" using "1.prems"(2) by auto
    then show ?thesis using 1 "1.prems"(1) by (subst reap.simps) simp
  next
    case 2
    then have "us_inflight s \<noteq> []" using "1.prems"(2) by auto
    then obtain k ks where ks: "waits = k # ks" using "1.prems"(4) by (cases waits) auto
    have e: "reap n waits got fails s = reap n ks got fails (kPost k s)"
      using 2 ht(1) ks by (subst reap.simps) (simp add: Let_def)
    let ?t = "map cq_res (take k (us_inflight s))" and ?d = "drop k (us_inflight s)"
    have p: "cq_holds c H ?t (us_w (kPost k s))" "us_inflight (kPost k s) = ?d" "us_out (kPost k s) = us_out s" "sqSide (us_w (kPost k s)) = sqSide (us_w s)"
      using kPost_spec [OF "1.prems"(1), of k] "1.prems"(2,3) 2(2) by simp_all
    have l: "length ?t + length ?d = length (us_inflight s)" "?t @ map cq_res ?d = map cq_res (us_inflight s)"
      by (simp_all add: map_append [symmetric] del: map_append)
    have "\<exists>s'. reap n ks got fails (kPost k s) = Some (fails + failed (?t @ map cq_res (us_inflight (kPost k s))), s') \<and> us_inflight s' = [] \<and>
       cq_holds c (H + length ?t + length (us_inflight (kPost k s))) [] (us_w s') \<and> us_out s' = us_out (kPost k s) \<and> sqSide (us_w s') = sqSide (us_w (kPost k s))"
      by (rule "1.IH"(1) [OF _ refl refl refl _ ks]) (use 2 ht(1) p l "1.prems" ks in auto)
    then show ?thesis unfolding e p l(2) using 2(2) l(1) p(3,4) by (simp add: add.assoc)
  next
    case 3
    let ?s = "s\<lparr>us_w := ?w\<lparr>ur_cqHead := ur_cqTail ?w\<rparr>\<rparr>"
    have e: "reap n waits got fails s = reap n waits (got + length rs) (fails + failed rs) ?s"
      using 3 ht countFails_spec [OF "1.prems"(1)] "1.prems"(1) by (subst reap.simps) (simp add: Let_def cq_holds_def)
    have h: "cq_holds c (H + length rs) [] (us_w ?s)" using "1.prems"(1) by (simp add: cq_holds_def)
    have "\<exists>s'. reap n waits (got + length rs) (fails + failed rs) ?s = Some (fails + failed rs + failed ([] @ map cq_res (us_inflight ?s)), s') \<and> us_inflight s' = [] \<and>
       cq_holds c (H + length rs + length ([] :: 32 word list) + length (us_inflight ?s)) [] (us_w s') \<and> us_out s' = us_out ?s \<and> sqSide (us_w s') = sqSide (us_w ?s)"
      using "1.IH"(2) [OF _ refl refl refl _ refl, of "H + length rs" "[]"] 3 ht h "1.prems" countFails_spec [OF "1.prems"(1)] by (auto simp: cq_holds_def)
    then show ?thesis unfolding e by (auto simp: sqSide_def add.assoc)
  qed
qed

subsection \<open>A flush\<close>

lemma kTake_spec:
  assumes ok: "uring_ok k c M (us_w s)" and hd: "ur_sqHead (us_w s) = of_nat T" and h: "entry_holds (us_w s) (T mod 2 ^ k) x"
  obtains y where "kTake wr s = s\<lparr>us_w := (us_w s)\<lparr>ur_sqHead := ur_sqHead (us_w s) + 1\<rparr>, us_out := us_out s @ [x], us_inflight := us_inflight s @ [y]\<rparr>"
    "cq_res y = wr (fst x) (snd x)"
proof -
  let ?w = "us_w s" and ?i = "T mod 2 ^ k"
  have k: "k \<le> 16" "ur_sqMask ?w = 2 ^ k - 1" "ur_maxFrame ?w = M" "M < 2 ^ 32" using ok by (auto simp: uring_ok_def)
  have i: "unat (ur_sqHead ?w AND ur_sqMask ?w) = ?i" unfolding hd k(2) by (rule ring_slot [OF k(1)])
  have "?i < 2 ^ k" by simp
  then have i2: "?i < 65536" using pow16 [OF k(1)] by linarith
  then have i3: "unat (of_nat ?i :: u32) = ?i" by (intro unat_of_nat_small) simp
  have "?i * M \<le> 65536 * 2 ^ 32" using i2 k(4) by (intro mult_le_mono) linarith+
  then have o: "unat (of_nat (?i * M) :: u64) = ?i * M" by (intro unat_of_nat_small) simp
  have l: "unat (of_nat (length (snd x)) :: u32) = length (snd x)"
    using h k(3,4) by (intro unat_of_nat_small) (simp add: entry_holds_def)
  show thesis
    using that h unfolding kTake_def Let_def i by (simp add: entry_holds_def i3 k(3) o [unfolded of_nat_mult] l)
qed

lemma kSubmit_spec:
  assumes "uring_ok k c M (us_w s)" "ur_sqHead (us_w s) = of_nat T" "ur_sqTail (us_w s) = of_nat (T + length pnd)" "entries_hold k T pnd (us_w s)"
  shows "\<exists>cs. map cq_res cs = map (\<lambda>x. wr (fst x) (snd x)) pnd \<and>
    kSubmit wr (length pnd) s = s\<lparr>us_w := (us_w s)\<lparr>ur_sqHead := ur_sqTail (us_w s)\<rparr>, us_out := us_out s @ pnd, us_inflight := us_inflight s @ cs\<rparr>"
  using assms
proof (induction pnd arbitrary: T s)
  case Nil
  then show ?case by simp
next
  case (Cons x xs)
  let ?w = "us_w s"
  have k: "k \<le> 16" using Cons.prems(1) by (auto simp: uring_ok_def)
  have "entry_holds ?w (T mod 2 ^ k) x" using Cons.prems(4) by (auto simp: entries_hold_def)
  from kTake_spec [OF Cons.prems(1,2) this, of wr] obtain y where
    y: "kTake wr s = s\<lparr>us_w := ?w\<lparr>ur_sqHead := ur_sqHead ?w + 1\<rparr>, us_out := us_out s @ [x], us_inflight := us_inflight s @ [y]\<rparr>" "cq_res y = wr (fst x) (snd x)" .
  have ne: "ur_sqHead ?w \<noteq> ur_sqTail ?w"
  proof -
    have "Suc (length xs) < 2 ^ 32" using Cons.prems(4) pow16 [OF k] by (simp add: entries_hold_def)
    then have "unat (of_nat (Suc (length xs)) :: u32) = Suc (length xs)" by (intro unat_of_nat_small) simp
    then have "(of_nat (Suc (length xs)) :: u32) \<noteq> 0" by force
    moreover have "(of_nat (T + length (x # xs)) :: u32) = of_nat T + of_nat (Suc (length xs))" by (simp only: of_nat_add list.size) simp
    ultimately show ?thesis unfolding Cons.prems(2,3) by (metis add_cancel_right_right)
  qed
  let ?s = "kTake wr s"
  have "\<forall>j<length xs. entry_holds (us_w ?s) ((T + 1 + j) mod 2 ^ k) (xs ! j)"
  proof (intro allI impI)
    fix j assume "j < length xs"
    then have "entry_holds ?w ((T + Suc j) mod 2 ^ k) ((x # xs) ! Suc j)" using Cons.prems(4) by (auto simp: entries_hold_def)
    then show "entry_holds (us_w ?s) ((T + 1 + j) mod 2 ^ k) (xs ! j)" unfolding y by (simp add: entry_holds_def)
  qed
  then have eh: "entries_hold k (T + 1) xs (us_w ?s)" using Cons.prems(4) by (simp add: entries_hold_def)
  have nx: "uring_ok k c M (us_w ?s)" "ur_sqHead (us_w ?s) = of_nat (T + 1)" "ur_sqTail (us_w ?s) = of_nat (T + 1 + length xs)"
    using Cons.prems(1-3) unfolding y by (simp_all add: uring_ok_def)
  from Cons.IH [OF nx eh] obtain cs where cs: "map cq_res cs = map (\<lambda>x. wr (fst x) (snd x)) xs"
    "kSubmit wr (length xs) ?s = ?s\<lparr>us_w := (us_w ?s)\<lparr>ur_sqHead := ur_sqTail (us_w ?s)\<rparr>, us_out := us_out ?s @ xs, us_inflight := us_inflight ?s @ cs\<rparr>"
    by blast
  show ?case
    by (intro exI [of _ "y # cs"]) (use ne y cs in simp)
qed

text \<open>Between two calls: the writes \<open>pnd\<close> are queued, and nothing else is on its way.\<close>

definition uring_state :: "nat \<Rightarrow> nat \<Rightarrow> nat \<Rightarrow> (32 word \<times> bytes) list \<Rightarrow> uringSys \<Rightarrow> bool" where
  "uring_state k c M pnd s \<longleftrightarrow> uring_ok k c M (us_w s) \<and> us_inflight s = [] \<and>
     (\<exists>T H. ur_sqHead (us_w s) = of_nat T \<and> ur_tail (us_w s) = of_nat (T + length pnd) \<and> entries_hold k T pnd (us_w s) \<and> cq_holds c H [] (us_w s)) \<and>
     ur_queued (us_w s) = of_nat (length pnd)"

lemma uring_state_length: "uring_state k c M pnd s \<Longrightarrow> length pnd \<le> 2 ^ k \<and> k \<le> 16 \<and> unat (ur_queued (us_w s)) = length pnd"
proof -
  assume h: "uring_state k c M pnd s"
  then have k: "k \<le> 16" "length pnd \<le> 2 ^ k" by (auto simp: uring_state_def uring_ok_def entries_hold_def)
  then have "length pnd < 2 ^ 32" using pow16 [OF k(1)] by simp
  then show ?thesis using h k unat_of_nat_small [of "length pnd", where 'a = 32] by (simp add: uring_state_def)
qed

lemma uring_submit:
  assumes "uring_state k c M pnd s" "length pnd < 2 ^ k" "length pkt \<le> M"
  shows "uring_state k c M (pnd @ [(fd, pkt)]) (s\<lparr>us_w := uringSubmit fd pkt (us_w s)\<rparr>)"
proof -
  from assms(1) obtain T H where h: "uring_ok k c M (us_w s)" "ur_sqHead (us_w s) = of_nat T" "ur_tail (us_w s) = of_nat (T + length pnd)"
    "entries_hold k T pnd (us_w s)" "cq_holds c H [] (us_w s)" by (auto simp: uring_state_def)
  note sub = submit_holds [OF h(1,3,4) assms(2,3), of fd]
  have "ur_sqHead (uringSubmit fd pkt (us_w s)) = of_nat T" "ur_tail (uringSubmit fd pkt (us_w s)) = of_nat (T + length (pnd @ [(fd, pkt)]))"
    "cq_holds c H [] (uringSubmit fd pkt (us_w s))" "ur_queued (uringSubmit fd pkt (us_w s)) = ur_queued (us_w s) + 1"
    using h by (simp_all add: uringSubmit_def Let_def cq_holds_def)
  then show ?thesis using assms(1) sub unfolding uring_state_def by auto
qed

lemma uring_flush:
  assumes st: "uring_state k c M pnd s" and posted: "length pnd \<le> sum_list waits"
  shows "\<exists>s'. uringFlush wr True waits s = Some (failed (map (\<lambda>x. wr (fst x) (snd x)) pnd), s') \<and> uring_state k c M [] s' \<and> us_out s' = us_out s @ pnd"
proof (cases "pnd = []")
  case True
  then show ?thesis using st by (intro exI [of _ s]) (simp add: uringFlush_def uring_state_def)
next
  case False
  let ?rs = "map (\<lambda>x. wr (fst x) (snd x)) pnd"
  from st obtain T H where h: "uring_ok k c M (us_w s)" "ur_sqHead (us_w s) = of_nat T" "ur_tail (us_w s) = of_nat (T + length pnd)"
    "entries_hold k T pnd (us_w s)" "cq_holds c H [] (us_w s)" "us_inflight s = []" by (auto simp: uring_state_def)
  have q: "unat (ur_queued (us_w s)) = length pnd" "length pnd \<le> 2 ^ k" using uring_state_length [OF st] by auto
  then have qn: "ur_queued (us_w s) \<noteq> 0" using False by auto
  have "(2::nat) ^ k \<le> 2 ^ c" using h(1) by (intro power_increasing) (auto simp: uring_ok_def)
  then have n: "length pnd \<le> 2 ^ c" using q(2) by (rule order_trans [rotated])
  define s1 where "s1 = s\<lparr>us_w := (us_w s)\<lparr>ur_sqTail := ur_tail (us_w s)\<rparr>\<rparr>"
  have p1: "uring_ok k c M (us_w s1)" "ur_sqHead (us_w s1) = of_nat T" "ur_sqTail (us_w s1) = of_nat (T + length pnd)" "entries_hold k T pnd (us_w s1)"
    "cq_holds c H [] (us_w s1)" using h by (simp_all add: s1_def uring_ok_def entries_hold_def entry_holds_def cq_holds_def)
  from kSubmit_spec [OF p1(1-4), of wr] obtain cs where ks: "map cq_res cs = ?rs \<and>
      kSubmit wr (length pnd) s1 = s1\<lparr>us_w := (us_w s1)\<lparr>ur_sqHead := ur_sqTail (us_w s1)\<rparr>, us_out := us_out s1 @ pnd, us_inflight := us_inflight s1 @ cs\<rparr>" ..
  note cs = ks [THEN conjunct1] and k1 = ks [THEN conjunct2]
  let ?k = "if waits = [] then 0 else hd waits"
  define s2 where "s2 = kSubmit wr (length pnd) s1"
  have len: "length cs = length pnd" using arg_cong [OF cs, of length] by simp
  have "s2 = s\<lparr>us_w := (us_w s)\<lparr>ur_sqTail := ur_tail (us_w s), ur_sqHead := ur_tail (us_w s)\<rparr>, us_out := us_out s @ pnd, us_inflight := cs\<rparr>"
    unfolding s2_def k1 using h(6) by (simp add: s1_def)
  then have w2: "us_w s2 = (us_w s)\<lparr>ur_sqTail := ur_tail (us_w s), ur_sqHead := ur_tail (us_w s)\<rparr>" and s2': "us_inflight s2 = cs" "us_out s2 = us_out s @ pnd" by simp_all
  have s2: "cq_holds c H [] (us_w s2)" "us_inflight s2 = cs" "us_out s2 = us_out s @ pnd" "ur_sqHead (us_w s2) = ur_tail (us_w s2)"
    "ur_tail (us_w s2) = of_nat (T + length pnd)" "uring_ok k c M (us_w s2)"
    using h(1,3,5) s2' by (simp_all add: w2 cq_holds_def uring_ok_def)
  define s3 where "s3 = kPost ?k s2"
  have s3: "cq_holds c H (map cq_res (take ?k cs)) (us_w s3)" "us_inflight s3 = drop ?k cs" "us_out s3 = us_out s2" "sqSide (us_w s3) = sqSide (us_w s2)"
    using kPost_spec [OF s2(1), of ?k] s2(2) len n unfolding s3_def by auto
  have sp: "map cq_res (take ?k cs) @ map cq_res (drop ?k cs) = ?rs" by (simp add: cs [symmetric] flip: map_append)
  have wt: "length (us_inflight s3) \<le> sum_list (tl waits)" using posted len s3(2) by (cases waits) auto
  have "0 + length (map cq_res (take ?k cs)) + length (us_inflight s3) = length pnd" using len s3(2) by simp
  from reap_spec [OF s3(1) this n wt, of 0] obtain s4 where s4': "reap (length pnd) (tl waits) 0 0 s3 = Some (0 + failed (map cq_res (take ?k cs) @ map cq_res (us_inflight s3)), s4)"
    "us_inflight s4 = []" "cq_holds c (H + length (map cq_res (take ?k cs)) + length (us_inflight s3)) [] (us_w s4)" "us_out s4 = us_out s3" "sqSide (us_w s4) = sqSide (us_w s3)"
    by blast
  have s4: "reap (length pnd) (tl waits) 0 0 s3 = Some (failed ?rs, s4)" using s4'(1) unfolding s3(2) sp by simp
  let ?s = "s4\<lparr>us_w := (us_w s4)\<lparr>ur_queued := 0\<rparr>\<rparr>"
  have "uringFlush wr True waits s = Some (failed ?rs, ?s)"
    using qn s4 unfolding uringFlush_def Let_def q(1) s3_def s2_def s1_def by simp
  moreover have "uring_state k c M [] ?s"
  proof -
    note sd = sqSide_fields [OF s4'(5) [unfolded s3(4)]]
    have "uring_ok k c M (us_w ?s)" using s2(6) sd s4'(3) by (simp add: uring_ok_def cq_holds_def)
    moreover have "ur_sqHead (us_w ?s) = of_nat (T + length pnd)" "ur_tail (us_w ?s) = of_nat (T + length pnd)" using sd s2(4,5) by simp_all
    moreover have "cq_holds c (H + length (map cq_res (take ?k cs)) + length (us_inflight s3)) [] (us_w ?s)" using s4'(3) by (simp add: cq_holds_def)
    ultimately show ?thesis using s4'(2) unfolding uring_state_def entries_hold_def
      by (intro conjI exI [of _ "T + length pnd"] exI [of _ "H + length (map cq_res (take ?k cs)) + length (us_inflight s3)"]) simp_all
  qed
  moreover have "us_out ?s = us_out s @ pnd" using s4'(4) s3(3) s2(3) by simp
  ultimately show ?thesis by blast
qed

subsection \<open>The egress\<close>

lemma uring_full: "uring_state k c M pnd s \<Longrightarrow> uringFull (us_w s) \<longleftrightarrow> length pnd = 2 ^ k"
proof -
  assume h: "uring_state k c M pnd s"
  have l: "length pnd \<le> 2 ^ k" "k \<le> 16" "unat (ur_queued (us_w s)) = length pnd" using uring_state_length [OF h] by auto
  have "unat (ur_entries (us_w s)) = 2 ^ k"
    using h pow16 [OF l(2)] unat_of_nat_small [of "2 ^ k", where 'a = 32] by (simp add: uring_state_def uring_ok_def)
  then show ?thesis using l by (auto simp: uringFull_def word_le_nat_alt)
qed

text \<open>A series of calls, each with the schedule of the kernel's posts during it.\<close>

datatype uringCall = UAdd bytes "nat list" | UFlush "nat list"

fun waitsOf :: "uringCall \<Rightarrow> nat list" where
  "waitsOf (UAdd pkt waits) = waits"
| "waitsOf (UFlush waits) = waits"

fun uringDo :: "writeResult \<Rightarrow> uringCall \<Rightarrow> TunUringBatch \<times> uringSys \<Rightarrow> (TunUringBatch \<times> uringSys) option" where
  "uringDo wr (UAdd pkt waits) x = TunUringBatch_Add wr True waits pkt x"
| "uringDo wr (UFlush waits) x = TunUringBatch_Flush wr True waits x"

fun uringRun :: "writeResult \<Rightarrow> uringCall list \<Rightarrow> TunUringBatch \<times> uringSys \<Rightarrow> (TunUringBatch \<times> uringSys) option" where
  "uringRun wr [] x = Some x"
| "uringRun wr (e # es) x = (case uringDo wr e x of None \<Rightarrow> None | Some y \<Rightarrow> uringRun wr es y)"

fun addedPkts :: "uringCall list \<Rightarrow> bytes list" where
  "addedPkts [] = []"
| "addedPkts (UAdd pkt waits # es) = pkt # addedPkts es"
| "addedPkts (UFlush waits # es) = addedPkts es"

lemma uringRun_append: "uringRun wr (es @ es') x = (case uringRun wr es x of None \<Rightarrow> None | Some y \<Rightarrow> uringRun wr es' y)"
  by (induction es arbitrary: x) (auto split: option.splits)

text \<open>\<open>ps\<close> are the packets accepted so far, \<open>d\<close> the number of those refused.\<close>

definition uring_rel :: "writeResult \<Rightarrow> nat \<Rightarrow> nat \<Rightarrow> bytes list \<Rightarrow> nat \<Rightarrow> TunUringBatch \<times> uringSys \<Rightarrow> bool" where
  "uring_rel wr k c ps d x \<longleftrightarrow> (case x of (b, s) \<Rightarrow> \<exists>pnd. uring_state k c (tu_maxFrame b) pnd s \<and> tu_queued b = length pnd \<and>
     us_out s @ pnd = map (Pair (tu_fd b)) ps \<and> tu_drops b = d \<and> tu_writes b + int (tu_fails b) = int (length (us_out s)) \<and>
     tu_fails b = failed (map (\<lambda>x. wr (fst x) (snd x)) (us_out s)))"

lemma uring_rel_flush:
  assumes r: "uring_rel wr k c ps d (b, s)" and w: "2 ^ k \<le> sum_list waits"
  shows "\<exists>b' s'. TunUringBatch_Flush wr True waits (b, s) = Some (b', s') \<and> uring_rel wr k c ps d (b', s') \<and> tu_queued b' = 0 \<and>
    tu_fd b' = tu_fd b \<and> tu_maxFrame b' = tu_maxFrame b"
proof -
  from r obtain pnd where h: "uring_state k c (tu_maxFrame b) pnd s" "tu_queued b = length pnd" "us_out s @ pnd = map (Pair (tu_fd b)) ps"
    "tu_drops b = d" "tu_writes b + int (tu_fails b) = int (length (us_out s))" "tu_fails b = failed (map (\<lambda>x. wr (fst x) (snd x)) (us_out s))"
    by (auto simp: uring_rel_def)
  show ?thesis
  proof (cases "pnd = []")
    case True
    then show ?thesis using h by (auto simp: TunUringBatch_Flush_def uring_rel_def)
  next
    case False
    have "length pnd \<le> sum_list waits" using uring_state_length [OF h(1)] w by linarith
    from uring_flush [OF h(1) this, of wr] obtain s' where s': "uringFlush wr True waits s = Some (failed (map (\<lambda>x. wr (fst x) (snd x)) pnd), s')"
      "uring_state k c (tu_maxFrame b) [] s'" "us_out s' = us_out s @ pnd" by blast
    let ?f = "failed (map (\<lambda>x. wr (fst x) (snd x)) pnd)"
    let ?b = "b\<lparr>tu_queued := 0, tu_writes := tu_writes b + (int (length pnd) - int ?f), tu_fails := tu_fails b + ?f\<rparr>"
    have "TunUringBatch_Flush wr True waits (b, s) = Some (?b, s')" using False h(2) s'(1) by (simp add: TunUringBatch_Flush_def)
    moreover have "uring_rel wr k c ps d (?b, s')"
      unfolding uring_rel_def prod.case
    proof (intro exI [of _ "[]"] conjI)
      show "us_out s' @ [] = map (Pair (tu_fd ?b)) ps" using h(3) s'(3) by simp
    qed (use s'(2) h(4-6) in \<open>simp_all add: s'(3)\<close>)
    ultimately show ?thesis by (intro exI) (auto)
  qed
qed

lemma uring_rel_add:
  assumes r: "uring_rel wr k c ps d (b, s)" and w: "2 ^ k \<le> sum_list waits"
  shows "\<exists>b' s'. TunUringBatch_Add wr True waits pkt (b, s) = Some (b', s') \<and> tu_fd b' = tu_fd b \<and> tu_maxFrame b' = tu_maxFrame b \<and>
    uring_rel wr k c (if length pkt \<le> tu_maxFrame b then ps @ [pkt] else ps) (if length pkt \<le> tu_maxFrame b then d else d + 1) (b', s')"
proof (cases "length pkt \<le> tu_maxFrame b")
  case False
  then show ?thesis using r by (auto simp: TunUringBatch_Add_def uring_rel_def)
next
  case True
  obtain b1 s1 where 1: "(if uringFull (us_w s) then TunUringBatch_Flush wr True waits (b, s) else Some (b, s)) = Some (b1, s1)"
      "uring_rel wr k c ps d (b1, s1)" "tu_fd b1 = tu_fd b" "tu_maxFrame b1 = tu_maxFrame b" "tu_queued b1 < 2 ^ k"
  proof (cases "uringFull (us_w s)")
    case True
    then show thesis using that uring_rel_flush [OF r w] by fastforce
  next
    case False
    from r obtain pnd where p: "uring_state k c (tu_maxFrame b) pnd s" "tu_queued b = length pnd" by (auto simp: uring_rel_def)
    have "length pnd < 2 ^ k" using False uring_full [OF p(1)] uring_state_length [OF p(1)] by auto
    then show thesis using that [of b s] r False p(2) by simp
  qed
  from 1(2) obtain pnd where h: "uring_state k c (tu_maxFrame b1) pnd s1" "tu_queued b1 = length pnd" "us_out s1 @ pnd = map (Pair (tu_fd b1)) ps"
    "tu_drops b1 = d" "tu_writes b1 + int (tu_fails b1) = int (length (us_out s1))" "tu_fails b1 = failed (map (\<lambda>x. wr (fst x) (snd x)) (us_out s1))"
    by (auto simp: uring_rel_def)
  have "uring_state k c (tu_maxFrame b1) (pnd @ [(tu_fd b1, pkt)]) (s1\<lparr>us_w := uringSubmit (tu_fd b1) pkt (us_w s1)\<rparr>)"
    using uring_submit [OF h(1)] h(2) 1(4,5) True by simp
  then show ?thesis using True 1(1,3,4) h by (auto simp: TunUringBatch_Add_def uring_rel_def)
qed

lemma uringRun_rel:
  "uring_rel wr k c ps d (b, s) \<Longrightarrow> \<forall>e\<in>set es. 2 ^ k \<le> sum_list (waitsOf e) \<Longrightarrow>
   \<exists>b' s'. uringRun wr es (b, s) = Some (b', s') \<and> tu_fd b' = tu_fd b \<and> tu_maxFrame b' = tu_maxFrame b \<and>
     uring_rel wr k c (ps @ filter (\<lambda>p. length p \<le> tu_maxFrame b) (addedPkts es))
       (d + length (filter (\<lambda>p. tu_maxFrame b < length p) (addedPkts es))) (b', s')"
proof (induction es arbitrary: ps d b s)
  case (Cons e es)
  show ?case
  proof (cases e)
    case (UAdd pkt waits)
    from uring_rel_add [OF Cons.prems(1), of waits pkt] Cons.prems(2) UAdd obtain b1 s1 where
      1: "TunUringBatch_Add wr True waits pkt (b, s) = Some (b1, s1)" "tu_fd b1 = tu_fd b" "tu_maxFrame b1 = tu_maxFrame b"
      "uring_rel wr k c (if length pkt \<le> tu_maxFrame b then ps @ [pkt] else ps) (if length pkt \<le> tu_maxFrame b then d else d + 1) (b1, s1)" by auto
    from Cons.IH [OF 1(4)] Cons.prems(2) 1 UAdd show ?thesis by (cases "length pkt \<le> tu_maxFrame b") auto
  next
    case (UFlush waits)
    from uring_rel_flush [OF Cons.prems(1), of waits] Cons.prems(2) UFlush obtain b1 s1 where
      1: "TunUringBatch_Flush wr True waits (b, s) = Some (b1, s1)" "tu_fd b1 = tu_fd b" "tu_maxFrame b1 = tu_maxFrame b" "uring_rel wr k c ps d (b1, s1)" by auto
    from Cons.IH [OF 1(4)] Cons.prems(2) 1 UFlush show ?thesis by auto
  qed
qed auto

lemma newUring_state:
  assumes "newUringWriter (Some p) mmap t0 c0 ptr M = Inr w" "up_sqEntries p = 2 ^ k" "up_cqEntries p = 2 ^ c" "k \<le> c" "c \<le> 16" "M < 2 ^ 32"
  shows "uring_state k c M [] \<lparr>us_w = w, us_inflight = [], us_out = []\<rparr>"
proof -
  have "unat (2 ^ k :: u32) = 2 ^ k" "unat (2 ^ c :: u32) = 2 ^ c"
    using pow16 [of k] pow16 [of c] assms(4,5) unat_of_nat_small [of "2 ^ k", where 'a = 32] unat_of_nat_small [of "2 ^ c", where 'a = 32] by auto
  then have "uring_ok k c M w" "ur_sqHead w = of_nat (unat t0)" "ur_tail w = of_nat (unat t0)" "cq_holds c (unat c0) [] w" "ur_queued w = 0"
    using assms by (auto simp: newUringWriter_def uring_ok_def cq_holds_def Let_def split: if_splits prod.splits)
  then show ?thesis unfolding uring_state_def entries_hold_def
    by (intro conjI exI [of _ "unat t0"] exI [of _ "unat c0"]) simp_all
qed


text \<open>A flush of one entry takes the oldest published one.\<close>

lemma flush_takes_oldest:
  assumes ok: "uring_ok k c M (us_w s)" "ur_sqHead (us_w s) = of_nat T" "ur_tail (us_w s) = of_nat T + 2" "entry_holds (us_w s) (T mod 2 ^ k) x"
    and cq: "cq_holds c H [] (us_w s)" "us_inflight s = []" and q: "ur_queued (us_w s) = 1" and wr: "\<not> wr (fst x) (snd x) <s 0"
  shows "\<exists>s'. uringFlush wr True [1] s = Some (0, s') \<and> us_out s' = us_out s @ [x]"
proof -
  define s4 where "s4 = s\<lparr>us_w := (us_w s)\<lparr>ur_sqTail := ur_tail (us_w s)\<rparr>\<rparr>"
  have w4: "us_w s4 = (us_w s)\<lparr>ur_sqTail := ur_tail (us_w s)\<rparr>" "us_inflight s4 = []" "us_out s4 = us_out s" using cq(2) by (simp_all add: s4_def)
  have h4: "uring_ok k c M (us_w s4)" "ur_sqHead (us_w s4) = of_nat T" "ur_sqTail (us_w s4) = of_nat T + 2" "entry_holds (us_w s4) (T mod 2 ^ k) x"
    "cq_holds c H [] (us_w s4)" using ok cq(1) w4(1) by (simp_all add: uring_ok_def entry_holds_def cq_holds_def)
  from kTake_spec [OF h4(1,2,4), of wr] obtain c1 where
    t: "kTake wr s4 = s4\<lparr>us_w := (us_w s4)\<lparr>ur_sqHead := ur_sqHead (us_w s4) + 1\<rparr>, us_out := us_out s4 @ [x], us_inflight := us_inflight s4 @ [c1]\<rparr>"
      "cq_res c1 = wr (fst x) (snd x)" by auto
  have ks: "kSubmit wr 1 s4 = kTake wr s4" using h4(2,3) by simp
  have "cq_holds c H [] (us_w (kTake wr s4))" "us_inflight (kTake wr s4) = [c1]" using h4(5) w4(2) t(1) by (simp_all add: cq_holds_def)
  with kPost_spec [of c H "[]" "kTake wr s4" 1] have p: "cq_holds c H [wr (fst x) (snd x)] (us_w (kPost 1 (kTake wr s4)))" "us_inflight (kPost 1 (kTake wr s4)) = []"
    "us_out (kPost 1 (kTake wr s4)) = us_out s @ [x]" using t w4(3) by simp_all
  from reap_spec [OF p(1), of 0 1 "[]" 0] p(2,3) wr obtain s5 where
    "reap 1 [] 0 0 (kPost 1 (kTake wr s4)) = Some (0, s5)" "us_out s5 = us_out s @ [x]" by (auto simp: failed_def)
  then show ?thesis
    using q unfolding uringFlush_def Let_def s4_def [symmetric] by (simp add: ks del: kSubmit.simps kPost.simps One_nat_def)
qed

lemma uring_add_fits:
  assumes "length z \<le> tu_maxFrame b" "ur_queued (us_w s) = 0" "ur_entries (us_w s) = 2 ^ k" "k \<le> 16"
  shows "TunUringBatch_Add wr True waits z (b, s) = Some (b\<lparr>tu_queued := tu_queued b + 1\<rparr>, s\<lparr>us_w := uringSubmit (tu_fd b) z (us_w s)\<rparr>)"
proof -
  have "unat (2 ^ k :: u32) = 2 ^ k" using pow16 [OF assms(4)] unat_of_nat_small [of "2 ^ k", where 'a = 32] by simp
  then show ?thesis using assms by (simp add: TunUringBatch_Add_def uringFull_def word_le_nat_alt)
qed

text \<open>
  After a failed \<^verbatim>\<open>io_uring_enter\<close> the writer is one batch behind. The packet of the
  failed flush is reported as failed but stays in the submission ring, published; the next
  flush, of another packet, submits one entry, which is the old one: the new packet is
  counted as written although the kernel has written the old one only.
\<close>

theorem uring_failed_enter_lags:
  assumes "newUringWriter (Some p) mmap t0 c0 ptr 4096 = Inr w" "up_sqEntries p = 2 ^ k" "up_cqEntries p = 2 ^ c" "0 < k" "k \<le> c" "c \<le> 16"
    and "length x \<le> 4096" "length y \<le> 4096" "\<not> wr fd x <s 0"
    and "x0 = (NewTunUringBatch fd, \<lparr>us_w = w, us_inflight = [], us_out = []\<rparr>)"
  shows "\<exists>x1 x2 x3 b s. TunUringBatch_Add wr True [] x x0 = Some x1 \<and> TunUringBatch_Flush wr False [] x1 = Some x2 \<and>
    TunUringBatch_Add wr True [] y x2 = Some x3 \<and> TunUringBatch_Flush wr True [1] x3 = Some (b, s) \<and>
    us_out s = [(fd, x)] \<and> tu_fails b = 1 \<and> tu_writes b = 1 \<and> tu_queued b = 0"
proof -
  let ?b = "NewTunUringBatch fd" and ?s0 = "\<lparr>us_w = w, us_inflight = [], us_out = []\<rparr>" and ?x = "(fd, x)" and ?y = "(fd, y)"
  have st0: "uring_state k c 4096 [] ?s0" using newUring_state [OF assms(1-3,5,6)] by simp
  have k: "(1::nat) < 2 ^ k" "k \<le> 16" using assms(4-6) one_less_power [of "2::nat" k] by simp_all
  define s1 where "s1 = ?s0\<lparr>us_w := uringSubmit fd x w\<rparr>"
  have st1: "uring_state k c 4096 [?x] s1" using uring_submit [OF st0 _ assms(7), of fd] unfolding s1_def by simp
  then obtain T H where h: "uring_ok k c 4096 (us_w s1)" "ur_sqHead (us_w s1) = of_nat T" "ur_tail (us_w s1) = of_nat (T + length [?x])"
    "entries_hold k T [?x] (us_w s1)" "cq_holds c H [] (us_w s1)" "us_inflight s1 = []" "ur_queued (us_w s1) = 1" by (auto simp: uring_state_def)
  let ?b1 = "?b\<lparr>tu_queued := 1\<rparr>" and ?b2 = "?b\<lparr>tu_fails := 1\<rparr>"
  have a1: "TunUringBatch_Add wr True [] x x0 = Some (?b1, s1)"
    using uring_add_fits [of x ?b ?s0, OF _ _ _ k(2)] assms(7,10) st0 by (simp add: NewTunUringBatch_def s1_def uring_state_def uring_ok_def)
  define s2 where "s2 = s1\<lparr>us_w := (us_w s1)\<lparr>ur_sqTail := ur_tail (us_w s1), ur_queued := 0\<rparr>\<rparr>"
  have a2: "TunUringBatch_Flush wr False [] (?b1, s1) = Some (?b2, s2)"
    using h(7) by (simp add: TunUringBatch_Flush_def uringFlush_def s2_def Let_def NewTunUringBatch_def)
  have h2: "uring_ok k c 4096 (us_w s2)" "ur_sqHead (us_w s2) = of_nat T" "ur_tail (us_w s2) = of_nat (T + length [?x])"
    "entries_hold k T [?x] (us_w s2)" "cq_holds c H [] (us_w s2)" "us_inflight s2 = []" "ur_queued (us_w s2) = 0" "us_out s2 = []"
    using h by (simp_all add: s2_def s1_def uring_ok_def entries_hold_def entry_holds_def cq_holds_def)
  define s3 where "s3 = s2\<lparr>us_w := uringSubmit fd y (us_w s2)\<rparr>"
  have a3: "TunUringBatch_Add wr True [] y (?b2, s2) = Some (?b2\<lparr>tu_queued := 1\<rparr>, s3)"
    using uring_add_fits [of y ?b2 s2, OF _ _ _ k(2)] assms(8) h2(1,7) by (simp add: NewTunUringBatch_def s3_def uring_ok_def)
  have w3: "uring_ok k c 4096 (us_w s3)" "entries_hold k T [?x, ?y] (us_w s3)"
    using submit_holds [OF h2(1,3,4) _ assms(8), of fd] k(1) by (simp_all add: s3_def)
  have w3': "ur_sqHead (us_w s3) = of_nat T" "ur_tail (us_w s3) = of_nat T + 2" "cq_holds c H [] (us_w s3)" "us_inflight s3 = []" "ur_queued (us_w s3) = 1" "us_out s3 = []"
    using h2 by (simp_all add: s3_def uringSubmit_def Let_def cq_holds_def)
  have e3: "entry_holds (us_w s3) (T mod 2 ^ k) ?x" using w3(2) unfolding entries_hold_def by force
  from flush_takes_oldest [OF w3(1) w3'(1,2) e3 w3'(3-5), of wr] assms(9) obtain s5 where
    f: "uringFlush wr True [1] s3 = Some (0, s5)" "us_out s5 = [?x]" using w3'(6) by auto
  have a4: "TunUringBatch_Flush wr True [1] (?b2\<lparr>tu_queued := 1\<rparr>, s3) = Some (?b2\<lparr>tu_queued := 0, tu_writes := 1\<rparr>, s5)"
    using f(1) by (simp add: TunUringBatch_Flush_def NewTunUringBatch_def)
  show ?thesis
    by (rule exI [of _ "(?b1, s1)"], rule exI [of _ "(?b2, s2)"], rule exI [of _ "(?b2\<lparr>tu_queued := 1\<rparr>, s3)"],
        rule exI [of _ "?b2\<lparr>tu_queued := 0, tu_writes := 1\<rparr>"], rule exI [of _ s5]) (use a1 a2 a3 a4 f(2) in \<open>simp add: NewTunUringBatch_def\<close>)
qed

text \<open>Rings of 4 and 8 entries whose submission index is about to wrap.\<close>

definition exParams :: ioUringParams where
  "exParams = \<lparr>up_sqEntries = 4, up_cqEntries = 8, up_features = 1, up_sqArrayOff = 64, up_cqesOff = 64\<rparr>"

definition exUring :: uringWriter where
  "exUring = (case newUringWriter (Some exParams) (\<lambda>_ _. True) 0xFFFFFFFF 0 4096 4096 of Inr w \<Rightarrow> w)"

lemma exUring_new: "newUringWriter (Some exParams) (\<lambda>_ _. True) 0xFFFFFFFF 0 4096 4096 = Inr exUring"
  by (simp add: exUring_def newUringWriter_def ringSizes_def exParams_def)


theorem uring_failed_enter_lags_witness:
  "\<exists>x1 x2 x3 b s. TunUringBatch_Add (\<lambda>_ _. 2) True [] [1, 2] (NewTunUringBatch 7, \<lparr>us_w = exUring, us_inflight = [], us_out = []\<rparr>) = Some x1 \<and>
    TunUringBatch_Flush (\<lambda>_ _. 2) False [] x1 = Some x2 \<and> TunUringBatch_Add (\<lambda>_ _. 2) True [] [3, 4] x2 = Some x3 \<and>
    TunUringBatch_Flush (\<lambda>_ _. 2) True [1] x3 = Some (b, s) \<and> us_out s = [(7, [1, 2])] \<and> tu_fails b = 1 \<and> tu_writes b = 1 \<and> tu_queued b = 0"
  by (rule uring_failed_enter_lags [OF exUring_new, of 2 3]) (simp_all add: exParams_def word_sless_alt)

end
