(* ===== verification/Management.thy ===== *)
theory Management
  imports Dhcp
begin

text \<open>
  The service layer (\<^verbatim>\<open>service/*.go\<close>) and the management API
  (\<^verbatim>\<open>management.go\<close>): routing, the handlers, and how a handler turns a result into
  a status and a body. A request carries its path as segments. JSON decoding of
  each request type is a field of \<open>json\<close>; marshalling the response types never
  fails, so a body is the value that is marshalled. Logging is left out.
\<close>

subsection \<open>Services\<close>

text \<open>The services pass a call on to the repository.\<close>

definition svcGetAllClients :: "Client list tx" where
  "svcGetAllClients = GetAllClients"

definition svcGetClientByID :: "int \<Rightarrow> Client tx" where
  "svcGetClientByID i = GetClientByID i"

definition svcCreateClientsWithRoles :: "env \<Rightarrow> string list \<Rightarrow> int list tx" where
  "svcCreateClientsWithRoles env names = CreateClientsWithRoles env names"

definition svcAssignRolesToClientByName :: "string \<Rightarrow> string list \<Rightarrow> int list tx" where
  "svcAssignRolesToClientByName clientName roleNames = AssignRolesToClientByName clientName roleNames"

definition svcUnassignRolesToClientByName :: "string \<Rightarrow> string list \<Rightarrow> int list tx" where
  "svcUnassignRolesToClientByName clientName roleNames = UnassignRolesToClientByName clientName roleNames"

definition svcUpsertClients :: "env \<Rightarrow> string list \<Rightarrow> int list tx" where
  "svcUpsertClients env names = UpsertClients env names"

definition svcAssignIPToClient :: "env \<Rightarrow> int \<Rightarrow> string tx" where
  "svcAssignIPToClient env i = AssignIPToClient env i"

definition svcDeleteClients :: "env \<Rightarrow> int list \<Rightarrow> int list tx" where
  "svcDeleteClients env ids = DeleteClients env ids"

definition svcUnassignRolesToClients :: "int list \<Rightarrow> int list \<Rightarrow> int list tx" where
  "svcUnassignRolesToClients roleIDs clientIDs = UnassignRolesToClients roleIDs clientIDs"

definition svcAssignRolesToClients :: "int list \<Rightarrow> int list \<Rightarrow> int list tx" where
  "svcAssignRolesToClients roleIDs clientIDs = AssignRolesToClients roleIDs clientIDs"

definition svcUpdateClientName :: "int \<Rightarrow> string \<Rightarrow> bool tx" where
  "svcUpdateClientName i newName = UpdateClientName i newName"

definition svcGetClientRoles :: "int \<Rightarrow> role_row list tx" where
  "svcGetClientRoles i = GetClientRoles i"

definition svcGetClientResources :: "int \<Rightarrow> resource_row list tx" where
  "svcGetClientResources i = GetClientResources i"

definition svcGetAllRoles :: "role_row list tx" where
  "svcGetAllRoles = GetAllRoles"

definition svcGetRoleByID :: "int \<Rightarrow> role_row tx" where
  "svcGetRoleByID i = GetRoleByID i"

definition svcAssignResourcesToRoleByName :: "string \<Rightarrow> string list \<Rightarrow> int list tx" where
  "svcAssignResourcesToRoleByName roleName resourceNames = AssignResourcesToRoleByName roleName resourceNames"

definition svcUnassignResourcesToRoleByName :: "string \<Rightarrow> string list \<Rightarrow> int list tx" where
  "svcUnassignResourcesToRoleByName roleName resourceNames = UnassignResourcesToRoleByName roleName resourceNames"

definition svcAssignResourcesToRoles :: "int list \<Rightarrow> int list \<Rightarrow> int list tx" where
  "svcAssignResourcesToRoles resourceIDs roleIDs = AssignResourcesToRoles resourceIDs roleIDs"

definition svcUnassignResourcesToRoles :: "int list \<Rightarrow> int list \<Rightarrow> int list tx" where
  "svcUnassignResourcesToRoles resourceIDs roleIDs = UnassignResourcesToRoles resourceIDs roleIDs"

definition svcUpdateRoleName :: "int \<Rightarrow> string \<Rightarrow> bool tx" where
  "svcUpdateRoleName i newName = UpdateRoleName i newName"

definition svcUpsertRoles :: "env \<Rightarrow> string list \<Rightarrow> int list tx" where
  "svcUpsertRoles env names = UpsertRoles env names"

definition svcDeleteRoles :: "int list \<Rightarrow> int list tx" where
  "svcDeleteRoles ids = DeleteRoles ids"

definition svcGetAllResources :: "resource_row list tx" where
  "svcGetAllResources = GetAllResources"

definition svcGetResourceByID :: "int \<Rightarrow> resource_row tx" where
  "svcGetResourceByID i = GetResourceByID i"

definition svcUpsertResources :: "env \<Rightarrow> (string \<times> string) list \<Rightarrow> int list tx" where
  "svcUpsertResources env resources' = UpsertResources env resources'"

definition svcUpdateResourceName :: "int \<Rightarrow> string \<Rightarrow> bool tx" where
  "svcUpdateResourceName i newName = UpdateResourceName i newName"

definition svcDeleteResources :: "int list \<Rightarrow> int list tx" where
  "svcDeleteResources ids = DeleteResources ids"

definition svcGetAllAvailableIPRanges :: "dhcp_row list tx" where
  "svcGetAllAvailableIPRanges = GetAllAvailableIPRanges"

definition svcResetDHCP :: "env \<Rightarrow> int \<Rightarrow> int \<Rightarrow> bool tx" where
  "svcResetDHCP env firstIP lastIP = ResetDHCP env firstIP lastIP"


subsection \<open>Requests and responses\<close>

record http_request =
  req_method :: string
  req_path :: "string list"
  req_body :: string

datatype body =
    NoBody | JClients "Client list" | JClient Client | JRoles "role_row list" | JRole role_row
  | JResources "resource_row list" | JResource resource_row | JRanges "dhcp_row list" | JIDs "int list"

record http_response =
  status :: nat
  rbody :: body

record json =
  decNames :: "string \<Rightarrow> string list option"
  decName :: "string \<Rightarrow> string option"
  decRoleIDs :: "string \<Rightarrow> int list option"
  decRoleNames :: "string \<Rightarrow> string list option"
  decResourceIDs :: "string \<Rightarrow> int list option"
  decResourceNames :: "string \<Rightarrow> string list option"
  decResources :: "string \<Rightarrow> (string \<times> string) list option"
  decResetDHCP :: "string \<Rightarrow> (int \<times> int) option"

type_synonym handler = "conn \<Rightarrow> http_response \<times> conn"

definition statusOnly :: "nat \<Rightarrow> http_response" where
  "statusOnly n = \<lparr>status = n, rbody = NoBody\<rparr>"

text \<open>\<^verbatim>\<open>strconv.ParseInt(s, 10, 64)\<close>.\<close>

definition parseInt64 :: "string \<Rightarrow> int option" where
  "parseInt64 s =
     (let neg = (s \<noteq> [] \<and> hd s = CHR ''-'');
          digits = (if s \<noteq> [] \<and> (hd s = CHR ''-'' \<or> hd s = CHR ''+'') then tl s else s)
      in if digits = [] then None
         else case atoi digits 0 of
                None \<Rightarrow> None
              | Some n \<Rightarrow> if neg then (if int n \<le> 2 ^ 63 then Some (- int n) else None)
                          else (if int n < 2 ^ 63 then Some (int n) else None))"

definition pathID :: "string \<Rightarrow> (int \<Rightarrow> handler) \<Rightarrow> handler" where
  "pathID seg k c = (case parseInt64 seg of None \<Rightarrow> (statusOnly 400, c) | Some i \<Rightarrow> k i c)"

definition decodeBody :: "(string \<Rightarrow> 'a option) \<Rightarrow> http_request \<Rightarrow> ('a \<Rightarrow> handler) \<Rightarrow> handler" where
  "decodeBody dec r k c = (case dec (req_body r) of None \<Rightarrow> (statusOnly 400, c) | Some v \<Rightarrow> k v c)"

definition writeJSON :: "body \<Rightarrow> http_response" where
  "writeJSON v = \<lparr>status = 200, rbody = v\<rparr>"

definition writeData :: "('a \<Rightarrow> body) \<Rightarrow> 'a tx \<Rightarrow> handler" where
  "writeData J m c = (case m c of (Inl _, c') \<Rightarrow> (statusOnly 400, c') | (Inr data, c') \<Rightarrow> (writeJSON (J data), c'))"

definition writeIDs :: "int list tx \<Rightarrow> handler" where
  "writeIDs m c = (case m c of (Inl _, c') \<Rightarrow> (statusOnly 400, c') | (Inr ids, c') \<Rightarrow> (writeJSON (JIDs ids), c'))"

definition writeOK :: "bool tx \<Rightarrow> handler" where
  "writeOK m c =
     (case m c of
        (Inl _, c') \<Rightarrow> (statusOnly 400, c')
      | (Inr ok, c') \<Rightarrow> (statusOnly (if ok then 200 else 400), c'))"

subsection \<open>Handlers\<close>

text \<open>\<^verbatim>\<open>POST /clients\<close> answers a failed creation with 500.\<close>

definition postClients :: "env \<Rightarrow> json \<Rightarrow> http_request \<Rightarrow> handler" where
  "postClients env j r =
     decodeBody (decNames j) r (\<lambda>names c.
       case svcCreateClientsWithRoles env names c of
         (Inl _, c') \<Rightarrow> (statusOnly 500, c')
       | (Inr clientIDs, c') \<Rightarrow> (writeJSON (JIDs clientIDs), c'))"

definition clientRoutes :: "env \<Rightarrow> json \<Rightarrow> http_request \<Rightarrow> (string \<times> handler) list" where
  "clientRoutes env j r =
     (case req_path r of
        [a] \<Rightarrow> if a = ''clients'' then
          [(''GET'', writeData JClients svcGetAllClients),
           (''POST'', postClients env j r)] else []
      | [a, i] \<Rightarrow> if a = ''clients'' then
          [(''GET'', pathID i (\<lambda>i. writeData JClient (svcGetClientByID i))),
           (''PATCH'', pathID i (\<lambda>i. decodeBody (decName j) r (\<lambda>name. writeOK (svcUpdateClientName i name)))),
           (''DELETE'', pathID i (\<lambda>i. writeIDs (svcDeleteClients env [i])))] else []
      | [a, i, b] \<Rightarrow>
          if a = ''clients'' \<and> b = ''roles'' then
            [(''GET'', pathID i (\<lambda>i. writeData JRoles (svcGetClientRoles i))),
             (''POST'', pathID i (\<lambda>i. decodeBody (decRoleIDs j) r (\<lambda>ids. writeIDs (svcAssignRolesToClients ids [i])))),
             (''DELETE'', pathID i (\<lambda>i. decodeBody (decRoleIDs j) r (\<lambda>ids. writeIDs (svcUnassignRolesToClients ids [i]))))]
          else if a = ''clients'' \<and> b = ''resources'' then
            [(''GET'', pathID i (\<lambda>i. writeData JResources (svcGetClientResources i)))]
          else []
      | [a, b, name, e] \<Rightarrow>
          if a = ''clients'' \<and> b = ''by-name'' \<and> e = ''roles'' then
            [(''POST'', decodeBody (decRoleNames j) r (\<lambda>ns. writeIDs (svcAssignRolesToClientByName name ns))),
             (''DELETE'', decodeBody (decRoleNames j) r (\<lambda>ns. writeIDs (svcUnassignRolesToClientByName name ns)))]
          else []
      | _ \<Rightarrow> [])"

definition roleRoutes :: "env \<Rightarrow> json \<Rightarrow> http_request \<Rightarrow> (string \<times> handler) list" where
  "roleRoutes env j r =
     (case req_path r of
        [a] \<Rightarrow> if a = ''roles'' then
          [(''GET'', writeData JRoles svcGetAllRoles),
           (''POST'', decodeBody (decNames j) r (\<lambda>names. writeIDs (svcUpsertRoles env names)))] else []
      | [a, i] \<Rightarrow> if a = ''roles'' then
          [(''GET'', pathID i (\<lambda>i. writeData JRole (svcGetRoleByID i))),
           (''PATCH'', pathID i (\<lambda>i. decodeBody (decName j) r (\<lambda>name. writeOK (svcUpdateRoleName i name)))),
           (''DELETE'', pathID i (\<lambda>i. writeIDs (svcDeleteRoles [i])))] else []
      | [a, i, b] \<Rightarrow> if a = ''roles'' \<and> b = ''resources'' then
          [(''POST'', pathID i (\<lambda>i. decodeBody (decResourceIDs j) r (\<lambda>ids. writeIDs (svcAssignResourcesToRoles ids [i])))),
           (''DELETE'', pathID i (\<lambda>i. decodeBody (decResourceIDs j) r (\<lambda>ids. writeIDs (svcUnassignResourcesToRoles ids [i]))))] else []
      | [a, b, name, e] \<Rightarrow> if a = ''roles'' \<and> b = ''by-name'' \<and> e = ''resources'' then
          [(''POST'', decodeBody (decResourceNames j) r (\<lambda>ns. writeIDs (svcAssignResourcesToRoleByName name ns))),
           (''DELETE'', decodeBody (decResourceNames j) r (\<lambda>ns. writeIDs (svcUnassignResourcesToRoleByName name ns)))] else []
      | _ \<Rightarrow> [])"

definition resourceRoutes :: "env \<Rightarrow> json \<Rightarrow> http_request \<Rightarrow> (string \<times> handler) list" where
  "resourceRoutes env j r =
     (case req_path r of
        [a] \<Rightarrow> if a = ''resources'' then
          [(''GET'', writeData JResources svcGetAllResources),
           (''POST'', decodeBody (decResources j) r (\<lambda>rs. writeIDs (svcUpsertResources env rs)))] else []
      | [a, i] \<Rightarrow> if a = ''resources'' then
          [(''GET'', pathID i (\<lambda>i. writeData JResource (svcGetResourceByID i))),
           (''PATCH'', pathID i (\<lambda>i. decodeBody (decName j) r (\<lambda>name. writeOK (svcUpdateResourceName i name)))),
           (''DELETE'', pathID i (\<lambda>i. writeIDs (svcDeleteResources [i])))] else []
      | _ \<Rightarrow> [])"

definition dhcpRoutes :: "env \<Rightarrow> json \<Rightarrow> http_request \<Rightarrow> (string \<times> handler) list" where
  "dhcpRoutes env j r =
     (if req_path r = [''dhcp''] then
        [(''GET'', writeData JRanges svcGetAllAvailableIPRanges),
         (''PUT'', decodeBody (decResetDHCP j) r (\<lambda>(a, b). writeOK (svcResetDHCP env a b)))] else [])"

text \<open>
  \<^verbatim>\<open>http.ServeMux\<close>: the handler of the pattern that matches method and path, where
  a \<^verbatim>\<open>GET\<close> pattern also serves \<^verbatim>\<open>HEAD\<close>; 405 when only the path matches, 404 otherwise.
\<close>

definition serve :: "env \<Rightarrow> json \<Rightarrow> http_request \<Rightarrow> handler" where
  "serve env j r c =
     (let routes = clientRoutes env j r @ roleRoutes env j r @ resourceRoutes env j r @ dhcpRoutes env j r;
          m = (if req_method r = ''HEAD'' then ''GET'' else req_method r)
      in if routes = [] then (statusOnly 404, c)
         else case map_of routes m of
                None \<Rightarrow> (statusOnly 405, c)
              | Some h \<Rightarrow> h c)"

lemmas svc_defs = svcGetAllClients_def svcGetClientByID_def svcCreateClientsWithRoles_def svcAssignRolesToClientByName_def
  svcUnassignRolesToClientByName_def svcUpsertClients_def svcAssignIPToClient_def svcDeleteClients_def
  svcUnassignRolesToClients_def svcAssignRolesToClients_def svcUpdateClientName_def svcGetClientRoles_def
  svcGetClientResources_def svcGetAllRoles_def svcGetRoleByID_def svcAssignResourcesToRoleByName_def
  svcUnassignResourcesToRoleByName_def svcAssignResourcesToRoles_def svcUnassignResourcesToRoles_def
  svcUpdateRoleName_def svcUpsertRoles_def svcDeleteRoles_def svcGetAllResources_def svcGetResourceByID_def
  svcUpsertResources_def svcUpdateResourceName_def svcDeleteResources_def svcGetAllAvailableIPRanges_def
  svcResetDHCP_def

subsection \<open>The contract of a handler\<close>

named_theorems handler_intros \<open>rules that show a handler keeps its contract\<close>

text \<open>
  A handler answers 200, 400 or 500; when it does not answer 200 the tables are
  unchanged; it keeps the schema.
\<close>

definition handler_ok :: "env \<Rightarrow> handler \<Rightarrow> bool" where
  "handler_ok env h \<longleftrightarrow> (\<forall>c resp c'. h c = (resp, c') \<longrightarrow> status resp \<in> {200, 400, 500} \<and>
     (status resp \<noteq> 200 \<longrightarrow> cn_db c' = cn_db c) \<and>
     (fresh_ids env \<longrightarrow> schema_inv (cn_db c) \<longrightarrow> schema_inv (cn_db c')))"

definition reads_only :: "handler \<Rightarrow> bool" where
  "reads_only h \<longleftrightarrow> (\<forall>c. cn_db (snd (h c)) = cn_db c)"

definition repo_ok :: "env \<Rightarrow> 'a tx \<Rightarrow> bool" where
  "repo_ok env m \<longleftrightarrow> atomic m \<and> (fresh_ids env \<longrightarrow> keeps schema_inv m)"

lemma repo_okI: "repo_op f \<Longrightarrow> f env = m \<Longrightarrow> repo_ok env m"
  unfolding repo_ok_def by (auto dest: repo_op.op_atomic repo_op.op_schema)

lemma repo_ok_readonly: "readonly m \<Longrightarrow> repo_ok env m"
  unfolding repo_ok_def atomic_def readonly_def keeps_def by (metis snd_conv)

lemma handler_ok_pathID [handler_intros]: "(\<And>i. handler_ok env (k i)) \<Longrightarrow> handler_ok env (pathID seg k)"
  by (auto simp: handler_ok_def pathID_def statusOnly_def split: option.splits)

lemma handler_ok_decodeBody [handler_intros]: "(\<And>v. handler_ok env (k v)) \<Longrightarrow> handler_ok env (decodeBody dec r k)"
  by (auto simp: handler_ok_def decodeBody_def statusOnly_def split: option.splits)

lemma handler_ok_writeData [handler_intros]: "repo_ok env m \<Longrightarrow> handler_ok env (writeData J m)"
  unfolding handler_ok_def writeData_def repo_ok_def atomic_def
  by (auto simp: statusOnly_def writeJSON_def split: prod.splits sum.splits dest: keepsD)

lemma handler_ok_writeIDs [handler_intros]: "repo_ok env m \<Longrightarrow> handler_ok env (writeIDs m)"
  unfolding handler_ok_def writeIDs_def repo_ok_def atomic_def
  by (auto simp: statusOnly_def writeJSON_def split: prod.splits sum.splits dest: keepsD)

definition truthful :: "bool tx \<Rightarrow> bool" where
  "truthful m \<longleftrightarrow> (\<forall>c b c'. m c = (Inr b, c') \<longrightarrow> b)"

lemma handler_ok_writeOK [handler_intros]: "repo_ok env m \<Longrightarrow> truthful m \<Longrightarrow> handler_ok env (writeOK m)"
  unfolding handler_ok_def writeOK_def repo_ok_def atomic_def truthful_def
  by (auto simp: statusOnly_def split: prod.splits sum.splits if_splits dest: keepsD)

lemma truthful_ops [handler_intros]:
  "truthful (UpdateClientName i n)" "truthful (UpdateRoleName i n)" "truthful (UpdateResourceName i n)"
  "truthful (ResetDHCP env a b)"
  unfolding truthful_def UpdateClientName_def UpdateRoleName_def UpdateResourceName_def ResetDHCP_def
  by (auto elim!: run_tx_InrE bind_InrE return_InrE)

lemma repo_ok_ops [handler_intros]:
  "repo_ok env (CreateClientsWithRoles env names)" "repo_ok env (DeleteClients env ids)"
  "repo_ok env (UpdateClientName i n)" "repo_ok env (UpdateRoleName i n)" "repo_ok env (UpdateResourceName i n)"
  "repo_ok env (ResetDHCP env a b)" "repo_ok env (UpsertRoles env names)" "repo_ok env (UpsertResources env rs)"
  "repo_ok env (DeleteRoles ids)" "repo_ok env (DeleteResources ids)"
  "repo_ok env (AssignRolesToClients ids ids')" "repo_ok env (UnassignRolesToClients ids ids')"
  "repo_ok env (AssignResourcesToRoles ids ids')" "repo_ok env (UnassignResourcesToRoles ids ids')"
  "repo_ok env (AssignRolesToClientByName n names)" "repo_ok env (UnassignRolesToClientByName n names)"
  "repo_ok env (AssignResourcesToRoleByName n names)" "repo_ok env (UnassignResourcesToRoleByName n names)"
  unfolding repo_ok_def
  by (simp_all add: createClients.op_atomic createClients.op_schema deleteClients.op_atomic deleteClients.op_schema
      updateClientName.op_atomic updateClientName.op_schema updateRoleName.op_atomic updateRoleName.op_schema
      updateResourceName.op_atomic updateResourceName.op_schema resetDHCP.op_atomic resetDHCP.op_schema
      upsertRoles.op_atomic upsertRoles.op_schema upsertResources.op_atomic upsertResources.op_schema
      deleteRoles.op_atomic deleteRoles.op_schema deleteResources.op_atomic deleteResources.op_schema
      assignRoles.op_atomic assignRoles.op_schema unassignRoles.op_atomic unassignRoles.op_schema
      assignResources.op_atomic assignResources.op_schema unassignResources.op_atomic unassignResources.op_schema
      assignRolesByName.op_atomic assignRolesByName.op_schema unassignRolesByName.op_atomic unassignRolesByName.op_schema
      assignResourcesByName.op_atomic assignResourcesByName.op_schema unassignResourcesByName.op_atomic
      unassignResourcesByName.op_schema)

lemma handler_ok_postClients [handler_intros]: "handler_ok env (postClients env j r)"
proof -
  have "repo_ok env (CreateClientsWithRoles env names)" for names by (rule repo_ok_ops)
  then show ?thesis unfolding postClients_def svc_defs
    by (intro handler_intros) (auto simp: handler_ok_def repo_ok_def atomic_def statusOnly_def writeJSON_def
        split: prod.splits sum.splits dest: keepsD)
qed

lemma reads_only_pathID: "(\<And>i. reads_only (k i)) \<Longrightarrow> reads_only (pathID seg k)"
  by (simp add: reads_only_def pathID_def split: option.splits)

lemma reads_only_writeData: "readonly m \<Longrightarrow> reads_only (writeData J m)"
  unfolding reads_only_def readonly_def writeData_def by (auto split: prod.split sum.split) (metis snd_conv)+

definition routes_ok :: "env \<Rightarrow> (string \<times> handler) list \<Rightarrow> bool" where
  "routes_ok env rs \<longleftrightarrow> (\<forall>(m, h) \<in> set rs. handler_ok env h \<and> (m = ''GET'' \<longrightarrow> reads_only h))"

lemma routes_ok_simps:
  "routes_ok env []"
  "routes_ok env ((m, h) # rs) \<longleftrightarrow> handler_ok env h \<and> (m = ''GET'' \<longrightarrow> reads_only h) \<and> routes_ok env rs"
  "routes_ok env (xs @ ys) \<longleftrightarrow> routes_ok env xs \<and> routes_ok env ys"
  by (auto simp: routes_ok_def)

lemmas route_intros = conjI impI handler_intros reads_only_pathID reads_only_writeData readonly_ops repo_ok_readonly

lemma client_routes_ok: "routes_ok env (clientRoutes env j r)"
  unfolding clientRoutes_def svc_defs
  by (auto split: list.splits if_splits simp: routes_ok_simps intro!: route_intros)

lemma other_routes_ok:
  "routes_ok env (roleRoutes env j r)" "routes_ok env (resourceRoutes env j r)" "routes_ok env (dhcpRoutes env j r)"
  unfolding roleRoutes_def resourceRoutes_def dhcpRoutes_def svc_defs
  by (auto split: list.splits if_splits prod.splits simp: routes_ok_simps intro!: route_intros)

lemma routes_ok_map_of:
  "routes_ok env rs \<Longrightarrow> map_of rs m = Some h \<Longrightarrow> handler_ok env h \<and> (m = ''GET'' \<longrightarrow> reads_only h)"
  unfolding routes_ok_def by (auto dest!: map_of_SomeD)

text \<open>
  C32: the management API. Every request gets an answer with a status of 200, 400,
  404, 405 or 500. A \<^verbatim>\<open>GET\<close> or \<^verbatim>\<open>HEAD\<close> changes no table, and neither does any request
  that is not answered with 200, whatever failed and whenever it failed. Tables
  that satisfy the schema satisfy it after every request.
\<close>

theorem management_contract:
  assumes "serve env j r c = (resp, c')"
  shows "status resp \<in> {200, 400, 404, 405, 500} \<and>
     (req_method r \<in> {''GET'', ''HEAD''} \<longrightarrow> cn_db c' = cn_db c) \<and>
     (status resp \<noteq> 200 \<longrightarrow> cn_db c' = cn_db c) \<and>
     (fresh_ids env \<longrightarrow> schema_inv (cn_db c) \<longrightarrow> schema_inv (cn_db c'))"
proof -
  define rs where "rs = clientRoutes env j r @ roleRoutes env j r @ resourceRoutes env j r @ dhcpRoutes env j r"
  let ?m = "if req_method r = ''HEAD'' then ''GET'' else req_method r"
  have ok: "routes_ok env rs" using client_routes_ok other_routes_ok by (simp add: rs_def routes_ok_simps)
  have sv: "serve env j r c = (if rs = [] then (statusOnly 404, c)
      else case map_of rs ?m of None \<Rightarrow> (statusOnly 405, c) | Some h \<Rightarrow> h c)"
    by (simp only: serve_def Let_def rs_def)
  show ?thesis
  proof (cases "rs = [] \<or> map_of rs ?m = None")
    case True
    then show ?thesis using assms by (auto simp: sv statusOnly_def split: if_splits option.splits)
  next
    case False
    then obtain h where h: "map_of rs ?m = Some h" by auto
    then have hc: "h c = (resp, c')" using assms False by (simp only: sv option.case) (simp split: if_splits)
    have hk: "handler_ok env h" and rd: "?m = ''GET'' \<longrightarrow> reads_only h" using routes_ok_map_of [OF ok h] by blast+
    from hk hc have "status resp \<in> {200, 400, 500} \<and> (status resp \<noteq> 200 \<longrightarrow> cn_db c' = cn_db c) \<and>
      (fresh_ids env \<longrightarrow> schema_inv (cn_db c) \<longrightarrow> schema_inv (cn_db c'))" unfolding handler_ok_def by blast
    moreover have "req_method r \<in> {''GET'', ''HEAD''} \<longrightarrow> cn_db c' = cn_db c"
      using rd hc by (auto simp: reads_only_def split: if_splits) (metis snd_conv)+
    ultimately show ?thesis by auto
  qed
qed

definition ex_json :: json where
  "ex_json = \<lparr>decNames = (\<lambda>s. Some [s]), decName = Some, decRoleIDs = (\<lambda>_. None), decRoleNames = (\<lambda>_. None),
     decResourceIDs = (\<lambda>_. None), decResourceNames = (\<lambda>_. None), decResources = (\<lambda>_. None),
     decResetDHCP = (\<lambda>_. Some (10, 20))\<rparr>"

definition ex_post :: http_request where
  "ex_post = \<lparr>req_method = ''POST'', req_path = [''clients''], req_body = ''ann''\<rparr>"

theorem management_contract_witness:
  "schema_inv (cn_db (snd (serve goEnv ex_json ex_post (ex_conn (empty_db 10 20))))) \<and>
   status (fst (serve goEnv ex_json ex_post (ex_conn (empty_db 10 20)))) = 200"
proof -
  obtain resp c' where s: "serve goEnv ex_json ex_post (ex_conn (empty_db 10 20)) = (resp, c')" by fastforce
  have i: "schema_inv (empty_db 10 20)" using empty_db_inv [OF goEnv_pool, of 10 20] by (simp add: pool_inv_def)
  have "CreateClientsWithRoles goEnv [''ann''] (ex_conn (empty_db 10 20)) = (Inr [1], ex_conn ex_created)"
    by (simp add: CreateClientsWithRoles_def allocateIP_def tx_eval stmt_eval empty_db_def ex_created_def goEnv_newid)
  then have "serve goEnv ex_json ex_post (ex_conn (empty_db 10 20)) = (writeJSON (JIDs [1]), ex_conn ex_created)"
    by (simp add: serve_def clientRoutes_def roleRoutes_def resourceRoutes_def dhcpRoutes_def ex_post_def ex_json_def
        postClients_def decodeBody_def svc_defs)
  then show ?thesis using management_contract [OF s] s i goEnv_fresh by (auto simp: writeJSON_def)
qed

end
