(* ===== verification/Config.thy ===== *)
theory Config
  imports Management Egress
begin

text \<open>
  Configuration and logging: the parser of \<^verbatim>\<open>config/config.go\<close>, its hot reload in
  \<^verbatim>\<open>config/watch.go\<close>, the typed readers of options (also \<^verbatim>\<open>ctxBool\<close> and \<^verbatim>\<open>ctxBoolDefault\<close> of
  \<^verbatim>\<open>main.go\<close>), the tuning knobs of \<^verbatim>\<open>utility/config.go\<close> and \<^verbatim>\<open>xdp/conn.go\<close>, the log levels of
  \<^verbatim>\<open>logger/logger.go\<close> and the switch of \<^verbatim>\<open>stats/stats.go\<close>. A context is the list of the pairs
  put into it, the latest first. White space is that of ASCII.
\<close>

subsection \<open>Log levels\<close>

datatype LogLevel = FATAL | ERROR | WARN | INFO | DEBUG | TRACE

fun levelNum :: "LogLevel \<Rightarrow> nat" where
  "levelNum FATAL = 0"
| "levelNum ERROR = 1"
| "levelNum WARN = 2"
| "levelNum INFO = 3"
| "levelNum DEBUG = 4"
| "levelNum TRACE = 5"

lemma levelNum_inj: "levelNum a = levelNum b \<longleftrightarrow> a = b"
  by (cases a; cases b) simp_all

instantiation LogLevel :: linorder
begin

definition less_eq_LogLevel :: "LogLevel \<Rightarrow> LogLevel \<Rightarrow> bool" where
  "less_eq_LogLevel a b = (levelNum a \<le> levelNum b)"

definition less_LogLevel :: "LogLevel \<Rightarrow> LogLevel \<Rightarrow> bool" where
  "less_LogLevel a b = (levelNum a < levelNum b)"

instance
  by standard (auto simp: less_eq_LogLevel_def less_LogLevel_def levelNum_inj)

end

definition toUpper :: "char \<Rightarrow> char" where
  "toUpper c = (let n = of_char c :: nat in if 97 \<le> n \<and> n \<le> 122 then char_of (n - 32) else c)"

definition ConvertStringToLogLevel :: "string \<Rightarrow> LogLevel" where
  "ConvertStringToLogLevel levelName =
     (let s = map toUpper levelName in
      if s = ''FATAL'' then FATAL else if s = ''ERROR'' then ERROR else if s = ''WARN'' then WARN
      else if s = ''INFO'' then INFO else if s = ''DEBUG'' then DEBUG else if s = ''TRACE'' then TRACE else INFO)"

text \<open>
  The process-wide settings: the level and path of the logger, the switch of the statistics, and
  whether the reporter of the statistics and its HTTP endpoint were started.
\<close>

record settings =
  lg_level :: LogLevel
  lg_path :: string
  st_enabled :: bool
  st_reporter :: bool

definition loggerInstance :: settings where
  "loggerInstance = \<lparr>lg_level = INFO, lg_path = ''log'', st_enabled = False, st_reporter = False\<rparr>"

definition UpdateLogLevelName :: "string \<Rightarrow> settings \<Rightarrow> settings" where
  "UpdateLogLevelName n s = s\<lparr>lg_level := ConvertStringToLogLevel n\<rparr>"

definition UpdateLogPath :: "string \<Rightarrow> settings \<Rightarrow> settings" where
  "UpdateLogPath p s = s\<lparr>lg_path := p\<rparr>"

definition ShouldLog :: "LogLevel \<Rightarrow> settings \<Rightarrow> bool" where
  "ShouldLog l s \<longleftrightarrow> lg_level s \<ge> l"

fun levelName :: "LogLevel \<Rightarrow> string" where
  "levelName FATAL = ''FATAL''"
| "levelName ERROR = ''ERROR''"
| "levelName WARN = ''WARN''"
| "levelName INFO = ''INFO''"
| "levelName DEBUG = ''DEBUG''"
| "levelName TRACE = ''TRACE''"

text \<open>What a call of the logger prints; \<^verbatim>\<open>Fatal\<close> also says whether the process exits.\<close>

definition logLine :: "LogLevel \<Rightarrow> string \<Rightarrow> string" where
  "logLine l msg = ''['' @ levelName l @ '']: '' @ msg"

definition Fatal :: "string \<Rightarrow> settings \<Rightarrow> string list \<times> bool" where
  "Fatal msg s = (if lg_level s \<ge> FATAL then ([logLine FATAL msg], True) else ([], False))"

definition Error :: "string \<Rightarrow> settings \<Rightarrow> string list" where
  "Error msg s = (if lg_level s \<ge> ERROR then [logLine ERROR msg] else [])"

definition Warn :: "string \<Rightarrow> settings \<Rightarrow> string list" where
  "Warn msg s = (if lg_level s \<ge> WARN then [logLine WARN msg] else [])"

definition Info :: "string \<Rightarrow> settings \<Rightarrow> string list" where
  "Info msg s = (if lg_level s \<ge> INFO then [logLine INFO msg] else [])"

definition Debug :: "string \<Rightarrow> settings \<Rightarrow> string list" where
  "Debug msg s = (if lg_level s \<ge> DEBUG then [logLine DEBUG msg] else [])"

definition Trace :: "string \<Rightarrow> settings \<Rightarrow> string list" where
  "Trace msg s = (if lg_level s \<ge> TRACE then [logLine TRACE msg] else [])"

definition Statistic :: "string \<Rightarrow> settings \<Rightarrow> string list" where
  "Statistic msg s = (if st_enabled s then [''[STATISTIC]: '' @ msg] else [])"

definition EnableStats :: "bool \<Rightarrow> settings \<Rightarrow> settings" where
  "EnableStats on s = s\<lparr>st_enabled := on\<rparr>"

subsection \<open>The file\<close>

definition isSpace :: "char \<Rightarrow> bool" where
  "isSpace c \<longleftrightarrow> c \<in> {CHR 0x09, CHR 0x0a, CHR 0x0b, CHR 0x0c, CHR 0x0d, CHR 0x20}"

definition trimSpace :: "string \<Rightarrow> string" where
  "trimSpace s = rev (dropWhile isSpace (rev (dropWhile isSpace s)))"

text \<open>
  \<^verbatim>\<open>bufio.Scanner\<close> with its default split function: a line may end with a carriage return,
  the last line need not end with a newline, and the scan stops at a line of 64 KiB.
\<close>

fun splitLines :: "string \<Rightarrow> string \<Rightarrow> string list" where
  "splitLines cur [] = (if cur = [] then [] else [cur])"
| "splitLines cur (c # s) = (if c = CHR 0x0a then cur # splitLines [] s else splitLines (cur @ [c]) s)"

definition dropCR :: "string \<Rightarrow> string" where
  "dropCR l = (if l \<noteq> [] \<and> last l = CHR 0x0d then butlast l else l)"

definition scanLines :: "string \<Rightarrow> string list" where
  "scanLines s = map dropCR (takeWhile (\<lambda>l. length l < 65536) (splitLines [] s))"

text \<open>\<^verbatim>\<open>strings.SplitN(line, "=", 2)\<close>, where a line without the sign has one part only.\<close>

fun splitEq :: "string \<Rightarrow> (string \<times> string) option" where
  "splitEq [] = None"
| "splitEq (c # s) = (if c = CHR ''='' then Some ([], s) else map_option (apfst ((#) c)) (splitEq s))"

definition parseLine :: "string \<Rightarrow> (string \<times> string) option" where
  "parseLine l =
     (let line = trimSpace l in
      if line = [] \<or> hd line = CHR ''#'' then None
      else case splitEq line of
             None \<Rightarrow> None
           | Some (k, v) \<Rightarrow> if trimSpace k = [] then None else Some (trimSpace k, trimSpace v))"

type_synonym confCtx = "(string \<times> string) list"

fun loadLines :: "string list \<Rightarrow> confCtx \<Rightarrow> confCtx" where
  "loadLines [] ctx = ctx"
| "loadLines (l # ls) ctx = loadLines ls (case parseLine l of None \<Rightarrow> ctx | Some kv \<Rightarrow> kv # ctx)"

definition LoadConf :: "string \<Rightarrow> confCtx" where
  "LoadConf file = loadLines (scanLines file) []"

text \<open>The reload has its own copy of the parser, which fills a map.\<close>

fun reloadLines :: "string list \<Rightarrow> (string \<rightharpoonup> string) \<Rightarrow> (string \<rightharpoonup> string)" where
  "reloadLines [] vals = vals"
| "reloadLines (l # ls) vals =
     reloadLines ls
       (let line = trimSpace l in
        if line = [] \<or> hd line = CHR ''#'' then vals
        else case splitEq line of
               None \<Rightarrow> vals
             | Some (k, v) \<Rightarrow> let key = trimSpace k in if key \<noteq> [] then vals(key \<mapsto> trimSpace v) else vals)"

subsection \<open>Options\<close>

definition ParseBool :: "string \<Rightarrow> bool option" where
  "ParseBool s =
     (if s \<in> {''1'', ''t'', ''T'', ''true'', ''TRUE'', ''True''} then Some True
      else if s \<in> {''0'', ''f'', ''F'', ''false'', ''FALSE'', ''False''} then Some False
      else None)"

definition confBool :: "confCtx \<Rightarrow> string \<Rightarrow> bool \<Rightarrow> bool" where
  "confBool ctx key dflt =
     (case map_of ctx key of
        Some v \<Rightarrow> if v \<noteq> [] then (case ParseBool v of Some b \<Rightarrow> b | None \<Rightarrow> dflt) else dflt
      | None \<Rightarrow> dflt)"

definition confInt :: "confCtx \<Rightarrow> string \<Rightarrow> int \<Rightarrow> int" where
  "confInt ctx key dflt =
     (case map_of ctx key of
        Some v \<Rightarrow> if v \<noteq> [] then (case parseInt64 v of Some n \<Rightarrow> n | None \<Rightarrow> dflt) else dflt
      | None \<Rightarrow> dflt)"

definition ctxBool :: "confCtx \<Rightarrow> string \<Rightarrow> bool" where
  "ctxBool ctx key = (case map_of ctx key of Some v \<Rightarrow> (case ParseBool v of Some b \<Rightarrow> b | None \<Rightarrow> False) | None \<Rightarrow> False)"

definition ctxBoolDefault :: "confCtx \<Rightarrow> string \<Rightarrow> bool \<Rightarrow> bool" where
  "ctxBoolDefault ctx key dflt = (case map_of ctx key of Some v \<Rightarrow> (case ParseBool v of Some b \<Rightarrow> b | None \<Rightarrow> dflt) | None \<Rightarrow> dflt)"

text \<open>
  Start-up reads \<^verbatim>\<open>LOG_LEVEL\<close>, whose absence is a panic, and \<^verbatim>\<open>ENABLE_STATISTIC\<close>; the reload
  applies the same two, when they are in the file. A file that cannot be opened changes nothing.
\<close>

definition mainLogger :: "string \<Rightarrow> confCtx \<Rightarrow> settings \<Rightarrow> settings option" where
  "mainLogger logPath ctx s =
     (case map_of ctx ''LOG_LEVEL'' of
        None \<Rightarrow> None
      | Some logLevel \<Rightarrow> Some (UpdateLogPath logPath (UpdateLogLevelName logLevel s)))"

definition postUpStats :: "confCtx \<Rightarrow> settings \<Rightarrow> settings" where
  "postUpStats ctx s =
     (let enableStatsStr = (case map_of ctx ''ENABLE_STATISTIC'' of Some v \<Rightarrow> v | None \<Rightarrow> []);
          enableStats = (case ParseBool enableStatsStr of Some b \<Rightarrow> b | None \<Rightarrow> False);
          s = EnableStats enableStats s
      in if enableStats then s\<lparr>st_reporter := True\<rparr> else s)"

definition bootSettings :: "string \<Rightarrow> string \<Rightarrow> settings option" where
  "bootSettings logPath file = map_option (postUpStats (LoadConf file)) (mainLogger logPath (LoadConf file) loggerInstance)"

definition reloadAndApply :: "string option \<Rightarrow> settings \<Rightarrow> settings" where
  "reloadAndApply f s =
     (case f of
        None \<Rightarrow> s
      | Some file \<Rightarrow>
          let vals = reloadLines (scanLines file) Map.empty;
              s = (case vals ''LOG_LEVEL'' of Some v \<Rightarrow> if v \<noteq> [] then UpdateLogLevelName v s else s | None \<Rightarrow> s)
          in case vals ''ENABLE_STATISTIC'' of
               Some v \<Rightarrow> EnableStats (case ParseBool v of Some b \<Rightarrow> b | None \<Rightarrow> False) s
             | None \<Rightarrow> s)"

subsection \<open>The watcher\<close>

text \<open>
  One read of the inotify descriptor: the loop over the events of the buffer. An event is
  16 bytes, its mask at offset 4 and the length of the name that follows it at offset 12,
  both little-endian.
\<close>

definition le32 :: "bytes \<Rightarrow> nat \<Rightarrow> u32" where
  "le32 b i = be32 (be16 (b ! (i + 3)) (b ! (i + 2))) (be16 (b ! (i + 1)) (b ! i))"

definition IN_CLOSE_WRITE :: u32 where "IN_CLOSE_WRITE = 0x8"
definition IN_MOVE_SELF :: u32 where "IN_MOVE_SELF = 0x800"
definition IN_DELETE_SELF :: u32 where "IN_DELETE_SELF = 0x400"
definition IN_IGNORED :: u32 where "IN_IGNORED = 0x8000"

function watchEvents :: "bytes \<Rightarrow> nat \<Rightarrow> nat \<Rightarrow> bool \<times> bool \<Rightarrow> bool \<times> bool" where
  "watchEvents b n off acc =
     (if off + 16 \<le> n then
        let mask = le32 b (off + 4); (changed, reArm) = acc;
            changed = (changed \<or> and mask IN_CLOSE_WRITE \<noteq> 0);
            reArm = (reArm \<or> and mask (or IN_IGNORED (or IN_MOVE_SELF IN_DELETE_SELF)) \<noteq> 0)
        in watchEvents b n (off + 16 + unat (le32 b (off + 12))) (changed, reArm)
      else acc)"
  by pat_completeness auto

termination
  by (relation "measure (\<lambda>(b, n, off, acc). n - off)") auto

text \<open>What the watcher does after a read: the number of watches it adds, and the settings.\<close>

definition watchRead :: "bytes \<Rightarrow> nat \<Rightarrow> string option \<Rightarrow> settings \<Rightarrow> nat \<times> settings" where
  "watchRead b n file s =
     (let (changed, reArm) = watchEvents b n 0 (False, False)
      in (if reArm then 1 else 0, if changed \<or> reArm then reloadAndApply file s else s))"

subsection \<open>Tuning knobs\<close>

definition gsoMaxSegs :: int where "gsoMaxSegs = 64"

record knobs =
  forwardAckViaSocket :: bool
  kn_mode :: fwdMode
  tunNoCoalesce :: bool
  tunMaxSegs :: int
  flushIdle :: int
  rxPollTimeoutMs :: int

text \<open>The values the packages start with.\<close>

definition packageKnobs :: knobs where
  "packageKnobs = \<lparr>forwardAckViaSocket = True,
     kn_mode = \<lparr>forwardViaVhost = False, forwardViaUring = False, forwardViaTun = False, forwardViaNapiTun = False, forwardViaPacket = False\<rparr>,
     tunNoCoalesce = False, tunMaxSegs = 64, flushIdle = 120000, rxPollTimeoutMs = 5\<rparr>"

text \<open>A duration is a 64-bit number of nanoseconds, and the multiplication wraps.\<close>

definition micros :: "int \<Rightarrow> int" where
  "micros us = sint (word_of_int (us * 1000) :: u64)"

definition LoadConfig :: "confCtx \<Rightarrow> knobs \<Rightarrow> knobs" where
  "LoadConfig ctx k =
     (let m = kn_mode k;
          k = k\<lparr>forwardAckViaSocket := confBool ctx ''FORWARD_ACK_VIA_SOCKET'' (forwardAckViaSocket k),
                kn_mode := m\<lparr>forwardViaPacket := confBool ctx ''FORWARD_KERNEL_TX'' (forwardViaPacket m),
                             forwardViaUring := confBool ctx ''FORWARD_TUN_URING'' (forwardViaUring m),
                             forwardViaNapiTun := confBool ctx ''FORWARD_TUN_NAPI'' (forwardViaNapiTun m)\<rparr>,
                tunNoCoalesce := confBool ctx ''FORWARD_TUN_NOCOALESCE'' (tunNoCoalesce k)\<rparr>;
          n = confInt ctx ''FORWARD_TUN_GSO_MAXSEGS'' (tunMaxSegs k);
          k = (if n \<ge> 1 \<and> n \<le> gsoMaxSegs then k\<lparr>tunMaxSegs := n\<rparr> else k);
          us = confInt ctx ''FORWARD_TUN_GSO_FLUSH_IDLE_US'' (flushIdle k div 1000)
      in if us > 0 then k\<lparr>flushIdle := micros us\<rparr> else k)"

definition xdpLoadConfig :: "confCtx \<Rightarrow> knobs \<Rightarrow> knobs" where
  "xdpLoadConfig ctx k =
     (let n = confInt ctx ''XDP_RX_POLL_MS'' (rxPollTimeoutMs k) in if n \<ge> 0 then k\<lparr>rxPollTimeoutMs := n\<rparr> else k)"

text \<open>The choice of the upload egress in \<^verbatim>\<open>main\<close>.\<close>

definition forwardModeOf :: "confCtx \<Rightarrow> knobs \<Rightarrow> knobs" where
  "forwardModeOf ctx k =
     (let forwardTunVhost = ctxBool ctx ''FORWARD_TUN_VHOST'';
          forwardTunGSO = ctxBoolDefault ctx ''FORWARD_TUN_GSO'' (\<not> forwardTunVhost)
      in k\<lparr>kn_mode := SetForwardMode forwardTunGSO forwardTunVhost (kn_mode k)\<rparr>)"

subsection \<open>Both parsers read the same options\<close>

text \<open>
  The contract of a parser of the file: \<open>view\<close> is the options it has collected as a map. Two parsers that
  honour it read the same options.
\<close>

definition applyLine :: "string \<Rightarrow> (string \<rightharpoonup> string) \<Rightarrow> (string \<rightharpoonup> string)" where
  "applyLine l vals = (case parseLine l of None \<Rightarrow> vals | Some (k, v) \<Rightarrow> vals(k \<mapsto> v))"

locale conf_parser =
  fixes load :: "string list \<Rightarrow> 'c \<Rightarrow> 'c" and view :: "'c \<Rightarrow> (string \<rightharpoonup> string)"
  assumes load_nil: "view (load [] c) = view c"
    and load_line: "\<exists>c'. load (l # ls) c = load ls c' \<and> view c' = applyLine l (view c)"
begin

lemma view_load: "view (load ls c) = fold applyLine ls (view c)"
proof (induction ls arbitrary: c)
  case Nil
  then show ?case by (simp add: load_nil)
next
  case (Cons l ls)
  obtain c' where c': "load (l # ls) c = load ls c'" "view c' = applyLine l (view c)" using load_line by blast
  then show ?case by (simp add: Cons.IH)
qed

end

interpretation boot_parser: conf_parser loadLines map_of
proof
  show "\<exists>c'. loadLines (l # ls) c = loadLines ls c' \<and> map_of c' = applyLine l (map_of c)" for l ls c
    by (rule exI [of _ "case parseLine l of None \<Rightarrow> c | Some kv \<Rightarrow> kv # c"])
      (auto simp: applyLine_def split: option.split)
qed simp

interpretation reload_parser: conf_parser reloadLines "\<lambda>vals. vals"
proof
  show "\<exists>c'. reloadLines (l # ls) c = reloadLines ls c' \<and> c' = applyLine l c" for l ls c
    by (auto simp: applyLine_def parseLine_def Let_def split: option.split prod.split)
qed simp

lemma reload_load: "reloadLines ls (map_of ctx) = map_of (loadLines ls ctx)"
  by (simp add: boot_parser.view_load reload_parser.view_load)

lemma reload_reads_conf: "reloadLines (scanLines file) Map.empty = map_of (LoadConf file)"
  using reload_load [of "scanLines file" "[]"] by (simp add: LoadConf_def)

lemmas settings_defs = UpdateLogLevelName_def UpdateLogPath_def EnableStats_def bootSettings_def mainLogger_def postUpStats_def

lemma reloadAndApply_conf:
  "reloadAndApply (Some file) s =
     (let ctx = LoadConf file;
          s = (case map_of ctx ''LOG_LEVEL'' of Some v \<Rightarrow> if v \<noteq> [] then UpdateLogLevelName v s else s | None \<Rightarrow> s)
      in case map_of ctx ''ENABLE_STATISTIC'' of Some v \<Rightarrow> EnableStats (ParseBool v = Some True) s | None \<Rightarrow> s)"
  by (auto simp: reloadAndApply_def reload_reads_conf Let_def split: option.split)

lemma boot_reload_same:
  assumes "bootSettings p file = Some s"
  shows "reloadAndApply (Some file) s = s"
  using assms by (auto simp: reloadAndApply_conf settings_defs Let_def split: option.splits if_splits)

lemma reload_is_restart:
  assumes "bootSettings p old = Some s" "bootSettings p file = Some s'"
    and "map_of (LoadConf file) ''LOG_LEVEL'' \<noteq> Some []" "map_of (LoadConf file) ''ENABLE_STATISTIC'' \<noteq> None"
  shows "reloadAndApply (Some file) s = s'\<lparr>st_reporter := st_reporter s\<rparr>"
proof -
  obtain l v where o: "map_of (LoadConf file) ''LOG_LEVEL'' = Some l" "map_of (LoadConf file) ''ENABLE_STATISTIC'' = Some v" "l \<noteq> []"
    using assms(2-4) by (auto simp: settings_defs split: option.splits)
  have "lg_path s = p" using assms(1) by (auto simp: settings_defs Let_def split: option.splits)
  then show ?thesis using assms(2) o by (cases s) (auto simp: reloadAndApply_conf settings_defs loggerInstance_def Let_def split: option.splits)
qed

subsection \<open>What is written is read\<close>

text \<open>A key and a value that survive the trimming, and the line that holds them.\<close>

definition isTrimmed :: "string \<Rightarrow> bool" where
  "isTrimmed s \<longleftrightarrow> s = [] \<or> \<not> isSpace (hd s) \<and> \<not> isSpace (last s)"

definition confLine :: "string \<times> string \<Rightarrow> string" where
  "confLine kv = fst kv @ ''='' @ snd kv"

definition confOk :: "string \<times> string \<Rightarrow> bool" where
  "confOk kv \<longleftrightarrow> fst kv \<noteq> [] \<and> isTrimmed (fst kv) \<and> isTrimmed (snd kv) \<and> hd (fst kv) \<noteq> CHR ''#'' \<and>
     CHR ''='' \<notin> set (fst kv) \<and> CHR 0x0a \<notin> set (fst kv) \<and> CHR 0x0a \<notin> set (snd kv) \<and>
     length (confLine kv) < 65536"

lemma trimSpace_id: "isTrimmed s \<Longrightarrow> trimSpace s = s"
proof (cases "s = []")
  case False
  assume "isTrimmed s"
  then have h: "\<not> isSpace (hd s)" "\<not> isSpace (hd (rev s))" using False by (simp_all add: isTrimmed_def hd_rev)
  have "dropWhile isSpace t = t" if "t \<noteq> []" "\<not> isSpace (hd t)" for t using that by (cases t) auto
  then show ?thesis using h False by (simp add: trimSpace_def)
qed (simp add: trimSpace_def)

lemma trimSpace_trimmed: "isTrimmed (trimSpace s)"
proof -
  have hd: "x \<noteq> [] \<Longrightarrow> x = dropWhile isSpace y \<Longrightarrow> \<not> isSpace (hd x)" for x y
    using hd_dropWhile by blast
  define d where "d = dropWhile isSpace s"
  define e where "e = dropWhile isSpace (rev d)"
  have t: "trimSpace s = rev e" by (simp add: trimSpace_def d_def e_def)
  show ?thesis
  proof (cases "e = []")
    case True
    then show ?thesis by (simp add: t isTrimmed_def)
  next
    case False
    have l: "\<not> isSpace (last (rev e))" using hd [OF False, of "rev d"] by (simp add: e_def last_rev)
    have "last e = hd d"
      using False unfolding e_def by (metis dropWhile_eq_Nil_conv last_ConsR last_appendR last_rev rev_is_Nil_conv takeWhile_dropWhile_id)
    moreover have "d \<noteq> []" using False by (auto simp: e_def)
    ultimately have "\<not> isSpace (hd (rev e))" using hd [of d s] by (simp add: d_def hd_rev)
    then show ?thesis using l by (simp add: t isTrimmed_def)
  qed
qed

lemma splitEq_line: "CHR ''='' \<notin> set k \<Longrightarrow> splitEq (k @ CHR ''='' # v) = Some (k, v)"
  by (induction k) auto

lemma confLine_trimmed: "confOk kv \<Longrightarrow> isTrimmed (confLine kv)"
  by (cases "snd kv") (auto simp: confOk_def confLine_def isTrimmed_def isSpace_def)

lemma parseLine_confLine:
  assumes "confOk kv"
  shows "parseLine (confLine kv) = Some kv"
proof -
  have ne: "confLine kv \<noteq> []" by (simp add: confLine_def)
  have hd: "hd (confLine kv) \<noteq> CHR ''#''" using assms by (simp add: confOk_def confLine_def)
  have sp: "splitEq (confLine kv) = Some kv" using assms by (simp add: confOk_def confLine_def splitEq_line)
  have tr: "trimSpace (fst kv) = fst kv" "trimSpace (snd kv) = snd kv" "fst kv \<noteq> []"
    using assms by (simp_all add: confOk_def trimSpace_id)
  show ?thesis
    using ne hd sp tr trimSpace_id [OF confLine_trimmed [OF assms]]
    by (cases kv) (simp add: parseLine_def Let_def)
qed

lemma splitLines_line: "CHR 0x0a \<notin> set l \<Longrightarrow> splitLines cur (l @ CHR 0x0a # s) = (cur @ l) # splitLines [] s"
  by (induction l arbitrary: cur) auto

lemma confOk_line: "confOk kv \<Longrightarrow> CHR 0x0a \<notin> set (confLine kv) \<and> length (confLine kv) < 65536 \<and> dropCR (confLine kv) = confLine kv"
  using confLine_trimmed [of kv] by (auto simp: confOk_def confLine_def dropCR_def isTrimmed_def isSpace_def)

lemma scanLines_conf:
  "\<forall>kv\<in>set kvs. confOk kv \<Longrightarrow> scanLines (concat (map (\<lambda>kv. confLine kv @ [CHR 0x0a]) kvs)) = map confLine kvs"
  by (induction kvs) (auto simp: scanLines_def splitLines_line confOk_line)

lemma loadLines_conf: "\<forall>kv\<in>set kvs. confOk kv \<Longrightarrow> loadLines (map confLine kvs) ctx = rev kvs @ ctx"
  by (induction kvs arbitrary: ctx) (auto simp: parseLine_confLine)

lemma parseLine_keys: "parseLine l = Some (k, v) \<Longrightarrow> k \<noteq> [] \<and> isTrimmed k \<and> isTrimmed v"
  by (auto simp: parseLine_def Let_def trimSpace_trimmed split: if_splits option.splits)

lemma loadLines_trimmed:
  "\<forall>(k, v)\<in>set ctx. k \<noteq> [] \<and> isTrimmed k \<and> isTrimmed v \<Longrightarrow> (k, v) \<in> set (loadLines ls ctx) \<Longrightarrow>
     k \<noteq> [] \<and> isTrimmed k \<and> isTrimmed v"
proof (induction ls arbitrary: ctx)
  case Nil
  then show ?case by auto
next
  case (Cons l ls)
  show ?case
    by (rule Cons.IH [OF _ Cons.prems(2) [unfolded loadLines.simps]])
      (use Cons.prems(1) parseLine_keys [of l] in \<open>auto split: option.splits\<close>)
qed

subsection \<open>The knobs\<close>

lemma confBool_ctxBoolDefault: "confBool ctx key d = ctxBoolDefault ctx key d"
  by (auto simp: confBool_def ctxBoolDefault_def ParseBool_def split: option.split)

lemma confInt_dflt: "confInt ctx key d \<noteq> d \<Longrightarrow> \<exists>v. map_of ctx key = Some v \<and> parseInt64 v = Some (confInt ctx key d)"
  by (auto simp: confInt_def split: option.splits if_splits)

lemma micros_exact: "0 \<le> us \<Longrightarrow> us \<le> 9223372036854775 \<Longrightarrow> micros us = us * 1000"
  unfolding micros_def by (subst signed_of_int) (simp add: signed_take_bit_int_eq_self)

text \<open>The knobs a worker runs with: what the package starts from, and what \<^verbatim>\<open>LoadConfig\<close> keeps.\<close>

definition knobsOk :: "knobs \<Rightarrow> bool" where
  "knobsOk k \<longleftrightarrow> 1 \<le> tunMaxSegs k \<and> tunMaxSegs k \<le> gsoMaxSegs \<and> rxPollTimeoutMs k \<ge> 0"

lemma LoadConfig_ok: "knobsOk k \<Longrightarrow> knobsOk (LoadConfig ctx k)"
  by (simp add: knobsOk_def LoadConfig_def Let_def)

lemma xdpLoadConfig_ok: "knobsOk k \<Longrightarrow> knobsOk (xdpLoadConfig ctx k)"
  by (simp add: knobsOk_def xdpLoadConfig_def Let_def)

lemma LoadConfig_flushIdle:
  assumes "confInt ctx ''FORWARD_TUN_GSO_FLUSH_IDLE_US'' (flushIdle k div 1000) \<le> 9223372036854775" "0 < flushIdle k"
  shows "0 < flushIdle (LoadConfig ctx k)"
  using assms by (simp add: LoadConfig_def Let_def micros_exact)



definition exConfLines :: "(string \<times> string) list" where
  "exConfLines = [(''LOG_LEVEL'', ''debug''), (''ENABLE_STATISTIC'', ''1''), (''LOG_LEVEL'', ''warn'')]"

definition confFile :: "(string \<times> string) list \<Rightarrow> string" where
  "confFile kvs = concat (map (\<lambda>kv. confLine kv @ [CHR 0x0a]) kvs)"

lemma LoadConf_confFile: "\<forall>kv\<in>set kvs. confOk kv \<Longrightarrow> LoadConf (confFile kvs) = rev kvs"
  by (simp add: LoadConf_def confFile_def scanLines_conf loadLines_conf)

lemma exConf_ok: "\<forall>kv\<in>set exConfLines. confOk kv"
  by (simp add: exConfLines_def confOk_def confLine_def isTrimmed_def isSpace_def)

lemma warn_level: "ConvertStringToLogLevel ''warn'' = WARN"
  by code_simp

lemma exConf_boot: "bootSettings ''log'' (confFile exConfLines) = Some \<lparr>lg_level = WARN, lg_path = ''log'', st_enabled = True, st_reporter = True\<rparr>"
  using LoadConf_confFile [OF exConf_ok]
  by (simp add: bootSettings_def exConfLines_def settings_defs ParseBool_def warn_level loggerInstance_def Let_def)


text \<open>
  What is written into the configuration file is read from it. Lines of the form
  \<open>key=value\<close>, for keys and values without white space at their ends (the values may be empty or contain
  an equals sign), are read back in order, so that the last line of a key decides; and
  whatever the file, no key that is read is empty and no key or value has white space at its ends.
\<close>

theorem config_round_trip:
  assumes "\<forall>kv\<in>set kvs. confOk kv" "(k, v) \<in> set (LoadConf file)"
  shows "LoadConf (confFile kvs) = rev kvs \<and> k \<noteq> [] \<and> isTrimmed k \<and> isTrimmed v"
  using LoadConf_confFile [OF assms(1)] loadLines_trimmed [of "[]" k v "scanLines file"] assms(2) by (simp add: LoadConf_def)

theorem config_round_trip_witness:
  "LoadConf (confFile exConfLines) = rev exConfLines \<and> isTrimmed ''LOG_LEVEL'' \<and> isTrimmed ''warn''"
  using config_round_trip [OF exConf_ok, of "''LOG_LEVEL''" "''warn''" "confFile exConfLines"] LoadConf_confFile [OF exConf_ok]
  by (simp add: exConfLines_def)

text \<open>
  The configuration cannot put a worker out of its bounds. From knobs within them, whatever the file says,
  the segments of a super-frame stay between 1 and 64, so that a batch fits its buffers, and the poll
  timeout is not negative; and the idle time of the flush stays positive for every option of
  at most 9223372036854775 microseconds, beyond which the multiplication wraps.
\<close>

theorem config_knobs_bounded:
  assumes "knobsOk k" "0 < flushIdle k" "k' = xdpLoadConfig ctx (LoadConfig ctx k)"
  shows "1 \<le> tunMaxSegs k' \<and> tunMaxSegs k' \<le> 64 \<and> 0 \<le> rxPollTimeoutMs k' \<and>
    (confInt ctx ''FORWARD_TUN_GSO_FLUSH_IDLE_US'' 1 \<le> 9223372036854775 \<longrightarrow> flushIdle k \<le> 9223372036854775807 \<longrightarrow> 0 < flushIdle k')"
proof (intro conjI impI)
  have k': "knobsOk k'" using LoadConfig_ok [OF assms(1)] xdpLoadConfig_ok assms(3) by simp
  then show "1 \<le> tunMaxSegs k'" "tunMaxSegs k' \<le> 64" "0 \<le> rxPollTimeoutMs k'" by (simp_all add: knobsOk_def gsoMaxSegs_def)
  assume b: "confInt ctx ''FORWARD_TUN_GSO_FLUSH_IDLE_US'' 1 \<le> 9223372036854775" "flushIdle k \<le> 9223372036854775807"
  have "confInt ctx ''FORWARD_TUN_GSO_FLUSH_IDLE_US'' (flushIdle k div 1000) \<le> 9223372036854775"
    using b by (auto simp: confInt_def split: option.splits if_splits)
  then show "0 < flushIdle k'" using LoadConfig_flushIdle [OF _ assms(2)] assms(3) by (simp add: xdpLoadConfig_def Let_def)
qed

theorem config_knobs_bounded_witness:
  "1 \<le> tunMaxSegs (xdpLoadConfig [(''FORWARD_TUN_GSO_MAXSEGS'', ''65'')] (LoadConfig [(''FORWARD_TUN_GSO_MAXSEGS'', ''65'')] packageKnobs)) \<and>
   0 < flushIdle (xdpLoadConfig [(''FORWARD_TUN_GSO_MAXSEGS'', ''65'')] (LoadConfig [(''FORWARD_TUN_GSO_MAXSEGS'', ''65'')] packageKnobs))"
  using config_knobs_bounded [OF _ _ refl, of packageKnobs "[(''FORWARD_TUN_GSO_MAXSEGS'', ''65'')]"]
  by (simp add: knobsOk_def packageKnobs_def gsoMaxSegs_def confInt_def)

subsection \<open>The choice of the egress\<close>

text \<open>The mode a worker runs with, after both loaders and the switch of \<^verbatim>\<open>main\<close>, from the values the packages start with.\<close>

definition bootMode :: "confCtx \<Rightarrow> fwdMode" where
  "bootMode ctx = kn_mode (forwardModeOf ctx (xdpLoadConfig ctx (LoadConfig ctx packageKnobs)))"

lemma ctxBoolDefault_False: "ctxBoolDefault ctx key False = ctxBool ctx key"
  by (simp add: ctxBoolDefault_def ctxBool_def)

lemma kn_mode_LoadConfig:
  "kn_mode (LoadConfig ctx k) = (kn_mode k)\<lparr>forwardViaPacket := ctxBoolDefault ctx ''FORWARD_KERNEL_TX'' (forwardViaPacket (kn_mode k)),
     forwardViaUring := ctxBoolDefault ctx ''FORWARD_TUN_URING'' (forwardViaUring (kn_mode k)),
     forwardViaNapiTun := ctxBoolDefault ctx ''FORWARD_TUN_NAPI'' (forwardViaNapiTun (kn_mode k))\<rparr>"
  by (simp add: LoadConfig_def Let_def confBool_ctxBoolDefault)

lemma kn_mode_xdpLoadConfig: "kn_mode (xdpLoadConfig ctx k) = kn_mode k"
  by (simp add: xdpLoadConfig_def Let_def)

lemma bootMode_simps:
  "forwardViaVhost (bootMode ctx) = ctxBool ctx ''FORWARD_TUN_VHOST''"
  "forwardViaTun (bootMode ctx) = ctxBoolDefault ctx ''FORWARD_TUN_GSO'' (\<not> ctxBool ctx ''FORWARD_TUN_VHOST'')"
  "forwardViaUring (bootMode ctx) = ctxBool ctx ''FORWARD_TUN_URING''"
  "forwardViaNapiTun (bootMode ctx) = ctxBool ctx ''FORWARD_TUN_NAPI''"
  "forwardViaPacket (bootMode ctx) = ctxBool ctx ''FORWARD_KERNEL_TX''"
  by (simp_all add: bootMode_def forwardModeOf_def SetForwardMode_def kn_mode_xdpLoadConfig kn_mode_LoadConfig Let_def
      ctxBoolDefault_False packageKnobs_def)

lemma ctxBool_absent: "map_of ctx key = None \<Longrightarrow> \<not> ctxBool ctx key \<and> ctxBoolDefault ctx key d = d"
  by (simp add: ctxBool_def ctxBoolDefault_def)

text \<open>
  The switches of two egresses have no effect of their own. When neither \<^verbatim>\<open>FORWARD_TUN_GSO\<close> nor
  \<^verbatim>\<open>FORWARD_TUN_VHOST\<close> is in the file, an upload worker uses the io_uring egress or the GSO
  one, whatever \<^verbatim>\<open>FORWARD_TUN_NAPI\<close> and \<^verbatim>\<open>FORWARD_KERNEL_TX\<close> say; the transmit pumps of AF_XDP
  are used exactly when all five are off.
\<close>

theorem config_egress_choice:
  assumes "map_of ctx ''FORWARD_TUN_GSO'' = None" "map_of ctx ''FORWARD_TUN_VHOST'' = None"
  shows "selectAlt (bootMode ctx) = Some (if ctxBool ctx ''FORWARD_TUN_URING'' then TunUring else TunGSO)"
  using assms by (simp add: selectAlt_def bootMode_simps ctxBool_absent)

theorem config_egress_choice_witness:
  "selectAlt (bootMode [(''FORWARD_TUN_NAPI'', ''true''), (''FORWARD_KERNEL_TX'', ''1'')]) = Some TunGSO"
  using config_egress_choice [of "[(''FORWARD_TUN_NAPI'', ''true''), (''FORWARD_KERNEL_TX'', ''1'')]"]
  by (simp add: ctxBool_def)

lemma default_pump_egress:
  "selectAlt (bootMode ctx) = None \<longleftrightarrow>
     \<not> ctxBool ctx ''FORWARD_TUN_VHOST'' \<and> \<not> ctxBool ctx ''FORWARD_TUN_URING'' \<and> \<not> ctxBoolDefault ctx ''FORWARD_TUN_GSO'' True \<and>
     \<not> ctxBool ctx ''FORWARD_TUN_NAPI'' \<and> \<not> ctxBool ctx ''FORWARD_KERNEL_TX''"
  by (simp add: selectAlt_def bootMode_simps)

subsection \<open>What is logged\<close>

text \<open>
  A message of a level is printed exactly when a guard with \<^verbatim>\<open>ShouldLog\<close> lets it through, a fatal one always and
  then the process exits; after a lower level is set, nothing more is printed than before.
\<close>

theorem log_threshold:
  "Fatal msg s = ([logLine FATAL msg], True) \<and>
   Error msg s = (if ShouldLog ERROR s then [logLine ERROR msg] else []) \<and> Warn msg s = (if ShouldLog WARN s then [logLine WARN msg] else []) \<and>
   Info msg s = (if ShouldLog INFO s then [logLine INFO msg] else []) \<and> Debug msg s = (if ShouldLog DEBUG s then [logLine DEBUG msg] else []) \<and>
   Trace msg s = (if ShouldLog TRACE s then [logLine TRACE msg] else [])"
  by (simp add: Fatal_def Error_def Warn_def Info_def Debug_def Trace_def ShouldLog_def less_eq_LogLevel_def)

lemma ShouldLog_mono: "lg_level s \<le> lg_level s' \<Longrightarrow> ShouldLog l s \<Longrightarrow> ShouldLog l s'"
  unfolding ShouldLog_def by (rule order.trans)

subsection \<open>The watcher misses no write\<close>

text \<open>The kernel's layout of an event: its watch, mask, cookie and the length of its name, then the name.\<close>

record inotifyEvent =
  ev_wd :: u32
  ev_mask :: u32
  ev_cookie :: u32
  ev_name :: bytes

definition putLe32 :: "u32 \<Rightarrow> bytes" where
  "putLe32 w = [lo8 (lo16 w), hi8 (lo16 w), lo8 (hi16 w), hi8 (hi16 w)]"

definition encEvent :: "inotifyEvent \<Rightarrow> bytes" where
  "encEvent ev = putLe32 (ev_wd ev) @ putLe32 (ev_mask ev) @ putLe32 (ev_cookie ev) @ putLe32 (of_nat (length (ev_name ev))) @ ev_name ev"

definition reArms :: u32 where
  "reArms = or IN_IGNORED (or IN_MOVE_SELF IN_DELETE_SELF)"

lemma le32_put: "i = length xs \<Longrightarrow> le32 (xs @ putLe32 w @ ys) i = w"
  by (simp add: le32_def putLe32_def nth_append)

lemma length_putLe32 [simp]: "length (putLe32 w) = 4"
  by (simp add: putLe32_def)

lemma le32_event:
  "le32 (pre @ encEvent ev @ rest) (length pre + 4) = ev_mask ev"
  "le32 (pre @ encEvent ev @ rest) (length pre + 12) = of_nat (length (ev_name ev))"
  using le32_put [of "length pre + 4" "pre @ putLe32 (ev_wd ev)" "ev_mask ev"]
    le32_put [of "length pre + 12" "pre @ putLe32 (ev_wd ev) @ putLe32 (ev_mask ev) @ putLe32 (ev_cookie ev)" "of_nat (length (ev_name ev))"]
  by (simp_all add: encEvent_def)

lemma watchEvents_step:
  assumes "length (ev_name ev) < 2 ^ 32"
  shows "watchEvents (pre @ encEvent ev @ rest) (length (pre @ encEvent ev @ rest)) (length pre) (c, r) =
    watchEvents ((pre @ encEvent ev) @ rest) (length ((pre @ encEvent ev) @ rest)) (length (pre @ encEvent ev))
      (c \<or> and (ev_mask ev) IN_CLOSE_WRITE \<noteq> 0, r \<or> and (ev_mask ev) reArms \<noteq> 0)"
proof -
  have l: "length (encEvent ev) = 16 + length (ev_name ev)" by (simp add: encEvent_def)
  have u: "unat (of_nat (length (ev_name ev)) :: u32) = length (ev_name ev)"
    by (rule unat_of_nat_small) (use assms in simp)
  show ?thesis
    by (subst watchEvents.simps) (simp add: l le32_event u Let_def reArms_def)
qed

lemma watchEvents_all:
  "\<forall>ev\<in>set evs. length (ev_name ev) < 2 ^ 32 \<Longrightarrow>
   watchEvents (pre @ concat (map encEvent evs)) (length (pre @ concat (map encEvent evs))) (length pre) (c, r) =
     (c \<or> (\<exists>ev\<in>set evs. and (ev_mask ev) IN_CLOSE_WRITE \<noteq> 0), r \<or> (\<exists>ev\<in>set evs. and (ev_mask ev) reArms \<noteq> 0))"
proof (induction evs arbitrary: pre c r)
  case Nil
  then show ?case by (simp add: watchEvents.simps)
next
  case (Cons ev evs)
  have e: "pre @ concat (map encEvent (ev # evs)) = pre @ encEvent ev @ concat (map encEvent evs)" by simp
  have "length (ev_name ev) < 2 ^ 32" and evs: "\<forall>ev\<in>set evs. length (ev_name ev) < 2 ^ 32" using Cons.prems by simp_all
  note st = watchEvents_step [OF this(1), of pre "concat (map encEvent evs)" c r]
  show ?case
    unfolding e st Cons.IH [OF evs] by auto
qed

text \<open>
  No write of the configuration file is missed. When a read of the descriptor returns the
  events \<open>evs\<close>, the loop over the buffer sees each of them: the file is applied exactly when one of
  them is a close after writing or says that the file was replaced, and the watch is added
  again exactly in the second case. A file that cannot be opened then changes nothing.
\<close>

theorem config_watch_applies:
  assumes "\<forall>ev\<in>set evs. length (ev_name ev) < 2 ^ 32" "b = concat (map encEvent evs)"
  shows "watchRead b (length b) file s =
    (if \<exists>ev\<in>set evs. and (ev_mask ev) reArms \<noteq> 0 then 1 else 0,
     if \<exists>ev\<in>set evs. and (ev_mask ev) IN_CLOSE_WRITE \<noteq> 0 \<or> and (ev_mask ev) reArms \<noteq> 0 then reloadAndApply file s else s) \<and>
    reloadAndApply None s = s"
  using watchEvents_all [OF assms(1), of "[]" False False] assms(2) by (auto simp: watchRead_def reloadAndApply_def)

theorem config_watch_applies_witness:
  "watchRead (encEvent \<lparr>ev_wd = 1, ev_mask = 8, ev_cookie = 0, ev_name = []\<rparr>)
     (length (encEvent \<lparr>ev_wd = 1, ev_mask = 8, ev_cookie = 0, ev_name = []\<rparr>)) (Some (confFile exConfLines)) loggerInstance =
   (0, reloadAndApply (Some (confFile exConfLines)) loggerInstance)"
  using config_watch_applies [OF _ refl, of "[\<lparr>ev_wd = 1, ev_mask = 8, ev_cookie = 0, ev_name = []\<rparr>]" "Some (confFile exConfLines)" loggerInstance]
  by (simp add: IN_CLOSE_WRITE_def reArms_def IN_IGNORED_def IN_MOVE_SELF_def IN_DELETE_SELF_def)

end
