(* ===== verification/Nics.thy ===== *)
theory Nics
  imports Config XdpConn Forward
begin

text \<open>
  The network interfaces: which of them are real (\<^verbatim>\<open>xdp/nics.go\<close>), their queues and channels
  (\<^verbatim>\<open>xdp/queues.go\<close>, \<^verbatim>\<open>xdp/channels.go\<close>), the next hop behind them (\<^verbatim>\<open>xdp/arp.go\<close>), the
  attachment of the XDP program (\<^verbatim>\<open>xdp/loader.go\<close>), the sockets of a connection
  (\<^verbatim>\<open>NewConn\<close> of \<^verbatim>\<open>xdp/conn.go\<close>) and the helpers of \<^verbatim>\<open>main.go\<close> that read addresses.
  What the kernel, \<^verbatim>\<open>ethtool\<close> and the BPF loader answer is the record \<open>host\<close>.
\<close>

subsection \<open>The host\<close>

record ifAddr =
  ia_IP :: bytes
  ia_ones :: nat

record link =
  lk_Name :: string
  lk_Index :: nat
  lk_MTU :: int
  lk_Up :: bool
  lk_HardwareAddr :: mac
  lk_Addrs :: "ifAddr list option"

record route =
  rt_Gw :: "bytes option"
  rt_LinkIndex :: nat
  rt_Dst :: "(nat \<times> nat) option"

datatype XDPMode = XDPModeNative | XDPModeGeneric

datatype sockFlags = XDP_COPY | XDP_ZEROCOPY

text \<open>
  \<open>LinkList\<close> is netlink's view, \<open>Interfaces\<close> the one of package net; \<open>ethtool_i\<close>, \<open>ethtool_l\<close> and \<open>ethtool_L\<close> are
  the three uses of the command. \<open>Neighs t i\<close> is the neighbour table of interface \<open>i\<close> at the
  \<open>t\<close>-th time it is read, and \<open>NewSocket\<close> whether a queue can be bound with the flags.
\<close>

record host =
  LinkList :: "link list option"
  Interfaces :: "link list option"
  ethtool_i :: "string \<Rightarrow> string option"
  sysDevice :: "string \<Rightarrow> bool"
  ethtool_l :: "string \<Rightarrow> string option"
  ethtool_L :: "string \<Rightarrow> int \<Rightarrow> bool"
  rxDirs :: "string \<Rightarrow> nat option"
  txDirs :: "string \<Rightarrow> nat option"
  Routes :: "route list option"
  Neighs :: "nat \<Rightarrow> nat \<Rightarrow> (bytes \<times> mac) list option"
  DialUDP :: "bytes \<Rightarrow> bool"
  LoadSpec :: bool
  SharedNat :: bool
  LoadObjs :: "string \<Rightarrow> bool"
  AttachXDP :: "string \<Rightarrow> XDPMode \<Rightarrow> bool"
  NewSocket :: "string \<Rightarrow> nat \<Rightarrow> sockFlags \<Rightarrow> bool"
  QuicMapUpdate :: "string \<Rightarrow> nat \<Rightarrow> bool"
  FwdMapUpdate :: "string \<Rightarrow> nat \<Rightarrow> bool"

definition LinkByName :: "host \<Rightarrow> string \<Rightarrow> link option" where
  "LinkByName h name = (case LinkList h of None \<Rightarrow> None | Some ls \<Rightarrow> List.find (\<lambda>l. lk_Name l = name) ls)"

definition InterfaceByName :: "host \<Rightarrow> string \<Rightarrow> link option" where
  "InterfaceByName h name = (case Interfaces h of None \<Rightarrow> None | Some ls \<Rightarrow> List.find (\<lambda>l. lk_Name l = name) ls)"

subsection \<open>Real interfaces\<close>

definition hasPrefix :: "string \<Rightarrow> string \<Rightarrow> bool" where
  "hasPrefix p s \<longleftrightarrow> take (length p) s = p"

text \<open>\<^verbatim>\<open>strings.Split(s, "\n")\<close>, which has a part after the last separator.\<close>

fun splitNL :: "string \<Rightarrow> string list" where
  "splitNL [] = [[]]"
| "splitNL (c # s) =
     (if c = CHR 0x0a then [] # splitNL s
      else case splitNL s of [] \<Rightarrow> [[c]] | l # ls \<Rightarrow> (c # l) # ls)"

fun busInfo :: "string list \<Rightarrow> bool" where
  "busInfo [] = False"
| "busInfo (l # ls) =
     (let line = trimSpace l in
      if hasPrefix ''bus-info:'' line
      then let bus = trimSpace (drop (length ''bus-info:'') line)
           in bus \<noteq> [] \<and> bus \<noteq> ''N/A'' \<and> bus \<noteq> ''tap''
      else busInfo ls)"

definition IsRealNIC :: "host \<Rightarrow> string \<Rightarrow> bool" where
  "IsRealNIC h name = (case ethtool_i h name of None \<Rightarrow> sysDevice h name | Some out \<Rightarrow> busInfo (splitNL out))"

definition DetectRealNICs :: "host \<Rightarrow> string list option" where
  "DetectRealNICs h =
     map_option (\<lambda>ifaces. map lk_Name (filter (\<lambda>ifc.
         \<not> (lk_Name ifc = ''lo'' \<or> hasPrefix ''tm'' (lk_Name ifc)) \<and> lk_Up ifc \<and> IsRealNIC h (lk_Name ifc)) ifaces))
       (Interfaces h)"

subsection \<open>Queues and channels\<close>

record QueueInfo =
  RX :: nat
  TX :: nat

definition GetQueueInfo :: "host \<Rightarrow> string \<Rightarrow> QueueInfo option" where
  "GetQueueInfo h ifaceName =
     (case rxDirs h ifaceName of
        None \<Rightarrow> None
      | Some rx \<Rightarrow>
          (case txDirs h ifaceName of
             None \<Rightarrow> None
           | Some tx \<Rightarrow> Some \<lparr>RX = (if rx = 0 then 1 else rx), TX = (if tx = 0 then 1 else tx)\<rparr>))"

record ChannelInfo =
  MaxCombined :: int
  CurrentCombined :: int

text \<open>
  All matches of \<^verbatim>\<open>(?m)^Combined:\s+(\d+)\<close>, leftmost first, as the text of their group; \<open>bol\<close> says
  that the text starts a line.
\<close>

definition reSpace :: "char \<Rightarrow> bool" where
  "reSpace c \<longleftrightarrow> c \<in> {CHR 0x09, CHR 0x0a, CHR 0x0c, CHR 0x0d, CHR 0x20}"

definition matchCombined :: "string \<Rightarrow> (string \<times> string) option" where
  "matchCombined s =
     (if hasPrefix ''Combined:'' s then
        let r = drop (length ''Combined:'') s; d = dropWhile reSpace r; num = takeWhile isDigit d
        in if d = r \<or> num = [] then None else Some (num, dropWhile isDigit d)
      else None)"

lemma matchCombined_less: "matchCombined s = Some (num, r) \<Longrightarrow> length r < length s"
proof -
  assume m: "matchCombined s = Some (num, r)"
  have "length (dropWhile P xs) \<le> length xs" for P and xs :: string by (rule length_dropWhile_le)
  then have "length (dropWhile isDigit (dropWhile reSpace (drop 9 s))) \<le> length (drop 9 s)" by (meson order_trans)
  moreover have "hasPrefix ''Combined:'' s" "r = dropWhile isDigit (dropWhile reSpace (drop 9 s))"
    using m by (auto simp: matchCombined_def Let_def eval_nat_numeral split: if_splits)
  moreover from this(1) have "s \<noteq> []" by (auto simp: hasPrefix_def)
  ultimately show ?thesis by (cases s) simp_all
qed

function reCombined :: "bool \<Rightarrow> string \<Rightarrow> string list" where
  "reCombined bol [] = []"
| "reCombined bol (c # s) =
     (case (if bol then matchCombined (c # s) else None) of
        Some (num, r) \<Rightarrow> num # reCombined False r
      | None \<Rightarrow> reCombined (c = CHR 0x0a) s)"
  by pat_completeness auto

termination
  by (relation "measure (length \<circ> snd)") (auto split: if_splits dest: matchCombined_less)

definition parseEthtoolChannels :: "string \<Rightarrow> ChannelInfo option" where
  "parseEthtoolChannels s =
     (case reCombined True s of
        m0 # m1 # _ \<Rightarrow>
          (case parseInt64 m0 of
             None \<Rightarrow> None
           | Some maxC \<Rightarrow>
               (case parseInt64 m1 of
                  None \<Rightarrow> None
                | Some curC \<Rightarrow> Some \<lparr>MaxCombined = maxC, CurrentCombined = curC\<rparr>))
      | _ \<Rightarrow> None)"

definition GetChannels :: "host \<Rightarrow> string \<Rightarrow> ChannelInfo option" where
  "GetChannels h iface = (case ethtool_l h iface of None \<Rightarrow> None | Some out \<Rightarrow> parseEthtoolChannels out)"

text \<open>The count, and whether an error came with it.\<close>

definition MaximizeChannels :: "host \<Rightarrow> string \<Rightarrow> int \<times> bool" where
  "MaximizeChannels h iface =
     (case GetChannels h iface of
        None \<Rightarrow> (1, True)
      | Some info \<Rightarrow>
          if MaxCombined info \<le> 1 then (max (CurrentCombined info) 1, False)
          else if CurrentCombined info \<ge> MaxCombined info then (CurrentCombined info, False)
          else if \<not> ethtool_L h iface (MaxCombined info) then (CurrentCombined info, True)
          else (MaxCombined info, False))"

definition maximizeChannelsFor :: "host \<Rightarrow> confCtx \<Rightarrow> string \<Rightarrow> int" where
  "maximizeChannelsFor h ctx ifaceName =
     (let finalCombined =
            (if map_of ctx ''MAXIMIZE_CHANNELS'' = None \<or> ctxBool ctx ''MAXIMIZE_CHANNELS''
             then fst (MaximizeChannels h ifaceName)
             else case GetChannels h ifaceName of Some ci \<Rightarrow> CurrentCombined ci | None \<Rightarrow> 1)
      in if finalCombined < 1 then 1 else finalCombined)"

subsection \<open>Addresses\<close>

definition IsLinkLocalUnicast :: "bytes \<Rightarrow> bool" where
  "IsLinkLocalUnicast a =
     (let a = Unmap a in
      if length a = 4 then a ! 0 = 169 \<and> a ! 1 = 254
      else a ! 0 = 0xfe \<and> and (a ! 1) 0xc0 = 0x80)"

definition usableAddr :: "ifAddr \<Rightarrow> bool" where
  "usableAddr a = (case AddrFromSlice (ia_IP a) of None \<Rightarrow> False | Some ip \<Rightarrow> \<not> IsLinkLocalUnicast ip)"

definition firstIPv4 :: "host \<Rightarrow> string \<Rightarrow> bytes option" where
  "firstIPv4 h ifaceName =
     (case LinkByName h ifaceName of
        None \<Rightarrow> None
      | Some l \<Rightarrow>
          (case lk_Addrs l of
             None \<Rightarrow> None
           | Some addrs \<Rightarrow> map_option (\<lambda>a. Unmap (ia_IP a)) (List.find usableAddr addrs)))"

definition resolveIfaceIP :: "link \<Rightarrow> bytes option" where
  "resolveIfaceIP iface =
     (case lk_Addrs iface of
        None \<Rightarrow> None
      | Some addrs \<Rightarrow>
          map_option (\<lambda>a. To4 (ia_IP a)) (List.find (\<lambda>a. To4 (ia_IP a) \<noteq> [] \<and> To4 (ia_IP a) ! 0 \<noteq> 127) addrs))"

text \<open>The subnets of the other interfaces, as masked prefixes.\<close>

definition maskedPrefix :: "bytes \<Rightarrow> nat \<Rightarrow> prefix" where
  "maskedPrefix ip ones = (push_bit (32 - ones) (drop_bit (32 - ones) (get32 ip 0)), ones)"

fun addrLANs :: "ifAddr list \<Rightarrow> prefix list" where
  "addrLANs [] = []"
| "addrLANs (a # as) = (if To4 (ia_IP a) = [] then addrLANs as else maskedPrefix (To4 (ia_IP a)) (ia_ones a) # addrLANs as)"

fun linkLANs :: "string \<Rightarrow> link list \<Rightarrow> prefix list" where
  "linkLANs wanIface [] = []"
| "linkLANs wanIface (l # ls) =
     (if lk_Name l = wanIface \<or> lk_Name l = ''lo'' \<or> hasPrefix ''tm'' (lk_Name l) then linkLANs wanIface ls
      else case lk_Addrs l of
             None \<Rightarrow> linkLANs wanIface ls
           | Some addrs \<Rightarrow> addrLANs addrs @ linkLANs wanIface ls)"

definition buildLocalLANs :: "host \<Rightarrow> string \<Rightarrow> prefix list" where
  "buildLocalLANs h wanIface = (case LinkList h of None \<Rightarrow> [] | Some links \<Rightarrow> linkLANs wanIface links)"

subsection \<open>The next hop\<close>

fun findGateway :: "nat \<Rightarrow> route list \<Rightarrow> bytes option" where
  "findGateway i [] = None"
| "findGateway i (r # rs) =
     (case rt_Gw r of
        None \<Rightarrow> findGateway i rs
      | Some gw \<Rightarrow>
          if rt_LinkIndex r \<noteq> i then findGateway i rs
          else (case rt_Dst r of
                  None \<Rightarrow> Some gw
                | Some (ones, bits) \<Rightarrow> if ones = 0 \<and> bits = 32 then Some gw else findGateway i rs))"

definition gatewayIPForIface :: "host \<Rightarrow> nat \<Rightarrow> unit + bytes option" where
  "gatewayIPForIface h ifaceIndex = (case Routes h of None \<Rightarrow> Inl () | Some rs \<Rightarrow> Inr (findGateway ifaceIndex rs))"

definition lookupNeighbourMAC :: "host \<Rightarrow> nat \<Rightarrow> nat \<Rightarrow> bytes \<Rightarrow> mac option" where
  "lookupNeighbourMAC h t ifaceIndex ip =
     (case Neighs h t ifaceIndex of
        None \<Rightarrow> None
      | Some neighs \<Rightarrow> map_option snd (List.find (\<lambda>n. Unmap (fst n) = Unmap ip \<and> snd n \<noteq> []) neighs))"

text \<open>The five attempts after the probe; the first argument counts the reads of the table.\<close>

fun retryNeighbour :: "host \<Rightarrow> nat \<Rightarrow> nat \<Rightarrow> nat \<Rightarrow> bytes \<Rightarrow> mac option" where
  "retryNeighbour h t 0 i ip = None"
| "retryNeighbour h t (Suc k) i ip =
     (case lookupNeighbourMAC h t i ip of Some mac \<Rightarrow> Some mac | None \<Rightarrow> retryNeighbour h (Suc t) k i ip)"

datatype nicError = NoGatewayList | ProbeFailed | ArpTimeout | NoIfaceIP | BindFailed nat | QuicMapFailed nat | FwdMapFailed nat

definition resolveNextHopMAC :: "host \<Rightarrow> nat \<Rightarrow> nicError + mac" where
  "resolveNextHopMAC h ifaceIndex =
     (case gatewayIPForIface h ifaceIndex of
        Inl _ \<Rightarrow> Inl NoGatewayList
      | Inr None \<Rightarrow> Inr []
      | Inr (Some gwIP) \<Rightarrow>
          (case lookupNeighbourMAC h 0 ifaceIndex gwIP of
             Some mac \<Rightarrow> Inr mac
           | None \<Rightarrow>
               if \<not> DialUDP h gwIP then Inl ProbeFailed
               else case retryNeighbour h 1 5 ifaceIndex gwIP of Some mac \<Rightarrow> Inr mac | None \<Rightarrow> Inl ArpTimeout))"

subsection \<open>Attaching the program\<close>

record Loader =
  ld_mode :: XDPMode
  ld_iface :: link

definition loadOne :: "host \<Rightarrow> string \<Rightarrow> Loader option" where
  "loadOne h ifaceName =
     (case InterfaceByName h ifaceName of
        None \<Rightarrow> None
      | Some iface \<Rightarrow>
          if \<not> LoadObjs h ifaceName then None
          else if AttachXDP h ifaceName XDPModeNative then Some \<lparr>ld_mode = XDPModeNative, ld_iface = iface\<rparr>
          else if \<not> AttachXDP h ifaceName XDPModeGeneric then None
          else Some \<lparr>ld_mode = XDPModeGeneric, ld_iface = iface\<rparr>)"

definition LoadMultiNIC :: "host \<Rightarrow> string list \<Rightarrow> Loader list option" where
  "LoadMultiNIC h ifaceNames =
     (if \<not> LoadSpec h then None
      else if \<not> SharedNat h then None
      else let loaders = List.map_filter (loadOne h) ifaceNames in if loaders = [] then None else Some loaders)"

definition LoadXDP :: "host \<Rightarrow> string \<Rightarrow> Loader option" where
  "LoadXDP h ifaceName = map_option hd (LoadMultiNIC h [ifaceName])"

subsection \<open>The sockets of a connection\<close>

text \<open>
  The sockets of an interface: the queues bound, the queues registered in the two maps, and the
  flags of the next bind. Closing a socket takes it out of both maps.
\<close>

record xskState =
  xs_open :: "nat list"
  xs_quic :: "nat list"
  xs_fwd :: "nat list"
  xs_flags :: sockFlags

definition closeSocket :: "nat \<Rightarrow> xskState \<Rightarrow> xskState" where
  "closeSocket i x = x\<lparr>xs_open := removeAll i (xs_open x), xs_quic := removeAll i (xs_quic x), xs_fwd := removeAll i (xs_fwd x)\<rparr>"

definition closeSockets :: "nat list \<Rightarrow> xskState \<Rightarrow> xskState" where
  "closeSockets qs x = fold closeSocket qs x"

definition registerQueue :: "host \<Rightarrow> string \<Rightarrow> bool \<Rightarrow> nat \<Rightarrow> xskState \<Rightarrow> nicError option \<times> xskState" where
  "registerQueue h name quicViaKernel i x =
     (let x = x\<lparr>xs_open := i # xs_open x\<rparr>;
          x' = (if quicViaKernel then x else x\<lparr>xs_quic := i # xs_quic x\<rparr>)
      in if \<not> quicViaKernel \<and> \<not> QuicMapUpdate h name i then (Some (QuicMapFailed i), closeSockets [0..<i] (closeSocket i x))
         else if \<not> FwdMapUpdate h name i then (Some (FwdMapFailed i), closeSockets [0..<i] (closeSocket i x'))
         else (None, x'\<lparr>xs_fwd := i # xs_fwd x'\<rparr>))"

fun bindQueues :: "host \<Rightarrow> string \<Rightarrow> bool \<Rightarrow> bool \<Rightarrow> nat \<Rightarrow> nat \<Rightarrow> xskState \<Rightarrow> nicError option \<times> xskState" where
  "bindQueues h name quicViaKernel zeroCopy 0 i x = (None, x)"
| "bindQueues h name quicViaKernel zeroCopy (Suc k) i x =
     (let ok = NewSocket h name i (xs_flags x);
          fallBack = (\<not> ok \<and> zeroCopy \<and> i = 0);
          x = (if fallBack then x\<lparr>xs_flags := XDP_COPY\<rparr> else x);
          ok = (if fallBack then NewSocket h name i (xs_flags x) else ok)
      in if \<not> ok then (Some (BindFailed i), closeSockets [0..<i] x)
         else case registerQueue h name quicViaKernel i x of
                (Some err, x) \<Rightarrow> (Some err, x)
              | (None, x) \<Rightarrow> bindQueues h name quicViaKernel (zeroCopy \<and> \<not> fallBack) k (Suc i) x)"

definition NewConn :: "host \<Rightarrow> link \<Rightarrow> udpAddr \<Rightarrow> nat \<Rightarrow> XDPMode \<Rightarrow> bool \<Rightarrow> xskState \<Rightarrow> (nicError + 's Conn) \<times> xskState" where
  "NewConn h iface localAddr numQueues mode quicViaKernel x =
     (let unspec = (ua_IP localAddr = [] \<or> list_all (\<lambda>b. b = 0) (Unmap (ua_IP localAddr))) in
      case (if unspec then resolveIfaceIP iface else Some (ua_IP localAddr)) of
        None \<Rightarrow> (Inl NoIfaceIP, x)
      | Some ip \<Rightarrow>
          (case resolveNextHopMAC h (lk_Index iface) of
             Inl err \<Rightarrow> (Inl err, x)
           | Inr gwMAC \<Rightarrow>
               let x = x\<lparr>xs_flags := (if mode = XDPModeGeneric then XDP_COPY else XDP_ZEROCOPY)\<rparr>
               in case bindQueues h (lk_Name iface) quicViaKernel (mode \<noteq> XDPModeGeneric) numQueues 0 x of
                    (Some err, x) \<Rightarrow> (Inl err, x)
                  | (None, x) \<Rightarrow> (Inr (newConn numQueues \<lparr>ua_IP = ip, ua_Port = ua_Port localAddr\<rparr> (lk_HardwareAddr iface) gwMAC), x)))"

subsection \<open>Bounds of the counts\<close>

lemma find_in_set: "List.find P xs = Some x \<Longrightarrow> x \<in> set xs \<and> P x"
  by (auto simp: find_Some_iff)

lemma GetQueueInfo_pos: "GetQueueInfo h n = Some q \<Longrightarrow> 1 \<le> RX q \<and> 1 \<le> TX q"
  by (auto simp: GetQueueInfo_def split: option.splits)

lemma maximizeChannelsFor_pos: "1 \<le> maximizeChannelsFor h ctx n"
  by (simp add: maximizeChannelsFor_def Let_def)

lemma maximizeChannelsFor_max:
  assumes "GetChannels h n = Some ci" "map_of ctx ''MAXIMIZE_CHANNELS'' = None" "1 \<le> MaxCombined ci" "CurrentCombined ci \<le> MaxCombined ci"
    and "ethtool_L h n (MaxCombined ci)"
  shows "maximizeChannelsFor h ctx n = MaxCombined ci"
  using assms by (auto simp: maximizeChannelsFor_def MaximizeChannels_def Let_def)

subsection \<open>Sockets are all bound or all released\<close>

lemma closeSockets_simps:
  "xs_open (closeSockets qs x) = filter (\<lambda>i. i \<notin> set qs) (xs_open x)"
  "xs_quic (closeSockets qs x) = filter (\<lambda>i. i \<notin> set qs) (xs_quic x)"
  "xs_fwd (closeSockets qs x) = filter (\<lambda>i. i \<notin> set qs) (xs_fwd x)"
  unfolding closeSockets_def
  by (induction qs arbitrary: x)
    (auto simp: closeSocket_def removeAll_filter_not_eq filter_filter intro!: filter_cong)

definition xsAt :: "bool \<Rightarrow> nat \<Rightarrow> xskState \<Rightarrow> bool" where
  "xsAt k i x \<longleftrightarrow> xs_open x = rev [0..<i] \<and> xs_quic x = (if k then [] else rev [0..<i]) \<and> xs_fwd x = rev [0..<i]"

definition xsNone :: "xskState \<Rightarrow> bool" where
  "xsNone x \<longleftrightarrow> xs_open x = [] \<and> xs_quic x = [] \<and> xs_fwd x = []"

lemma closeSockets_none:
  assumes "set (xs_open x) \<subseteq> {0..<i}" "set (xs_quic x) \<subseteq> {0..<i}" "set (xs_fwd x) \<subseteq> {0..<i}"
  shows "xsNone (closeSockets [0..<i] x)"
  using assms by (auto simp: xsNone_def closeSockets_simps filter_empty_conv)

lemma registerQueue_cases:
  assumes "xsAt k i x" "registerQueue h name k i x = (r, x')"
  shows "(r = None \<longrightarrow> xsAt k (Suc i) x' \<and> xs_flags x' = xs_flags x) \<and> (r \<noteq> None \<longrightarrow> xsNone x')"
proof -
  have none: "xsNone (closeSockets [0..<i] (closeSocket i y))"
    if "set (xs_open y) \<subseteq> {0..<Suc i}" "set (xs_quic y) \<subseteq> {0..<Suc i}" "set (xs_fwd y) \<subseteq> {0..<Suc i}" for y
    by (rule closeSockets_none) (use that in \<open>auto simp: closeSocket_def less_Suc_eq\<close>)
  show ?thesis
    using assms by (auto simp: registerQueue_def Let_def xsAt_def split: if_splits intro!: none)
qed

lemma bindQueues_cases:
  assumes "xsAt k i x" "bindQueues h name k z n i x = (r, x')"
  shows "(r = None \<longrightarrow> xsAt k (i + n) x') \<and> (r \<noteq> None \<longrightarrow> xsNone x')"
  using assms
proof (induction n arbitrary: i x z)
  case 0
  then show ?case by simp
next
  case (Suc n)
  define fb where "fb = (\<not> NewSocket h name i (xs_flags x) \<and> z \<and> i = 0)"
  define y where "y = (if fb then x\<lparr>xs_flags := XDP_COPY\<rparr> else x)"
  define ok where "ok = (if fb then NewSocket h name i (xs_flags y) else NewSocket h name i (xs_flags x))"
  have y: "xsAt k i y" using Suc.prems(1) by (simp add: y_def xsAt_def)
  have b: "bindQueues h name k z (Suc n) i x =
      (if \<not> ok then (Some (BindFailed i), closeSockets [0..<i] y)
       else case registerQueue h name k i y of (Some err, x) \<Rightarrow> (Some err, x) | (None, x) \<Rightarrow> bindQueues h name k (z \<and> \<not> fb) n (Suc i) x)"
    by (simp only: bindQueues.simps Let_def fb_def y_def ok_def)
  obtain q y' where q: "registerQueue h name k i y = (q, y')" by fastforce
  note rq = registerQueue_cases [OF y q]
  show ?case
  proof (cases ok)
    case False
    then have "r \<noteq> None" "x' = closeSockets [0..<i] y" using Suc.prems(2) b by simp_all
    then show ?thesis using closeSockets_none [of y i] y by (auto simp: xsAt_def split: if_splits)
  next
    case True
    show ?thesis
    proof (cases q)
      case None
      then show ?thesis using Suc.IH [of "Suc i" y'] rq Suc.prems(2) b q True by simp
    next
      case (Some e)
      then show ?thesis using rq Suc.prems(2) b q True by simp
    qed
  qed
qed

lemma NewConn_cases:
  assumes "xsNone x" "NewConn h iface la n mode k x = (r, x')"
  shows "(\<forall>c. r = Inr c \<longrightarrow> xsAt k n x' \<and> length (c_txPumps c) = n \<and> length (c_quicShards c) = n \<and> c_srcMAC c = lk_HardwareAddr iface) \<and>
    (\<forall>e. r = Inl e \<longrightarrow> xsNone x')"
proof -
  have s: "xsAt k 0 (x\<lparr>xs_flags := f\<rparr>)" for f using assms(1) by (simp add: xsAt_def xsNone_def)
  show ?thesis
    using assms bindQueues_cases [OF s]
    by (auto simp: NewConn_def newConn_def Let_def split: option.splits sum.splits prod.splits if_splits)
qed

text \<open>
  C21: The sockets of an interface are bound all or not at all. When \<^verbatim>\<open>NewConn\<close> returns a
  connection, every queue has a socket, registered for return traffic and, unless QUIC runs on the
  kernel's UDP, for QUIC; the connection has a transmit pump and a shard per queue. When it
  fails, at whatever queue and in whatever step, no socket stays open and neither map keeps an entry.
\<close>

theorem new_conn_all_or_nothing:
  assumes "xsNone x" "NewConn h iface la n mode k x = (r, x')"
  shows "case r of
      Inr c \<Rightarrow> set (xs_open x') = {0..<n} \<and> set (xs_fwd x') = {0..<n} \<and> set (xs_quic x') = (if k then {} else {0..<n}) \<and>
        length (c_txPumps c) = n \<and> length (c_quicShards c) = n
    | Inl e \<Rightarrow> xs_open x' = [] \<and> xs_quic x' = [] \<and> xs_fwd x' = []"
  using NewConn_cases [OF assms] by (cases r) (auto simp: xsAt_def xsNone_def)

subsection \<open>Next hops\<close>

lemma lookupNeighbourMAC_sound:
  assumes "lookupNeighbourMAC h t i ip = Some mac"
  shows "mac \<noteq> [] \<and> (\<exists>ns a. Neighs h t i = Some ns \<and> (a, mac) \<in> set ns \<and> Unmap a = Unmap ip)"
  using assms by (fastforce simp: lookupNeighbourMAC_def split: option.splits dest: find_in_set)

lemma retryNeighbour_sound:
  "retryNeighbour h t k i ip = Some mac \<Longrightarrow> \<exists>t'. t \<le> t' \<and> t' < t + k \<and> lookupNeighbourMAC h t' i ip = Some mac"
proof (induction k arbitrary: t)
  case 0
  then show ?case by simp
next
  case (Suc k)
  show ?case
  proof (cases "lookupNeighbourMAC h t i ip")
    case None
    then show ?thesis using Suc.IH [of "Suc t"] Suc.prems by (metis add_Suc_right add_Suc_shift Suc_leD option.simps(4) retryNeighbour.simps(2))
  next
    case (Some m)
    then show ?thesis using Suc.prems by auto
  qed
qed

lemma findGateway_sound:
  "findGateway i rs = Some gw \<Longrightarrow> \<exists>r\<in>set rs. rt_Gw r = Some gw \<and> rt_LinkIndex r = i \<and> (rt_Dst r = None \<or> rt_Dst r = Some (0, 32))"
  by (induction rs) (auto split: option.splits if_splits)

lemma findGateway_none:
  "findGateway i rs = None \<Longrightarrow> \<forall>r\<in>set rs. rt_Gw r \<noteq> None \<and> rt_LinkIndex r = i \<longrightarrow> rt_Dst r \<noteq> None \<and> rt_Dst r \<noteq> Some (0, 32)"
  by (induction rs) (auto split: option.splits if_splits)

text \<open>A default route of an interface with a gateway.\<close>

definition defaultVia :: "nat \<Rightarrow> bytes \<Rightarrow> route \<Rightarrow> bool" where
  "defaultVia i gw r \<longleftrightarrow> rt_Gw r = Some gw \<and> rt_LinkIndex r = i \<and> (rt_Dst r = None \<or> rt_Dst r = Some (0, 32))"

lemma resolveNextHopMAC_gateway:
  assumes "resolveNextHopMAC h i = Inr mac" "mac \<noteq> []"
  shows "\<exists>rs r gw t ns a. Routes h = Some rs \<and> r \<in> set rs \<and> defaultVia i gw r \<and> t \<le> 5 \<and> Neighs h t i = Some ns \<and>
    (a, mac) \<in> set ns \<and> Unmap a = Unmap gw"
proof -
  obtain rs gw where g: "Routes h = Some rs" "findGateway i rs = Some gw"
    using assms by (auto simp: resolveNextHopMAC_def gatewayIPForIface_def split: option.splits sum.splits)
  have "\<exists>t\<le>5. lookupNeighbourMAC h t i gw = Some mac"
  proof (cases "lookupNeighbourMAC h 0 i gw")
    case None
    then have "retryNeighbour h 1 5 i gw = Some mac"
      using assms g by (auto simp: resolveNextHopMAC_def gatewayIPForIface_def split: option.splits if_splits)
    from retryNeighbour_sound [OF this] obtain t where "t < 1 + 5" "lookupNeighbourMAC h t i gw = Some mac" by blast
    then show ?thesis by (intro exI [of _ t]) simp
  next
    case (Some m)
    then show ?thesis using assms(1) g by (auto simp: resolveNextHopMAC_def gatewayIPForIface_def)
  qed
  then obtain t where t: "t \<le> 5" "lookupNeighbourMAC h t i gw = Some mac" by blast
  obtain r where "r \<in> set rs" "defaultVia i gw r" using findGateway_sound [OF g(2)] by (auto simp: defaultVia_def)
  then show ?thesis using g(1) t(1) lookupNeighbourMAC_sound [OF t(2)] by blast
qed

lemma resolveNextHopMAC_onlink:
  "resolveNextHopMAC h i = Inr [] \<longleftrightarrow> (\<exists>rs. Routes h = Some rs \<and> (\<forall>r\<in>set rs. \<forall>gw. \<not> defaultVia i gw r))"
proof
  assume a: "resolveNextHopMAC h i = Inr []"
  then obtain rs where rs: "Routes h = Some rs" by (auto simp: resolveNextHopMAC_def gatewayIPForIface_def split: option.splits)
  have "findGateway i rs = None"
  proof (rule ccontr)
    assume "findGateway i rs \<noteq> None"
    then obtain gw where "findGateway i rs = Some gw" by blast
    then show False
      using a rs lookupNeighbourMAC_sound retryNeighbour_sound
      by (fastforce simp: resolveNextHopMAC_def gatewayIPForIface_def split: option.splits if_splits)
  qed
  then show "\<exists>rs. Routes h = Some rs \<and> (\<forall>r\<in>set rs. \<forall>gw. \<not> defaultVia i gw r)"
    using rs findGateway_none by (fastforce simp: defaultVia_def)
next
  assume "\<exists>rs. Routes h = Some rs \<and> (\<forall>r\<in>set rs. \<forall>gw. \<not> defaultVia i gw r)"
  then obtain rs where rs: "Routes h = Some rs" "\<forall>r\<in>set rs. \<forall>gw. \<not> defaultVia i gw r" by blast
  have "findGateway i rs = None"
    using rs(2) findGateway_sound [of i rs] unfolding defaultVia_def by (cases "findGateway i rs") blast+
  then show "resolveNextHopMAC h i = Inr []" using rs(1) by (simp add: resolveNextHopMAC_def gatewayIPForIface_def)
qed

text \<open>
  The next hop of an interface is its own gateway. A hardware address that
  \<^verbatim>\<open>resolveNextHopMAC\<close> returns was read, within six reads of the neighbour table, as the one of the
  gateway of a default route out of that very interface; and it returns no address, without an
  error, exactly for an interface without such a route.
\<close>

theorem next_hop_is_gateway:
  assumes "resolveNextHopMAC h i = Inr mac"
  shows "(mac = [] \<longleftrightarrow> (\<exists>rs. Routes h = Some rs \<and> (\<forall>r\<in>set rs. \<forall>gw. \<not> defaultVia i gw r))) \<and>
    (mac \<noteq> [] \<longrightarrow> (\<exists>rs r gw t ns a. Routes h = Some rs \<and> r \<in> set rs \<and> defaultVia i gw r \<and> t \<le> 5 \<and> Neighs h t i = Some ns \<and>
      (a, mac) \<in> set ns \<and> Unmap a = Unmap gw))"
  using resolveNextHopMAC_onlink [of h i] resolveNextHopMAC_gateway [OF assms] assms by auto

subsection \<open>Local networks\<close>

lemma Contains_masked: "ones \<le> 32 \<Longrightarrow> Contains (maskedPrefix ip ones) (get32 ip 0)"
  unfolding Contains_def maskedPrefix_def fst_conv snd_conv
  by (rule bit_eqI) (auto simp: bit_drop_bit_eq bit_push_bit_iff dest: bit_imp_le_length)

lemma addrLANs_iff: "p \<in> set (addrLANs as) \<longleftrightarrow> (\<exists>a\<in>set as. To4 (ia_IP a) \<noteq> [] \<and> p = maskedPrefix (To4 (ia_IP a)) (ia_ones a))"
  by (induction as) auto

lemma linkLANs_iff:
  "p \<in> set (linkLANs wan ls) \<longleftrightarrow>
     (\<exists>l\<in>set ls. \<exists>addrs. lk_Name l \<noteq> wan \<and> lk_Name l \<noteq> ''lo'' \<and> \<not> hasPrefix ''tm'' (lk_Name l) \<and> lk_Addrs l = Some addrs \<and> p \<in> set (addrLANs addrs))"
  by (induction ls) (auto split: option.splits)

lemma buildLocalLANs_iff:
  "p \<in> set (buildLocalLANs h wan) \<longleftrightarrow>
     (\<exists>ls l addrs a. LinkList h = Some ls \<and> l \<in> set ls \<and> lk_Name l \<noteq> wan \<and> lk_Name l \<noteq> ''lo'' \<and> \<not> hasPrefix ''tm'' (lk_Name l) \<and>
        lk_Addrs l = Some addrs \<and> a \<in> set addrs \<and> To4 (ia_IP a) \<noteq> [] \<and> p = maskedPrefix (To4 (ia_IP a)) (ia_ones a))"
  by (cases "LinkList h") (auto simp: buildLocalLANs_def linkLANs_iff addrLANs_iff)

lemma firstIPv4_sound:
  assumes "firstIPv4 h n = Some ip"
  shows "\<exists>l addrs a. LinkByName h n = Some l \<and> lk_Addrs l = Some addrs \<and> a \<in> set addrs \<and> ip = Unmap (ia_IP a) \<and> usableAddr a"
  using assms by (fastforce simp: firstIPv4_def split: option.splits dest: find_in_set)

lemma LinkByName_sound: "LinkByName h n = Some l \<Longrightarrow> \<exists>ls. LinkList h = Some ls \<and> l \<in> set ls \<and> lk_Name l = n"
  by (fastforce simp: LinkByName_def split: option.splits dest: find_in_set)

text \<open>The subnets of an interface other than the uplink include the address its traffic is sent from.\<close>

lemma firstIPv4_in_LANs:
  assumes "firstIPv4 h n = Some ip" "length ip = 4" "n \<noteq> wan" "n \<noteq> ''lo''" "\<not> hasPrefix ''tm'' n"
    and "\<forall>ls l addrs a. LinkList h = Some ls \<longrightarrow> l \<in> set ls \<longrightarrow> lk_Addrs l = Some addrs \<longrightarrow> a \<in> set addrs \<longrightarrow> ia_ones a \<le> 32"
  shows "\<exists>p\<in>set (buildLocalLANs h wan). Contains p (get32 ip 0)"
proof -
  obtain l addrs a where l: "LinkByName h n = Some l" "lk_Addrs l = Some addrs" "a \<in> set addrs" "ip = Unmap (ia_IP a)"
    using firstIPv4_sound [OF assms(1)] by blast
  obtain ls where ls: "LinkList h = Some ls" "l \<in> set ls" "lk_Name l = n" using LinkByName_sound [OF l(1)] by blast
  have ip: "To4 (ia_IP a) = ip" "ip \<noteq> []" using assms(2) l(4) by (auto simp: To4_def)
  have "ia_ones a \<le> 32" using assms(6) ls(1,2) l(2,3) by blast
  then show ?thesis
    using Contains_masked [of "ia_ones a" ip] ls l(2,3) ip assms(3-5) buildLocalLANs_iff [of "maskedPrefix ip (ia_ones a)" h wan] by blast
qed

subsection \<open>Attached interfaces\<close>

lemma loadOne_iface: "loadOne h n = Some l \<Longrightarrow> lk_Name (ld_iface l) = n"
  by (fastforce simp: loadOne_def InterfaceByName_def split: option.splits if_splits dest: find_in_set)

lemma LoadMultiNIC_names:
  assumes "LoadMultiNIC h ns = Some ls"
  shows "map (lk_Name \<circ> ld_iface) ls = filter (\<lambda>n. loadOne h n \<noteq> None) ns" "ls \<noteq> []"
proof -
  have ls: "ls = List.map_filter (loadOne h) ns" "ls \<noteq> []"
    using assms by (auto simp: LoadMultiNIC_def Let_def split: if_splits)
  have "map (lk_Name \<circ> ld_iface) (List.map_filter (loadOne h) ns) = filter (\<lambda>n. loadOne h n \<noteq> None) ns"
    by (induction ns) (auto simp: List.map_filter_simps loadOne_iface split: option.split)
  then show "map (lk_Name \<circ> ld_iface) ls = filter (\<lambda>n. loadOne h n \<noteq> None) ns" "ls \<noteq> []" using ls by simp_all
qed

lemma DetectRealNICs_iff:
  assumes "DetectRealNICs h = Some ns"
  shows "n \<in> set ns \<longleftrightarrow> (\<exists>ifs i. Interfaces h = Some ifs \<and> i \<in> set ifs \<and> lk_Name i = n \<and> lk_Up i \<and> n \<noteq> ''lo'' \<and> \<not> hasPrefix ''tm'' n \<and> IsRealNIC h n)"
  using assms by (auto simp: DetectRealNICs_def)

lemma DetectRealNICs_distinct:
  assumes "DetectRealNICs h = Some ns" "Interfaces h = Some ifs" "distinct (map lk_Name ifs)"
  shows "distinct ns"
  using assms by (auto simp: DetectRealNICs_def intro: distinct_map_filter)

subsection \<open>A host\<close>

definition exLo :: link where
  "exLo = \<lparr>lk_Name = ''lo'', lk_Index = 1, lk_MTU = 65536, lk_Up = True, lk_HardwareAddr = [],
     lk_Addrs = Some [\<lparr>ia_IP = [127, 0, 0, 1], ia_ones = 8\<rparr>]\<rparr>"

definition exEth0 :: link where
  "exEth0 = \<lparr>lk_Name = ''eth0'', lk_Index = 2, lk_MTU = 1500, lk_Up = True, lk_HardwareAddr = [2, 0, 0, 0, 0, 1],
     lk_Addrs = Some [\<lparr>ia_IP = [10, 0, 0, 2], ia_ones = 24\<rparr>]\<rparr>"

definition exEth1 :: link where
  "exEth1 = \<lparr>lk_Name = ''eth1'', lk_Index = 3, lk_MTU = 1500, lk_Up = True, lk_HardwareAddr = [2, 0, 0, 0, 0, 2],
     lk_Addrs = Some [\<lparr>ia_IP = [192, 168, 1, 1], ia_ones = 24\<rparr>]\<rparr>"

text \<open>Two real interfaces with four channels each, the first with a gateway; sockets can be bound by copying only.\<close>

definition exHost :: host where
  "exHost = \<lparr>LinkList = Some [exLo, exEth0, exEth1], Interfaces = Some [exLo, exEth0, exEth1],
     ethtool_i = (\<lambda>n. if n = ''lo'' then None else Some ''bus-info: 0000:00:03.0''), sysDevice = (\<lambda>_. False),
     ethtool_l = (\<lambda>_. Some (''Combined: 4'' @ [CHR 0x0a] @ ''Combined: 2'')), ethtool_L = (\<lambda>_ _. True), rxDirs = (\<lambda>_. Some 2), txDirs = (\<lambda>_. Some 2),
     Routes = Some [\<lparr>rt_Gw = Some [10, 0, 0, 1], rt_LinkIndex = 2, rt_Dst = None\<rparr>],
     Neighs = (\<lambda>_ i. Some (if i = 2 then [([10, 0, 0, 1], [2, 0, 0, 0, 0, 9])] else [])), DialUDP = (\<lambda>_. True),
     LoadSpec = True, SharedNat = True, LoadObjs = (\<lambda>_. True), AttachXDP = (\<lambda>_ _. True),
     NewSocket = (\<lambda>_ _ f. f = XDP_COPY), QuicMapUpdate = (\<lambda>_ _. True), FwdMapUpdate = (\<lambda>_ _. True)\<rparr>"

theorem new_conn_all_or_nothing_witness:
  "case NewConn exHost exEth0 \<lparr>ua_IP = [], ua_Port = 443\<rparr> 2 XDPModeNative False \<lparr>xs_open = [], xs_quic = [], xs_fwd = [], xs_flags = XDP_COPY\<rparr> of
     (Inr c, x) \<Rightarrow> set (xs_open x) = {0..<2} \<and> length (c_txPumps (c :: unit Conn)) = 2 | (Inl _, _) \<Rightarrow> False"
proof -
  define x0 where "x0 = \<lparr>xs_open = [], xs_quic = [], xs_fwd = [], xs_flags = XDP_COPY\<rparr>"
  obtain r x where r: "NewConn exHost exEth0 \<lparr>ua_IP = [], ua_Port = 443\<rparr> 2 XDPModeNative False x0 = (r :: nicError + unit Conn, x)" by fastforce
  have "xsNone x0" by (simp add: xsNone_def x0_def)
  note w = new_conn_all_or_nothing [OF this r]
  have "case NewConn exHost exEth0 \<lparr>ua_IP = [], ua_Port = 443\<rparr> 2 XDPModeNative False x0 of (Inr (c :: unit Conn), _) \<Rightarrow> True | (Inl _, _) \<Rightarrow> False"
    unfolding x0_def by code_simp
  then have "\<exists>c. r = Inr c" unfolding r by (cases r) simp_all
  then show ?thesis using w r unfolding x0_def by auto
qed

lemma exHost_nextHop: "resolveNextHopMAC exHost 2 = Inr [2, 0, 0, 0, 0, 9]"
  by code_simp

theorem next_hop_is_gateway_witness:
  "resolveNextHopMAC exHost 2 = Inr [2, 0, 0, 0, 0, 9] \<and> (\<exists>rs r gw. Routes exHost = Some rs \<and> r \<in> set rs \<and> defaultVia 2 gw r)"
  using exHost_nextHop next_hop_is_gateway [OF exHost_nextHop] by blast

text \<open>The output of the command for an interface with eight channels, of which two are in use.\<close>

lemma parseEthtoolChannels_example:
  "parseEthtoolChannels (''Pre-set maximums:'' @ [CHR 0x0a] @ ''RX:'' @ [CHR 0x09] @ ''n/a'' @ [CHR 0x0a] @ ''Combined:'' @ [CHR 0x09] @ ''8'' @ [CHR 0x0a] @
     ''Current hardware settings:'' @ [CHR 0x0a] @ ''Combined:'' @ [CHR 0x09] @ ''2'' @ [CHR 0x0a]) = Some \<lparr>MaxCombined = 8, CurrentCombined = 2\<rparr>"
  by code_simp

end
