(* ===== verification/HandleConn.thy ===== *)
theory HandleConn
  imports Management Forward
begin

unbundle bit_operations_syntax

text \<open>
  The life of a VPN connection in \<^verbatim>\<open>main.go\<close>: the \<^verbatim>\<open>/vpn\<close> handler of \<^verbatim>\<open>run\<close>, the set-up and
  the end of \<^verbatim>\<open>handleConn\<close>, and the producers that put packets into the channel of a tunnel
  (the TUN reader of \<^verbatim>\<open>run\<close>, and \<^verbatim>\<open>SessionTable.Deliver\<close> with the adapter of
  \<^verbatim>\<open>utility/tunnel_adapter.go\<close>). The library connection is represented by the results of its
  calls. A session and its channel have the same number.
\<close>

subsection \<open>The request\<close>

text \<open>
  \<^verbatim>\<open>strconv.Atoi\<close> with the error ignored: 0 for text that is not a number, and the nearest
  64-bit integer for one that is out of range.
\<close>

definition atoiVal :: "string \<Rightarrow> int" where
  "atoiVal s =
     (let neg = (s \<noteq> [] \<and> hd s = CHR ''-'');
          digits = (if s \<noteq> [] \<and> (hd s = CHR ''-'' \<or> hd s = CHR ''+'') then tl s else s)
      in if digits = [] then 0
         else case atoi digits 0 of
                None \<Rightarrow> 0
              | Some n \<Rightarrow> if neg then max (- int n) (- (2 ^ 63)) else min (int n) (2 ^ 63 - 1))"

record vpnRequest =
  vr_commonName :: string
  vr_tunnelIndex :: string
  vr_tunnelCount :: string

datatype vpnOutcome = HttpStatus nat | HandleConn (vo_client: int) (vo_idx: int) (vo_count: int)

text \<open>\<open>parse\<close> is the result of \<^verbatim>\<open>connectip.ParseRequest\<close>: None, or the status of its error.\<close>

definition vpnHandler :: "vpnRequest \<Rightarrow> nat option \<Rightarrow> bool \<Rightarrow> vpnOutcome" where
  "vpnHandler r parse proxied =
     (case parseInt64 (vr_commonName r) of
        None \<Rightarrow> HttpStatus 401
      | Some clientId \<Rightarrow>
          let tunIdx = atoiVal (vr_tunnelIndex r);
              tunCount = atoiVal (vr_tunnelCount r);
              tunCount = (if tunCount < 1 then 1 else tunCount);
              tunIdx = (if tunIdx < 0 \<or> tunIdx \<ge> tunCount then 0 else tunIdx)
          in case parse of
               Some st \<Rightarrow> HttpStatus st
             | None \<Rightarrow> if \<not> proxied then HttpStatus 500 else HandleConn clientId tunIdx tunCount)"

subsection \<open>Set-up\<close>

text \<open>\<^verbatim>\<open>addr.Unmap().As4()\<close>, which panics on an IPv6 address that is not a mapped IPv4 address.\<close>

definition unmapAs4 :: "Addr \<Rightarrow> ip4 option" where
  "unmapAs4 a = (case a of
       Addr4 bs \<Rightarrow> Some (get32 bs 0)
     | Addr16 bs \<Rightarrow> if take 12 bs = replicate 10 0 @ [0xff, 0xff] then Some (get32 bs 12) else None
     | InvalidAddr \<Rightarrow> None)"

record IPRoute =
  StartIP :: Addr
  EndIP :: Addr

fun advertisedRoutes :: "text6 \<Rightarrow> resource_row list \<Rightarrow> IPRoute list" where
  "advertisedRoutes t [] = []"
| "advertisedRoutes t (x # xs) =
     (case ParsePrefix t (s_value x) of
        None \<Rightarrow> advertisedRoutes t xs
      | Some r \<Rightarrow> \<lparr>StartIP = PAddr r, EndIP = LastIPAddr r\<rparr> # advertisedRoutes t xs)"

text \<open>
  What the connections share: the database, the session table, the channel table, the
  buffers of the channels, which of them are closed, and the counters of packets
  entered into a channel or dropped.
\<close>

record connState =
  cs_db :: conn
  cs_sess :: SessionTable
  cs_chans :: tunMap
  cs_bufs :: "nat \<Rightarrow> bytes list"
  cs_closed :: "nat list"
  TunAdapterSends :: nat
  TunAdapterDrops :: nat
  tunLoopSends :: nat
  tunChanDrops :: nat

record tunnel =
  tl_addr :: ip4
  tl_sess :: TunnelSession
  tl_idx :: int
  tl_routes :: "IPRoute list"

datatype setupErr = NoAddress | BadAddress | AssignFailed | NoResources | AdvertiseFailed | SetupPanic

text \<open>
  \<^verbatim>\<open>handleConn\<close> up to the start of its goroutines. \<open>assign\<close> and \<open>advertise\<close> say whether the
  two requests to the client succeed. After \<^verbatim>\<open>Register\<close> every return runs the deferred
  \<^verbatim>\<open>RemoveSession\<close>.
\<close>

definition setupConn :: "env \<Rightarrow> text6 \<Rightarrow> (Addr \<Rightarrow> bool) \<Rightarrow> (IPRoute list \<Rightarrow> bool) \<Rightarrow> int \<Rightarrow> nat \<Rightarrow> int \<Rightarrow> int
    \<Rightarrow> connState \<Rightarrow> (setupErr + tunnel) \<times> connState" where
  "setupConn env t assign advertise clientId tunChan tunIdx tunCount s =
     (case svcAssignIPToClient env clientId (cs_db s) of
        (Inl _, c) \<Rightarrow> (Inl NoAddress, s\<lparr>cs_db := c\<rparr>)
      | (Inr peerAddr, c) \<Rightarrow>
          let s = s\<lparr>cs_db := c\<rparr> in
          case ParseAddr t peerAddr of
            None \<Rightarrow> (Inl BadAddress, s)
          | Some addr \<Rightarrow>
              (case unmapAs4 addr of
                 None \<Rightarrow> (Inl SetupPanic, s)
               | Some ip4 \<Rightarrow>
                   let sess = \<lparr>ts_id = tunChan, InnerIP = ip4, TunnelIndex = nat tunIdx\<rparr>;
                       s = s\<lparr>cs_sess := Register sess tunCount (cs_sess s)\<rparr>;
                       undo = (\<lambda>s. s\<lparr>cs_sess := RemoveSession sess (cs_sess s)\<rparr>)
                   in if \<not> assign addr then (Inl AssignFailed, undo s)
                      else
                        let s = s\<lparr>cs_chans := registerChan ip4 tunIdx tunCount tunChan (cs_chans s)\<rparr> in
                        case svcGetClientResources clientId (cs_db s) of
                          (Inl _, c) \<Rightarrow> (Inl NoResources, undo (s\<lparr>cs_db := c\<rparr>))
                        | (Inr rs, c) \<Rightarrow>
                            let s = s\<lparr>cs_db := c\<rparr>; routes = advertisedRoutes t rs in
                            if \<not> advertise routes then (Inl AdvertiseFailed, undo s)
                            else (Inr \<lparr>tl_addr = ip4, tl_sess = sess, tl_idx = tunIdx, tl_routes = routes\<rparr>, s)))"

text \<open>
  The end of \<^verbatim>\<open>handleConn\<close>. First the slot of the channel is cleared and the channel closed
  and drained; after the other goroutine has finished, the deferred call removes the session.
\<close>

definition closeConn :: "tunnel \<Rightarrow> connState \<Rightarrow> connState" where
  "closeConn tn s =
     (let tc = ts_id (tl_sess tn) in
      s\<lparr>cs_chans := teardownChan (tl_addr tn) (tl_idx tn) (cs_chans s),
        cs_closed := tc # cs_closed s, cs_bufs := (cs_bufs s)(tc := [])\<rparr>)"

definition leaveConn :: "tunnel \<Rightarrow> connState \<Rightarrow> connState" where
  "leaveConn tn s = s\<lparr>cs_sess := RemoveSession (tl_sess tn) (cs_sess s)\<rparr>"

subsection \<open>The channel of a tunnel and its producers\<close>

text \<open>A send that does not wait. In Go a send on a closed channel panics, also inside a \<^verbatim>\<open>select\<close>.\<close>

datatype sendRes = Sent | ChanFull | SendPanic

definition trySend :: "nat \<Rightarrow> bytes \<Rightarrow> connState \<Rightarrow> sendRes \<times> connState" where
  "trySend tc pkt s =
     (if tc \<in> set (cs_closed s) then (SendPanic, s)
      else if length (cs_bufs s tc) < tunChanCap then (Sent, s\<lparr>cs_bufs := (cs_bufs s)(tc := cs_bufs s tc @ [pkt])\<rparr>)
      else (ChanFull, s))"

text \<open>
  \<^verbatim>\<open>ConnectIPAdapter.SendDatagram\<close>, which reports success also when it drops. The value
  None stands for a panic.
\<close>

definition SendDatagram :: "nat \<Rightarrow> bytes \<Rightarrow> connState \<Rightarrow> connState option" where
  "SendDatagram tc p s =
     (case trySend tc (take 4096 p) s of
        (Sent, s) \<Rightarrow> Some (s\<lparr>TunAdapterSends := TunAdapterSends s + 1\<rparr>)
      | (ChanFull, s) \<Rightarrow> Some (s\<lparr>TunAdapterDrops := TunAdapterDrops s + 1\<rparr>)
      | (SendPanic, s) \<Rightarrow> None)"

text \<open>A reply that comes back from the network: \<^verbatim>\<open>SessionTable.Deliver\<close> with the adapter as its connection.\<close>

definition deliverReply :: "bytes \<Rightarrow> ip4 \<Rightarrow> connState \<Rightarrow> (bool \<times> connState) option" where
  "deliverReply pkt dstIP s =
     (case Deliver (\<lambda>_ _. True) pkt dstIP (cs_sess s) of
        (ok, None, t) \<Rightarrow> Some (ok, s\<lparr>cs_sess := t\<rparr>)
      | (ok, Some sess, t) \<Rightarrow> map_option (Pair ok) (SendDatagram (ts_id sess) pkt (s\<lparr>cs_sess := t\<rparr>)))"

text \<open>
  One packet read from the TUN device: it goes to a tunnel of the client that owns the
  destination. \<open>b0\<close> is the pooled buffer of 4096 bytes with the packet in its first \<open>n\<close> bytes.
\<close>

definition tunRead :: "bytes \<Rightarrow> nat \<Rightarrow> connState \<Rightarrow> connState option" where
  "tunRead b0 n s =
     (let destIP = get32 b0 16; pkt = take n b0 in
      case pickTunnel (chansOf (cs_chans s) destIP) pkt of
        Some tc \<Rightarrow>
          (case trySend tc pkt s of
             (Sent, s) \<Rightarrow> Some (s\<lparr>tunLoopSends := tunLoopSends s + 1\<rparr>)
           | (ChanFull, s) \<Rightarrow> Some (s\<lparr>tunChanDrops := tunChanDrops s + 1\<rparr>)
           | (SendPanic, s) \<Rightarrow> None)
      | None \<Rightarrow> Some s)"

subsection \<open>The server as a system of connections\<close>

text \<open>
  The goroutines that interleave: connections that are set up, run and end in their two
  stages; the TUN reader and the dispatchers that put packets into channels; the writers
  that take them out; and whatever the management interface does to the database. Channel
  numbers are never reused, as \<^verbatim>\<open>make\<close> gives a new channel for every connection.
\<close>

record server =
  sv_conn :: connState
  sv_next :: nat
  sv_running :: "tunnel list"
  sv_closing :: "tunnel list"

inductive conn_step :: "server \<Rightarrow> server \<Rightarrow> bool" where
  connect: "vpnHandler r None True = HandleConn cid idx cnt \<Longrightarrow>
     setupConn env t assign advertise cid (sv_next s) idx cnt (sv_conn s) = (res, c) \<Longrightarrow>
     conn_step s (s\<lparr>sv_conn := c, sv_next := sv_next s + 1,
       sv_running := (case res of Inr tn \<Rightarrow> tn # sv_running s | Inl _ \<Rightarrow> sv_running s)\<rparr>)"
| ends: "tn \<in> set (sv_running s) \<Longrightarrow>
     conn_step s (s\<lparr>sv_conn := closeConn tn (sv_conn s), sv_running := removeAll tn (sv_running s), sv_closing := tn # sv_closing s\<rparr>)"
| leaves: "tn \<in> set (sv_closing s) \<Longrightarrow>
     conn_step s (s\<lparr>sv_conn := leaveConn tn (sv_conn s), sv_closing := removeAll tn (sv_closing s)\<rparr>)"
| reads: "tunRead b0 n (sv_conn s) = Some c \<Longrightarrow> conn_step s (s\<lparr>sv_conn := c\<rparr>)"
| delivers: "deliverReply pkt dst (sv_conn s) = Some (ok, c) \<Longrightarrow> conn_step s (s\<lparr>sv_conn := c\<rparr>)"
| takes: "conn_step s (s\<lparr>sv_conn := (sv_conn s)\<lparr>cs_bufs := (cs_bufs (sv_conn s))(tc := tl (cs_bufs (sv_conn s) tc))\<rparr>\<rparr>)"
| manages: "conn_step s (s\<lparr>sv_conn := (sv_conn s)\<lparr>cs_db := d\<rparr>\<rparr>)"

inductive_cases conn_stepE: "conn_step s s'"

definition conn_init :: "server \<Rightarrow> bool" where
  "conn_init s \<longleftrightarrow> cs_sess (sv_conn s) = NewSessionTable \<and> cs_chans (sv_conn s) = Map.empty \<and> cs_closed (sv_conn s) = [] \<and>
     sv_running s = [] \<and> sv_closing s = []"

subsection \<open>Slots of the two tables\<close>

definition hasChan :: "tunMap \<Rightarrow> ip4 \<Rightarrow> nat \<Rightarrow> nat \<Rightarrow> bool" where
  "hasChan m k i c \<longleftrightarrow> (\<exists>chans. m k = Some chans \<and> i < length chans \<and> chans ! i = Some c)"

definition chansLive :: "tunMap \<Rightarrow> bool" where
  "chansLive m \<longleftrightarrow> (\<forall>k chans. m k = Some chans \<longrightarrow> list_ex (\<lambda>c. c \<noteq> None) chans)"

definition inTable :: "SessionTable \<Rightarrow> TunnelSession \<Rightarrow> bool" where
  "inTable t y \<longleftrightarrow> (\<exists>k g. t k = Some g \<and> Some y \<in> set (sessions g))"

lemma register_slot:
  "hasChan (registerChan key idx cnt c m) k i d \<Longrightarrow> (k = key \<and> int i = idx \<and> d = c) \<or> hasChan m k i d"
  by (auto simp: hasChan_def registerChan_def chansOf_def Let_def nth_append nth_list_update split: if_splits option.splits)

lemma register_here: "0 \<le> idx \<Longrightarrow> idx < cnt \<Longrightarrow> hasChan (registerChan key idx cnt c m) key (nat idx) c"
  by (auto simp: hasChan_def registerChan_def chansOf_def Let_def split: option.split)

lemma list_ex_slot: "list_ex (\<lambda>c. c \<noteq> None) xs \<longleftrightarrow> (\<exists>i c. i < length xs \<and> xs ! i = Some c)"
  by (auto simp: list_ex_length)

lemma register_live:
  assumes "0 \<le> idx" "idx < cnt" "chansLive m"
  shows "chansLive (registerChan key idx cnt c m)"
proof -
  have "registerChan key idx cnt c m k = m k" if "k \<noteq> key" for k using that by (simp add: registerChan_def Let_def)
  moreover have "list_ex (\<lambda>c. c \<noteq> None) chans" if "registerChan key idx cnt c m key = Some chans" for chans
    using register_here [OF assms(1,2), of key c m] that unfolding list_ex_slot by (auto simp: hasChan_def)
  ultimately show ?thesis using assms(3) unfolding chansLive_def by metis
qed

lemma teardown_slot:
  "hasChan (teardownChan key idx m) k i d \<Longrightarrow> hasChan m k i d \<and> \<not> (k = key \<and> int i = idx)"
  by (auto simp: hasChan_def teardownChan_def chansOf_def Let_def nth_list_update split: if_splits option.splits)

lemma teardown_live: "chansLive m \<Longrightarrow> chansLive (teardownChan key idx m)"
  by (auto simp: chansLive_def teardownChan_def chansOf_def Let_def split: if_splits option.splits)

lemma pick_hasChan: "pickTunnel (chansOf m k) pkt = Some c \<Longrightarrow> \<exists>i. hasChan m k i c"
  by (auto dest!: pickTunnel_live simp: chansOf_def hasChan_def in_set_conv_nth split: option.splits)

lemma growTo_upd_mem: "Some y \<in> set ((growTo i xs)[i := Some x]) \<Longrightarrow> y = x \<or> Some y \<in> set xs"
  by (auto simp: growTo_def dest!: set_update_subset_insert [THEN subsetD])

lemma inTable_Register:
  assumes "table_inv t" "inTable (Register x cnt t) y"
  shows "y = x \<or> inTable t y"
proof -
  have "Some y \<in> set (sessions g) \<Longrightarrow> y = x \<or> (\<exists>g. t (InnerIP x) = Some g \<and> Some y \<in> set (sessions g))"
    if "Register x cnt t (InnerIP x) = Some g" for g
    using that by (auto simp: Register_def Let_def dest!: growTo_upd_mem split: option.splits if_splits)
  moreover have "Register x cnt t k = t k" if "k \<noteq> InnerIP x" for k using that by (simp add: Register_def Let_def)
  ultimately show ?thesis using assms(2) unfolding inTable_def by metis
qed

lemma inTable_Remove:
  assumes "table_inv t" "inTable (RemoveSession x t) y"
  shows "inTable t y" "y \<noteq> x"
proof -
  from assms(2) obtain k g where g: "RemoveSession x t k = Some g" "Some y \<in> set (sessions g)" by (auto simp: inTable_def)
  obtain g0 where g0: "t k = Some g0" and sub: "g = g0 \<or> g = g0\<lparr>sessions := (sessions g0)[TunnelIndex x := None]\<rparr>"
    using g(1) by (auto simp: RemoveSession_def Let_def split: option.splits if_splits)
  have "Some y \<in> set (sessions g0)" using g(2) sub by (auto dest!: set_update_subset_insert [THEN subsetD])
  then show "inTable t y" using g0 by (auto simp: inTable_def)
  show "y \<noteq> x"
  proof
    assume y: "y = x"
    obtain i where i: "i < length (sessions g)" "sessions g ! i = Some x" using g(2) y by (auto simp: in_set_conv_nth)
    have gi: "group_inv k g" using RemoveSession_inv [OF assms(1), of x] g(1) by (simp add: table_inv_def)
    then have "TunnelIndex x = i" "InnerIP x = k" using i by (auto simp: group_inv_def)
    then show False using i g(1) g0 by (auto simp: RemoveSession_def Let_def same_session_def split: if_splits)
  qed
qed

subsection \<open>Invariants\<close>

text \<open>
  Every channel in the table is open and stands in the slot of its own tunnel; every
  session in the table has an open channel, unless its connection is about to leave.
\<close>

definition chan_inv :: "server \<Rightarrow> bool" where
  "chan_inv s \<longleftrightarrow> chansLive (cs_chans (sv_conn s)) \<and>
     (\<forall>k i c. hasChan (cs_chans (sv_conn s)) k i c \<longrightarrow> c < sv_next s \<and> c \<notin> set (cs_closed (sv_conn s)) \<and>
        (\<forall>tn \<in> set (sv_running s). ts_id (tl_sess tn) = c \<longrightarrow> tl_addr tn = k \<and> tl_idx tn = int i))"

definition sess_inv :: "server \<Rightarrow> bool" where
  "sess_inv s \<longleftrightarrow> table_inv (cs_sess (sv_conn s)) \<and>
     (\<forall>y. inTable (cs_sess (sv_conn s)) y \<longrightarrow> ts_id y < sv_next s \<and>
        (\<forall>tn \<in> set (sv_running s). ts_id (tl_sess tn) = ts_id y \<longrightarrow> y = tl_sess tn) \<and>
        (ts_id y \<in> set (cs_closed (sv_conn s)) \<longrightarrow> y \<in> tl_sess ` set (sv_closing s)))"

definition ids_inv :: "server \<Rightarrow> bool" where
  "ids_inv s \<longleftrightarrow> (\<forall>tn \<in> set (sv_running s). ts_id (tl_sess tn) < sv_next s) \<and> (\<forall>c \<in> set (cs_closed (sv_conn s)). c < sv_next s)"

text \<open>What a set-up does to the tables.\<close>

lemma setup_effect:
  assumes "setupConn env t assign advertise cid tc idx cnt s = (res, s')"
  obtains "cs_sess s' = cs_sess s" "cs_chans s' = cs_chans s" "cs_closed s' = cs_closed s" "\<exists>e. res = Inl e"
  | ip sess where "sess = \<lparr>ts_id = tc, InnerIP = ip, TunnelIndex = nat idx\<rparr>" "cs_closed s' = cs_closed s"
      "cs_sess s' = RemoveSession sess (Register sess cnt (cs_sess s))" "\<exists>e. res = Inl e"
      "cs_chans s' = cs_chans s \<or> cs_chans s' = registerChan ip idx cnt tc (cs_chans s)"
  | ip sess routes where "sess = \<lparr>ts_id = tc, InnerIP = ip, TunnelIndex = nat idx\<rparr>" "cs_closed s' = cs_closed s"
      "cs_sess s' = Register sess cnt (cs_sess s)" "cs_chans s' = registerChan ip idx cnt tc (cs_chans s)"
      "res = Inr \<lparr>tl_addr = ip, tl_sess = sess, tl_idx = idx, tl_routes = routes\<rparr>"
  using assms unfolding setupConn_def Let_def
  by (auto split: prod.splits sum.splits option.splits if_splits)

lemma vpnHandler_range: "vpnHandler r p q = HandleConn cid idx cnt \<Longrightarrow> 0 \<le> idx \<and> idx < cnt"
  by (auto simp: vpnHandler_def Let_def split: option.splits if_splits)

definition server_inv :: "server \<Rightarrow> bool" where
  "server_inv s \<longleftrightarrow> ids_inv s \<and> chan_inv s \<and> sess_inv s"

text \<open>A step that changes neither table keeps the invariants.\<close>

lemma server_inv_frame:
  assumes "server_inv s" "cs_sess c = cs_sess (sv_conn s)" "cs_chans c = cs_chans (sv_conn s)" "cs_closed c = cs_closed (sv_conn s)"
  shows "server_inv (s\<lparr>sv_conn := c\<rparr>)"
  using assms by (simp add: server_inv_def ids_inv_def chan_inv_def sess_inv_def)

lemma server_inv_fail:
  assumes "server_inv s" and sess: "table_inv (cs_sess c)" "\<And>y. inTable (cs_sess c) y \<Longrightarrow> inTable (cs_sess (sv_conn s)) y"
    and chans: "chansLive (cs_chans c)" "\<And>k i d. hasChan (cs_chans c) k i d \<Longrightarrow> hasChan (cs_chans (sv_conn s)) k i d \<or> d = sv_next s"
    and cl: "cs_closed c = cs_closed (sv_conn s)"
  shows "server_inv (s\<lparr>sv_conn := c, sv_next := sv_next s + 1\<rparr>)"
proof -
  have ids: "ids_inv (s\<lparr>sv_conn := c, sv_next := sv_next s + 1\<rparr>)"
    using assms(1) cl by (fastforce simp: server_inv_def ids_inv_def)
  have new: "d < sv_next s + 1 \<and> d \<notin> set (cs_closed (sv_conn s)) \<and>
      (\<forall>tn \<in> set (sv_running s). ts_id (tl_sess tn) = d \<longrightarrow> tl_addr tn = k \<and> tl_idx tn = int i)"
    if h: "hasChan (cs_chans c) k i d" for k i d
  proof (cases "d = sv_next s")
    case True
    then show ?thesis using assms(1) by (fastforce simp: server_inv_def ids_inv_def)
  next
    case False
    then have "hasChan (cs_chans (sv_conn s)) k i d" using chans(2) [OF h] by simp
    then show ?thesis using assms(1) by (fastforce simp: server_inv_def chan_inv_def)
  qed
  then have "chan_inv (s\<lparr>sv_conn := c, sv_next := sv_next s + 1\<rparr>)" using chans(1) cl by (simp add: chan_inv_def)
  moreover have "sess_inv (s\<lparr>sv_conn := c, sv_next := sv_next s + 1\<rparr>)"
    using assms(1) sess cl by (fastforce simp: server_inv_def sess_inv_def)
  ultimately show ?thesis using ids by (simp add: server_inv_def)
qed

lemma server_inv_connect:
  assumes inv: "server_inv s" and r: "0 \<le> idx" "idx < cnt"
    and su: "setupConn env t assign advertise cid (sv_next s) idx cnt (sv_conn s) = (res, c)"
  shows "server_inv (s\<lparr>sv_conn := c, sv_next := sv_next s + 1,
    sv_running := (case res of Inr tn \<Rightarrow> tn # sv_running s | Inl _ \<Rightarrow> sv_running s)\<rparr>)"
proof -
  have live: "chansLive (cs_chans (sv_conn s))" and ti: "table_inv (cs_sess (sv_conn s))"
    using inv by (simp_all add: server_inv_def chan_inv_def sess_inv_def)
  note rl = register_live [OF r live]
  from su show ?thesis
  proof (cases rule: setup_effect)
    case 1
    then obtain e where "res = Inl e" by blast
    then show ?thesis using server_inv_fail [OF inv, of c] 1 live ti by simp
  next
    case (2 ip sess)
    then obtain e where e: "res = Inl e" by blast
    have "inTable (cs_sess (sv_conn s)) y" if "inTable (cs_sess c) y" for y
      using inTable_Remove [OF Register_inv [OF ti]] inTable_Register [OF ti] that 2(3) by metis
    moreover have "table_inv (cs_sess c)" using 2(3) RemoveSession_inv Register_inv ti by simp
    moreover have "chansLive (cs_chans c)" using 2(5) live rl by auto
    moreover have "hasChan (cs_chans (sv_conn s)) k i d \<or> d = sv_next s" if "hasChan (cs_chans c) k i d" for k i d
      using that 2(5) register_slot by metis
    ultimately show ?thesis using server_inv_fail [OF inv] 2(2) e by simp
  next
    case (3 ip sess routes)
    let ?tn = "\<lparr>tl_addr = ip, tl_sess = sess, tl_idx = idx, tl_routes = routes\<rparr>"
    let ?s = "s\<lparr>sv_conn := c, sv_next := sv_next s + 1, sv_running := ?tn # sv_running s\<rparr>"
    have ids: "ids_inv s" and ci: "chan_inv s" and si: "sess_inv s" using inv by (simp_all add: server_inv_def)
    have "ids_inv ?s" using ids 3(1,2) by (fastforce simp: ids_inv_def)
    moreover have "d < sv_next s + 1 \<and> d \<notin> set (cs_closed (sv_conn s)) \<and>
        (\<forall>tn \<in> set (?tn # sv_running s). ts_id (tl_sess tn) = d \<longrightarrow> tl_addr tn = k \<and> tl_idx tn = int i)"
      if h: "hasChan (cs_chans c) k i d" for k i d
    proof (cases "d = sv_next s")
      case True
      moreover have "\<not> hasChan (cs_chans (sv_conn s)) k i (sv_next s)" using ci by (auto simp: chan_inv_def)
      ultimately have "k = ip \<and> int i = idx" using register_slot [of ip idx cnt "sv_next s" "cs_chans (sv_conn s)" k i d] h 3(4) by auto
      then show ?thesis using True ids 3(1) by (fastforce simp: ids_inv_def)
    next
      case False
      then have "hasChan (cs_chans (sv_conn s)) k i d"
        using register_slot [of ip idx cnt "sv_next s" "cs_chans (sv_conn s)" k i d] h 3(4) by auto
      then show ?thesis using ci False 3(1) by (auto simp: chan_inv_def less_Suc_eq)
    qed
    then have "chan_inv ?s" using rl [of ip "sv_next s"] 3(2,4) by (simp add: chan_inv_def)
    moreover have "ts_id y < sv_next s + 1 \<and> (\<forall>tn \<in> set (?tn # sv_running s). ts_id (tl_sess tn) = ts_id y \<longrightarrow> y = tl_sess tn) \<and>
        (ts_id y \<in> set (cs_closed (sv_conn s)) \<longrightarrow> y \<in> tl_sess ` set (sv_closing s))" if h: "inTable (cs_sess c) y" for y
    proof (cases "y = sess")
      case True
      then show ?thesis using ids 3(1) by (fastforce simp: ids_inv_def)
    next
      case False
      then have "inTable (cs_sess (sv_conn s)) y" using inTable_Register [OF ti] h 3(3) by metis
      then show ?thesis using si 3(1) by (fastforce simp: sess_inv_def)
    qed
    then have "sess_inv ?s" using Register_inv [OF ti] 3(2,3) by (simp add: sess_inv_def)
    ultimately show ?thesis using 3(5) by (simp add: server_inv_def)
  qed
qed

lemma server_inv_ends:
  assumes inv: "server_inv s" and tn: "tn \<in> set (sv_running s)"
  shows "server_inv (s\<lparr>sv_conn := closeConn tn (sv_conn s), sv_running := removeAll tn (sv_running s), sv_closing := tn # sv_closing s\<rparr>)"
    (is "server_inv ?s")
proof -
  have ids: "ids_inv s" and ci: "chan_inv s" and si: "sess_inv s" using inv by (simp_all add: server_inv_def)
  let ?td = "teardownChan (tl_addr tn) (tl_idx tn) (cs_chans (sv_conn s))"
  have eq: "cs_chans (sv_conn ?s) = ?td" "cs_sess (sv_conn ?s) = cs_sess (sv_conn s)" "sv_next ?s = sv_next s"
    "cs_closed (sv_conn ?s) = ts_id (tl_sess tn) # cs_closed (sv_conn s)"
    "sv_running ?s = removeAll tn (sv_running s)" "sv_closing ?s = tn # sv_closing s"
    by (simp_all add: closeConn_def Let_def)
  have live: "chansLive ?td" using ci by (simp add: chan_inv_def teardown_live)
  have "d < sv_next s \<and> d \<notin> set (ts_id (tl_sess tn) # cs_closed (sv_conn s)) \<and>
      (\<forall>x \<in> set (removeAll tn (sv_running s)). ts_id (tl_sess x) = d \<longrightarrow> tl_addr x = k \<and> tl_idx x = int i)"
    if "hasChan ?td k i d" for k i d
    using teardown_slot [OF that] ci tn by (auto simp: chan_inv_def)
  then have "chan_inv ?s" unfolding chan_inv_def eq using live by blast
  moreover have "ts_id y < sv_next s \<and> (\<forall>x \<in> set (removeAll tn (sv_running s)). ts_id (tl_sess x) = ts_id y \<longrightarrow> y = tl_sess x) \<and>
      (ts_id y \<in> set (ts_id (tl_sess tn) # cs_closed (sv_conn s)) \<longrightarrow> y \<in> tl_sess ` set (tn # sv_closing s))"
    if "inTable (cs_sess (sv_conn s)) y" for y
    using that si tn by (auto simp: sess_inv_def)
  then have "sess_inv ?s" unfolding sess_inv_def eq using si by (simp only: sess_inv_def) blast
  moreover have "ids_inv ?s" unfolding ids_inv_def eq using ids tn by (auto simp: ids_inv_def)
  ultimately show ?thesis by (simp add: server_inv_def)
qed

lemma server_inv_leaves:
  assumes inv: "server_inv s"
  shows "server_inv (s\<lparr>sv_conn := leaveConn tn (sv_conn s), sv_closing := removeAll tn (sv_closing s)\<rparr>)"
proof -
  have ids: "ids_inv s" and ci: "chan_inv s" and si: "sess_inv s" and ti: "table_inv (cs_sess (sv_conn s))"
    using inv by (simp_all add: server_inv_def sess_inv_def)
  note rem = inTable_Remove [OF ti, of "tl_sess tn"]
  have "y \<in> tl_sess ` set (removeAll tn (sv_closing s))"
    if "inTable (RemoveSession (tl_sess tn) (cs_sess (sv_conn s))) y" "ts_id y \<in> set (cs_closed (sv_conn s))" for y
    using rem [OF that(1)] si that(2) by (fastforce simp: sess_inv_def)
  then show ?thesis
    using ids ci si RemoveSession_inv rem(1)
    by (simp add: server_inv_def ids_inv_def chan_inv_def sess_inv_def leaveConn_def)
qed

lemma trySend_frame:
  "trySend tc pkt s = (r, s') \<Longrightarrow> cs_sess s' = cs_sess s \<and> cs_chans s' = cs_chans s \<and> cs_closed s' = cs_closed s"
  by (auto simp: trySend_def split: if_splits)

lemma tunRead_frame:
  "tunRead b0 n s = Some s' \<Longrightarrow> cs_sess s' = cs_sess s \<and> cs_chans s' = cs_chans s \<and> cs_closed s' = cs_closed s"
  by (auto simp: tunRead_def Let_def split: option.splits prod.splits sendRes.splits dest!: trySend_frame)

lemma SendDatagram_frame:
  "SendDatagram tc p s = Some s' \<Longrightarrow> cs_sess s' = cs_sess s \<and> cs_chans s' = cs_chans s \<and> cs_closed s' = cs_closed s"
  by (auto simp: SendDatagram_def split: prod.splits sendRes.splits dest!: trySend_frame)

lemma Deliver_ok_same: "Deliver (\<lambda>_ _. True) pkt d t = (ok, to, t') \<Longrightarrow> t' = t"
  by (auto simp: Deliver_def split: option.splits if_splits)

lemma deliverReply_frame:
  "deliverReply pkt d s = Some (ok, s') \<Longrightarrow> cs_sess s' = cs_sess s \<and> cs_chans s' = cs_chans s \<and> cs_closed s' = cs_closed s"
  by (auto simp: deliverReply_def split: option.splits prod.splits dest!: Deliver_ok_same SendDatagram_frame)

interpretation connSys: invariant_system conn_init conn_step server_inv
proof unfold_locales
  show "conn_init s \<Longrightarrow> server_inv s" for s
    by (simp add: conn_init_def server_inv_def ids_inv_def chan_inv_def sess_inv_def chansLive_def hasChan_def inTable_def
        table_inv_def NewSessionTable_def)
  show "conn_step s t \<Longrightarrow> server_inv s \<Longrightarrow> server_inv t" for s t
  proof (induction rule: conn_step.induct)
    case (connect r cid idx cnt env t assign advertise s res c)
    then show ?case using server_inv_connect vpnHandler_range by blast
  next
    case (reads b0 n s c)
    then show ?case using server_inv_frame tunRead_frame by blast
  next
    case (delivers pkt dst s ok c)
    then show ?case using server_inv_frame deliverReply_frame by blast
  qed (simp_all add: server_inv_ends server_inv_leaves server_inv_frame)
qed

subsection \<open>A connected client\<close>

definition exConnState :: connState where
  "exConnState = \<lparr>cs_db = ex_conn ex_granted, cs_sess = NewSessionTable, cs_chans = Map.empty, cs_bufs = (\<lambda>_. []), cs_closed = [],
     TunAdapterSends = 0, TunAdapterDrops = 0, tunLoopSends = 0, tunChanDrops = 0\<rparr>"

definition exServer :: server where
  "exServer = \<lparr>sv_conn = exConnState, sv_next = 0, sv_running = [], sv_closing = []\<rparr>"

definition exRequest :: vpnRequest where
  "exRequest = \<lparr>vr_commonName = ''1'', vr_tunnelIndex = '''', vr_tunnelCount = ''''\<rparr>"

lemma exRequest_handled: "vpnHandler exRequest None True = HandleConn 1 0 1"
  by code_simp

lemma ex_ip: "intToIP goEnv 10 = print4 [0, 0, 0, 10]" "print4 [0, 0, 0, 10] \<noteq> []"
proof -
  have "bytes_of 4 (unat (10 :: u32)) = [0, 0, 0, 10]" by code_simp
  then show "intToIP goEnv 10 = print4 [0, 0, 0, 10]" by (simp add: goEnv_def)
  show "print4 [0, 0, 0, 10] \<noteq> []" by (simp add: print4_def)
qed

lemma ex_assigned: "svcAssignIPToClient goEnv 1 (ex_conn ex_granted) = (Inr (print4 [0, 0, 0, 10]), ex_conn ex_granted)"
  by (simp add: svcAssignIPToClient_def call_eval ex_granted_def ex_created_def ex_ip)

lemma ex_resources: "svcGetClientResources 1 (ex_conn ex_granted) =
    (Inr [\<lparr>s_id = 7, s_name = ''net'', s_value = ''10.0.0.0/8''\<rparr>, \<lparr>s_id = 7, s_name = ''net'', s_value = ''10.0.0.0/8''\<rparr>], ex_conn ex_granted)"
  by (simp add: svcGetClientResources_def GetClientResources_def call_eval ex_granted_def ex_created_def)

definition exConnSession :: TunnelSession where
  "exConnSession = \<lparr>ts_id = 0, InnerIP = 10, TunnelIndex = 0\<rparr>"

definition exTunnel :: tunnel where
  "exTunnel = \<lparr>tl_addr = 10, tl_sess = exConnSession, tl_idx = 0,
     tl_routes = [\<lparr>StartIP = Addr4 [10, 0, 0, 0], EndIP = Addr4 [10, 255, 255, 255]\<rparr>,
       \<lparr>StartIP = Addr4 [10, 0, 0, 0], EndIP = Addr4 [10, 255, 255, 255]\<rparr>]\<rparr>"

definition exUp :: connState where
  "exUp = exConnState\<lparr>cs_sess := Register exConnSession 1 NewSessionTable, cs_chans := registerChan 10 0 1 0 Map.empty\<rparr>"

lemma ex_setup: "setupConn goEnv ex_text6 (\<lambda>_. True) (\<lambda>_. True) 1 0 0 1 exConnState = (Inr exTunnel, exUp)"
proof -
  have p: "ParsePrefix ex_text6 ''10.0.0.0/8'' = Some \<lparr>PAddr = Addr4 [10, 0, 0, 0], PBits = 8\<rparr>"
    "LastIPAddr \<lparr>PAddr = Addr4 [10, 0, 0, 0], PBits = 8\<rparr> = Addr4 [10, 255, 255, 255]" by code_simp+
  have a: "ParseAddr ex_text6 (print4 [0, 0, 0, 10]) = Some (Addr4 [0, 0, 0, 10])" by (rule ParseAddr_print4) simp
  have "unat (be16 0 0) = 0" "unat (be16 0 10) = 10" by (simp_all add: unat_be16)
  then have g: "get32 [0, 0, 0, 10] 0 = (10 :: ip4)" by (simp add: get32_def get16_def be32_def)
  show ?thesis
    by (simp add: setupConn_def Let_def ex_assigned ex_resources a p g unmapAs4_def exConnState_def exTunnel_def exConnSession_def exUp_def)
qed

definition exServerUp :: server where
  "exServerUp = \<lparr>sv_conn = exUp, sv_next = 1, sv_running = [exTunnel], sv_closing = []\<rparr>"

lemma ex_server_up: "conn_init exServer" "conn_step\<^sup>*\<^sup>* exServer exServerUp"
proof -
  show "conn_init exServer" by (simp add: conn_init_def exServer_def exConnState_def)
  have "conn_step exServer (exServer\<lparr>sv_conn := exUp, sv_next := sv_next exServer + 1,
      sv_running := (case Inr exTunnel :: setupErr + tunnel of Inr tn \<Rightarrow> tn # sv_running exServer | Inl _ \<Rightarrow> sv_running exServer)\<rparr>)"
    by (rule conn_step.connect [OF exRequest_handled, where env = goEnv and t = ex_text6 and assign = "\<lambda>_. True" and advertise = "\<lambda>_. True"])
      (simp add: exServer_def ex_setup)
  then show "conn_step\<^sup>*\<^sup>* exServer exServerUp" by (simp add: exServer_def exServerUp_def r_into_rtranclp)
qed

subsection \<open>Properties\<close>



subsection \<open>The life of a connection\<close>

lemma Register_fresh:
  assumes "t (InnerIP x) = None"
  obtains g where "Register x cnt t = t(InnerIP x \<mapsto> g)" "\<And>y. Some y \<in> set (sessions g) \<Longrightarrow> y = x"
proof -
  let ?c = "if cnt < 1 then 1 else cnt"
  show thesis
    by (rule that [of "\<lparr>sessions = (growTo (TunnelIndex x) (replicate (nat ?c) None))[TunnelIndex x := Some x], sg_count = ?c\<rparr>"])
      (use assms in \<open>auto simp: Register_def Let_def dest!: growTo_upd_mem split: if_splits\<close>)
qed

lemma fresh_pick:
  assumes "table_inv t" "t (InnerIP x) = None" "Register x cnt t (InnerIP x) = Some g"
  shows "pick g pkt = Some x"
proof -
  have "group_inv (InnerIP x) g" using Register_inv [OF assms(1), of x cnt] assms(3) by (simp add: table_inv_def)
  then obtain y where "pick g pkt = Some y" "Some y \<in> set (sessions g)" by (rule pick_group)
  moreover obtain g' where "Register x cnt t = t(InnerIP x \<mapsto> g')" "\<And>y. Some y \<in> set (sessions g') \<Longrightarrow> y = x"
    by (rule Register_fresh [where t = t and x = x and cnt = cnt, OF assms(2)]) blast
  ultimately show ?thesis using assms(3) by auto
qed

lemma Remove_Register_fresh:
  assumes "table_inv t" "t (InnerIP x) = None"
  shows "RemoveSession x (Register x cnt t) = t"
proof -
  obtain g where g: "Register x cnt t = t(InnerIP x \<mapsto> g)" "\<And>y. Some y \<in> set (sessions g) \<Longrightarrow> y = x"
    by (rule Register_fresh [where t = t and x = x and cnt = cnt, OF assms(2)]) blast
  have "RemoveSession x (Register x cnt t) (InnerIP x) = None"
  proof (rule ccontr)
    assume "RemoveSession x (Register x cnt t) (InnerIP x) \<noteq> None"
    then obtain h where h: "RemoveSession x (Register x cnt t) (InnerIP x) = Some h" by blast
    then have "group_inv (InnerIP x) h" using RemoveSession_inv [OF Register_inv [OF assms(1)], of x x cnt] by (simp add: table_inv_def)
    then obtain y where y: "Some y \<in> set (sessions h)" by (rule pick_group)
    then have i: "inTable (RemoveSession x (Register x cnt t)) y" using h by (auto simp: inTable_def)
    have "Some y \<in> set (sessions g)"
      using y h g(1) by (auto simp: RemoveSession_def Let_def split: if_splits dest!: set_update_subset_insert [THEN subsetD])
    then show False using inTable_Remove(2) [OF Register_inv [OF assms(1)] i] g(2) by blast
  qed
  moreover have "RemoveSession x (Register x cnt t) k = t k" if "k \<noteq> InnerIP x" for k
    using that g(1) by (auto simp: RemoveSession_def Let_def split: option.split)
  ultimately show ?thesis using assms(2) by (metis ext)
qed

lemma teardown_register_fresh:
  assumes "m key = None" "0 \<le> idx" "idx < cnt"
  shows "teardownChan key idx (registerChan key idx cnt c m) = m"
  using assms by (auto simp: teardownChan_def registerChan_def chansOf_def Let_def list_ex_iff fun_upd_idem
      dest!: set_update_subset_insert [THEN subsetD])

text \<open>
  C24: While a connection is set up on an address that no other connection uses, a reply
  for the address goes into its channel, cut to the size of a buffer, when there is room;
  and when the connection has ended, both tables are as they were before it came.
\<close>

theorem conn_lifecycle_restores:
  assumes su: "setupConn env t assign advertise cid tc idx cnt s = (Inr tn, s1)" and idx: "0 \<le> idx" "idx < cnt"
    and free: "table_inv (cs_sess s)" "cs_sess s (tl_addr tn) = None" "cs_chans s (tl_addr tn) = None"
    and room: "tc \<notin> set (cs_closed s)" "length (cs_bufs s1 tc) < 4096" and pkt: "20 \<le> length pkt"
  shows "map_option (\<lambda>(ok, s2). (ok, cs_bufs s2 tc)) (deliverReply pkt (tl_addr tn) s1) = Some (True, cs_bufs s1 tc @ [take 4096 pkt]) \<and>
     cs_sess (leaveConn tn (closeConn tn s1)) = cs_sess s \<and> cs_chans (leaveConn tn (closeConn tn s1)) = cs_chans s"
  using su
proof (cases rule: setup_effect)
  case (3 ip sess routes)
  then have tn: "tl_addr tn = ip" "tl_sess tn = sess" "tl_idx tn = idx" and ip: "InnerIP sess = ip" and id: "ts_id sess = tc" by auto
  have fr: "cs_sess s (InnerIP sess) = None" using free(2) tn ip by simp
  obtain g where g: "cs_sess s1 ip = Some g" using 3(3) Register_group [OF free(1), of sess cnt] ip by auto
  have "pick g pkt = Some sess" using fresh_pick [OF free(1) fr] g 3(3) ip by simp
  then have "Deliver (\<lambda>_ _. True) pkt ip (cs_sess s1) = (True, Some sess, cs_sess s1)"
    using g pkt by (simp add: Deliver_def)
  then have "map_option (\<lambda>(ok, s2). (ok, cs_bufs s2 tc)) (deliverReply pkt ip s1) = Some (True, cs_bufs s1 tc @ [take 4096 pkt])"
    using room 3(2) id by (simp add: deliverReply_def SendDatagram_def trySend_def tunChanCap_def)
  moreover have "RemoveSession sess (cs_sess s1) = cs_sess s" unfolding 3(3) by (rule Remove_Register_fresh [OF free(1) fr])
  moreover have "teardownChan ip idx (cs_chans s1) = cs_chans s"
    unfolding 3(4) using teardown_register_fresh [of "cs_chans s" ip idx cnt tc] idx free(3) tn by simp
  ultimately show ?thesis using tn by (simp add: leaveConn_def closeConn_def Let_def)
qed auto

lemma exUp_facts: "table_inv (cs_sess exConnState)" "cs_sess exConnState 10 = None" "cs_chans exConnState 10 = None" "cs_bufs exUp = (\<lambda>_. [])"
  "cs_closed exConnState = []" "cs_closed exUp = []" "tl_addr exTunnel = 10" "tl_sess exTunnel = exConnSession"
  by (simp_all add: exUp_def exConnState_def NewSessionTable_def table_inv_def exTunnel_def)

theorem conn_lifecycle_restores_witness:
  "map_option (\<lambda>(ok, s2). (ok, cs_bufs s2 0)) (deliverReply (replicate 20 0) 10 exUp) = Some (True, [replicate 20 0]) \<and>
   cs_chans (leaveConn exTunnel (closeConn exTunnel exUp)) = Map.empty"
  using conn_lifecycle_restores [OF ex_setup, of "replicate 20 0"] exUp_facts by (simp add: exConnState_def)

text \<open>
  C37: Between closing its channel and removing its session, a connection leaves its
  session in the table, and a reply that is delivered to it in that time is a send on a
  closed channel, which panics and ends the server. Once the session is removed the same
  reply is merely undeliverable.
\<close>

theorem reply_after_close_panics:
  assumes su: "setupConn env t assign advertise cid tc idx cnt s = (Inr tn, s1)"
    and free: "table_inv (cs_sess s)" "cs_sess s (tl_addr tn) = None" and pkt: "20 \<le> length pkt"
  shows "deliverReply pkt (tl_addr tn) (closeConn tn s1) = None \<and>
     map_option fst (deliverReply pkt (tl_addr tn) (leaveConn tn (closeConn tn s1))) = Some False"
  using su
proof (cases rule: setup_effect)
  case (3 ip sess routes)
  then have tn: "tl_addr tn = ip" "tl_sess tn = sess" and ip: "InnerIP sess = ip" by auto
  have fr: "cs_sess s (InnerIP sess) = None" using free(2) tn ip by simp
  obtain g where g: "cs_sess s1 ip = Some g" using 3(3) Register_group [OF free(1), of sess cnt] ip by auto
  have "pick g pkt = Some sess" using fresh_pick [OF free(1) fr] g 3(3) ip by simp
  then have "deliverReply pkt ip (closeConn tn s1) = None"
    using g pkt tn by (simp add: deliverReply_def Deliver_def SendDatagram_def trySend_def closeConn_def Let_def)
  moreover have "RemoveSession sess (cs_sess s1) = cs_sess s" unfolding 3(3) by (rule Remove_Register_fresh [OF free(1) fr])
  then have "map_option fst (deliverReply pkt ip (leaveConn tn (closeConn tn s1))) = Some False"
    using fr pkt tn ip by (simp add: leaveConn_def closeConn_def Let_def deliverReply_def Deliver_def)
  ultimately show ?thesis using tn by simp
qed auto

theorem reply_after_close_panics_witness: "deliverReply (replicate 20 0) 10 (closeConn exTunnel exUp) = None"
  using reply_after_close_panics [OF ex_setup, of "replicate 20 0"] exUp_facts by simp

subsection \<open>What a client is told\<close>

lemma assignIP_stored:
  assumes "AssignIPToClient env cid c = (Inr ip, c')"
  shows "\<exists>r \<in> set (clients (cn_db c')). c_id r = cid \<and> c_ip r = Some ip"
  using assms
proof (cases rule: assignIP_cases)
  case (kept r0)
  then show ?thesis using first_row_Inr [OF kept(2)] by (intro bexI [of _ r0]) auto
next
  case (taken r0 r)
  then have "r0\<lparr>c_ip := Some ip\<rparr> \<in> set (clients (cn_db c'))" using first_row_Inr [OF taken(1)] by (auto simp: image_iff intro!: bexI [of _ r0])
  then show ?thesis using first_row_Inr [OF taken(1)] by (intro bexI [of _ "r0\<lparr>c_ip := Some ip\<rparr>"]) simp_all
qed

lemma GetClientResources_set:
  assumes "GetClientResources cid c = (Inr rs, c')"
  shows "cn_db c' = cn_db c" "set rs = {x \<in> set (resources (cn_db c)). \<exists>rid. (cid, rid) \<in> set (clients_roles (cn_db c)) \<and>
     (rid, s_id x) \<in> set (roles_resources (cn_db c))}"
proof -
  let ?d = "cn_db c"
  have rs: "rs = concat (map (\<lambda>s. concat (map (\<lambda>(rid, sid). if sid = s_id s
      then map (\<lambda>_. s) (filter (\<lambda>(c, r). r = rid \<and> c = cid) (clients_roles ?d)) else []) (roles_resources ?d))) (resources ?d))"
    using assms unfolding GetClientResources_def by (elim run_tx_InrE query_InrE) (simp only: sum.inject)
  show "cn_db c' = ?d" using assms unfolding GetClientResources_def by (elim run_tx_InrE query_InrE) simp
  show "set rs = {x \<in> set (resources ?d). \<exists>rid. (cid, rid) \<in> set (clients_roles ?d) \<and> (rid, s_id x) \<in> set (roles_resources ?d)}"
    unfolding rs by (force split: if_splits)
qed

lemma advertisedRoutes_set:
  "set (advertisedRoutes t rs) = {\<lparr>StartIP = PAddr p, EndIP = LastIPAddr p\<rparr> | p x. x \<in> set rs \<and> ParsePrefix t (s_value x) = Some p}"
  by (induction rs) (auto split: option.split)

lemma parseIPv4Fields_length: "parseIPv4Fields s v d fs = Some bs \<Longrightarrow> length fs \<le> 3 \<Longrightarrow> length bs = 4"
  by (induction s v d fs rule: parseIPv4Fields.induct) (auto simp: Let_def split: if_splits)

lemma ParsePrefix_4: "ParsePrefix t v = Some p \<Longrightarrow> PAddr p = Addr4 bs \<Longrightarrow> prefix_ok p \<and> length bs = 4"
  by (auto simp: ParsePrefix_def ParseAddr_def prefix_ok_def Let_def dest!: parseIPv4Fields_length split: if_splits option.splits list.splits)

lemma between_same_net:
  assumes "N \<le> n" "n \<le> N div 2 ^ h * 2 ^ h + (2 ^ h - 1)"
  shows "n div 2 ^ h = N div (2 :: nat) ^ h"
proof -
  have "(N div 2 ^ h * 2 ^ h + (2 ^ h - 1)) div 2 ^ h = N div (2 :: nat) ^ h" by (rule block_div) simp
  then show ?thesis using div_le_mono [OF assms(1), of "2 ^ h"] div_le_mono [OF assms(2), of "2 ^ h"] by simp
qed

lemma setup_success:
  assumes "setupConn env t assign advertise cid tc idx cnt s = (Inr tn, s')"
  obtains ip a c1 rs c2 where "AssignIPToClient env cid (cs_db s) = (Inr ip, c1)" "ParseAddr t ip = Some a" "unmapAs4 a = Some (tl_addr tn)"
    "GetClientResources cid c1 = (Inr rs, c2)" "cs_db s' = c2" "tl_routes tn = advertisedRoutes t rs" "assign a" "advertise (tl_routes tn)"
    "InnerIP (tl_sess tn) = tl_addr tn"
  using assms unfolding setupConn_def Let_def svcAssignIPToClient_def svcGetClientResources_def
  by (auto split: prod.splits sum.splits option.splits if_splits)

lemma hasChan_mem: "hasChan m k i c \<Longrightarrow> Some c \<in> set (chansOf m k)"
  by (auto simp: hasChan_def chansOf_def dest: nth_mem)

definition granted :: "db \<Rightarrow> int \<Rightarrow> resource_row \<Rightarrow> bool" where
  "granted d cid x \<longleftrightarrow> x \<in> set (resources d) \<and> (\<exists>rid. (cid, rid) \<in> set (clients_roles d) \<and> (rid, s_id x) \<in> set (roles_resources d))"



text \<open>
  A connection that fails after it has entered its channel, because its resources
  cannot be read or its routes cannot be advertised, removes its session but leaves the
  channel in the table. Packets that the TUN reader has for the address are put into
  that channel, which nothing reads.
\<close>

theorem setup_failure_leaks_channel:
  assumes su: "setupConn env t assign advertise cid tc idx cnt s = (Inl e, s')" and e: "e = NoResources \<or> e = AdvertiseFailed"
    and idx: "0 \<le> idx" "idx < cnt" and free: "cs_sess s = NewSessionTable" "cs_chans s = Map.empty"
  shows "cs_sess s' = NewSessionTable \<and>
    (\<exists>ip. hasChan (cs_chans s') ip (nat idx) tc \<and> (\<forall>pkt. pickTunnel (chansOf (cs_chans s') ip) pkt = Some tc))"
proof -
  obtain ip sess where f: "sess = \<lparr>ts_id = tc, InnerIP = ip, TunnelIndex = nat idx\<rparr>"
    "cs_sess s' = RemoveSession sess (Register sess cnt (cs_sess s))" "cs_chans s' = registerChan ip idx cnt tc (cs_chans s)"
    using su e unfolding setupConn_def Let_def by (auto split: prod.splits sum.splits option.splits if_splits)
  have "cs_sess s' = cs_sess s" unfolding f(2) by (rule Remove_Register_fresh) (simp_all add: free NewSessionTable_def table_inv_def)
  moreover have h: "hasChan (cs_chans s') ip (nat idx) tc" unfolding f(3) by (rule register_here [OF idx])
  moreover have "pickTunnel (chansOf (cs_chans s') ip) pkt = Some tc" for pkt
  proof (cases "pickTunnel (chansOf (cs_chans s') ip) pkt")
    case None
    then show ?thesis using hasChan_mem [OF h] unfolding pickTunnel_none by auto
  next
    case (Some c)
    then obtain i where "hasChan (cs_chans s') ip i c" using pick_hasChan by blast
    then show ?thesis using register_slot [of ip idx cnt tc "cs_chans s" ip i c] free(2) f(3) Some by (auto simp: hasChan_def)
  qed
  ultimately show ?thesis using free(1) by auto
qed

theorem setup_failure_leaks_channel_witness:
  "\<exists>s'. setupConn goEnv ex_text6 (\<lambda>_. True) (\<lambda>_. False) 1 0 0 1 exConnState = (Inl AdvertiseFailed, s') \<and>
     cs_sess s' = NewSessionTable \<and> (\<exists>ip. hasChan (cs_chans s') ip 0 0)"
proof -
  have "ParseAddr ex_text6 (print4 [0, 0, 0, 10]) = Some (Addr4 [0, 0, 0, 10])" by (rule ParseAddr_print4) simp
  then obtain s' where s': "setupConn goEnv ex_text6 (\<lambda>_. True) (\<lambda>_. False) 1 0 0 1 exConnState = (Inl AdvertiseFailed, s')"
    by (simp add: setupConn_def Let_def ex_assigned ex_resources unmapAs4_def exConnState_def)
  show ?thesis
    using setup_failure_leaks_channel [OF s'] s' by (auto simp: exConnState_def NewSessionTable_def table_inv_def)
qed

end
