(* ===== verification/Startup.thy ===== *)
theory Startup
  imports Nics HandleConn
begin

text \<open>
  Start-up and shut-down in \<^verbatim>\<open>main.go\<close>: the steps of \<^verbatim>\<open>main\<close> that read the configuration and derive
  the MTU of the tunnel, the TUN device, the limits raised in \<^verbatim>\<open>/proc/sys\<close>, the set-up of the
  datapath in \<^verbatim>\<open>run\<close> up to the QUIC transport, and what a shut-down restores.
\<close>

subsection \<open>Numbers as text\<close>

text \<open>\<^verbatim>\<open>strconv.Itoa\<close> of a natural number, \<^verbatim>\<open>strconv.ParseUint(s, 10, 64)\<close> and \<^verbatim>\<open>strings.Fields\<close>.\<close>

fun itoa :: "nat \<Rightarrow> string" where
  "itoa n = (if n < 10 then [digit n] else itoa (n div 10) @ [digit (n mod 10)])"

declare itoa.simps [simp del]

definition ParseUint64 :: "string \<Rightarrow> nat option" where
  "ParseUint64 s = (if s = [] then None else case atoi s 0 of None \<Rightarrow> None | Some n \<Rightarrow> if n < 2 ^ 64 then Some n else None)"

function Fields :: "string \<Rightarrow> string list" where
  "Fields s =
     (let r = dropWhile isSpace s
      in if r = [] then [] else takeWhile (\<lambda>c. \<not> isSpace c) r # Fields (dropWhile (\<lambda>c. \<not> isSpace c) r))"
  by pat_completeness auto

termination
proof (relation "measure length")
  fix s r :: string
  assume r: "r = dropWhile isSpace s" "r \<noteq> []"
  then have "\<not> isSpace (hd r)" using hd_dropWhile by blast
  then have "length (dropWhile (\<lambda>c. \<not> isSpace c) r) < length r"
    using r(2) by (cases r) (auto simp: le_imp_less_Suc length_dropWhile_le)
  also have "\<dots> \<le> length s" using r(1) by (simp add: length_dropWhile_le)
  finally show "(dropWhile (\<lambda>c. \<not> isSpace c) r, s) \<in> measure length" by simp
qed simp

declare Fields.simps [simp del]

subsection \<open>The MTU of the tunnel\<close>

definition xdpNativeMaxMTU :: int where "xdpNativeMaxMTU = 3506"
definition outerOverhead :: int where "outerOverhead = 56"
definition datagramOverhead :: int where "datagramOverhead = 28"
definition maxQUICPacket :: int where "maxQUICPacket = 4000"

text \<open>The smallest MTU of the uplink and of the other real interfaces that are up.\<close>

fun minEgress :: "host \<Rightarrow> string \<Rightarrow> link list \<Rightarrow> int \<Rightarrow> int" where
  "minEgress h ifaceName [] m = m"
| "minEgress h ifaceName (l # ls) m =
     (let n = lk_Name l in
      if n = ifaceName \<or> n = ''lo'' \<or> hasPrefix ''tm'' n then minEgress h ifaceName ls m
      else if \<not> lk_Up l \<or> \<not> IsRealNIC h n then minEgress h ifaceName ls m
      else if lk_MTU l > 0 \<and> lk_MTU l < m then minEgress h ifaceName ls (lk_MTU l)
      else minEgress h ifaceName ls m)"

definition clampIPS :: "int \<Rightarrow> int" where
  "clampIPS n = (let n = (if n > maxQUICPacket then maxQUICPacket else n) in if n < 1252 then 1252 else n)"

definition autoMTU :: "host \<Rightarrow> string \<Rightarrow> link \<Rightarrow> nat \<times> int" where
  "autoMTU h ifaceName l =
     (let effWanMTU = (case LinkList h of None \<Rightarrow> lk_MTU l | Some ls \<Rightarrow> minEgress h ifaceName ls (lk_MTU l));
          effWanMTU = (if effWanMTU > xdpNativeMaxMTU then xdpNativeMaxMTU else effWanMTU);
          ips = clampIPS (effWanMTU - outerOverhead);
          inner = ips - datagramOverhead;
          inner = (if inner < 576 then 576 else inner)
      in (nat inner, ips))"

text \<open>
  The pair of the inner MTU and of the size of a QUIC packet. The sum of the override is one of 64-bit
  integers, which wraps.
\<close>

definition tunnelMTU :: "host \<Rightarrow> confCtx \<Rightarrow> string \<Rightarrow> link \<Rightarrow> nat \<times> int" where
  "tunnelMTU h ctx ifaceName l =
     (let mtu = (case map_of ctx ''TUNNEL_MTU'' of
                   Some v \<Rightarrow> (case ParseUint64 v of Some m \<Rightarrow> m | None \<Rightarrow> 0)
                 | None \<Rightarrow> 0)
      in if mtu > 0 then (mtu, clampIPS (sint (of_nat mtu + word_of_int datagramOverhead :: u64)))
         else autoMTU h ifaceName l)"

subsection \<open>The first steps of main\<close>

datatype bootStop = Panics | Exits

record bootState =
  bs_iface :: string
  bs_bind :: "Addr \<times> u16"
  bs_virtIP :: string
  bs_virtPrefix :: Prefix
  bs_mtu :: nat
  bs_ips :: int
  bs_wanAddr :: bytes
  bs_lans :: "prefix list"
  bs_mode :: fwdMode

text \<open>
  The values are read with unchecked assertions, so that an absent key is a panic; a text that
  cannot be parsed ends the process, but for \<^verbatim>\<open>BIND_ADDR\<close>, where it is a panic too.
  \<^verbatim>\<open>net.ParseCIDR\<close> accepts what \<^verbatim>\<open>FirstUsableIP\<close> accepts.
\<close>

definition usableOf :: "link \<Rightarrow> bytes option" where
  "usableOf l = (case lk_Addrs l of None \<Rightarrow> None | Some addrs \<Rightarrow> map_option (\<lambda>a. Unmap (ia_IP a)) (List.find usableAddr addrs))"

definition need :: "bootStop \<Rightarrow> 'a option \<Rightarrow> ('a \<Rightarrow> bootStop + 'b) \<Rightarrow> bootStop + 'b" where
  "need stop x f = (case x of None \<Rightarrow> Inl stop | Some a \<Rightarrow> f a)"

definition mainBoot :: "host \<Rightarrow> text6 \<Rightarrow> confCtx \<Rightarrow> bootStop + bootState" where
  "mainBoot h t6 ctx =
     need Panics (map_of ctx ''LOG_LEVEL'') (\<lambda>_.
     need Panics (map_of ctx ''WAN_INTERFACE'') (\<lambda>ifaceName.
     need Panics (map_of ctx ''BIND_ADDR'') (\<lambda>bindStr.
     need Panics (ParseAddr t6 bindStr) (\<lambda>bindAddr.
     need Panics (map_of ctx ''LISTEN_PORT'') (\<lambda>portStr.
     need Exits (parseInt64 portStr) (\<lambda>listenPort.
     need Panics (map_of ctx ''VIRT_CIDR'') (\<lambda>virtCIDR.
     need Exits (case FirstUsableIP t6 virtCIDR of Inr ip \<Rightarrow> Some ip | Inl _ \<Rightarrow> None) (\<lambda>virtIP.
     need Exits (ParseAddr t6 virtIP) (\<lambda>_.
     need Exits (ParsePrefix t6 virtCIDR) (\<lambda>vp.
     need Exits (LinkByName h ifaceName) (\<lambda>l.
     need Exits (usableOf l) (\<lambda>wan.
       Inr \<lparr>bs_iface = ifaceName, bs_bind = (bindAddr, word_of_int listenPort), bs_virtIP = virtIP, bs_virtPrefix = Masked vp,
            bs_mtu = fst (tunnelMTU h ctx ifaceName l), bs_ips = snd (tunnelMTU h ctx ifaceName l), bs_wanAddr = wan,
            bs_lans = buildLocalLANs h ifaceName, bs_mode = bootMode ctx\<rparr>))))))))))))"

subsection \<open>The TUN device\<close>

record tunDev =
  td_name :: string
  td_queues :: nat
  td_gso :: bool
  td_addr :: string
  td_mtu :: int
  td_route :: Prefix

datatype tunError = QueueFailed nat | NoLink | UpFailed | BadCIDR | RouteFailed

datatype routeAdded = RouteAdded | RouteExists | RouteRefused

text \<open>The answers of the kernel: queue by queue, the link, its activation and the route.\<close>

record tunHost =
  th_queue :: "nat \<Rightarrow> bool"
  th_link :: bool
  th_up :: bool
  th_route :: routeAdded

definition tunQueues :: "nat \<Rightarrow> confCtx \<Rightarrow> int" where
  "tunQueues numCPU ctx = (let n = confInt ctx ''TUN_QUEUES'' (int numCPU) in if n \<le> 0 then int numCPU else n)"

definition createTunTapDevice :: "tunHost \<Rightarrow> text6 \<Rightarrow> nat \<Rightarrow> confCtx \<Rightarrow> string \<Rightarrow> nat \<Rightarrow> int \<Rightarrow> bool \<Rightarrow> tunError + tunDev" where
  "createTunTapDevice th t6 numCPU ctx virtIp virtPrefixLen mtu gso =
     (let numQueues = nat (tunQueues numCPU ctx) in
      case List.find (\<lambda>i. \<not> th_queue th i) [0..<numQueues] of
        Some i \<Rightarrow> Inl (QueueFailed i)
      | None \<Rightarrow>
          if \<not> th_link th then Inl NoLink
          else if \<not> th_up th then Inl UpFailed
          else case (case map_of ctx ''VIRT_CIDR'' of None \<Rightarrow> None | Some cidr \<Rightarrow> ParsePrefix t6 cidr) of
                 None \<Rightarrow> Inl BadCIDR
               | Some p \<Rightarrow>
                   if th_route th = RouteRefused then Inl RouteFailed
                   else Inr \<lparr>td_name = ''tm0'', td_queues = numQueues, td_gso = gso, td_addr = virtIp @ ''/'' @ itoa virtPrefixLen,
                             td_mtu = mtu, td_route = Masked p\<rparr>)"

subsection \<open>Limits of the kernel\<close>

definition udpBufTarget :: nat where "udpBufTarget = 7864320"
definition innerTCPBufTarget :: nat where "innerTCPBufTarget = 33554432"

type_synonym procfs = "string \<rightharpoonup> string"

definition sysctlPath :: "string \<Rightarrow> string" where
  "sysctlPath key = ''/proc/sys/'' @ map (\<lambda>c. if c = CHR ''.'' then CHR ''/'' else c) key"

definition raiseSysctl :: "(string \<Rightarrow> bool) \<Rightarrow> string \<Rightarrow> nat \<Rightarrow> procfs \<Rightarrow> procfs" where
  "raiseSysctl writable key target fs =
     (let path = sysctlPath key;
          cur = (case fs path of Some b \<Rightarrow> atoiVal (trimSpace b) | None \<Rightarrow> 0)
      in if cur \<ge> int target then fs
         else if \<not> writable path then fs
         else fs(path \<mapsto> itoa target))"

definition raiseSysctlTriple :: "(string \<Rightarrow> bool) \<Rightarrow> string \<Rightarrow> nat \<Rightarrow> procfs \<Rightarrow> procfs" where
  "raiseSysctlTriple writable key targetMax fs =
     (let path = sysctlPath key in
      case fs path of
        None \<Rightarrow> fs
      | Some b \<Rightarrow>
          (case Fields (trimSpace b) of
             [f0, f1, f2] \<Rightarrow>
               if atoiVal f2 \<ge> int targetMax then fs
               else if \<not> writable path then fs
               else fs(path \<mapsto> f0 @ '' '' @ f1 @ '' '' @ itoa targetMax)
           | _ \<Rightarrow> fs))"

definition tuneUDPBuffers :: "(string \<Rightarrow> bool) \<Rightarrow> procfs \<Rightarrow> procfs" where
  "tuneUDPBuffers w fs = raiseSysctl w ''net.core.wmem_max'' udpBufTarget (raiseSysctl w ''net.core.rmem_max'' udpBufTarget fs)"

definition tuneInnerTCPBuffers :: "(string \<Rightarrow> bool) \<Rightarrow> procfs \<Rightarrow> procfs" where
  "tuneInnerTCPBuffers w fs =
     raiseSysctlTriple w ''net.ipv4.tcp_rmem'' innerTCPBufTarget (raiseSysctlTriple w ''net.ipv4.tcp_wmem'' innerTCPBufTarget fs)"

subsection \<open>Shut-down\<close>

text \<open>
  The files bootstrap left in \<^verbatim>\<open>/etc/tmasqued\<close>, the MTUs of the links, the commands given to \<^verbatim>\<open>ethtool\<close>, and the
  interfaces the program is attached to. \<open>setMTU\<close> says whether the kernel accepts an MTU for a
  link with or without a program.
\<close>

record shutState =
  ss_files :: "(string \<times> string option) list"
  ss_mtu :: "string \<rightharpoonup> int"
  ss_ethtool :: "(string \<times> string \<times> string) list"
  ss_attached :: "string list"

definition hasSuffix :: "string \<Rightarrow> string \<Rightarrow> bool" where
  "hasSuffix suf s \<longleftrightarrow> length suf \<le> length s \<and> drop (length s - length suf) s = suf"

definition trimSuffix :: "string \<Rightarrow> string \<Rightarrow> string" where
  "trimSuffix suf s = (if hasSuffix suf s then take (length s - length suf) s else s)"

definition removeFile :: "string \<Rightarrow> shutState \<Rightarrow> shutState" where
  "removeFile f s = s\<lparr>ss_files := filter (\<lambda>e. fst e \<noteq> f) (ss_files s)\<rparr>"

definition restoreMTU1 :: "(string \<Rightarrow> int \<Rightarrow> bool \<Rightarrow> bool) \<Rightarrow> string \<times> string option \<Rightarrow> shutState \<Rightarrow> shutState" where
  "restoreMTU1 setMTU f s =
     (let iface = trimSuffix ''.wan_mtu.orig'' (fst f) in
      if iface = [] then s
      else case snd f of
             None \<Rightarrow> s
           | Some data \<Rightarrow>
               (case parseInt64 (trimSpace data) of
                  None \<Rightarrow> removeFile (fst f) s
                | Some mtu \<Rightarrow>
                    if mtu \<le> 0 then removeFile (fst f) s
                    else let s = (if ss_mtu s iface \<noteq> None \<and> setMTU iface mtu (iface \<in> set (ss_attached s))
                                  then s\<lparr>ss_mtu := (ss_mtu s)(iface \<mapsto> mtu)\<rparr> else s)
                         in removeFile (fst f) s))"

definition restoreWanMTU :: "(string \<Rightarrow> int \<Rightarrow> bool \<Rightarrow> bool) \<Rightarrow> shutState \<Rightarrow> shutState" where
  "restoreWanMTU setMTU s = fold (restoreMTU1 setMTU) (filter (\<lambda>f. hasSuffix ''.wan_mtu.orig'' (fst f)) (ss_files s)) s"

fun offloadCmds :: "string \<Rightarrow> string list \<Rightarrow> (string \<times> string \<times> string) list" where
  "offloadCmds iface [] = []"
| "offloadCmds iface (l # ls) =
     (case Fields l of
        [f0, f1] \<Rightarrow> if f1 \<noteq> ''on'' \<and> f1 \<noteq> ''off'' then offloadCmds iface ls else (iface, f0, f1) # offloadCmds iface ls
      | _ \<Rightarrow> offloadCmds iface ls)"

definition restoreOffloads1 :: "string \<times> string option \<Rightarrow> shutState \<Rightarrow> shutState" where
  "restoreOffloads1 f s =
     (let iface = trimSuffix ''.offloads.orig'' (fst f) in
      if iface = [] then s
      else case snd f of
             None \<Rightarrow> s
           | Some data \<Rightarrow> removeFile (fst f) (s\<lparr>ss_ethtool := ss_ethtool s @ offloadCmds iface (splitNL data)\<rparr>))"

definition restoreWanOffloads :: "shutState \<Rightarrow> shutState" where
  "restoreWanOffloads s = fold restoreOffloads1 (filter (\<lambda>f. hasSuffix ''.offloads.orig'' (fst f)) (ss_files s)) s"

definition closeLoader :: "string \<Rightarrow> shutState \<Rightarrow> shutState" where
  "closeLoader n s = s\<lparr>ss_attached := removeAll n (ss_attached s)\<rparr>"

definition GracefullyShutDown :: "(string \<Rightarrow> int \<Rightarrow> bool \<Rightarrow> bool) \<Rightarrow> string list \<Rightarrow> shutState \<Rightarrow> shutState" where
  "GracefullyShutDown setMTU loaders s = restoreWanOffloads (restoreWanMTU setMTU (fold closeLoader loaders s))"

subsection \<open>The MTU fits\<close>

lemma minEgress_le: "minEgress h w ls m \<le> m"
  by (induction ls arbitrary: m) (auto simp: Let_def intro: order_trans less_imp_le)

text \<open>The interfaces a packet of the tunnel may leave by, other than the uplink.\<close>

definition egressLink :: "host \<Rightarrow> string \<Rightarrow> link \<Rightarrow> bool" where
  "egressLink h w l \<longleftrightarrow> lk_Name l \<noteq> w \<and> lk_Name l \<noteq> ''lo'' \<and> \<not> hasPrefix ''tm'' (lk_Name l) \<and> lk_Up l \<and> IsRealNIC h (lk_Name l) \<and> lk_MTU l > 0"

lemma minEgress_step: "minEgress h w (l # ls) m = minEgress h w ls (if egressLink h w l \<and> lk_MTU l < m then lk_MTU l else m)"
  by (auto simp: egressLink_def Let_def)

lemma minEgress_link: "l \<in> set ls \<Longrightarrow> egressLink h w l \<Longrightarrow> minEgress h w ls m \<le> lk_MTU l"
proof (induction ls arbitrary: m)
  case Nil
  then show ?case by simp
next
  case (Cons a ls)
  show ?case
  proof (cases "l \<in> set ls")
    case True
    then show ?thesis using Cons.IH Cons.prems(2) by (simp only: minEgress_step)
  next
    case False
    then have "a = l" using Cons.prems(1) by simp
    then show ?thesis using minEgress_le [of h w ls "if lk_MTU l < m then lk_MTU l else m"] Cons.prems(2)
      by (auto simp only: minEgress_step split: if_splits)
  qed
qed

lemma minEgress_ge: "B \<le> m \<Longrightarrow> \<forall>l\<in>set ls. egressLink h w l \<longrightarrow> B \<le> lk_MTU l \<Longrightarrow> B \<le> minEgress h w ls m"
  by (induction ls arbitrary: m) (auto simp: minEgress_step simp del: minEgress.simps(2))

lemmas mtu_consts = xdpNativeMaxMTU_def outerOverhead_def datagramOverhead_def maxQUICPacket_def

text \<open>
  C20: The tunnel's MTU fits the links. Without an override, a QUIC packet has between
  1252 and 3450 bytes, which its 16-bit field holds; an inner packet of the tunnel's MTU and the
  28 bytes around it fill a QUIC packet exactly; and when the uplink and every other
  real interface that is up have an MTU of at least 1308, a QUIC packet with its headers and the margin fits
  the uplink, and an inner packet every interface it may leave by.
\<close>

theorem tunnel_mtu_fits:
  assumes "map_of ctx ''TUNNEL_MTU'' = None" "LinkList h = Some ls" "tunnelMTU h ctx w l = (mtu, ips)"
  shows "1252 \<le> ips \<and> ips \<le> 3450 \<and> uint (word_of_int ips :: u16) = ips \<and> int mtu + datagramOverhead = ips \<and>
    ((1308 \<le> lk_MTU l \<and> (\<forall>l'\<in>set ls. egressLink h w l' \<longrightarrow> 1308 \<le> lk_MTU l')) \<longrightarrow>
       ips + outerOverhead \<le> lk_MTU l \<and> (\<forall>l'\<in>set ls. egressLink h w l' \<longrightarrow> int mtu + datagramOverhead + outerOverhead \<le> lk_MTU l'))"
proof -
  define m where "m = minEgress h w ls (lk_MTU l)"
  have "autoMTU h w l = (mtu, ips)" using assms by (simp add: tunnelMTU_def)
  then have e: "mtu = nat (max 576 (ips - 28))" "ips = max 1252 (min 3506 m - 56)"
    using assms(2) by (auto simp: autoMTU_def clampIPS_def mtu_consts Let_def m_def max_def min_def split: if_splits)
  then have b: "1252 \<le> ips" "ips \<le> 3450" "int mtu + 28 = ips" by (auto simp: max_def min_def)
  have w: "uint (word_of_int ips :: u16) = ips" using b by (simp add: uint_word_of_int_eq take_bit_int_eq_self)
  have "ips + 56 \<le> m" if "1308 \<le> lk_MTU l" "\<forall>l'\<in>set ls. egressLink h w l' \<longrightarrow> 1308 \<le> lk_MTU l'"
    using minEgress_ge [OF that] e(2) by (simp add: m_def max_def min_def)
  moreover have "m \<le> lk_MTU l" "\<And>l'. l' \<in> set ls \<Longrightarrow> egressLink h w l' \<Longrightarrow> m \<le> lk_MTU l'"
    unfolding m_def by (rule minEgress_le, rule minEgress_link)
  ultimately show ?thesis using b w by (fastforce simp: datagramOverhead_def outerOverhead_def)
qed

text \<open>
  A pinned MTU need not fit. With \<^verbatim>\<open>TUNNEL_MTU\<close> set to a positive number, the tunnel
  gets exactly that MTU, but the size of a QUIC packet is cut at 4000 bytes: an inner packet of the
  tunnel's MTU still fits in one datagram only up to 3972 bytes.
\<close>

theorem pinned_mtu_fits_iff:
  assumes "map_of ctx ''TUNNEL_MTU'' = Some v" "ParseUint64 v = Some m" "0 < m" "m < 2 ^ 63 - 28" "tunnelMTU h ctx w l = (mtu, ips)"
  shows "mtu = m \<and> 1252 \<le> ips \<and> ips \<le> 4000 \<and> (int mtu + datagramOverhead \<le> ips \<longleftrightarrow> m \<le> 3972)"
proof -
  have "sint (of_nat m + word_of_int datagramOverhead :: u64) = int m + 28"
  proof -
    have "of_nat m + word_of_int datagramOverhead = (word_of_int (int m + 28) :: u64)"
      by (simp add: datagramOverhead_def)
    moreover have "sint (word_of_int (int m + 28) :: u64) = int m + 28"
      by (subst signed_of_int) (use assms(4) in \<open>simp add: signed_take_bit_int_eq_self\<close>)
    ultimately show ?thesis by simp
  qed
  then have "mtu = m" "ips = max 1252 (min 4000 (int m + 28))"
    using assms by (auto simp: tunnelMTU_def clampIPS_def maxQUICPacket_def Let_def max_def min_def split: if_splits)
  then show ?thesis by (auto simp: datagramOverhead_def max_def min_def)
qed

lemma exAutoMTU: "map_of ([] :: confCtx) ''TUNNEL_MTU'' = None"
  by simp

theorem tunnel_mtu_fits_witness:
  "int (fst (tunnelMTU exHost [] ''eth0'' exEth0)) + datagramOverhead = snd (tunnelMTU exHost [] ''eth0'' exEth0)"
  using tunnel_mtu_fits [OF exAutoMTU, of exHost "[exLo, exEth0, exEth1]" "''eth0''" exEth0 "fst (tunnelMTU exHost [] ''eth0'' exEth0)"
      "snd (tunnelMTU exHost [] ''eth0'' exEth0)"] by (simp add: exHost_def)

theorem pinned_mtu_fits_iff_witness:
  "\<not> int (fst (tunnelMTU exHost [(''TUNNEL_MTU'', ''5000'')] ''eth0'' exEth0)) + datagramOverhead \<le>
       snd (tunnelMTU exHost [(''TUNNEL_MTU'', ''5000'')] ''eth0'' exEth0)"
proof -
  have p: "ParseUint64 ''5000'' = Some 5000" by (simp add: ParseUint64_def isDigit_def digitVal_def)
  show ?thesis
    using pinned_mtu_fits_iff [of "[(''TUNNEL_MTU'', ''5000'')]" "''5000''" 5000 exHost "''eth0''" exEth0
        "fst (tunnelMTU exHost [(''TUNNEL_MTU'', ''5000'')] ''eth0'' exEth0)" "snd (tunnelMTU exHost [(''TUNNEL_MTU'', ''5000'')] ''eth0'' exEth0)"] p
    by simp
qed

subsection \<open>The device\<close>

lemma tunQueues_pos: "0 < numCPU \<Longrightarrow> 1 \<le> tunQueues numCPU ctx"
  by (simp add: tunQueues_def Let_def)

lemma createTunTapDevice_Inr:
  assumes "createTunTapDevice th t6 numCPU ctx ip len mtu gso = Inr dev" "0 < numCPU"
  shows "1 \<le> td_queues dev \<and> (\<forall>i<td_queues dev. th_queue th i) \<and> td_mtu dev = mtu \<and>
    (\<exists>cidr p. map_of ctx ''VIRT_CIDR'' = Some cidr \<and> ParsePrefix t6 cidr = Some p \<and> td_route dev = Masked p)"
  using assms tunQueues_pos [OF assms(2), of ctx]
  by (fastforce simp: createTunTapDevice_def Let_def find_None_iff split: option.splits if_splits)

subsection \<open>Numbers and words as text\<close>

lemma atoi_append: "atoi (s @ t) v = (case atoi s v of None \<Rightarrow> None | Some w \<Rightarrow> atoi t w)"
  by (induction s arbitrary: v) auto

lemma atoi_itoa: "atoi (itoa n) 0 = Some n"
proof (induction n rule: itoa.induct)
  case (1 n)
  show ?case
  proof (cases "n < 10")
    case True
    then show ?thesis by (subst itoa.simps) simp
  next
    case False
    then have "atoi (itoa (n div 10)) 0 = Some (n div 10)" using 1 by simp
    then show ?thesis using False by (subst itoa.simps) (simp add: atoi_append)
  qed
qed

lemma itoa_digits: "c \<in> set (itoa n) \<Longrightarrow> isDigit c"
proof (induction n rule: itoa.induct)
  case (1 n)
  then show ?case by (subst (asm) (2) itoa.simps) (auto split: if_splits)
qed

lemma itoa_ne: "itoa n \<noteq> []"
  by (subst itoa.simps) simp

lemma digit_not_space: "isDigit c \<Longrightarrow> \<not> isSpace c \<and> c \<noteq> CHR ''-'' \<and> c \<noteq> CHR ''+''"
  by (auto simp: isDigit_def isSpace_def)

lemma itoa_word: "\<forall>c\<in>set (itoa n). \<not> isSpace c"
  using itoa_digits digit_not_space by blast

lemma atoiVal_itoa: "int n < 2 ^ 63 \<Longrightarrow> atoiVal (itoa n) = int n"
proof -
  assume n: "int n < 2 ^ 63"
  have "hd (itoa n) \<noteq> CHR ''-''" "hd (itoa n) \<noteq> CHR ''+''"
    using itoa_digits [of "hd (itoa n)" n] digit_not_space itoa_ne [of n] by auto
  then show ?thesis using n itoa_ne [of n] by (simp add: atoiVal_def atoi_itoa Let_def)
qed

lemma trim_word: "\<forall>c\<in>set w. \<not> isSpace c \<Longrightarrow> trimSpace w = w"
  by (rule trimSpace_id) (auto simp: isTrimmed_def)

lemma Fields_word: "w \<noteq> [] \<Longrightarrow> \<forall>c\<in>set w. \<not> isSpace c \<Longrightarrow> Fields w = [w]"
proof -
  assume w: "w \<noteq> []" "\<forall>c\<in>set w. \<not> isSpace c"
  then have "dropWhile isSpace w = w" "takeWhile (\<lambda>c. \<not> isSpace c) w = w" "dropWhile (\<lambda>c. \<not> isSpace c) w = []"
    by (cases w; simp)+
  moreover have "Fields [] = []" by (subst Fields.simps) simp
  ultimately show ?thesis using w(1) by (subst Fields.simps) (simp only: Let_def if_False)
qed

lemma Fields_cons:
  assumes w: "w \<noteq> []" "\<forall>c\<in>set w. \<not> isSpace c" and c: "isSpace c"
  shows "Fields (w @ c # s) = w # Fields s"
proof -
  have "dropWhile isSpace (w @ c # s) = w @ c # s" using w by (cases w) auto
  moreover have "takeWhile (\<lambda>c. \<not> isSpace c) (w @ c # s) = w" "dropWhile (\<lambda>c. \<not> isSpace c) (w @ c # s) = c # s" using w(2) c by auto
  moreover have "Fields (c # s) = Fields s" using c by (subst (1 2) Fields.simps) simp
  ultimately show ?thesis by (subst Fields.simps) (simp add: Let_def)
qed

lemma Fields_words: "w \<in> set (Fields s) \<Longrightarrow> w \<noteq> [] \<and> (\<forall>c\<in>set w. \<not> isSpace c)"
proof (induction s rule: Fields.induct)
  case (1 s)
  note ih = "1.IH"
  let ?r = "dropWhile isSpace s"
  show ?case
  proof (cases "?r = []")
    case True
    then show ?thesis using 1(2) by (subst (asm) Fields.simps) simp
  next
    case False
    have "Fields s = takeWhile (\<lambda>c. \<not> isSpace c) ?r # Fields (dropWhile (\<lambda>c. \<not> isSpace c) ?r)"
      using False by (subst Fields.simps) (simp add: Let_def)
    then consider "w = takeWhile (\<lambda>c. \<not> isSpace c) ?r" | "w \<in> set (Fields (dropWhile (\<lambda>c. \<not> isSpace c) ?r))" using 1(2) by auto
    then show ?thesis
    proof cases
      case 1
      have "\<not> isSpace (hd ?r)" using hd_dropWhile [OF False] .
      then have "w \<noteq> []" using 1 False by (metis list.collapse list.distinct(1) takeWhile.simps(2))
      then show ?thesis using 1 set_takeWhileD by fastforce
    next
      case 2
      show ?thesis by (rule ih [OF refl False 2])
    qed
  qed
qed

lemma Fields_triple:
  assumes "\<And>w. w \<in> {f0, f1, f2} \<Longrightarrow> w \<noteq> [] \<and> (\<forall>c\<in>set w. \<not> isSpace c)"
  shows "Fields (trimSpace (f0 @ '' '' @ f1 @ '' '' @ f2)) = [f0, f1, f2]"
proof -
  have sp: "isSpace CHR '' ''" by (simp add: isSpace_def)
  have "isTrimmed (f0 @ '' '' @ f1 @ '' '' @ f2)" using assms [of f0] assms [of f2] by (simp add: isTrimmed_def)
  then have "trimSpace (f0 @ '' '' @ f1 @ '' '' @ f2) = f0 @ CHR '' '' # f1 @ CHR '' '' # f2" by (simp add: trimSpace_id)
  moreover have "Fields (f0 @ CHR '' '' # f1 @ CHR '' '' # f2) = f0 # Fields (f1 @ CHR '' '' # f2)"
    by (rule Fields_cons) (use assms [of f0] sp in simp_all)
  moreover have "Fields (f1 @ CHR '' '' # f2) = f1 # Fields f2" by (rule Fields_cons) (use assms [of f1] sp in simp_all)
  moreover have "Fields f2 = [f2]" by (rule Fields_word) (use assms [of f2] in simp_all)
  ultimately show ?thesis by simp
qed

subsection \<open>Limits are only raised\<close>

definition sysVal :: "procfs \<Rightarrow> string \<Rightarrow> int" where
  "sysVal fs key = (case fs (sysctlPath key) of Some b \<Rightarrow> atoiVal (trimSpace b) | None \<Rightarrow> 0)"

lemma raiseSysctl_val:
  assumes "int target < 2 ^ 63"
  shows "sysVal (raiseSysctl w key target fs) key = (if w (sysctlPath key) then max (sysVal fs key) (int target) else sysVal fs key)"
    "path \<noteq> sysctlPath key \<Longrightarrow> raiseSysctl w key target fs path = fs path"
  using assms by (auto simp: raiseSysctl_def sysVal_def Let_def trim_word [OF itoa_word] atoiVal_itoa max_def split: option.split)

lemma raiseSysctlTriple_val:
  assumes t: "int target < 2 ^ 63" and fs: "fs (sysctlPath key) = Some b" "Fields (trimSpace b) = [f0, f1, f2]"
  shows "\<exists>b'. raiseSysctlTriple w key target fs (sysctlPath key) = Some b' \<and>
    (\<exists>f2'. Fields (trimSpace b') = [f0, f1, f2'] \<and> atoiVal f2' = (if w (sysctlPath key) then max (atoiVal f2) (int target) else atoiVal f2))"
proof (cases "atoiVal f2 \<ge> int target \<or> \<not> w (sysctlPath key)")
  case True
  then have "raiseSysctlTriple w key target fs = fs" using fs by (auto simp: raiseSysctlTriple_def Let_def)
  then show ?thesis using True fs by (auto simp: max_def)
next
  case False
  have "Fields (trimSpace (f0 @ '' '' @ f1 @ '' '' @ itoa target)) = [f0, f1, itoa target]"
    by (rule Fields_triple) (use Fields_words [of _ "trimSpace b"] fs(2) itoa_ne itoa_word in auto)
  then show ?thesis using False fs t by (auto simp: raiseSysctlTriple_def atoiVal_itoa max_def Let_def)
qed

text \<open>
  Start-up only raises limits. \<^verbatim>\<open>raiseSysctl\<close> leaves a value that is the larger of the
  old one and the target where the file can be written, and the old one where it cannot, and touches no other file;
  \<^verbatim>\<open>raiseSysctlTriple\<close> does so to the third number of a file of three, and keeps the other two.
\<close>

theorem sysctl_only_raised:
  assumes "int target < 2 ^ 63" "fs (sysctlPath key) = Some b" "Fields (trimSpace b) = [f0, f1, f2]"
  shows "sysVal (raiseSysctl w k target fs) k = (if w (sysctlPath k) then max (sysVal fs k) (int target) else sysVal fs k) \<and>
    (\<forall>p. p \<noteq> sysctlPath k \<longrightarrow> raiseSysctl w k target fs p = fs p) \<and>
    (\<exists>b' f2'. raiseSysctlTriple w key target fs (sysctlPath key) = Some b' \<and> Fields (trimSpace b') = [f0, f1, f2'] \<and>
       atoiVal f2' = (if w (sysctlPath key) then max (atoiVal f2) (int target) else atoiVal f2))"
  using raiseSysctl_val [OF assms(1)] raiseSysctlTriple_val [where fs = fs, OF assms] by blast

theorem sysctl_only_raised_witness:
  "\<exists>b' f2'. raiseSysctlTriple (\<lambda>_. True) ''net.ipv4.tcp_wmem'' innerTCPBufTarget [''/proc/sys/net/ipv4/tcp_wmem'' \<mapsto> ''4096 16384 4194304''] (sysctlPath ''net.ipv4.tcp_wmem'') = Some b' \<and>
     Fields (trimSpace b') = [''4096'', ''16384'', f2'] \<and> atoiVal f2' = 33554432"
proof -
  define fs :: procfs where "fs = [''/proc/sys/net/ipv4/tcp_wmem'' \<mapsto> ''4096 16384 4194304'']"
  have p: "sysctlPath ''net.ipv4.tcp_wmem'' = ''/proc/sys/net/ipv4/tcp_wmem''" by (simp add: sysctlPath_def)
  have t: "int innerTCPBufTarget < 2 ^ 63" by (simp add: innerTCPBufTarget_def)
  have f: "Fields (trimSpace ''4096 16384 4194304'') = [''4096'', ''16384'', ''4194304'']" by code_simp
  have v: "atoiVal ''4194304'' = 4194304" by (simp add: atoiVal_def isDigit_def digitVal_def)
  have "fs (sysctlPath ''net.ipv4.tcp_wmem'') = Some ''4096 16384 4194304''" unfolding p fs_def by simp
  from sysctl_only_raised [where fs = fs and w = "\<lambda>_. True" and k = "''net.core.rmem_max''", OF t this f] v
  show ?thesis unfolding fs_def by (auto simp: innerTCPBufTarget_def)
qed

subsection \<open>What a shut-down restores\<close>

lemma hasSuffix_append: "hasSuffix suf (x @ suf)"
  by (simp add: hasSuffix_def)

lemma trimSuffix_append: "trimSuffix suf (x @ suf) = x"
  by (simp add: trimSuffix_def hasSuffix_def)

lemma hasSuffix_trim: "hasSuffix suf s \<Longrightarrow> trimSuffix suf s @ suf = s"
  by (auto simp: trimSuffix_def hasSuffix_def) (metis append_take_drop_id)

text \<open>
  The contract of a pass over saved files: a step leaves the attached programs alone and creates no file.
  The pass then does neither.
\<close>

locale restore_pass =
  fixes restore1 :: "string \<times> string option \<Rightarrow> shutState \<Rightarrow> shutState"
  assumes attached1: "ss_attached (restore1 f s) = ss_attached s"
    and files1: "fst ` set (ss_files (restore1 f s)) \<subseteq> fst ` set (ss_files s)"
begin

lemma attached_fold: "ss_attached (fold restore1 fs s) = ss_attached s"
  by (induction fs arbitrary: s) (simp_all add: attached1)

lemma files_fold: "fst ` set (ss_files (fold restore1 fs s)) \<subseteq> fst ` set (ss_files s)"
proof (induction fs arbitrary: s)
  case Nil
  then show ?case by simp
next
  case (Cons f fs)
  show ?case using Cons.IH [of "restore1 f s"] files1 [of f s] by auto
qed

end

interpretation mtu_pass: restore_pass "restoreMTU1 m" for m
  by unfold_locales (auto simp: restoreMTU1_def removeFile_def Let_def split: option.splits)

interpretation offload_pass: restore_pass restoreOffloads1
  by unfold_locales (auto simp: restoreOffloads1_def removeFile_def Let_def split: option.splits)

lemma restoreMTU1_other: "i \<noteq> trimSuffix ''.wan_mtu.orig'' (fst f) \<Longrightarrow> ss_mtu (restoreMTU1 m f s) i = ss_mtu s i"
  by (auto simp: restoreMTU1_def removeFile_def Let_def split: option.splits)

lemma fold_restore_other:
  "\<forall>f\<in>set fs. i \<noteq> trimSuffix ''.wan_mtu.orig'' (fst f) \<Longrightarrow> ss_mtu (fold (restoreMTU1 m) fs s) i = ss_mtu s i"
  by (induction fs arbitrary: s) (simp_all add: restoreMTU1_other)

lemma removeFile_gone: "f \<notin> fst ` set (ss_files (removeFile f s))"
  by (auto simp: removeFile_def)

text \<open>One saved MTU: the file is removed whatever the kernel answers, and the MTU restored when it accepts.\<close>

lemma restoreMTU1_saved:
  assumes "f = iface @ ''.wan_mtu.orig''" "iface \<noteq> []" "parseInt64 (trimSpace data) = Some mtu" "0 < mtu" "ss_mtu s iface \<noteq> None"
  shows "f \<notin> fst ` set (ss_files (restoreMTU1 m (f, Some data) s))"
    "ss_mtu (restoreMTU1 m (f, Some data) s) iface = (if m iface mtu (iface \<in> set (ss_attached s)) then Some mtu else ss_mtu s iface)"
  using assms removeFile_gone [of f] by (auto simp: restoreMTU1_def trimSuffix_append Let_def) (simp_all add: removeFile_def)

lemma restoreWanMTU_saved:
  assumes f: "f = iface @ ''.wan_mtu.orig''" "iface \<noteq> []" "(f, Some data) \<in> set (ss_files s)" "distinct (map fst (ss_files s))"
    and mtu: "parseInt64 (trimSpace data) = Some mtu" "0 < mtu" "ss_mtu s iface = Some old"
  shows "f \<notin> fst ` set (ss_files (restoreWanMTU m s)) \<and>
    ss_mtu (restoreWanMTU m s) iface = Some (if m iface mtu (iface \<in> set (ss_attached s)) then mtu else old)"
proof -
  let ?fs = "filter (\<lambda>f. hasSuffix ''.wan_mtu.orig'' (fst f)) (ss_files s)"
  have "(f, Some data) \<in> set ?fs" using f(1,3) by (simp add: hasSuffix_append)
  then obtain xs ys where sp: "?fs = xs @ (f, Some data) # ys" by (meson split_list)
  have d: "distinct (map fst ?fs)" using f(4) by (rule distinct_map_filter)
  have other: "iface \<noteq> trimSuffix ''.wan_mtu.orig'' (fst g)" if g: "g \<in> set xs \<union> set ys" for g
  proof
    assume e: "iface = trimSuffix ''.wan_mtu.orig'' (fst g)"
    have "g \<in> set ?fs" using g unfolding sp by auto
    then have "fst g = f" using hasSuffix_trim [of "''.wan_mtu.orig''" "fst g"] e f(1) by simp
    then show False using d g unfolding sp by auto
  qed
  define s1 where "s1 = fold (restoreMTU1 m) xs s"
  define s2 where "s2 = restoreMTU1 m (f, Some data) s1"
  have r: "restoreWanMTU m s = fold (restoreMTU1 m) ys s2" by (simp add: restoreWanMTU_def sp s1_def s2_def)
  have s1: "ss_mtu s1 iface = Some old" "ss_attached s1 = ss_attached s"
    using fold_restore_other [of xs iface m s] other mtu(3) mtu_pass.attached_fold unfolding s1_def by auto
  have "ss_mtu s1 iface \<noteq> None" using s1(1) by simp
  note s2 = restoreMTU1_saved [OF f(1,2) mtu(1,2) this, of m, folded s2_def]
  have "ss_mtu (restoreWanMTU m s) iface = ss_mtu s2 iface"
    unfolding r by (rule fold_restore_other) (use other in blast)
  then show ?thesis using s2 s1 mtu_pass.files_fold [of m ys s2] unfolding r by auto
qed

lemma closeLoaders: "ss_attached (fold closeLoader ls s) = filter (\<lambda>n. n \<notin> set ls) (ss_attached s)"
    "ss_files (fold closeLoader ls s) = ss_files s" "ss_mtu (fold closeLoader ls s) = ss_mtu s" "ss_ethtool (fold closeLoader ls s) = ss_ethtool s"
  by (induction ls arbitrary: s) (auto simp: closeLoader_def removeAll_filter_not_eq filter_filter intro!: filter_cong)

lemma fold_offloads_mtu: "ss_mtu (fold restoreOffloads1 fs s) = ss_mtu s"
  by (induction fs arbitrary: s) (simp_all add: restoreOffloads1_def removeFile_def Let_def split: option.split)

text \<open>
  A shut-down detaches before it restores. The program is detached from every interface it was loaded on; then, for every saved MTU
  of an interface that exists, the kernel is asked to set it while no program is attached there: the MTU is the saved
  one when it accepts. The file that held it is gone in both cases, so that a refused MTU is lost.
\<close>

theorem shutdown_restores_mtu:
  assumes f: "f = iface @ ''.wan_mtu.orig''" "iface \<noteq> []" "(f, Some data) \<in> set (ss_files s)" "distinct (map fst (ss_files s))"
    and mtu: "parseInt64 (trimSpace data) = Some mtu" "0 < mtu" "ss_mtu s iface = Some old"
    and l: "set (ss_attached s) \<subseteq> set loaders"
  shows "ss_attached (GracefullyShutDown m loaders s) = [] \<and> f \<notin> fst ` set (ss_files (GracefullyShutDown m loaders s)) \<and>
    ss_mtu (GracefullyShutDown m loaders s) iface = Some (if m iface mtu False then mtu else old)"
proof -
  define t where "t = fold closeLoader loaders s"
  have t: "ss_attached t = []" "ss_files t = ss_files s" "ss_mtu t = ss_mtu s"
    using l by (auto simp: t_def closeLoaders filter_empty_conv)
  have r: "f \<notin> fst ` set (ss_files (restoreWanMTU m t)) \<and> ss_mtu (restoreWanMTU m t) iface = Some (if m iface mtu False then mtu else old)"
    using restoreWanMTU_saved [OF f(1,2) _ _ mtu(1,2), of t old m] f(3,4) mtu(3) t by simp
  have a: "ss_attached (restoreWanMTU m t) = []" by (simp add: restoreWanMTU_def mtu_pass.attached_fold t)
  have o: "ss_mtu (restoreWanOffloads u) = ss_mtu u" "ss_attached (restoreWanOffloads u) = ss_attached u"
      "fst ` set (ss_files (restoreWanOffloads u)) \<subseteq> fst ` set (ss_files u)" for u
    unfolding restoreWanOffloads_def by (rule fold_offloads_mtu offload_pass.attached_fold offload_pass.files_fold)+
  have g: "GracefullyShutDown m loaders s = restoreWanOffloads (restoreWanMTU m t)" by (simp add: GracefullyShutDown_def t_def)
  show ?thesis unfolding g o(1,2) using r a o(3) [of "restoreWanMTU m t"] by blast
qed

theorem shutdown_restores_mtu_witness:
  "ss_mtu (GracefullyShutDown (\<lambda>_ mtu attached. mtu \<le> 3506 \<or> \<not> attached) [''eth0'']
     \<lparr>ss_files = [(''eth0.wan_mtu.orig'', Some ''9000'')], ss_mtu = [''eth0'' \<mapsto> 3506], ss_ethtool = [], ss_attached = [''eth0'']\<rparr>) ''eth0'' = Some 9000"
proof -
  have p: "parseInt64 (trimSpace ''9000'') = Some 9000" by code_simp
  show ?thesis
    using shutdown_restores_mtu [where f = "''eth0.wan_mtu.orig''" and iface = "''eth0''" and data = "''9000''" and mtu = 9000 and old = 3506 and loaders = "[''eth0'']"
        and s = "\<lparr>ss_files = [(''eth0.wan_mtu.orig'', Some ''9000'')], ss_mtu = [''eth0'' \<mapsto> 3506], ss_ethtool = [], ss_attached = [''eth0'']\<rparr>"
        and m = "\<lambda>_ mtu attached. mtu \<le> 3506 \<or> \<not> attached"] p by simp
qed

end
