(* ===== verification/ForwardLoop.thy ===== *)
theory ForwardLoop
  imports Forward
begin

text \<open>
  The upload direction of \<^verbatim>\<open>handleConn\<close>: the goroutine that reads the client's packets into
  the channel \<^verbatim>\<open>pktChan\<close>, and the loop that takes them out in rounds, routes them
  (\<^verbatim>\<open>handlePkt\<close>), forwards what the resequencer gives up waiting for, and flushes the batches
  of all interfaces. A packet in the channel is the pooled buffer that holds it.
\<close>

subsection \<open>The loop\<close>

record ('a, 'p) upEnv =
  ue_cfg :: fwdConfig
  ue_ops :: "'a fwdEgress"
  ue_put :: bpf_put
  ue_arp :: "nat \<Rightarrow> bytes \<Rightarrow> mac option"
  ue_submit :: "bytes \<Rightarrow> 'p \<Rightarrow> 'p"
  ue_sendmmsg :: "(bytes \<times> bytes) list \<Rightarrow> nat option"
  ue_spare :: nat

text \<open>
  \<open>up_pumps\<close> are the transmit pumps of the interfaces, \<open>up_sock\<close> what the raw sockets have
  sent, and \<open>up_errs\<close> the number of flushes that were logged as failed.
\<close>

record ('a, 'p) upState =
  up_chan :: "nat list"
  up_reseq :: "ForwardReseq option"
  up_fwd :: "'a fwdState"
  up_pumps :: "'p list"
  up_sock :: "(bytes \<times> bytes) list"
  up_errs :: nat
  pktChanDrops :: nat
  fwdRounds :: nat
  fwdRoundPkts :: nat
  up_running :: bool

definition pktChanCap :: nat where "pktChanCap = 8192"

text \<open>
  The start of the loop: a batch for every interface, where only a failure for the primary
  one is an error, and the resequencer when it is configured.
\<close>

definition newNicBatch :: "(egError + SocketBatch) \<Rightarrow> (altKind \<Rightarrow> egError + 'a) \<Rightarrow> fwdMode \<Rightarrow> 'a nicEgress \<Rightarrow> egError + 'a ForwardBatch" where
  "newNicBatch newSock newAlt mode n = NewForwardBatch newSock newAlt mode (c_srcMAC (ne_conn n)) (c_gwMAC (ne_conn n))"

definition newBatches :: "(nat \<Rightarrow> egError + SocketBatch) \<Rightarrow> (altKind \<Rightarrow> egError + 'a) \<Rightarrow> fwdMode \<Rightarrow> nat \<Rightarrow> 'a nicEgress list
    \<Rightarrow> egError + 'a nicEgress list" where
  "newBatches newSock newAlt mode primary nics =
     (case newNicBatch (newSock primary) newAlt mode (nics ! primary) of
        Inl err \<Rightarrow> Inl err
      | Inr batch \<Rightarrow>
          Inr (map (\<lambda>i. (nics ! i)\<lparr>ne_batch :=
                 (if i = primary then Some batch
                  else case newNicBatch (newSock i) newAlt mode (nics ! i) of Inl _ \<Rightarrow> None | Inr lb \<Rightarrow> Some lb)\<rparr>) [0..<length nics]))"

definition newUploadReseq :: "bool \<Rightarrow> int \<Rightarrow> int \<Rightarrow> ForwardReseq option" where
  "newUploadReseq on win maxAgeUS = (if on then Some (NewForwardReseq (if win \<le> 0 then 64 else win) (maxAgeUS * 1000)) else None)"

definition upStart :: "'a nicEgress list \<Rightarrow> ForwardReseq option \<Rightarrow> 'p list \<Rightarrow> 'a fwdState \<Rightarrow> ('a, 'p) upState" where
  "upStart nics r pumps f =
     \<lparr>up_chan = [], up_reseq = r, up_fwd = f\<lparr>fw_nics := nics\<rparr>, up_pumps = pumps, up_sock = [], up_errs = 0,
      pktChanDrops = 0, fwdRounds = 0, fwdRoundPkts = 0, up_running = True\<rparr>"

text \<open>The reader: \<open>a\<close> is the buffer it gets from the pool.\<close>

definition readPkt :: "nat \<Rightarrow> bytes \<Rightarrow> ('a, 'p) upState \<Rightarrow> ('a, 'p) upState" where
  "readPkt a pkt s =
     (let s = s\<lparr>up_fwd := (up_fwd s)\<lparr>fw_mem := (fw_mem (up_fwd s))(a := pkt)\<rparr>\<rparr> in
      if length (up_chan s) < pktChanCap then s\<lparr>up_chan := up_chan s @ [a]\<rparr>
      else s\<lparr>pktChanDrops := pktChanDrops s + 1\<rparr>)"

text \<open>Flushing the batch of one interface, and of all but the primary one.\<close>

definition flushNic :: "('a, 'p) upEnv \<Rightarrow> nat \<Rightarrow> ('a, 'p) upState \<Rightarrow> ('a, 'p) upState" where
  "flushNic e i s =
     (let f = up_fwd s in
      case ne_batch (fw_nics f ! i) of
        None \<Rightarrow> s
      | Some b \<Rightarrow>
          (case ForwardBatch_Flush (ue_ops e) (ue_submit e) (fw_mem f) (ue_sendmmsg e) b (up_pumps s ! i) of
             (err, out, b, p) \<Rightarrow>
               s\<lparr>up_fwd := f\<lparr>fw_nics := (fw_nics f)[i := (fw_nics f ! i)\<lparr>ne_batch := Some b\<rparr>]\<rparr>,
                 up_pumps := (up_pumps s)[i := p], up_sock := up_sock s @ out,
                 up_errs := up_errs s + (if err \<noteq> None then 1 else 0)\<rparr>))"

definition nicEmpty :: "('a, 'p) upEnv \<Rightarrow> nat \<Rightarrow> ('a, 'p) upState \<Rightarrow> bool" where
  "nicEmpty e i s = (case ne_batch (fw_nics (up_fwd s) ! i) of None \<Rightarrow> True | Some b \<Rightarrow> ForwardBatch_Empty (ue_ops e) b)"

definition nicFull :: "('a, 'p) upEnv \<Rightarrow> nat \<Rightarrow> ('a, 'p) upState \<Rightarrow> bool" where
  "nicFull e i s = (case ne_batch (fw_nics (up_fwd s) ! i) of None \<Rightarrow> False | Some b \<Rightarrow> ForwardBatch_Full (ue_ops e) b)"

fun flushLANs :: "('a, 'p) upEnv \<Rightarrow> nat list \<Rightarrow> ('a, 'p) upState \<Rightarrow> ('a, 'p) upState" where
  "flushLANs e [] s = s"
| "flushLANs e (i # js) s =
     (if i = primaryNIC (ue_cfg e) \<or> nicEmpty e i s then flushLANs e js s else flushLANs e js (flushNic e i s))"

definition flushLAN :: "('a, 'p) upEnv \<Rightarrow> ('a, 'p) upState \<Rightarrow> ('a, 'p) upState" where
  "flushLAN e s = flushLANs e [0..<length (fw_nics (up_fwd s))] s"

definition lanFull :: "('a, 'p) upEnv \<Rightarrow> ('a, 'p) upState \<Rightarrow> bool" where
  "lanFull e s = list_ex (\<lambda>i. i \<noteq> primaryNIC (ue_cfg e) \<and> nicFull e i s) [0..<length (fw_nics (up_fwd s))]"

text \<open>One packet out of the channel, the rounds of the drain loop, and the expired segments.\<close>

definition handleNext :: "('a, 'p) upEnv \<Rightarrow> u64 \<Rightarrow> int \<Rightarrow> ('a, 'p) upState \<Rightarrow> ('a, 'p) upState" where
  "handleNext e now clock s =
     (case up_chan s of
        [] \<Rightarrow> s
      | a # rest \<Rightarrow>
          (case handlePkt (ue_cfg e) (ue_ops e) (ue_put e) now (ue_arp e) clock a (up_reseq s) (up_fwd s) of
             (r, f) \<Rightarrow> s\<lparr>up_chan := rest, up_reseq := r, up_fwd := f\<rparr>))"

lemma handleNext_chan: "up_chan (handleNext e now clock s) = tl (up_chan s)"
  by (simp add: handleNext_def split: list.split prod.split)

function drainRound :: "('a, 'p) upEnv \<Rightarrow> u64 \<Rightarrow> int \<Rightarrow> nat \<Rightarrow> ('a, 'p) upState \<Rightarrow> nat \<times> ('a, 'p) upState" where
  "drainRound e now clock n s =
     (if up_chan s \<noteq> [] \<and> \<not> nicFull e (primaryNIC (ue_cfg e)) s \<and> \<not> lanFull e s
      then drainRound e now clock (n + 1) (handleNext e now clock s)
      else (n, s))"
  by pat_completeness auto

termination
  by (relation "measure (\<lambda>(e, now, clock, n, s). length (up_chan s))") (auto simp: handleNext_chan)

declare drainRound.simps [simp del]

definition upExpired :: "('a, 'p) upEnv \<Rightarrow> u64 \<Rightarrow> int \<Rightarrow> ('a, 'p) upState \<Rightarrow> ('a, 'p) upState" where
  "upExpired e now clock s =
     (case forwardExpired (ue_cfg e) (ue_ops e) (ue_put e) now (ue_arp e) clock (ue_spare e) (up_reseq s) (up_fwd s) of
        (r, f) \<Rightarrow> s\<lparr>up_reseq := r, up_fwd := f\<rparr>)"

definition upRound :: "('a, 'p) upEnv \<Rightarrow> u64 \<Rightarrow> int \<Rightarrow> ('a, 'p) upState \<Rightarrow> ('a, 'p) upState" where
  "upRound e now clock s =
     (let (roundN, s) = drainRound e now clock 1 (handleNext e now clock s);
          s = s\<lparr>fwdRounds := fwdRounds s + 1, fwdRoundPkts := fwdRoundPkts s + roundN\<rparr>;
          s = upExpired e now clock s;
          s = (if \<not> nicEmpty e (primaryNIC (ue_cfg e)) s then flushNic e (primaryNIC (ue_cfg e)) s else s)
      in flushLAN e s)"

definition upTick :: "('a, 'p) upEnv \<Rightarrow> u64 \<Rightarrow> int \<Rightarrow> ('a, 'p) upState \<Rightarrow> ('a, 'p) upState" where
  "upTick e now clock s = flushLAN e (flushNic e (primaryNIC (ue_cfg e)) (upExpired e now clock s))"

definition upClosed :: "('a, 'p) upEnv \<Rightarrow> ('a, 'p) upState \<Rightarrow> ('a, 'p) upState" where
  "upClosed e s = (flushLAN e (flushNic e (primaryNIC (ue_cfg e)) s))\<lparr>up_running := False\<rparr>"

text \<open>
  The events of the loop: a packet of the client, a round (there is a packet), a tick of
  the timer of 250 microseconds, and the end of the reader, seen when the channel is empty.
\<close>

datatype upEvent = ReadPacket nat bytes | Round u64 int | Tick u64 int | Closed

fun upEvent_step :: "('a, 'p) upEnv \<Rightarrow> upEvent \<Rightarrow> ('a, 'p) upState \<Rightarrow> ('a, 'p) upState" where
  "upEvent_step e (ReadPacket a pkt) s = readPkt a pkt s"
| "upEvent_step e (Round now clock) s = (if up_chan s = [] then s else upRound e now clock s)"
| "upEvent_step e (Tick now clock) s = upTick e now clock s"
| "upEvent_step e Closed s = (if up_chan s = [] then upClosed e s else s)"

fun upLoop :: "('a, 'p) upEnv \<Rightarrow> upEvent list \<Rightarrow> ('a, 'p) upState \<Rightarrow> ('a, 'p) upState" where
  "upLoop e [] s = s"
| "upLoop e (ev # evs) s = (if up_running s \<and> \<not> fw_panic (up_fwd s) then upLoop e evs (upEvent_step e ev s) else s)"

subsection \<open>What routing keeps of the batches\<close>

definition nics_plain :: "'a fwdState \<Rightarrow> bool" where
  "nics_plain f \<longleftrightarrow> list_all (\<lambda>n. pred_option (\<lambda>b. fb_alt b = None) (ne_batch n)) (fw_nics f)"

definition nics_same :: "'a fwdState \<Rightarrow> 'a fwdState \<Rightarrow> bool" where
  "nics_same f g \<longleftrightarrow> (nics_plain f \<longrightarrow> nics_plain g) \<and> map (\<lambda>n. ne_batch n = None) (fw_nics g) = map (\<lambda>n. ne_batch n = None) (fw_nics f)"

lemma nics_same_trans: "nics_same f g \<Longrightarrow> nics_same g h \<Longrightarrow> nics_same f h"
  by (simp add: nics_same_def)

lemma nics_same_eq: "fw_nics g = fw_nics f \<Longrightarrow> nics_same f g"
  by (simp add: nics_same_def nics_plain_def)

lemma forward_add_plain: "ForwardBatch_Add ops ack mem p m b = (e, b') \<Longrightarrow> fb_alt b = None \<Longrightarrow> fb_alt b' = None"
  by (auto simp: ForwardBatch_Add_def Let_def split: if_splits prod.splits)

lemma list_all_upd: "list_all P xs \<Longrightarrow> P y \<Longrightarrow> list_all P (xs[i := y])"
  by (auto simp: list_all_iff dest!: set_update_subset_insert [THEN subsetD])

text \<open>
  A rule for properties of the router: \<open>Q\<close> holds until the packet's outcome is decided, \<open>R\<close>
  from then on.
\<close>

definition egressIdx :: "fwdConfig \<Rightarrow> nat \<Rightarrow> bool" where
  "egressIdx cfg i \<longleftrightarrow> i = primaryNIC cfg \<or> (\<exists>lr \<in> set (lanRoutes cfg). 0 \<le> snd lr \<and> i = nat (snd lr))"

lemma forwardOne_rule:
  assumes q: "Q f" "\<And>g t. Q g \<Longrightarrow> Q (g\<lparr>fw_nat := t\<rparr>)" "\<And>g m. Q g \<Longrightarrow> Q (g\<lparr>fw_mem := m\<rparr>)" "\<And>g ob. Q g \<Longrightarrow> Q (g\<lparr>fw_obs := ob\<rparr>)"
      "\<And>g i c. Q g \<Longrightarrow> Q (g\<lparr>fw_nics := (fw_nics g)[i := (fw_nics g ! i)\<lparr>ne_conn := c\<rparr>]\<rparr>)"
    and r: "\<And>g ip. Q g \<Longrightarrow> R (tunWrite ip g)" "\<And>g n. Q g \<Longrightarrow> R (g\<lparr>fw_snatFailDrops := n\<rparr>)"
      "\<And>g i p m. Q g \<Longrightarrow> egressIdx cfg i \<Longrightarrow> R (batchAdd ops (ackViaSocket cfg) i p m g)"
      "\<And>g ip dst. Q g \<Longrightarrow> R (forwardPeer ip dst g)" "\<And>g. R g \<Longrightarrow> R (countLan g)"
  shows "R (forwardOne cfg ops put now arp p f)"
proof -
  have wan: "R (forwardWan cfg ops put now p f)"
    unfolding forwardWan_def Let_def by (auto split: prod.split sum.split simp: egressIdx_def intro!: q r)
  have lan: "R (forwardLan cfg ops put now arp p (snd lr) f)" if "lr \<in> set (lanRoutes cfg)" for lr
  proof -
    have ei: "egressIdx cfg (nat (snd lr))" if "\<not> snd lr < 0" using that \<open>lr \<in> set (lanRoutes cfg)\<close> unfolding egressIdx_def by (metis not_less)
    have qn: "Q (f\<lparr>fw_nat := t, fw_mem := m, fw_nics := (fw_nics f)[i := (fw_nics f ! i)\<lparr>ne_conn := c\<rparr>]\<rparr>)" for t m i c
      using q(5) [OF q(3) [OF q(2) [OF q(1), of t], of m], of i c] by simp
    show ?thesis
      unfolding forwardLan_def Let_def using ei by (auto split: prod.split sum.split intro!: qn q r)
  qed
  have "lr \<in> set xs" if "List.find P xs = Some lr" for lr xs and P :: "prefix \<times> int \<Rightarrow> bool"
    using that by (auto simp: find_Some_iff)
  then show ?thesis
    unfolding forwardOne_def Let_def using wan lan r(1) [OF q(1)] r(4) [OF q(1)] by (simp split: option.split)
qed

lemma map_upd_same: "g y = g (xs ! i) \<Longrightarrow> map g (xs[i := y]) = map g xs"
  by (metis list_update_id map_update)

lemma nics_same_upd:
  assumes "pred_option (\<lambda>b. fb_alt b = None) (ne_batch (fw_nics f ! i)) \<Longrightarrow> pred_option (\<lambda>b. fb_alt b = None) (ne_batch n)"
    and "(ne_batch n = None) = (ne_batch (fw_nics f ! i) = None)" "fw_nics g = (fw_nics f)[i := n]"
  shows "nics_same f g"
proof (cases "i < length (fw_nics f)")
  case True
  have "nics_plain g" if "nics_plain f" unfolding nics_plain_def assms(3)
    by (rule list_all_upd) (use that assms(1) True in \<open>auto simp: nics_plain_def list_all_length\<close>)
  then show ?thesis unfolding nics_same_def assms(3) by (simp add: map_upd_same assms(2))
next
  case False
  then show ?thesis using assms(3) by (intro nics_same_eq) (simp add: list_update_beyond)
qed

lemma batchAdd_same: "nics_same f (batchAdd ops ack i p m f)"
proof (cases "ne_batch (fw_nics f ! i)")
  case None
  then show ?thesis by (simp add: batchAdd_def nics_same_eq)
next
  case (Some b)
  obtain e b' where a: "ForwardBatch_Add ops ack (fw_mem f) p m b = (e, b')" by fastforce
  show ?thesis
    by (rule nics_same_upd [of f i "(fw_nics f ! i)\<lparr>ne_batch := Some b'\<rparr>"])
      (use Some a forward_add_plain [OF a] in \<open>auto simp: batchAdd_def Let_def\<close>)
qed

lemma forwardOne_same: "nics_same f (forwardOne cfg ops put now arp p f)"
proof (rule forwardOne_rule [where Q = "nics_same f" and R = "nics_same f"])
  show "nics_same f g \<Longrightarrow> nics_same f (g\<lparr>fw_nics := (fw_nics g)[i := (fw_nics g ! i)\<lparr>ne_conn := c\<rparr>]\<rparr>)" for g i c
    by (erule nics_same_trans) (rule nics_same_upd [of g i "(fw_nics g ! i)\<lparr>ne_conn := c\<rparr>"], auto)
  show "nics_same f g \<Longrightarrow> nics_same f (forwardPeer ip dst g)" for g ip dst
    by (erule nics_same_trans) (rule nics_same_eq, simp add: forwardPeer_def split: option.split)
  show "nics_same f g \<Longrightarrow> nics_same f (batchAdd ops (ackViaSocket cfg) i p m g)" for g i p m
    by (erule nics_same_trans) (rule batchAdd_same)
qed (auto elim!: nics_same_trans intro: nics_same_eq simp: tunWrite_def countLan_def)

lemma forwardOne_no_panic:
  assumes "nics_ready f" "\<not> fw_panic f" "\<And>i. egressIdx cfg i \<Longrightarrow> i < length (fw_nics f)"
  shows "\<not> fw_panic (forwardOne cfg ops put now arp p f)"
proof (rule forwardOne_rule [where Q = "\<lambda>g. nics_ready g \<and> length (fw_nics g) = length (fw_nics f) \<and> \<not> fw_panic g" and R = "\<lambda>g. \<not> fw_panic g"])
  show "nics_ready (g\<lparr>fw_nics := (fw_nics g)[i := (fw_nics g ! i)\<lparr>ne_conn := c\<rparr>]\<rparr>) \<and>
      length (fw_nics (g\<lparr>fw_nics := (fw_nics g)[i := (fw_nics g ! i)\<lparr>ne_conn := c\<rparr>]\<rparr>)) = length (fw_nics f) \<and>
      \<not> fw_panic (g\<lparr>fw_nics := (fw_nics g)[i := (fw_nics g ! i)\<lparr>ne_conn := c\<rparr>]\<rparr>)"
    if "nics_ready g \<and> length (fw_nics g) = length (fw_nics f) \<and> \<not> fw_panic g" for g :: "'a fwdState" and i c
  proof (cases "i < length (fw_nics g)")
    case True
    then have "pred_option batch_ready (ne_batch (fw_nics g ! i))" using that by (auto simp: nics_ready_def list_all_length)
    then show ?thesis using that by (auto simp: nics_ready_def intro!: list_all_upd)
  qed (use that in \<open>simp add: nics_ready_def list_update_beyond\<close>)
  show "\<not> fw_panic (batchAdd ops (ackViaSocket cfg) i p m g)"
    if "nics_ready g \<and> length (fw_nics g) = length (fw_nics f) \<and> \<not> fw_panic g" "egressIdx cfg i" for g :: "'a fwdState" and i p m
  proof (cases "ne_batch (fw_nics g ! i)")
    case (Some b)
    then have "batch_ready b" using that assms(3) [OF that(2)] by (fastforce simp: nics_ready_def list_all_length)
    then show ?thesis using that(1) Some by (auto simp: batchAdd_def Let_def dest: forward_add_no_panic split: prod.split)
  qed (use that in \<open>simp add: batchAdd_def\<close>)
qed (use assms in \<open>auto simp: nics_ready_def tunWrite_def countLan_def forwardPeer_def split: option.split\<close>)

subsection \<open>Accounting\<close>

text \<open>
  The loop without resequencing, over interfaces without an alternative egress. For the
  accounting a pump is the list of the frames submitted to it, and the kernel takes every
  batch of messages completely.
\<close>

definition up_env :: "('a, bytes list) upEnv \<Rightarrow> bool" where
  "up_env e \<longleftrightarrow> ue_submit e = (\<lambda>f p. p @ [f]) \<and> ue_sendmmsg e = (\<lambda>ms. Some (length ms))"

definition up_wf :: "('a, 'p) upEnv \<Rightarrow> ('a, 'p) upState \<Rightarrow> bool" where
  "up_wf e s \<longleftrightarrow> up_reseq s = None \<and> nics_plain (up_fwd s) \<and> length (up_pumps s) = length (fw_nics (up_fwd s)) \<and>
     primaryNIC (ue_cfg e) < length (fw_nics (up_fwd s)) \<and> ne_batch (fw_nics (up_fwd s) ! primaryNIC (ue_cfg e)) \<noteq> None \<and>
     list_all (\<lambda>lr. snd lr < int (length (fw_nics (up_fwd s)))) (lanRoutes (ue_cfg e)) \<and> \<not> fw_panic (up_fwd s)"

definition idle :: "('a, 'p) upState \<Rightarrow> nat set \<Rightarrow> bool" where
  "idle s I \<longleftrightarrow> (\<forall>i. i < length (fw_nics (up_fwd s)) \<longrightarrow> i \<in> I \<longrightarrow> batchCount (fw_nics (up_fwd s) ! i) = 0)"

definition total :: "('a, bytes list) upState \<Rightarrow> nat" where
  "total s = length (up_chan s) + pktChanDrops s + outcomes (up_fwd s) + sum_list (map length (up_pumps s)) + length (up_sock s)"

lemma nics_same_nth:
  assumes "nics_same f g"
  shows "length (fw_nics g) = length (fw_nics f)" "i < length (fw_nics f) \<Longrightarrow> (ne_batch (fw_nics g ! i) = None) = (ne_batch (fw_nics f ! i) = None)"
proof -
  have m: "map (\<lambda>n. ne_batch n = None) (fw_nics g) = map (\<lambda>n. ne_batch n = None) (fw_nics f)" using assms by (simp add: nics_same_def)
  show l: "length (fw_nics g) = length (fw_nics f)" using map_eq_imp_length_eq [OF m] .
  show "i < length (fw_nics f) \<Longrightarrow> (ne_batch (fw_nics g ! i) = None) = (ne_batch (fw_nics f ! i) = None)"
    using arg_cong [OF m, of "\<lambda>xs. xs ! i"] l by simp
qed

lemma up_wf_same:
  assumes "up_wf e s" "nics_same (up_fwd s) f" "\<not> fw_panic f"
  shows "up_wf e (s\<lparr>up_chan := ch, up_fwd := f\<rparr>)"
  using assms(1,3) nics_same_nth [OF assms(2)] assms(2) unfolding up_wf_def nics_same_def by simp

lemma wf_egress: "up_wf e s \<Longrightarrow> egressIdx (ue_cfg e) i \<Longrightarrow> i < length (fw_nics (up_fwd s))"
  by (auto simp: up_wf_def egressIdx_def list_all_iff)

lemma handleNext_keeps:
  assumes wf: "up_wf e s" and r: "nics_ready (up_fwd s)" and c: "up_chan s = a # rest" and s': "s' = handleNext e now clock s"
  shows "up_wf e s'" "total s' = total s" "pktChanDrops s' = pktChanDrops s"
proof -
  let ?f = "forwardOne (ue_cfg e) (ue_ops e) (ue_put e) now (ue_arp e) a (up_fwd s)"
  have s'': "s' = s\<lparr>up_chan := rest, up_fwd := ?f\<rparr>"
    using wf c unfolding s' handleNext_def by (simp add: handlePkt_def up_wf_def)
  have "outcomes ?f = outcomes (up_fwd s) + 1"
    by (rule every_packet_has_one_outcome [OF r]) (use wf in \<open>simp_all add: up_wf_def\<close>)
  then show "total s' = total s" using c by (simp add: total_def s'')
  have "\<not> fw_panic ?f" by (rule forwardOne_no_panic [OF r]) (use wf wf_egress [OF wf] in \<open>simp_all add: up_wf_def\<close>)
  then show "up_wf e s'" unfolding s'' by (rule up_wf_same [OF wf forwardOne_same])
  show "pktChanDrops s' = pktChanDrops s" by (simp add: s'')
qed

lemma plain_full: "fb_alt b = None \<Longrightarrow> \<not> ForwardBatch_Full ops b \<Longrightarrow> batch_ready b"
  by (simp add: ForwardBatch_Full_def batch_ready_def)

lemma not_full_ready:
  assumes wf: "up_wf e s" and "\<not> nicFull e (primaryNIC (ue_cfg e)) s" "\<not> lanFull e s"
  shows "nics_ready (up_fwd s)"
proof -
  have "pred_option batch_ready (ne_batch (fw_nics (up_fwd s) ! i))" if i: "i < length (fw_nics (up_fwd s))" for i
  proof (cases "ne_batch (fw_nics (up_fwd s) ! i)")
    case (Some b)
    have "\<not> nicFull e i s" using assms(2,3) i by (cases "i = primaryNIC (ue_cfg e)") (auto simp: lanFull_def list_ex_iff)
    then show ?thesis
      using Some wf i plain_full by (fastforce simp: nicFull_def up_wf_def nics_plain_def list_all_length)
  qed simp
  then show ?thesis by (simp add: nics_ready_def list_all_length)
qed

lemma drainRound_keeps:
  assumes "up_wf e s"
  shows "up_wf e (snd (drainRound e now clock n s)) \<and> total (snd (drainRound e now clock n s)) = total s"
  using assms
proof (induction e now clock n s rule: drainRound.induct)
  case (1 e now clock n s)
  show ?case
  proof (cases "up_chan s \<noteq> [] \<and> \<not> nicFull e (primaryNIC (ue_cfg e)) s \<and> \<not> lanFull e s")
    case True
    then obtain a rest where c: "up_chan s = a # rest" by (cases "up_chan s") auto
    note h = handleNext_keeps [OF 1(2) not_full_ready [OF 1(2)] c refl, of now clock]
    show ?thesis using 1(1) [OF True] h True by (simp add: drainRound.simps [of e now clock n s])
  next
    case False
    then show ?thesis using 1(2) by (auto simp: drainRound.simps [of e now clock n s])
  qed
qed

lemma fold_snoc: "fold (\<lambda>f p. p @ [f]) fs p = p @ fs"
  by (induction fs arbitrary: p) simp_all

lemma flush_plain:
  assumes "fb_alt b = None" "up_env e" "ForwardBatch_Flush (ue_ops e) (ue_submit e) mem (ue_sendmmsg e) b p = (err, out, b', p')"
  shows "fb_alt b' = None \<and> xb_count (fb_xdp b') = 0 \<and> sb_count (fb_sock b') = 0 \<and>
    length p' + length out = length p + xb_count (fb_xdp b) + sb_count (fb_sock b)"
  using assms
  by (auto simp: ForwardBatch_Flush_def XDPBatch_Flush_def SocketBatch_Flush_def up_env_def Let_def fold_snoc xb_frames_def sb_out_def sb_count_def
      split: prod.splits if_splits)

lemma flushNic_keeps:
  assumes wf: "up_wf e s" and env: "up_env e" and i: "i < length (fw_nics (up_fwd s))" and s': "s' = flushNic e i s"
  shows "up_wf e s'" "total s' = total s" "idle s I \<Longrightarrow> idle s' (insert i I)" "length (fw_nics (up_fwd s')) = length (fw_nics (up_fwd s))"
proof -
  let ?f = "up_fwd s"
  have pl: "pred_option (\<lambda>b. fb_alt b = None) (ne_batch (fw_nics ?f ! i))" and li: "i < length (up_pumps s)"
    using wf i by (auto simp: up_wf_def nics_plain_def list_all_length)
  have "up_wf e s' \<and> total s' = total s \<and> (idle s I \<longrightarrow> idle s' (insert i I)) \<and> length (fw_nics (up_fwd s')) = length (fw_nics (up_fwd s))"
  proof (cases "ne_batch (fw_nics ?f ! i)")
    case None
    then show ?thesis using wf unfolding s' by (auto simp: flushNic_def idle_def batchCount_def)
  next
    case (Some b)
    obtain err out b' p' where fl: "ForwardBatch_Flush (ue_ops e) (ue_submit e) (fw_mem ?f) (ue_sendmmsg e) b (up_pumps s ! i) = (err, out, b', p')"
      by (metis prod.exhaust)
    have alt: "fb_alt b = None" using pl Some by simp
    note k = flush_plain [OF alt env fl]
    let ?n = "(fw_nics ?f ! i)\<lparr>ne_batch := Some b'\<rparr>"
    let ?g = "?f\<lparr>fw_nics := (fw_nics ?f)[i := ?n]\<rparr>"
    have s'': "s' = s\<lparr>up_fwd := ?g, up_pumps := (up_pumps s)[i := p'], up_sock := up_sock s @ out, up_errs := up_errs s + (if err \<noteq> None then 1 else 0)\<rparr>"
      unfolding s' using Some fl by (simp add: flushNic_def Let_def)
    have same: "nics_same ?f ?g" by (rule nics_same_upd [of ?f i ?n]) (use Some k in auto)
    have np: "\<not> fw_panic ?g" using wf by (simp add: up_wf_def)
    have "up_wf e s'" using up_wf_same [OF wf same np, of "up_chan s"] by (simp add: up_wf_def s'')
    moreover have "outcomes ?g + xb_count (fb_xdp b) + sb_count (fb_sock b) = outcomes ?f"
      using sum_list_upd [OF i, of batchCount ?n] k Some by (simp add: outcomes_def batchCount_def)
    then have "total s' = total s"
      using sum_list_upd [OF li, of length p'] k by (simp add: total_def s'')
    moreover have "batchCount ?n = 0" using k by (simp add: batchCount_def)
    then have "idle s' (insert i I)" if "idle s I"
      using that i unfolding idle_def s'' by (simp add: nth_list_update)
    ultimately show ?thesis by (simp add: s'')
  qed
  then show "up_wf e s'" "total s' = total s" "idle s I \<Longrightarrow> idle s' (insert i I)" "length (fw_nics (up_fwd s')) = length (fw_nics (up_fwd s))" by blast+
qed

lemma idle_mono: "idle s I \<Longrightarrow> J \<subseteq> I \<Longrightarrow> idle s J"
  by (auto simp: idle_def)

lemma nicEmpty_count:
  assumes "up_wf e s" "i < length (fw_nics (up_fwd s))" "nicEmpty e i s"
  shows "batchCount (fw_nics (up_fwd s) ! i) = 0"
  using assms
  by (auto simp: nicEmpty_def ForwardBatch_Empty_def XDPBatch_Empty_def SocketBatch_Empty_def batchCount_def up_wf_def nics_plain_def
      list_all_length split: option.splits if_splits)

lemma flushLANs_keeps:
  assumes "up_wf e s" "up_env e" "\<forall>i \<in> set js. i < length (fw_nics (up_fwd s))" "idle s (insert (primaryNIC (ue_cfg e)) I)"
  shows "up_wf e (flushLANs e js s) \<and> total (flushLANs e js s) = total s \<and> idle (flushLANs e js s) (insert (primaryNIC (ue_cfg e)) (I \<union> set js))"
  using assms
proof (induction js arbitrary: s I)
  case (Cons i js)
  show ?case
  proof (cases "i = primaryNIC (ue_cfg e) \<or> nicEmpty e i s")
    case True
    have "idle s (insert (primaryNIC (ue_cfg e)) (insert i I))"
      using Cons.prems(4) True nicEmpty_count [OF Cons.prems(1), of i] by (auto simp: idle_def)
    then show ?thesis using Cons.IH [of s "insert i I"] Cons.prems True by (simp add: insert_commute)
  next
    case False
    have i: "i < length (fw_nics (up_fwd s))" using Cons.prems(3) by simp
    note k = flushNic_keeps [OF Cons.prems(1,2) i refl]
    have "idle (flushNic e i s) (insert (primaryNIC (ue_cfg e)) (insert i I))"
      using k(3) [OF Cons.prems(4)] by (simp add: insert_commute)
    then show ?thesis using Cons.IH [of "flushNic e i s" "insert i I"] Cons.prems k(1,2,4) False by (simp add: insert_commute)
  qed
qed simp

lemma flushAll_keeps:
  assumes "up_wf e s" "up_env e" "s1 = flushNic e (primaryNIC (ue_cfg e)) s \<or> (s1 = s \<and> nicEmpty e (primaryNIC (ue_cfg e)) s)"
  shows "up_wf e (flushLAN e s1) \<and> total (flushLAN e s1) = total s \<and> idle (flushLAN e s1) UNIV"
proof -
  let ?p = "primaryNIC (ue_cfg e)"
  have p: "?p < length (fw_nics (up_fwd s))" using assms(1) by (simp add: up_wf_def)
  note k = flushNic_keeps [OF assms(1,2) p refl]
  have s1: "up_wf e s1" "total s1 = total s" "idle s1 {?p}" 
    using assms(1,3) k(1,2) k(3) [of "{}"] nicEmpty_count [OF assms(1) p] by (auto simp: idle_def)
  from flushLANs_keeps [OF s1(1) assms(2), of "[0..<length (fw_nics (up_fwd s1))]" "{}"] s1
  have f: "up_wf e (flushLAN e s1)" "total (flushLAN e s1) = total s" "idle (flushLAN e s1) (insert ?p {0..<length (fw_nics (up_fwd s1))})"
    by (auto simp: flushLAN_def)
  have "length (fw_nics (up_fwd (flushNic e i t))) = length (fw_nics (up_fwd t))" for i t
    by (auto simp: flushNic_def Let_def split: option.split prod.split)
  then have "length (fw_nics (up_fwd (flushLANs e js t))) = length (fw_nics (up_fwd t))" for js t
    by (induction js arbitrary: t) auto
  then show ?thesis using f by (auto simp: idle_def flushLAN_def)
qed

lemma idle_ready: "up_wf e s \<Longrightarrow> idle s UNIV \<Longrightarrow> nics_ready (up_fwd s)"
  unfolding nics_ready_def list_all_length
proof (intro allI impI)
  fix i
  assume "up_wf e s" "idle s UNIV" and i: "i < length (fw_nics (up_fwd s))"
  then show "pred_option batch_ready (ne_batch (fw_nics (up_fwd s) ! i))"
    by (cases "ne_batch (fw_nics (up_fwd s) ! i)")
      (auto simp: idle_def batchCount_def batch_ready_def SocketBatch_Full_def MaxSocketBatchSize_def up_wf_def nics_plain_def list_all_length)
qed

definition reads :: "upEvent list \<Rightarrow> nat" where
  "reads evs = length (filter (\<lambda>ev. case ev of ReadPacket a pkt \<Rightarrow> True | _ \<Rightarrow> False) evs)"

lemma upEvent_keeps:
  assumes wf: "up_wf e s" and env: "up_env e" and id: "idle s UNIV"
  shows "up_wf e (upEvent_step e ev s) \<and> idle (upEvent_step e ev s) UNIV \<and> total (upEvent_step e ev s) = total s + reads [ev]"
proof (cases ev)
  case (ReadPacket a pkt)
  then show ?thesis
    using wf id by (auto simp: reads_def readPkt_def Let_def up_wf_def idle_def total_def outcomes_def nics_plain_def)
next
  case (Round now clock)
  show ?thesis
  proof (cases "up_chan s")
    case Nil
    then show ?thesis using wf id Round by (simp add: reads_def)
  next
    case (Cons a rest)
    let ?s = "handleNext e now clock s"
    obtain n s1 where d: "drainRound e now clock 1 ?s = (n, s1)" by fastforce
    have h: "up_wf e ?s" "total ?s = total s" using handleNext_keeps [OF wf idle_ready [OF wf id] Cons refl] by simp_all
    have s1: "up_wf e s1" "total s1 = total s" using drainRound_keeps [OF h(1), of now clock 1] h(2) d by simp_all
    let ?s2 = "s1\<lparr>fwdRounds := fwdRounds s1 + 1, fwdRoundPkts := fwdRoundPkts s1 + n\<rparr>"
    have s2: "up_wf e ?s2" "total ?s2 = total s" using s1 by (simp_all add: up_wf_def total_def)
    have ex: "upExpired e now clock ?s2 = ?s2" using s1(1) by (simp add: upExpired_def forwardExpired_def up_wf_def)
    have "upEvent_step e ev s = flushLAN e (if \<not> nicEmpty e (primaryNIC (ue_cfg e)) ?s2 then flushNic e (primaryNIC (ue_cfg e)) ?s2 else ?s2)"
      using Cons Round d ex by (simp add: upRound_def Let_def)
    then show ?thesis using flushAll_keeps [OF s2(1) env] s2(2) Round by (simp add: reads_def)
  qed
next
  case (Tick now clock)
  have "upExpired e now clock s = s" using wf by (simp add: upExpired_def forwardExpired_def up_wf_def)
  then show ?thesis using flushAll_keeps [OF wf env] Tick by (simp add: upTick_def reads_def)
next
  case Closed
  then show ?thesis
    using flushAll_keeps [OF wf env] wf id by (auto simp: upClosed_def reads_def up_wf_def idle_def total_def)
qed

lemma upLoop_keeps:
  assumes "up_wf e s" "up_env e" "idle s UNIV" "up_running s" "s' = upLoop e evs s"
  shows "\<exists>evs1 evs2. evs = evs1 @ evs2 \<and> (evs2 = [] \<or> \<not> up_running s') \<and> total s' = total s + reads evs1 \<and>
    \<not> fw_panic (up_fwd s') \<and> idle s' UNIV"
  using assms
proof (induction evs arbitrary: s)
  case Nil
  then show ?case by (auto simp: reads_def up_wf_def)
next
  case (Cons ev evs)
  let ?t = "upEvent_step e ev s"
  note k = upEvent_keeps [OF Cons.prems(1,2,3), of ev]
  have s': "s' = upLoop e evs ?t" using Cons.prems(1,4,5) by (simp add: up_wf_def)
  have sum: "reads (ev # xs) = reads [ev] + reads xs" for xs by (simp add: reads_def)
  show ?case
  proof (cases "up_running ?t")
    case True
    from Cons.IH [OF _ Cons.prems(2) _ True s'] k obtain evs1 evs2 where
      "evs = evs1 @ evs2" "evs2 = [] \<or> \<not> up_running s'" "total s' = total ?t + reads evs1" "\<not> fw_panic (up_fwd s')" "idle s' UNIV" by blast
    then show ?thesis using k sum [of evs1] by (intro exI [of _ "ev # evs1"] exI [of _ evs2]) simp
  next
    case False
    then have "s' = ?t" using s' by (cases evs) simp_all
    then show ?thesis using k False by (intro exI [of _ "[ev]"] exI [of _ evs]) (simp add: up_wf_def)
  qed
qed

lemma newBatches_idle:
  assumes nb: "newBatches newSock newAlt mode primary nics = Inr nics'" and mode: "selectAlt mode = None"
    and sock: "\<And>i. newSock i = Inr NewSocketBatch \<or> (\<exists>err. newSock i = Inl err)" and p: "primary < length nics"
  shows "length nics' = length nics" "ne_batch (nics' ! primary) \<noteq> None" "list_all (\<lambda>n. pred_option (\<lambda>b. fb_alt b = None) (ne_batch n)) nics'"
    "\<And>i. i < length nics' \<Longrightarrow> batchCount (nics' ! i) = 0"
proof -
  have mk: "fb_alt b = None \<and> xb_count (fb_xdp b) = 0 \<and> sb_count (fb_sock b) = 0" if "newNicBatch (newSock i) newAlt mode n = Inr b" for i n b
    using that sock [of i] mode by (auto simp: newNicBatch_def NewForwardBatch_def NewXDPBatch_def NewSocketBatch_def sb_count_def split: sum.splits)
  from nb obtain b where b: "newNicBatch (newSock primary) newAlt mode (nics ! primary) = Inr b"
    and n': "nics' = map (\<lambda>i. (nics ! i)\<lparr>ne_batch := (if i = primary then Some b
       else case newNicBatch (newSock i) newAlt mode (nics ! i) of Inl _ \<Rightarrow> None | Inr lb \<Rightarrow> Some lb)\<rparr>) [0..<length nics]"
    by (auto simp: newBatches_def split: sum.splits)
  show "length nics' = length nics" "ne_batch (nics' ! primary) \<noteq> None" using p by (simp_all add: n')
  show "list_all (\<lambda>n. pred_option (\<lambda>b. fb_alt b = None) (ne_batch n)) nics'" using mk [OF b] mk by (auto simp: n' list_all_length split: sum.split)
  show "batchCount (nics' ! i) = 0" if "i < length nics'" for i using that mk [OF b] mk by (auto simp: n' batchCount_def split: sum.split)
qed

text \<open>
  No packet of a client is lost without trace on its way out. From the start of the loop
  and for every sequence of reads, rounds and ticks, without resequencing and on interfaces that transmit through
  the pump and the raw socket, every packet read is still in the channel, counted as
  dropped there, or has exactly one outcome: it was written to the TUN device, put into a
  peer's channel, counted as dropped by the router, or handed to a pump or the raw
  socket. The loop never runs over a batch, and between events nothing is left in one.
\<close>

theorem forward_loop_conserves:
  assumes nb: "newBatches newSock newAlt mode (primaryNIC (ue_cfg e)) nics = Inr nics'" and mode: "selectAlt mode = None"
    and sock: "\<forall>i. newSock i = Inr NewSocketBatch \<or> (\<exists>err. newSock i = Inl err)"
    and nics: "primaryNIC (ue_cfg e) < length nics" "list_all (\<lambda>lr. snd lr < int (length nics)) (lanRoutes (ue_cfg e))" "length pumps = length nics"
    and env: "up_env e" "\<not> fw_panic f"
    and s: "s = upStart nics' (newUploadReseq False win age) pumps f" and s': "s' = upLoop e evs s"
  shows "\<exists>evs1 evs2. evs = evs1 @ evs2 \<and> (evs2 = [] \<or> \<not> up_running s') \<and> total s' = total s + reads evs1 \<and>
    \<not> fw_panic (up_fwd s') \<and> idle s' UNIV"
proof (rule upLoop_keeps [OF _ env(1) _ _ s'])
  have "\<And>i. newSock i = Inr NewSocketBatch \<or> (\<exists>err. newSock i = Inl err)" using sock by blast
  note k = newBatches_idle [OF nb mode this nics(1)]
  show "up_wf e s" using k(1-3) nics env(2) by (simp add: up_wf_def s upStart_def newUploadReseq_def nics_plain_def)
  show "idle s UNIV" "up_running s" using k(4) by (simp_all add: idle_def s upStart_def)
qed

definition exUpEnv :: "(unit, bytes list) upEnv" where
  "exUpEnv = \<lparr>ue_cfg = exCfg, ue_ops = exOps, ue_put = (\<lambda>_ _ _. None), ue_arp = (\<lambda>_ _. None), ue_submit = (\<lambda>f p. p @ [f]),
     ue_sendmmsg = (\<lambda>ms. Some (length ms)), ue_spare = 0\<rparr>"

definition exUpMode :: fwdMode where
  "exUpMode = \<lparr>forwardViaVhost = False, forwardViaUring = False, forwardViaTun = False, forwardViaNapiTun = False, forwardViaPacket = False\<rparr>"

theorem forward_loop_conserves_witness:
  "\<exists>nics' evs1 evs2. newBatches (\<lambda>_. Inr NewSocketBatch) (\<lambda>_. Inl Errno) exUpMode 0 [exNic\<lparr>ne_batch := None\<rparr>] = Inr nics' \<and>
     [ReadPacket 4 (ex_seg 7), Round 1 1, Tick 2 2] = evs1 @ evs2 \<and>
     total (upLoop exUpEnv [ReadPacket 4 (ex_seg 7), Round 1 1, Tick 2 2] (upStart nics' None [[]] exState)) =
       total (upStart nics' None [[]] exState) + reads evs1"
proof -
  obtain nics' where nb: "newBatches (\<lambda>_. Inr NewSocketBatch) (\<lambda>_. Inl Errno) exUpMode (primaryNIC (ue_cfg exUpEnv)) [exNic\<lparr>ne_batch := None\<rparr>] = Inr nics'"
    by (auto simp: newBatches_def newNicBatch_def NewForwardBatch_def selectAlt_def exUpMode_def)
  have h: "selectAlt exUpMode = None" "primaryNIC (ue_cfg exUpEnv) = 0" "up_env exUpEnv" "\<not> fw_panic exState"
    "list_all (\<lambda>lr. snd lr < int (length [exNic\<lparr>ne_batch := None\<rparr>])) (lanRoutes (ue_cfg exUpEnv))"
    by (simp_all add: selectAlt_def exUpMode_def exUpEnv_def exCfg_def up_env_def exState_def)
  from forward_loop_conserves [OF nb h(1) _ _ h(5) _ h(3,4) refl refl, where pumps = "[[]]" and evs = "[ReadPacket 4 (ex_seg 7), Round 1 1, Tick 2 2]"] nb h(2)
  show ?thesis by (auto simp: newUploadReseq_def)
qed

subsection \<open>Overflow behind the resequencer\<close>

lemma forwardOne_is_wan:
  assumes "get32 (fw_mem f p) 16 \<notin> {wanAddr cfg, serverTunIP cfg}" "\<not> Contains (virtPrefix cfg) (get32 (fw_mem f p) 16)"
    and "list_all (\<lambda>lr. \<not> Contains (fst lr) (get32 (fw_mem f p) 16)) (lanRoutes cfg)"
  shows "forwardOne cfg ops put now arp p f = forwardWan cfg ops put now p f"
proof -
  have "List.find (\<lambda>lr. Contains (fst lr) (get32 (fw_mem f p) 16)) (lanRoutes cfg) = None"
    using assms(3) by (auto simp: find_None_iff list_all_iff)
  then show ?thesis using assms(1,2) by (simp add: forwardOne_def Let_def)
qed

lemma add_to_socket:
  assumes "toSocket ack (mem p)"
  shows "ForwardBatch_Add ops ack mem p m b = (fst (SocketBatch_Add mem p (fb_sock b)), b\<lparr>fb_sock := snd (SocketBatch_Add mem p (fb_sock b))\<rparr>)"
  using assms by (auto simp: ForwardBatch_Add_def toSocket_def Let_def split: prod.split)

lemma batchAdd_full_panics:
  assumes "ne_batch (fw_nics g ! i) = Some b" "toSocket ack (fw_mem g p)" "sb_count (fb_sock b) = 1024"
  shows "fw_panic (batchAdd ops ack i p m g)"
proof -
  have "fst (SocketBatch_Add (fw_mem g) p (fb_sock b)) = Some IndexPanic"
    using assms(3) by (simp add: SocketBatch_Add_def MaxSocketBatchSize_def Let_def)
  then show ?thesis using assms(1) by (simp add: batchAdd_def add_to_socket [of ack "fw_mem g" p, OF assms(2)] Let_def)
qed

lemma batchAdd_last:
  assumes "i < length (fw_nics g)" "ne_batch (fw_nics g ! i) = Some b" "toSocket ack (fw_mem g p)" "wellFormed (fw_mem g p)" "sb_count (fb_sock b) = 1023"
  shows "\<exists>b'. ne_batch (fw_nics (batchAdd ops ack i p m g) ! i) = Some b' \<and> sb_count (fb_sock b') = 1024"
proof -
  obtain sb' where sb': "SocketBatch_Add (fw_mem g) p (fb_sock b) = (None, sb')" "sb_count sb' = 1024"
    using assms(4,5) by (auto simp: SocketBatch_Add_def wellFormed_def MaxSocketBatchSize_def sb_count_def Let_def)
  then have "ne_batch (fw_nics (batchAdd ops ack i p m g) ! i) = Some (b\<lparr>fb_sock := sb'\<rparr>)"
    using assms(1,2) by (simp add: batchAdd_def add_to_socket [of ack "fw_mem g" p, OF assms(3)] Let_def)
  then show ?thesis using sb'(2) by simp
qed

definition forInternet :: "fwdConfig \<Rightarrow> bytes \<Rightarrow> bool" where
  "forInternet cfg ip \<longleftrightarrow> get32 ip 16 \<notin> {wanAddr cfg, serverTunIP cfg} \<and> \<not> Contains (virtPrefix cfg) (get32 ip 16) \<and>
     list_all (\<lambda>lr. \<not> Contains (fst lr) (get32 ip 16)) (lanRoutes cfg)"

text \<open>
  C38: Behind the resequencer the loop can run over the raw-socket batch. The loop tests
  for a full batch before it takes a packet, but one packet can make the resequencer
  release several. When the batch holds 1023 messages, so that the test passes, and the
  packet releases two small segments for the Internet, the second \<^verbatim>\<open>Add\<close> indexes past the
  end of the batch and panics.
\<close>

theorem resequenced_burst_overflows:
  assumes chan: "up_chan s = a # rest" "up_reseq s = Some r" "Push r (fw_mem (up_fwd s) a) clock [] = (r', [p1, p2])"
    and far: "forInternet (ue_cfg e) p1" "forInternet (ue_cfg e) p2"
    and nat: "ApplySNAT (ue_put e) now p1 (wanAddr (ue_cfg e)) (fw_nat (up_fwd s)) = (Inr q1, t1)"
      "ApplySNAT (ue_put e) now p2 (wanAddr (ue_cfg e)) t1 = (Inr q2, t2)"
    and small: "toSocket (ackViaSocket (ue_cfg e)) q1" "toSocket (ackViaSocket (ue_cfg e)) q2" "wellFormed q1"
    and batch: "i = primaryNIC (ue_cfg e)" "i < length (fw_nics (up_fwd s))" "ne_batch (fw_nics (up_fwd s) ! i) = Some b"
      "sb_count (fb_sock b) = 1023" "\<not> ForwardBatch_Full (ue_ops e) b"
  shows "\<not> nicFull e i s \<and> fw_panic (up_fwd (handleNext e now clock s))"
proof -
  let ?cfg = "ue_cfg e" and ?ops = "ue_ops e" and ?f = "up_fwd s"
  let ?ack = "ackViaSocket ?cfg"
  have nf: "\<not> nicFull e i s" using batch by (simp add: nicFull_def)
  have wan: "forwardOne ?cfg ?ops (ue_put e) now (ue_arp e) a (g\<lparr>fw_mem := (fw_mem g)(a := ip)\<rparr>) =
      batchAdd ?ops ?ack i a (NextHopMACForIP (slice q 16 20) (ne_conn (fw_nics g ! i)))
        (g\<lparr>fw_obs := highWaterObserve ip (fw_obs g), fw_nat := t, fw_mem := (fw_mem g)(a := q)\<rparr>)"
    if "forInternet ?cfg ip" "ApplySNAT (ue_put e) now ip (wanAddr ?cfg) (fw_nat g) = (Inr q, t)" for g ip q t
    using that by (simp add: forwardOne_is_wan forInternet_def forwardWan_def Let_def batch(1))
  define g1 where "g1 = batchAdd ?ops ?ack i a (NextHopMACForIP (slice q1 16 20) (ne_conn (fw_nics ?f ! i)))
    (?f\<lparr>fw_obs := highWaterObserve p1 (fw_obs ?f), fw_nat := t1, fw_mem := (fw_mem ?f)(a := q1)\<rparr>)"
  define g2 where "g2 = batchAdd ?ops ?ack i a (NextHopMACForIP (slice q2 16 20) (ne_conn (fw_nics g1 ! i)))
    (g1\<lparr>fw_obs := highWaterObserve p2 (fw_obs g1), fw_nat := t2, fw_mem := (fw_mem g1)(a := q2)\<rparr>)"
  have "\<exists>b'. ne_batch (fw_nics g1 ! i) = Some b' \<and> sb_count (fb_sock b') = 1024"
    unfolding g1_def by (rule batchAdd_last [of _ _ b]) (use batch small in simp_all)
  then obtain b' where b': "ne_batch (fw_nics g1 ! i) = Some b'" "sb_count (fb_sock b') = 1024" by blast
  have p: "fw_panic g2" unfolding g2_def by (rule batchAdd_full_panics [of _ _ b']) (use b' small(2) in simp_all)
  have n1: "fw_nat g1 = t1" by (simp add: g1_def)
  have "forwardOne ?cfg ?ops (ue_put e) now (ue_arp e) a (?f\<lparr>fw_mem := (fw_mem ?f)(a := p1)\<rparr>) = g1"
    unfolding g1_def by (rule wan [OF far(1) nat(1)])
  moreover have "forwardOne ?cfg ?ops (ue_put e) now (ue_arp e) a (g1\<lparr>fw_mem := (fw_mem g1)(a := p2)\<rparr>) = g2"
    unfolding g2_def by (rule wan [OF far(2)]) (simp only: n1 nat(2))
  ultimately have "forwardAll ?cfg ?ops (ue_put e) now (ue_arp e) a [p1, p2] ?f = g2" by (simp only: forwardAll.simps)
  then have "up_fwd (handleNext e now clock s) = g2"
    using chan by (simp add: handleNext_def handlePkt_def)
  then show ?thesis using nf p by simp
qed

definition exNearlyFull :: "unit ForwardBatch" where
  "exNearlyFull = \<lparr>fb_xdp = NewXDPBatch [2, 0, 0, 0, 0, 1] [2, 0, 0, 0, 0, 2], fb_alt = None,
     fb_sock = \<lparr>sb_msgs = replicate 1023 \<lparr>sm_addr = [0, 0, 0, 2], sm_iov = Own (ex_seg 6)\<rparr>\<rparr>\<rparr>"

definition exBurst :: "(unit, bytes list) upState" where
  "exBurst = (upStart [exNic\<lparr>ne_batch := Some exNearlyFull\<rparr>]
     (Some (ex_state\<lparr>flows := [(ex_flowkey, \<lparr>primed = True, nextSeq = 7, buf = [(8, \<lparr>re_data = ex_seg 8, re_nextAfter = 9\<rparr>)], lastSeen = 0\<rparr>)]\<rparr>))
     [[]] (exState\<lparr>fw_mem := (\<lambda>_. ex_seg 7), fw_nat := (OpenNatTable Map.empty)\<lparr>fwd := [makeFlowKey 1 1 6 2 2 \<mapsto> 61000]\<rparr>\<rparr>))\<lparr>up_chan := [4]\<rparr>"

lemma ex_seg_fields:
  "get32 (ex_seg q) 12 = 1" "get32 (ex_seg q) 16 = 2" "get16 (ex_seg q) 20 = 1" "get16 (ex_seg q) 22 = 2" "ihl_of (ex_seg q) = 20" "ex_seg q ! 9 = 6"
  "ex_seg q ! 0 = 0x45" "length (ex_seg q) = 41"
  by (simp_all add: ex_seg_def ex_read)

lemma ex_seg_snat:
  assumes "fwd t (makeFlowKey 1 1 6 2 2) = Some 61000"
  obtains q' where "ApplySNAT put now (ex_seg q) 0xc0000201 t = (Inr q', t)" "length q' = 41" "q' ! 0 = 0x45"
proof -
  let ?q = "snatRewrite (ex_seg q) 20 6 1 0xc0000201 1 61000"
  have ap: "snat_applies (ex_seg q) 0xc0000201" by (simp add: snat_applies_def ex_seg_fields IPPROTO_TCP_def)
  have "ApplySNAT put now (ex_seg q) 0xc0000201 t = (Inr ?q, t)"
    using assms by (simp add: ApplySNAT_eq ap ex_seg_fields AllocPort_def)
  moreover have "?q ! 0 = 0x45" using snat_keeps_byte [OF ap, of 0 1 1 61000] by (simp add: ex_seg_fields csum_off_def)
  ultimately show thesis using that by (simp add: snat_length ex_seg_fields)
qed

theorem resequenced_burst_overflows_witness: "fw_panic (up_fwd (handleNext exUpEnv 1 1 exBurst))"
proof -
  let ?t = "(OpenNatTable Map.empty)\<lparr>fwd := [makeFlowKey 1 1 6 2 2 \<mapsto> 61000]\<rparr>"
  have f: "fwd ?t (makeFlowKey 1 1 6 2 2) = Some 61000" by simp
  obtain q1 where q1: "ApplySNAT (\<lambda>_ _ _. None) 1 (ex_seg 7) 0xc0000201 ?t = (Inr q1, ?t)" "length q1 = 41" "q1 ! 0 = 0x45"
    by (rule ex_seg_snat [OF f])
  obtain q2 where q2: "ApplySNAT (\<lambda>_ _ _. None) 1 (ex_seg 8) 0xc0000201 ?t = (Inr q2, ?t)" "length q2 = 41" by (rule ex_seg_snat [OF f])
  have w: "wellFormed q1" using q1 by (cases q1) (simp_all add: wellFormed_def IPVersion_def)
  have far: "forInternet exCfg (ex_seg q)" for q by (simp add: forInternet_def ex_seg_fields exCfg_def Contains_def)
  have push: "\<exists>r'. Push (ex_state\<lparr>flows := [(ex_flowkey, \<lparr>primed = True, nextSeq = 7, buf = [(8, \<lparr>re_data = ex_seg 8, re_nextAfter = 9\<rparr>)], lastSeen = 0\<rparr>)]\<rparr>)
      (ex_seg 7) 1 [] = (r', [ex_seg 7, ex_seg 8])"
    by (simp add: Push_def ex_seg_parse pushFlow_def sdist_def drain.simps Let_def)
  then obtain r' where r': "Push (ex_state\<lparr>flows := [(ex_flowkey, \<lparr>primed = True, nextSeq = 7, buf = [(8, \<lparr>re_data = ex_seg 8, re_nextAfter = 9\<rparr>)], lastSeen = 0\<rparr>)]\<rparr>)
      (ex_seg 7) 1 [] = (r', [ex_seg 7, ex_seg 8])" by blast
  have nf: "sb_count (fb_sock exNearlyFull) = 1023" "\<not> ForwardBatch_Full exOps exNearlyFull"
    by (simp_all add: exNearlyFull_def sb_count_def NewXDPBatch_def ForwardBatch_Full_def XDPBatch_Full_def SocketBatch_Full_def
        MaxXDPBatchSize_def MaxSocketBatchSize_def)
  have "\<not> nicFull exUpEnv 0 exBurst \<and> fw_panic (up_fwd (handleNext exUpEnv 1 1 exBurst))"
    by (rule resequenced_burst_overflows [where ?p1.0 = "ex_seg 7" and ?p2.0 = "ex_seg 8" and ?q1.0 = q1 and ?q2.0 = q2 and ?t1.0 = ?t and ?t2.0 = ?t and r' = r' and b = exNearlyFull])
      (use r' q1 q2 w far in \<open>simp_all add: exBurst_def upStart_def exUpEnv_def exCfg_def exState_def exNic_def toSocket_def nf\<close>)
  then show ?thesis by simp
qed

end
