(* ===== verification/Datapath.thy ===== *)
theory Datapath
  imports Startup ForwardLoop
begin

text \<open>
  The set-up of the datapath in \<^verbatim>\<open>run\<close> of \<^verbatim>\<open>main.go\<close>, up to the transport QUIC listens on: the real
  interfaces, their connections, the routes to the local networks and the primary interface; and
  what the steps of \<^verbatim>\<open>main\<close>, the set-up and the upload workers give together.
\<close>

subsection \<open>The datapath\<close>

record 's nicDesc =
  nd_name :: string
  nd_conn :: "'s Conn"
  nd_addr :: bytes
  nd_combined :: int

datatype transport = KernelUDP | OneConn string | ManyConns "string list"

record 's datapath =
  dp_nics :: "'s nicDesc list"
  dp_routes :: "(prefix \<times> int) list"
  dp_primary :: nat
  dp_transport :: transport

datatype runError = DetectFailed | NoRealNIC | WanNotReal | LoadFailed | NatOpenFailed | NoUsableNIC | UdpListenFailed | NoListenNIC

definition noSockets :: xskState where
  "noSockets = \<lparr>xs_open = [], xs_quic = [], xs_fwd = [], xs_flags = XDP_COPY\<rparr>"

text \<open>One interface: skipped without an address, without queue information, or when its sockets fail.\<close>

definition openNIC :: "host \<Rightarrow> confCtx \<Rightarrow> udpAddr \<Rightarrow> (string \<Rightarrow> bool) \<Rightarrow> (bytes \<Rightarrow> bytes \<Rightarrow> 's \<Rightarrow> bool \<times> 's) \<Rightarrow> Loader \<Rightarrow> 's nicDesc option" where
  "openNIC h ctx localAddr registerQuic deliver l =
     (let ifc = ld_iface l in
      case firstIPv4 h (lk_Name ifc) of
        None \<Rightarrow> None
      | Some addr \<Rightarrow>
          let combined = maximizeChannelsFor h ctx (lk_Name ifc) in
          (case GetQueueInfo h (lk_Name ifc) of
             None \<Rightarrow> None
           | Some nq \<Rightarrow>
               (case NewConn h ifc localAddr (RX nq) (ld_mode l) (\<not> registerQuic (lk_Name ifc)) noSockets of
                  (Inl _, _) \<Rightarrow> None
                | (Inr conn, _) \<Rightarrow>
                    Some \<lparr>nd_name = lk_Name ifc, nd_conn = SetForwardHandler deliver conn, nd_addr = addr, nd_combined = combined\<rparr>)))"

definition containsAddr :: "prefix \<Rightarrow> bytes \<Rightarrow> bool" where
  "containsAddr p a \<longleftrightarrow> length a = 4 \<and> Contains p (get32 a 0)"

fun indexOf :: "('a \<Rightarrow> bool) \<Rightarrow> 'a list \<Rightarrow> nat option" where
  "indexOf P [] = None"
| "indexOf P (x # xs) = (if P x then Some 0 else map_option Suc (indexOf P xs))"

definition lanRoutesOf :: "prefix list \<Rightarrow> 's nicDesc list \<Rightarrow> (prefix \<times> int) list" where
  "lanRoutesOf lans nics =
     map (\<lambda>p. (p, case indexOf (\<lambda>n. containsAddr p (nd_addr n)) nics of Some i \<Rightarrow> int i | None \<Rightarrow> - 1)) lans"

definition NewMultiConn :: "string list \<Rightarrow> transport" where
  "NewMultiConn conns = (case conns of [c] \<Rightarrow> OneConn c | _ \<Rightarrow> ManyConns conns)"

text \<open>The map \<^verbatim>\<open>quicListen\<close>: the uplink when it is named, else every real interface.\<close>

definition quicListens :: "string \<Rightarrow> string list \<Rightarrow> string \<Rightarrow> bool" where
  "quicListens wanIface nicNames n \<longleftrightarrow> (if wanIface \<noteq> [] then n = wanIface else n \<in> set nicNames)"

text \<open>The connection that the QUIC listener is given.\<close>

definition chooseTransport :: "bool \<Rightarrow> bool \<Rightarrow> string list \<Rightarrow> runError + transport" where
  "chooseTransport quicKernelUDP udpListens listenConns =
     (if quicKernelUDP then (if \<not> udpListens then Inl UdpListenFailed else Inr KernelUDP)
      else if listenConns = [] then Inl NoListenNIC
      else Inr (NewMultiConn listenConns))"

definition runSetup :: "host \<Rightarrow> confCtx \<Rightarrow> prefix list \<Rightarrow> bool \<Rightarrow> bool \<Rightarrow> udpAddr \<Rightarrow> (bytes \<Rightarrow> bytes \<Rightarrow> 's \<Rightarrow> bool \<times> 's)
    \<Rightarrow> runError + 's datapath" where
  "runSetup h ctx localLANs natOpens udpListens localAddr deliver =
     (let wanIface = (case map_of ctx ''WAN_INTERFACE'' of Some w \<Rightarrow> w | None \<Rightarrow> []) in
      case DetectRealNICs h of
        None \<Rightarrow> Inl DetectFailed
      | Some nicNames \<Rightarrow>
          if nicNames = [] then Inl NoRealNIC
          else if wanIface \<noteq> [] \<and> wanIface \<notin> set nicNames then Inl WanNotReal
          else
            case LoadMultiNIC h nicNames of
              None \<Rightarrow> Inl LoadFailed
            | Some loaders \<Rightarrow>
                if \<not> natOpens then Inl NatOpenFailed
                else
                  let quicKernelUDP = confBool ctx ''QUIC_KERNEL_UDP'' False;
                      registerQuic = (\<lambda>n. quicListens wanIface nicNames n \<and> \<not> quicKernelUDP);
                      egressNICs = List.map_filter (openNIC h ctx localAddr registerQuic deliver) loaders;
                      listenConns = filter registerQuic (map nd_name egressNICs)
                  in if egressNICs = [] then Inl NoUsableNIC
                     else
                       let primary = (case indexOf (\<lambda>e. quicListens wanIface nicNames (nd_name e)) egressNICs of Some i \<Rightarrow> i | None \<Rightarrow> 0);
                           d = (\<lambda>t. \<lparr>dp_nics = egressNICs, dp_routes = lanRoutesOf localLANs egressNICs, dp_primary = primary, dp_transport = t\<rparr>)
                       in case chooseTransport quicKernelUDP udpListens listenConns of Inl err \<Rightarrow> Inl err | Inr t \<Rightarrow> Inr (d t))"

subsection \<open>Routes\<close>

lemma indexOf_Some: "indexOf P xs = Some i \<Longrightarrow> i < length xs \<and> P (xs ! i) \<and> (\<forall>j<i. \<not> P (xs ! j))"
proof (induction xs arbitrary: i)
  case Nil
  then show ?case by simp
next
  case (Cons x xs)
  show ?case
  proof (cases "P x")
    case True
    then show ?thesis using Cons.prems by simp
  next
    case False
    then obtain k where k: "i = Suc k" "indexOf P xs = Some k" using Cons.prems by auto
    then show ?thesis using Cons.IH [OF k(2)] False by (auto simp: less_Suc_eq_0_disj)
  qed
qed

lemma indexOf_None: "indexOf P xs = None \<longleftrightarrow> (\<forall>x\<in>set xs. \<not> P x)"
  by (induction xs) auto

lemma lanRoutesOf_iff:
  "(p, i) \<in> set (lanRoutesOf lans nics) \<longleftrightarrow>
     p \<in> set lans \<and> i = (case indexOf (\<lambda>n. containsAddr p (nd_addr n)) nics of Some j \<Rightarrow> int j | None \<Rightarrow> - 1)"
  by (auto simp: lanRoutesOf_def)

lemma lanRoutesOf_range:
  assumes "(p, i) \<in> set (lanRoutesOf lans nics)"
  shows "- 1 \<le> i \<and> i < int (length nics) \<and> (0 \<le> i \<longrightarrow> containsAddr p (nd_addr (nics ! nat i))) \<and>
    (i = - 1 \<longrightarrow> (\<forall>n\<in>set nics. \<not> containsAddr p (nd_addr n)))"
  using assms by (auto simp: lanRoutesOf_iff indexOf_None split: option.splits dest: indexOf_Some)

text \<open>What a successful set-up went through.\<close>

lemma runSetup_Inr:
  assumes "runSetup h ctx lans natOk udpOk la deliver = Inr d" "w = (case map_of ctx ''WAN_INTERFACE'' of Some w \<Rightarrow> w | None \<Rightarrow> [])"
  obtains names loaders where
    "DetectRealNICs h = Some names" "w \<noteq> [] \<longrightarrow> w \<in> set names" "LoadMultiNIC h names = Some loaders"
    "dp_nics d = List.map_filter (openNIC h ctx la (\<lambda>n. quicListens w names n \<and> \<not> confBool ctx ''QUIC_KERNEL_UDP'' False) deliver) loaders"
    "dp_nics d \<noteq> []" "dp_routes d = lanRoutesOf lans (dp_nics d)"
    "dp_primary d = (case indexOf (\<lambda>e. quicListens w names (nd_name e)) (dp_nics d) of Some i \<Rightarrow> i | None \<Rightarrow> 0)"
    "dp_transport d = (if confBool ctx ''QUIC_KERNEL_UDP'' False then KernelUDP
       else NewMultiConn (filter (quicListens w names) (map nd_name (dp_nics d))))"
    "\<not> confBool ctx ''QUIC_KERNEL_UDP'' False \<longrightarrow> filter (quicListens w names) (map nd_name (dp_nics d)) \<noteq> []"
proof -
  note r = assms(1) [unfolded runSetup_def chooseTransport_def Let_def assms(2) [symmetric]]
  obtain names where names: "DetectRealNICs h = Some names" using r by (auto split: option.splits)
  obtain loaders where loaders: "LoadMultiNIC h names = Some loaders"
    using r by (auto simp: names split: option.splits if_splits)
  define k where "k = confBool ctx ''QUIC_KERNEL_UDP'' False"
  have w: "w \<noteq> [] \<longrightarrow> w \<in> set names" using r by (auto simp: names split: if_splits)
  show thesis
    by (rule that [OF names w loaders])
      (use r in \<open>auto simp: names loaders k_def [symmetric] split: if_splits\<close>)
qed

lemma openNIC_name: "openNIC h ctx la r f l = Some n \<Longrightarrow> nd_name n = lk_Name (ld_iface l) \<and> firstIPv4 h (nd_name n) = Some (nd_addr n)"
  by (auto simp: openNIC_def Let_def split: option.splits prod.splits sum.splits)

lemma openNIC_combined: "openNIC h ctx la r f l = Some n \<Longrightarrow> 1 \<le> nd_combined n"
  using maximizeChannelsFor_pos by (auto simp: openNIC_def Let_def split: option.splits prod.splits sum.splits)

lemma map_filter_names:
  assumes "\<And>l n. f l = Some n \<Longrightarrow> g n = k l"
  shows "map g (List.map_filter f ls) = map k (filter (\<lambda>l. f l \<noteq> None) ls)"
  using assms by (induction ls) (auto simp: List.map_filter_simps split: option.split)

lemma set_map_filter: "set (List.map_filter f xs) = {y. \<exists>x\<in>set xs. f x = Some y}"
  by (induction xs) (auto simp: List.map_filter_simps split: option.split)

lemma runSetup_names:
  assumes "LoadMultiNIC h names = Some loaders" "nics = List.map_filter (openNIC h ctx la r f) loaders"
  shows "set (map nd_name nics) \<subseteq> set names" "distinct names \<Longrightarrow> distinct (map nd_name nics)"
proof -
  have n: "map nd_name nics = map (\<lambda>l. lk_Name (ld_iface l)) (filter (\<lambda>l. openNIC h ctx la r f l \<noteq> None) loaders)"
    unfolding assms(2) by (rule map_filter_names) (simp add: openNIC_name)
  have ls: "map (\<lambda>l. lk_Name (ld_iface l)) loaders = filter (\<lambda>n. loadOne h n \<noteq> None) names"
    using LoadMultiNIC_names(1) [OF assms(1)] by (simp add: comp_def)
  have "set (map nd_name nics) \<subseteq> set (map (\<lambda>l. lk_Name (ld_iface l)) loaders)" unfolding n by auto
  then show "set (map nd_name nics) \<subseteq> set names" unfolding ls by auto
  assume "distinct names"
  then have "distinct (map (\<lambda>l. lk_Name (ld_iface l)) loaders)" unfolding ls by simp
  then show "distinct (map nd_name nics)" unfolding n by (rule distinct_map_filter)
qed

lemma filter_eq_distinct: "distinct xs \<Longrightarrow> filter (\<lambda>n. n = w) xs = (if w \<in> set xs then [w] else [])"
  by (induction xs) auto

lemma quicListens_named: "w \<noteq> [] \<Longrightarrow> quicListens w names = (\<lambda>n. n = w)"
  by (simp add: quicListens_def fun_eq_iff)

text \<open>With an uplink named, a set-up either listens on it alone and makes it the primary interface, or uses the kernel's UDP.\<close>

lemma runSetup_uplink:
  assumes r: "runSetup h ctx lans natOk udpOk la deliver = Inr d" and w: "map_of ctx ''WAN_INTERFACE'' = Some w" "w \<noteq> []"
    and ifs: "Interfaces h = Some ifs" "distinct (map lk_Name ifs)"
  shows "dp_primary d < length (dp_nics d) \<and>
    (if confBool ctx ''QUIC_KERNEL_UDP'' False
     then dp_transport d = KernelUDP \<and>
       (if w \<in> nd_name ` set (dp_nics d) then nd_name (dp_nics d ! dp_primary d) = w else dp_primary d = 0)
     else dp_transport d = OneConn w \<and> nd_name (dp_nics d ! dp_primary d) = w)"
proof -
  have "w = (case map_of ctx ''WAN_INTERFACE'' of Some w \<Rightarrow> w | None \<Rightarrow> [])" using w by simp
  note rs = runSetup_Inr [OF r this]
  show ?thesis
  proof (rule rs)
    fix names loaders
    let ?k = "confBool ctx ''QUIC_KERNEL_UDP'' False"
    assume names: "DetectRealNICs h = Some names" and loaders: "LoadMultiNIC h names = Some loaders"
      and nics: "dp_nics d = List.map_filter (openNIC h ctx la (\<lambda>n. quicListens w names n \<and> \<not> ?k) deliver) loaders" "dp_nics d \<noteq> []"
      and p: "dp_primary d = (case indexOf (\<lambda>e. quicListens w names (nd_name e)) (dp_nics d) of Some i \<Rightarrow> i | None \<Rightarrow> 0)"
      and t: "dp_transport d = (if ?k then KernelUDP else NewMultiConn (filter (quicListens w names) (map nd_name (dp_nics d))))"
      and ne: "\<not> ?k \<longrightarrow> filter (quicListens w names) (map nd_name (dp_nics d)) \<noteq> []"
    have "distinct names" by (rule DetectRealNICs_distinct [OF names ifs])
    then have dn: "distinct (map nd_name (dp_nics d))" by (rule runSetup_names(2) [OF loaders nics(1)])
    have lc: "filter (quicListens w names) (map nd_name (dp_nics d)) = (if w \<in> nd_name ` set (dp_nics d) then [w] else [])"
      using filter_eq_distinct [OF dn, of w] by (simp add: quicListens_named [OF w(2)])
    have p': "if w \<in> nd_name ` set (dp_nics d) then dp_primary d < length (dp_nics d) \<and> nd_name (dp_nics d ! dp_primary d) = w
        else dp_primary d = 0"
    proof (cases "indexOf (\<lambda>e. nd_name e = w) (dp_nics d)")
      case None
      then show ?thesis using p indexOf_None [of "\<lambda>e. nd_name e = w"] by (auto simp: quicListens_named [OF w(2)])
    next
      case (Some i)
      then show ?thesis using p indexOf_Some [OF Some] by (auto simp: quicListens_named [OF w(2)])
    qed
    show ?thesis
      using p' t ne lc nics(2) by (auto simp: NewMultiConn_def split: if_splits)
  qed
qed

subsection \<open>The uplink\<close>

lemma runSetup_nic:
  assumes r: "runSetup h ctx lans natOk udpOk la deliver = Inr d" and n: "n \<in> set (dp_nics d)"
  shows "firstIPv4 h (nd_name n) = Some (nd_addr n) \<and> 1 \<le> nd_combined n \<and> (\<exists>names. DetectRealNICs h = Some names \<and> nd_name n \<in> set names)"
proof (rule runSetup_Inr [OF r refl])
  fix names loaders
  define k where "k = (\<lambda>n. quicListens (case map_of ctx ''WAN_INTERFACE'' of None \<Rightarrow> [] | Some w \<Rightarrow> w) names n \<and> \<not> confBool ctx ''QUIC_KERNEL_UDP'' False)"
  assume names: "DetectRealNICs h = Some names" "LoadMultiNIC h names = Some loaders"
  assume "dp_nics d = List.map_filter (openNIC h ctx la (\<lambda>n. quicListens (case map_of ctx ''WAN_INTERFACE'' of None \<Rightarrow> [] | Some w \<Rightarrow> w) names n \<and>
      \<not> confBool ctx ''QUIC_KERNEL_UDP'' False) deliver) loaders"
  then have nics: "dp_nics d = List.map_filter (openNIC h ctx la k deliver) loaders" by (simp add: k_def)
  obtain l where "openNIC h ctx la k deliver l = Some n" using n unfolding nics set_map_filter by blast
  from openNIC_name [OF this] openNIC_combined [OF this]
  have "firstIPv4 h (nd_name n) = Some (nd_addr n)" "1 \<le> nd_combined n" by blast+
  moreover have "nd_name n \<in> set names" using runSetup_names(1) [OF names(2) nics] n by auto
  ultimately show ?thesis using names(1) by blast
qed

lemma runSetup_routes:
  assumes r: "runSetup h ctx lans natOk udpOk la deliver = Inr d"
  shows "dp_routes d = lanRoutesOf lans (dp_nics d) \<and> dp_primary d < length (dp_nics d)"
proof (rule runSetup_Inr [OF r refl])
  fix names
  assume "dp_routes d = lanRoutesOf lans (dp_nics d)" "dp_nics d \<noteq> []"
    and "dp_primary d = (case indexOf (\<lambda>e. quicListens (case map_of ctx ''WAN_INTERFACE'' of None \<Rightarrow> [] | Some w \<Rightarrow> w) names (nd_name e)) (dp_nics d) of
        None \<Rightarrow> 0 | Some i \<Rightarrow> i)"
  then show ?thesis by (auto split: option.splits dest: indexOf_Some)
qed

lemma need_Inr: "need stop x f = Inr b \<longleftrightarrow> (\<exists>a. x = Some a \<and> f a = Inr b)"
  by (simp add: need_def split: option.split)

lemma mainBoot_Inr:
  assumes "mainBoot h t6 ctx = Inr b"
  shows "map_of ctx ''WAN_INTERFACE'' = Some (bs_iface b) \<and> bs_lans b = buildLocalLANs h (bs_iface b) \<and> bs_mode b = bootMode ctx \<and>
    (\<exists>l. LinkByName h (bs_iface b) = Some l \<and> usableOf l = Some (bs_wanAddr b) \<and> tunnelMTU h ctx (bs_iface b) l = (bs_mtu b, bs_ips b))"
  using assms unfolding mainBoot_def need_Inr by auto



text \<open>
  C22: The routes to the local networks are those of the interfaces. After a set-up, a route names the interface whose
  own address lies in its network, by an index within the list, or none when there is no such
  interface; and every interface other than the uplink is reached: one of the routes
  contains its address and names an interface.
\<close>

theorem lan_routes_owned:
  assumes r: "runSetup h ctx (buildLocalLANs h w) natOk udpOk la deliver = Inr d" and w: "map_of ctx ''WAN_INTERFACE'' = Some w"
    and ones: "\<forall>ls l addrs a. LinkList h = Some ls \<longrightarrow> l \<in> set ls \<longrightarrow> lk_Addrs l = Some addrs \<longrightarrow> a \<in> set addrs \<longrightarrow> ia_ones a \<le> 32"
  shows "(\<forall>(p, i)\<in>set (dp_routes d). - 1 \<le> i \<and> i < int (length (dp_nics d)) \<and>
       (if 0 \<le> i then containsAddr p (nd_addr (dp_nics d ! nat i)) else (\<forall>n\<in>set (dp_nics d). \<not> containsAddr p (nd_addr n)))) \<and>
    (\<forall>n\<in>set (dp_nics d). nd_name n \<noteq> w \<longrightarrow> length (nd_addr n) = 4 \<longrightarrow> (\<exists>(p, i)\<in>set (dp_routes d). 0 \<le> i \<and> containsAddr p (nd_addr n)))"
proof (intro conjI)
  note rt = runSetup_routes [OF r, THEN conjunct1]
  show "\<forall>(p, i)\<in>set (dp_routes d). - 1 \<le> i \<and> i < int (length (dp_nics d)) \<and>
       (if 0 \<le> i then containsAddr p (nd_addr (dp_nics d ! nat i)) else (\<forall>n\<in>set (dp_nics d). \<not> containsAddr p (nd_addr n)))"
    unfolding rt using lanRoutesOf_range by fastforce
  show "\<forall>n\<in>set (dp_nics d). nd_name n \<noteq> w \<longrightarrow> length (nd_addr n) = 4 \<longrightarrow> (\<exists>(p, i)\<in>set (dp_routes d). 0 \<le> i \<and> containsAddr p (nd_addr n))"
  proof (intro ballI impI)
    fix n assume n: "n \<in> set (dp_nics d)" "nd_name n \<noteq> w" "length (nd_addr n) = 4"
    obtain names where a: "firstIPv4 h (nd_name n) = Some (nd_addr n)" and names: "DetectRealNICs h = Some names" "nd_name n \<in> set names"
      using runSetup_nic [OF r n(1)] by blast
    have "nd_name n \<noteq> ''lo''" "\<not> hasPrefix ''tm'' (nd_name n)" using DetectRealNICs_iff [OF names(1)] names(2) by blast+
    from firstIPv4_in_LANs [OF a n(3,2) this ones] obtain p where p: "p \<in> set (buildLocalLANs h w)" "containsAddr p (nd_addr n)"
      using n(3) by (auto simp: containsAddr_def)
    obtain i where i: "indexOf (\<lambda>m. containsAddr p (nd_addr m)) (dp_nics d) = Some i"
      using indexOf_None [of "\<lambda>m. containsAddr p (nd_addr m)" "dp_nics d"] n(1) p(2) by blast
    have "(p, int i) \<in> set (dp_routes d)" unfolding rt lanRoutesOf_iff using p(1) i by simp
    then show "\<exists>(p, i)\<in>set (dp_routes d). 0 \<le> i \<and> containsAddr p (nd_addr n)" using p(2) by (intro bexI [of _ "(p, int i)"]) simp_all
  qed
qed

definition exBootCtx :: confCtx where
  "exBootCtx = [(''LOG_LEVEL'', ''info''), (''WAN_INTERFACE'', ''eth0''), (''BIND_ADDR'', ''0.0.0.0''), (''LISTEN_PORT'', ''443''),
     (''VIRT_CIDR'', ''10.8.3.9/22''), (''FORWARD_TUN_GSO'', ''false'')]"

definition exLocal :: udpAddr where
  "exLocal = \<lparr>ua_IP = [0, 0, 0, 0], ua_Port = 443\<rparr>"

definition exDeliver :: "bytes \<Rightarrow> bytes \<Rightarrow> unit \<Rightarrow> bool \<times> unit" where
  "exDeliver pkt dst s = (True, s)"

definition exLoaders :: "Loader list" where
  "exLoaders = [\<lparr>ld_mode = XDPModeNative, ld_iface = exEth0\<rparr>, \<lparr>ld_mode = XDPModeNative, ld_iface = exEth1\<rparr>]"

lemma exHost_detect: "DetectRealNICs exHost = Some [''eth0'', ''eth1'']"
  by code_simp

lemma exHost_load: "LoadMultiNIC exHost [''eth0'', ''eth1''] = Some exLoaders"
  by code_simp

lemma exHost_eth0:
  "case openNIC exHost exBootCtx exLocal (\<lambda>n. n = ''eth0'') exDeliver \<lparr>ld_mode = XDPModeNative, ld_iface = exEth0\<rparr> of
     Some n \<Rightarrow> nd_name n = ''eth0'' \<and> nd_addr n = [10, 0, 0, 2] \<and> nd_combined n = 4 \<and> c_gwMAC (nd_conn n) = [2, 0, 0, 0, 0, 9] | None \<Rightarrow> False"
  by code_simp

lemma exHost_eth1:
  "case openNIC exHost exBootCtx exLocal (\<lambda>n. n = ''eth0'') exDeliver \<lparr>ld_mode = XDPModeNative, ld_iface = exEth1\<rparr> of
     Some n \<Rightarrow> nd_name n = ''eth1'' \<and> nd_addr n = [192, 168, 1, 1] \<and> nd_combined n = 4 \<and> c_gwMAC (nd_conn n) = [] | None \<Rightarrow> False"
  by code_simp

lemma exAddr: "get32 [192, 168, 1, 1] 0 = 0xc0a80101" "get32 [10, 0, 0, 2] 0 = 0x0a000002"
proof -
  have "unat (be16 192 168) = 49320" "unat (be16 1 1) = 257" "unat (be16 10 0) = 2560" "unat (be16 0 2) = 2" by (simp_all add: unat_be16)
  then show "get32 [192, 168, 1, 1] 0 = 0xc0a80101" "get32 [10, 0, 0, 2] 0 = 0x0a000002"
    by (simp_all add: get32_def get16_def nth_append be32_def)
qed

lemma exLans: "buildLocalLANs exHost ''eth0'' = [((0xc0a80100, 24))]"
  by (simp add: buildLocalLANs_def exHost_def exLo_def exEth0_def exEth1_def hasPrefix_def To4_def Unmap_def maskedPrefix_def exAddr)

lemma exBootCtx_simps:
  "map_of exBootCtx ''WAN_INTERFACE'' = Some ''eth0''" "\<not> confBool exBootCtx ''QUIC_KERNEL_UDP'' False" "map_of exBootCtx ''TUNNEL_MTU'' = None"
  "selectAlt (bootMode exBootCtx) = None"
  by (simp_all add: exBootCtx_def confBool_def selectAlt_def bootMode_simps ctxBool_def ctxBoolDefault_def ParseBool_def)

lemma exHost_links: "LinkByName exHost [] = None" "LinkByName exHost ''eth0'' = Some exEth0" "Interfaces exHost = Some [exLo, exEth0, exEth1]"
  "distinct (map lk_Name [exLo, exEth0, exEth1])"
  by (simp_all add: LinkByName_def exHost_def exLo_def exEth0_def exEth1_def)

lemma exRun_ok:
  obtains d where "runSetup exHost exBootCtx (buildLocalLANs exHost ''eth0'') True True exLocal exDeliver = Inr d"
    "map nd_name (dp_nics d) = [''eth0'', ''eth1'']" "dp_routes d = [((0xc0a80100, 24), 1)]" "dp_primary d = 0"
proof -
  obtain n0 where n0: "openNIC exHost exBootCtx exLocal (\<lambda>n. n = ''eth0'') exDeliver \<lparr>ld_mode = XDPModeNative, ld_iface = exEth0\<rparr> = Some n0"
    "nd_name n0 = ''eth0''" "nd_addr n0 = [10, 0, 0, 2]" using exHost_eth0 by (auto split: option.splits)
  obtain n1 where n1: "openNIC exHost exBootCtx exLocal (\<lambda>n. n = ''eth0'') exDeliver \<lparr>ld_mode = XDPModeNative, ld_iface = exEth1\<rparr> = Some n1"
    "nd_name n1 = ''eth1''" "nd_addr n1 = [192, 168, 1, 1]" using exHost_eth1 by (auto split: option.splits)
  have q: "quicListens ''eth0'' [''eth0'', ''eth1''] = (\<lambda>n. n = ''eth0'')" by (rule quicListens_named) simp
  have c: "\<not> containsAddr (0xc0a80100, 24) [10, 0, 0, 2]" "containsAddr (0xc0a80100, 24) [192, 168, 1, 1]"
    by (simp_all add: containsAddr_def Contains_def exAddr)
  show thesis
    by (rule that [of "\<lparr>dp_nics = [n0, n1], dp_routes = [((0xc0a80100, 24), 1)], dp_primary = 0, dp_transport = OneConn ''eth0''\<rparr>"])
      (simp_all add: runSetup_def chooseTransport_def exBootCtx_simps exHost_detect exHost_load q exLoaders_def List.map_filter_simps n0 n1 NewMultiConn_def
        lanRoutesOf_def exLans c)
qed

theorem lan_routes_owned_witness:
  "\<exists>d. runSetup exHost exBootCtx (buildLocalLANs exHost ''eth0'') True True exLocal exDeliver = Inr d \<and>
     containsAddr (0xc0a80100, 24) (nd_addr (dp_nics d ! 1))"
proof -
  obtain d where d: "runSetup exHost exBootCtx (buildLocalLANs exHost ''eth0'') True True exLocal exDeliver = Inr d"
    "dp_routes d = [((0xc0a80100, 24), 1)]" by (rule exRun_ok)
  have "\<forall>ls l addrs a. LinkList exHost = Some ls \<longrightarrow> l \<in> set ls \<longrightarrow> lk_Addrs l = Some addrs \<longrightarrow> a \<in> set addrs \<longrightarrow> ia_ones a \<le> 32"
    by (auto simp: exHost_def exLo_def exEth0_def exEth1_def)
  from lan_routes_owned [OF d(1) exBootCtx_simps(1) this] d show ?thesis by (intro exI [of _ d]) simp
qed

lemma exBoot_parse:
  "ParseAddr ex_text6 ''0.0.0.0'' = Some (Addr4 [0, 0, 0, 0])" "parseInt64 ''443'' = Some 443"
  "ParseAddr ex_text6 ''10.8.0.1'' = Some (Addr4 [10, 8, 0, 1])" "ParsePrefix ex_text6 ''10.8.3.9/22'' = Some \<lparr>PAddr = Addr4 [10, 8, 3, 9], PBits = 22\<rparr>"
  by code_simp+

lemma exBoot_ok:
  obtains b where "mainBoot exHost ex_text6 exBootCtx = Inr b" "bs_lans b = buildLocalLANs exHost ''eth0''" "bs_iface b = ''eth0''"
proof -
  have p: "FirstUsableIP ex_text6 ''10.8.3.9/22'' = Inr ''10.8.0.1''" by (rule usable_range_witness [THEN conjunct1])
  have u: "usableOf exEth0 = Some [10, 0, 0, 2]"
    by (simp add: usableOf_def exEth0_def usableAddr_def AddrFromSlice_def IsLinkLocalUnicast_def Unmap_def)
  have c: "map_of exBootCtx ''LOG_LEVEL'' = Some ''info''" "map_of exBootCtx ''BIND_ADDR'' = Some ''0.0.0.0''"
    "map_of exBootCtx ''LISTEN_PORT'' = Some ''443''" "map_of exBootCtx ''VIRT_CIDR'' = Some ''10.8.3.9/22''" by (simp_all add: exBootCtx_def)
  have "\<exists>b. mainBoot exHost ex_text6 exBootCtx = Inr b" by (simp add: mainBoot_def need_def c exBootCtx_simps exBoot_parse p exHost_links u)
  then obtain b where b: "mainBoot exHost ex_text6 exBootCtx = Inr b" by blast
  then show thesis using mainBoot_Inr [OF b] exBootCtx_simps(1) by (intro that) auto
qed


text \<open>The host whose uplink's queues cannot be bound, with QUIC on the kernel's UDP.\<close>

definition exHostDown :: host where
  "exHostDown = exHost\<lparr>NewSocket := (\<lambda>n _ f. n \<noteq> ''eth0'' \<and> f = XDP_COPY)\<rparr>"

definition exUdpCtx :: confCtx where
  "exUdpCtx = [(''WAN_INTERFACE'', ''eth0''), (''QUIC_KERNEL_UDP'', ''true'')]"

lemma exHostDown_steps:
  "DetectRealNICs exHostDown = Some [''eth0'', ''eth1'']" "LoadMultiNIC exHostDown [''eth0'', ''eth1''] = Some exLoaders"
  "openNIC exHostDown exUdpCtx exLocal (\<lambda>n. False) exDeliver \<lparr>ld_mode = XDPModeNative, ld_iface = exEth0\<rparr> = None"
  "case openNIC exHostDown exUdpCtx exLocal (\<lambda>n. False) exDeliver \<lparr>ld_mode = XDPModeNative, ld_iface = exEth1\<rparr> of
     Some n \<Rightarrow> nd_name n = ''eth1'' | None \<Rightarrow> False"
  by code_simp+

lemma exUdpCtx_simps: "map_of exUdpCtx ''WAN_INTERFACE'' = Some ''eth0''" "confBool exUdpCtx ''QUIC_KERNEL_UDP'' False"
  by (simp_all add: exUdpCtx_def confBool_def ParseBool_def)


subsection \<open>The workers of a datapath\<close>

definition egressOf :: "unit nicDesc \<Rightarrow> 'a nicEgress" where
  "egressOf n = \<lparr>ne_addr = get32 (nd_addr n) 0, ne_conn = nd_conn n, ne_batch = None\<rparr>"



end
