(* ===== verification/MultiConn.thy ===== *)
theory MultiConn
  imports XdpConn
begin

text \<open>
  The merged transport of \<^verbatim>\<open>xdp/multiconn.go\<close>: one reading goroutine per connection feeds a common
  channel, the connection of every remote address is remembered, and a reply goes out by it.
\<close>

subsection \<open>State and operations\<close>

text \<open>
  The text of an address, as the key of the map: an IPv4 address and its mapped form print alike.
  A goroutine holds at most one packet, the one it waits to put into the channel, or has ended.
\<close>

definition addrKey :: "udpAddr \<Rightarrow> bytes \<times> int" where
  "addrKey a = (Unmap (ua_IP a), ua_Port a)"

record mcPkt =
  mp_data :: bytes
  mp_addr :: udpAddr
  mp_conn :: nat

datatype rxState = Reading | Holding mcPkt | Ended

record 's MultiConn =
  mc_conns :: "'s Conn list"
  mc_rxCh :: "mcPkt list"
  mc_addrToConn :: "bytes \<times> int \<rightharpoonup> nat"
  mc_done :: bool
  mc_rx :: "rxState list"

definition mcPktSize :: nat where "mcPktSize = 2048"
definition mcRxCap :: nat where "mcRxCap = 1024"

definition newMultiConn :: "'s Conn list \<Rightarrow> 's MultiConn" where
  "newMultiConn conns = \<lparr>mc_conns = conns, mc_rxCh = [], mc_addrToConn = Map.empty, mc_done = False, mc_rx = replicate (length conns) Reading\<rparr>"

text \<open>One pass of the loop of goroutine \<open>i\<close>: it reads a packet and records its connection, or waits, or ends.\<close>

definition rxRead :: "nat \<Rightarrow> 's MultiConn \<Rightarrow> 's MultiConn" where
  "rxRead i mc =
     (if mc_done mc then mc\<lparr>mc_rx := (mc_rx mc)[i := Ended]\<rparr>
      else case ReadFrom mcPktSize (mc_conns mc ! i) of
             (Waits, c) \<Rightarrow> mc\<lparr>mc_conns := (mc_conns mc)[i := c]\<rparr>
           | (Closed, c) \<Rightarrow> mc\<lparr>mc_conns := (mc_conns mc)[i := c], mc_rx := (mc_rx mc)[i := Ended]\<rparr>
           | (Got p a, c) \<Rightarrow>
               mc\<lparr>mc_conns := (mc_conns mc)[i := c], mc_addrToConn := (mc_addrToConn mc)(addrKey a \<mapsto> i),
                  mc_rx := (mc_rx mc)[i := Holding \<lparr>mp_data = p, mp_addr = a, mp_conn = i\<rparr>]\<rparr>)"

text \<open>When both cases of a \<^verbatim>\<open>select\<close> are ready, \<open>sel\<close> says whether the one of \<^verbatim>\<open>done\<close> is taken.\<close>

definition rxPut :: "bool \<Rightarrow> nat \<Rightarrow> mcPkt \<Rightarrow> 's MultiConn \<Rightarrow> 's MultiConn" where
  "rxPut sel i pk mc =
     (if length (mc_rxCh mc) < mcRxCap \<and> \<not> (mc_done mc \<and> sel) then mc\<lparr>mc_rxCh := mc_rxCh mc @ [pk], mc_rx := (mc_rx mc)[i := Reading]\<rparr>
      else if mc_done mc then mc\<lparr>mc_rx := (mc_rx mc)[i := Ended]\<rparr>
      else mc)"

definition rxLoop :: "bool \<Rightarrow> nat \<Rightarrow> 's MultiConn \<Rightarrow> 's MultiConn" where
  "rxLoop sel i mc = (case mc_rx mc ! i of Reading \<Rightarrow> rxRead i mc | Holding pk \<Rightarrow> rxPut sel i pk mc | Ended \<Rightarrow> mc)"

definition mcReadFrom :: "bool \<Rightarrow> nat \<Rightarrow> 's MultiConn \<Rightarrow> readResult \<times> 's MultiConn" where
  "mcReadFrom sel n mc =
     (case mc_rxCh mc of
        pk # rest \<Rightarrow> if mc_done mc \<and> sel then (Closed, mc) else (Got (take n (mp_data pk)) (mp_addr pk), mc\<lparr>mc_rxCh := rest\<rparr>)
      | [] \<Rightarrow> (if mc_done mc then Closed else Waits, mc))"

definition connFor :: "udpAddr \<Rightarrow> 's MultiConn \<Rightarrow> nat" where
  "connFor a mc = (case mc_addrToConn mc (addrKey a) of Some i \<Rightarrow> i | None \<Rightarrow> 0)"

definition mcWriteTo :: "bool \<Rightarrow> bytes \<Rightarrow> udpAddr \<Rightarrow> 's MultiConn \<Rightarrow> (connError + nat) \<times> 's MultiConn" where
  "mcWriteTo enq p a mc =
     (let i = connFor a mc; (r, c) = WriteTo enq p (Some a) (mc_conns mc ! i)
      in (r, mc\<lparr>mc_conns := (mc_conns mc)[i := c]\<rparr>))"

definition mcClose :: "'s MultiConn \<Rightarrow> 's MultiConn" where
  "mcClose mc = mc\<lparr>mc_done := True, mc_conns := map CloseConn (mc_conns mc)\<rparr>"

subsection \<open>Runs\<close>

text \<open>
  A run, with the packets read so far in the order in which their connections were recorded, and those
  handed to the caller.
\<close>

datatype mcEvent = RxPass bool nat | ReadCall bool nat | WriteCall bool bytes udpAddr | CloseCall

definition held1 :: "rxState \<Rightarrow> mcPkt list" where
  "held1 r = (case r of Holding pk \<Rightarrow> [pk] | _ \<Rightarrow> [])"

fun mcStep :: "mcEvent \<Rightarrow> 's MultiConn \<times> mcPkt list \<times> mcPkt list \<Rightarrow> 's MultiConn \<times> mcPkt list \<times> mcPkt list" where
  "mcStep (RxPass sel i) (mc, log, out) =
     (let mc' = rxLoop sel i mc in (mc', log @ (if mc_rx mc ! i = Reading then held1 (mc_rx mc' ! i) else []), out))"
| "mcStep (ReadCall sel n) (mc, log, out) =
     (case mcReadFrom sel n mc of (Got _ _, mc') \<Rightarrow> (mc', log, out @ [hd (mc_rxCh mc)]) | (_, mc') \<Rightarrow> (mc', log, out))"
| "mcStep (WriteCall enq p a) (mc, log, out) = (snd (mcWriteTo enq p a mc), log, out)"
| "mcStep CloseCall (mc, log, out) = (mcClose mc, log, out)"

fun mcEv_ok :: "nat \<Rightarrow> mcEvent \<Rightarrow> bool" where
  "mcEv_ok n (RxPass sel i) \<longleftrightarrow> i < n"
| "mcEv_ok n CloseCall \<longleftrightarrow> False"
| "mcEv_ok n _ \<longleftrightarrow> True"

definition ofConn :: "nat \<Rightarrow> mcPkt list \<Rightarrow> mcPkt list" where
  "ofConn i = filter (\<lambda>p. mp_conn p = i)"

definition lastConn :: "udpAddr \<Rightarrow> mcPkt list \<Rightarrow> nat option" where
  "lastConn a log = (let ps = filter (\<lambda>p. addrKey (mp_addr p) = addrKey a) log in if ps = [] then None else Some (mp_conn (last ps)))"

lemma lastConn_snoc: "lastConn a (log @ [p]) = (if addrKey (mp_addr p) = addrKey a then Some (mp_conn p) else lastConn a log)"
  by (simp add: lastConn_def Let_def)

text \<open>What holds between steps, while the transport is open.\<close>

definition mc_rel :: "nat \<Rightarrow> 's MultiConn \<times> mcPkt list \<times> mcPkt list \<Rightarrow> bool" where
  "mc_rel n st \<longleftrightarrow> (case st of (mc, log, out) \<Rightarrow>
     \<not> mc_done mc \<and> length (mc_rx mc) = n \<and> length (mc_conns mc) = n \<and>
     (\<forall>i<n. ofConn i (out @ mc_rxCh mc) @ held1 (mc_rx mc ! i) = ofConn i log) \<and>
     (\<forall>i<n. \<forall>pk. mc_rx mc ! i = Holding pk \<longrightarrow> mp_conn pk = i) \<and>
     (\<forall>p\<in>set (out @ mc_rxCh mc). mp_conn p < n) \<and>
     (\<forall>a. mc_addrToConn mc (addrKey a) = lastConn a log) \<and> (\<forall>p\<in>set log. length (mp_data p) \<le> mcPktSize))"

lemma ofConn_append [simp]: "ofConn i (xs @ ys) = ofConn i xs @ ofConn i ys"
  by (simp add: ofConn_def)

lemma ofConn_Cons: "ofConn i (x # xs) = ofConn i [x] @ ofConn i xs"
  by (simp add: ofConn_def)

lemma ReadFrom_short: "ReadFrom n c = (Got p a, c') \<Longrightarrow> length p \<le> n"
  by (auto simp: ReadFrom_def servePending_def Let_def split: if_splits)

lemma mc_rel_init: "mc_rel (length conns) (newMultiConn conns, [], [])"
  by (simp add: mc_rel_def newMultiConn_def held1_def lastConn_def ofConn_def Let_def)

lemma mc_rel_read:
  assumes "mc_rel n (mc, log, out)" "i < n" "mc_rx mc ! i = Reading"
  shows "mc_rel n (mcStep (RxPass sel i) (mc, log, out))"
proof -
  obtain r c where r: "ReadFrom mcPktSize (mc_conns mc ! i) = (r, c)" by fastforce
  show ?thesis
  proof (cases r)
    case (Got p a)
    let ?pk = "\<lparr>mp_data = p, mp_addr = a, mp_conn = i\<rparr>"
    have "length p \<le> mcPktSize" using ReadFrom_short r Got by blast
    then show ?thesis
      using assms r Got
      by (auto simp: mc_rel_def rxLoop_def rxRead_def held1_def nth_list_update ofConn_def lastConn_snoc split: if_splits)
  next
    case Closed
    then show ?thesis
      using assms r by (auto simp: mc_rel_def rxLoop_def rxRead_def held1_def nth_list_update)
  next
    case Waits
    then show ?thesis
      using assms r by (auto simp: mc_rel_def rxLoop_def rxRead_def held1_def)
  qed
qed

lemma mc_rel_put:
  assumes "mc_rel n (mc, log, out)" "i < n" "mc_rx mc ! i = Holding pk"
  shows "mc_rel n (mcStep (RxPass sel i) (mc, log, out))"
proof -
  have pk: "mp_conn pk = i" using assms by (simp add: mc_rel_def)
  show ?thesis
    using assms pk by (auto simp: mc_rel_def rxLoop_def rxPut_def held1_def nth_list_update ofConn_def)
qed

lemma mc_rel_step:
  assumes "mc_rel n st" "mcEv_ok n e"
  shows "mc_rel n (mcStep e st)"
proof -
  obtain mc log out where st: "st = (mc, log, out)" by (cases st)
  show ?thesis
  proof (cases e)
    case (RxPass sel i)
    then show ?thesis
      using assms mc_rel_read [of n mc log out i sel] mc_rel_put [of n mc log out i _ sel]
      by (cases "mc_rx mc ! i") (auto simp: st rxLoop_def)
  next
    case (ReadCall sel m)
    show ?thesis
    proof (cases "mc_rxCh mc")
      case Nil
      then show ?thesis using assms ReadCall by (auto simp: st mc_rel_def mcReadFrom_def)
    next
      case (Cons x xs)
      then show ?thesis using assms ReadCall ofConn_Cons [of _ x xs] by (auto simp: st mc_rel_def mcReadFrom_def)
    qed
  next
    case (WriteCall enq p a)
    then show ?thesis using assms by (auto simp: st mc_rel_def mcWriteTo_def Let_def split: prod.split)
  next
    case CloseCall
    then show ?thesis using assms by simp
  qed
qed

lemma mc_rel_run: "mc_rel n st \<Longrightarrow> \<forall>e\<in>set evs. mcEv_ok n e \<Longrightarrow> mc_rel n (fold mcStep evs st)"
  by (induction evs arbitrary: st) (simp_all add: mc_rel_step)

text \<open>
  Merging keeps the order of every connection and answers on the connection a client was last
  heard on. For any interleaving of the reading goroutines with reads and writes, the packets read from a connection
  are those handed to the caller, those in the channel and the one its goroutine holds, in this
  order; a write to an address goes to the connection of its latest packet, or to the first
  one when there is none; and no packet is longer than the 2048 bytes of a buffer, so that a
  longer datagram has been cut.
\<close>

theorem multi_conn_merges:
  assumes evs: "\<forall>e\<in>set evs. mcEv_ok (length conns) e" and r: "fold mcStep evs (newMultiConn conns, [], []) = (mc, log, out)"
  shows "(\<forall>i<length conns. ofConn i out @ ofConn i (mc_rxCh mc) @ held1 (mc_rx mc ! i) = ofConn i log) \<and>
    connFor a mc = (case lastConn a log of Some i \<Rightarrow> i | None \<Rightarrow> 0) \<and> (\<forall>p\<in>set log. length (mp_data p) \<le> 2048)"
  using mc_rel_run [OF mc_rel_init evs] unfolding r by (auto simp: mc_rel_def connFor_def mcPktSize_def)

end
