(* ===== verification/Devices.thy ===== *)
theory Devices
  imports XdpConn
begin

text \<open>
  The kernel resources of the egresses: the descriptors and mappings that the constructors of
  \<^verbatim>\<open>socket.go\<close>, \<^verbatim>\<open>packet_tx.go\<close>, \<^verbatim>\<open>tun_napi.go\<close>, \<^verbatim>\<open>tun_vhost.go\<close>, \<^verbatim>\<open>vhost.go\<close> and \<^verbatim>\<open>uring.go\<close> (under \<^verbatim>\<open>utility\<close>)
  acquire, what they release when a step fails, and their \<^verbatim>\<open>Close\<close>.
\<close>

subsection \<open>Descriptors and mappings\<close>

text \<open>
  The calls that may fail, with what they are given; \<open>ok\<close>, a parameter of the constructors, is the kernel's answer.
  The ledger holds the open descriptors, the mappings, and the calls made, the latest last.
\<close>

datatype kcall = OpenTun | TunSetIff bytes | TunSetVnetHdrSz int | CtlSocket | SetHwAddr bytes | SetFlags bytes |
  RawSocket | HdrIncl | PacketSocket | BindIfindex nat | SndBuf nat | OpenVhost | EventFd nat | MmapArena | VhostSetup | DetachBackend |
  UringSetup | MmapSQ | MmapCQ | MmapSQEs | WriteProc string string

record ledger =
  lg_next :: nat
  lg_fds :: "nat list"
  lg_maps :: "nat list"
  lg_calls :: "kcall list"

definition kdo :: "kcall \<Rightarrow> ledger \<Rightarrow> ledger" where
  "kdo k s = s\<lparr>lg_calls := lg_calls s @ [k]\<rparr>"

definition openFd :: "(kcall \<Rightarrow> bool) \<Rightarrow> kcall \<Rightarrow> ledger \<Rightarrow> nat option \<times> ledger" where
  "openFd ok k s =
     (let s = kdo k s
      in if ok k then (Some (lg_next s), s\<lparr>lg_next := lg_next s + 1, lg_fds := lg_next s # lg_fds s\<rparr>) else (None, s))"

definition mmap :: "(kcall \<Rightarrow> bool) \<Rightarrow> kcall \<Rightarrow> ledger \<Rightarrow> nat option \<times> ledger" where
  "mmap ok k s =
     (let s = kdo k s
      in if ok k then (Some (lg_next s), s\<lparr>lg_next := lg_next s + 1, lg_maps := lg_next s # lg_maps s\<rparr>) else (None, s))"

definition closeFd :: "nat \<Rightarrow> ledger \<Rightarrow> ledger" where
  "closeFd fd s = s\<lparr>lg_fds := remove1 fd (lg_fds s)\<rparr>"

definition munmap :: "nat \<Rightarrow> ledger \<Rightarrow> ledger" where
  "munmap a s = s\<lparr>lg_maps := remove1 a (lg_maps s)\<rparr>"

subsection \<open>Sockets\<close>

definition openSocketBatch :: "(kcall \<Rightarrow> bool) \<Rightarrow> ledger \<Rightarrow> nat option \<times> ledger" where
  "openSocketBatch ok s =
     (case openFd ok RawSocket s of
        (None, s) \<Rightarrow> (None, s)
      | (Some fd, s) \<Rightarrow>
          let s = kdo HdrIncl s in if \<not> ok HdrIncl then (None, closeFd fd s) else (Some fd, s))"

definition openPacketBatch :: "nat \<Rightarrow> (kcall \<Rightarrow> bool) \<Rightarrow> ledger \<Rightarrow> nat option \<times> ledger" where
  "openPacketBatch ifindex ok s =
     (case openFd ok PacketSocket s of
        (None, s) \<Rightarrow> (None, s)
      | (Some fd, s) \<Rightarrow>
          let s = kdo (BindIfindex ifindex) s in if \<not> ok (BindIfindex ifindex) then (None, closeFd fd s)
          else (Some fd, kdo (SndBuf (16 * 2 ^ 20)) s))"

subsection \<open>TUN and TAP devices\<close>

definition IFF_TUN :: u16 where "IFF_TUN = 0x0001"
definition IFF_TAP :: u16 where "IFF_TAP = 0x0002"
definition IFF_NAPI :: u16 where "IFF_NAPI = 0x0010"
definition IFF_NO_PI :: u16 where "IFF_NO_PI = 0x1000"
definition IFF_VNET_HDR :: u16 where "IFF_VNET_HDR = 0x4000"
definition IFF_UP :: u16 where "IFF_UP = 0x0001"
definition IFF_RUNNING :: u16 where "IFF_RUNNING = 0x0040"
definition ARPHRD_ETHER :: u16 where "ARPHRD_ETHER = 1"

text \<open>The 40 bytes of an interface request: the name, and a little-endian half-word at offset 16.\<close>

definition ifreq :: "string \<Rightarrow> u16 \<Rightarrow> bytes" where
  "ifreq name w = (blit (replicate 40 0) 0 40 (map of_char name))[16 := lo8 w, 17 := hi8 w]"

definition setIfaceUp :: "(kcall \<Rightarrow> bool) \<Rightarrow> string \<Rightarrow> ledger \<Rightarrow> bool \<times> ledger" where
  "setIfaceUp ok name s =
     (case openFd ok CtlSocket s of
        (None, s) \<Rightarrow> (False, s)
      | (Some fd, s) \<Rightarrow>
          let req = SetFlags (ifreq name (or IFF_UP IFF_RUNNING)) in (ok req, closeFd fd (kdo req s)))"

definition setIfaceMAC :: "(kcall \<Rightarrow> bool) \<Rightarrow> string \<Rightarrow> bytes \<Rightarrow> ledger \<Rightarrow> bool \<times> ledger" where
  "setIfaceMAC ok name mac s =
     (case openFd ok CtlSocket s of
        (None, s) \<Rightarrow> (False, s)
      | (Some fd, s) \<Rightarrow>
          let req = SetHwAddr (blit (ifreq name ARPHRD_ETHER) 18 24 mac) in (ok req, closeFd fd (kdo req s)))"

definition napiTunName :: string where "napiTunName = ''tmnapi0''"
definition vhostTunName :: string where "vhostTunName = ''tmvhost0''"
definition vhostTunMAC :: bytes where "vhostTunMAC = [0x02, 0x00, 0x00, 0x00, 0xab, 0xcd]"

text \<open>The switches of the kernel's forwarding for a device, whose failures are ignored.\<close>

definition forwardPlumbing :: "string \<Rightarrow> ledger \<Rightarrow> ledger" where
  "forwardPlumbing name s =
     kdo (WriteProc ''/proc/sys/net/ipv4/conf/all/accept_local'' ''1'')
      (kdo (WriteProc (''/proc/sys/net/ipv4/conf/'' @ name @ ''/rp_filter'') ''0'')
       (kdo (WriteProc (''/proc/sys/net/ipv4/conf/'' @ name @ ''/accept_local'') ''1'')
        (kdo (WriteProc ''/proc/sys/net/ipv4/ip_forward'' ''1'') s)))"

definition createNapiTun :: "(kcall \<Rightarrow> bool) \<Rightarrow> ledger \<Rightarrow> nat option \<times> ledger" where
  "createNapiTun ok s =
     (case openFd ok OpenTun s of
        (None, s) \<Rightarrow> (None, s)
      | (Some fd, s) \<Rightarrow>
          let req = TunSetIff (ifreq napiTunName (or IFF_TUN (or IFF_NO_PI IFF_NAPI))); s = kdo req s
          in if \<not> ok req then (None, closeFd fd s)
             else case setIfaceUp ok napiTunName s of
                    (False, s) \<Rightarrow> (None, closeFd fd s)
                  | (True, s) \<Rightarrow> (Some fd, forwardPlumbing napiTunName s))"

definition createVhostTun :: "(kcall \<Rightarrow> bool) \<Rightarrow> ledger \<Rightarrow> nat option \<times> ledger" where
  "createVhostTun ok s =
     (case openFd ok OpenTun s of
        (None, s) \<Rightarrow> (None, s)
      | (Some fd, s) \<Rightarrow>
          let req = TunSetIff (ifreq vhostTunName (or IFF_TAP (or IFF_NO_PI (or IFF_VNET_HDR IFF_NAPI)))); s = kdo req s
          in if \<not> ok req then (None, closeFd fd s)
             else
               let s = kdo (TunSetVnetHdrSz 12) s
               in if \<not> ok (TunSetVnetHdrSz 12) then (None, closeFd fd s)
                  else case setIfaceMAC ok vhostTunName vhostTunMAC s of
                         (False, s) \<Rightarrow> (None, closeFd fd s)
                       | (True, s) \<Rightarrow>
                           (case setIfaceUp ok vhostTunName s of
                              (False, s) \<Rightarrow> (None, closeFd fd s)
                            | (True, s) \<Rightarrow> (Some fd, forwardPlumbing vhostTunName s)))"

text \<open>\<^verbatim>\<open>sync.Once\<close>: the first call creates the device, and its outcome is that of all later ones.\<close>

definition onceDevice :: "((kcall \<Rightarrow> bool) \<Rightarrow> ledger \<Rightarrow> nat option \<times> ledger) \<Rightarrow> (kcall \<Rightarrow> bool) \<Rightarrow> nat option option \<times> ledger
    \<Rightarrow> nat option \<times> nat option option \<times> ledger" where
  "onceDevice create ok st =
     (case st of
        (Some r, s) \<Rightarrow> (r, Some r, s)
      | (None, s) \<Rightarrow> (let (r, s) = create ok s in (r, Some r, s)))"

definition NewTunNapiBatch :: "(kcall \<Rightarrow> bool) \<Rightarrow> nat option option \<times> ledger \<Rightarrow> nat option \<times> nat option option \<times> ledger" where
  "NewTunNapiBatch = onceDevice createNapiTun"

subsection \<open>The vhost writer\<close>

record vhostFds =
  vf_vhost :: nat
  vf_tun :: int
  vf_kick :: nat
  vf_call :: nat
  vf_arena :: "nat option"

definition vhostClose :: "vhostFds \<Rightarrow> ledger \<Rightarrow> ledger" where
  "vhostClose w s =
     (let s = (if 0 \<le> vf_tun w then kdo DetachBackend s else s);
          s = (case vf_arena w of Some a \<Rightarrow> munmap a s | None \<Rightarrow> s);
          s = (if vf_kick w > 0 then closeFd (vf_kick w) s else s);
          s = (if vf_call w > 0 then closeFd (vf_call w) s else s)
      in closeFd (vf_vhost w) s)"

definition openVhostWriter :: "nat \<Rightarrow> (kcall \<Rightarrow> bool) \<Rightarrow> ledger \<Rightarrow> vhostFds option \<times> ledger" where
  "openVhostWriter tunFd ok s =
     (case openFd ok OpenVhost s of
        (None, s) \<Rightarrow> (None, s)
      | (Some vfd, s) \<Rightarrow>
          (case openFd ok (EventFd 0) s of
             (None, s) \<Rightarrow> (None, closeFd vfd s)
           | (Some kfd, s) \<Rightarrow>
               (case openFd ok (EventFd 1) s of
                  (None, s) \<Rightarrow> (None, closeFd kfd (closeFd vfd s))
                | (Some cfd, s) \<Rightarrow>
                    (case mmap ok MmapArena s of
                       (None, s) \<Rightarrow> (None, vhostClose \<lparr>vf_vhost = vfd, vf_tun = int tunFd, vf_kick = kfd, vf_call = cfd, vf_arena = None\<rparr> s)
                     | (Some a, s) \<Rightarrow>
                         let w = \<lparr>vf_vhost = vfd, vf_tun = int tunFd, vf_kick = kfd, vf_call = cfd, vf_arena = Some a\<rparr>; s = kdo VhostSetup s
                         in if \<not> ok VhostSetup then (None, vhostClose w s) else (Some w, s)))))"

definition initVhost :: "(kcall \<Rightarrow> bool) \<Rightarrow> ledger \<Rightarrow> (nat \<times> vhostFds) option \<times> ledger" where
  "initVhost ok s =
     (case createVhostTun ok s of
        (None, s) \<Rightarrow> (None, s)
      | (Some fd, s) \<Rightarrow> (case openVhostWriter fd ok s of (None, s) \<Rightarrow> (None, s) | (Some w, s) \<Rightarrow> (Some (fd, w), s)))"

subsection \<open>The io_uring writer\<close>

record uringFds =
  uf_ring :: nat
  uf_sq :: nat
  uf_cq :: nat
  uf_sqes :: nat

definition openUringWriter :: "bool \<Rightarrow> (kcall \<Rightarrow> bool) \<Rightarrow> ledger \<Rightarrow> uringFds option \<times> ledger" where
  "openUringWriter singleMmap ok s =
     (case openFd ok UringSetup s of
        (None, s) \<Rightarrow> (None, s)
      | (Some ringFd, s) \<Rightarrow>
          (case mmap ok MmapSQ s of
             (None, s) \<Rightarrow> (None, closeFd ringFd s)
           | (Some sq, s) \<Rightarrow>
               (case (if singleMmap then (Some sq, s) else mmap ok MmapCQ s) of
                  (None, s) \<Rightarrow> (None, closeFd ringFd s)
                | (Some cq, s) \<Rightarrow>
                    (case mmap ok MmapSQEs s of
                       (None, s) \<Rightarrow> (None, closeFd ringFd s)
                     | (Some sqes, s) \<Rightarrow> (Some \<lparr>uf_ring = ringFd, uf_sq = sq, uf_cq = cq, uf_sqes = sqes\<rparr>, s)))))"

definition uringClose :: "uringFds \<Rightarrow> ledger \<Rightarrow> ledger" where
  "uringClose w s =
     (let s = munmap (uf_sqes w) s;
          s = (if uf_cq w \<noteq> uf_sq w then munmap (uf_cq w) s else s);
          s = munmap (uf_sq w) s
      in closeFd (uf_ring w) s)"

subsection \<open>Nothing is leaked\<close>

text \<open>What a process holds, and that two states hold the same.\<close>

definition holds :: "ledger \<Rightarrow> nat list \<times> nat list" where
  "holds s = (lg_fds s, lg_maps s)"

definition fresh :: "ledger \<Rightarrow> bool" where
  "fresh s \<longleftrightarrow> 0 < lg_next s"

text \<open>
  The contract of a resource: a constructor that fails holds nothing more than before, also when it
  has acquired descriptors on the way; closing what it returned restores what was held before it.
  Any number of failing attempts, and any series of attempts each closed again, then leaves what was held.
\<close>

definition attempt :: "((kcall \<Rightarrow> bool) \<Rightarrow> ledger \<Rightarrow> 'r option \<times> ledger) \<Rightarrow> ('r \<Rightarrow> ledger \<Rightarrow> ledger) \<Rightarrow> (kcall \<Rightarrow> bool) \<Rightarrow> ledger \<Rightarrow> ledger" where
  "attempt acquire release ok s = (case acquire ok s of (None, s') \<Rightarrow> s' | (Some r, s') \<Rightarrow> release r s')"

locale kernel_resource =
  fixes acquire :: "(kcall \<Rightarrow> bool) \<Rightarrow> ledger \<Rightarrow> 'r option \<times> ledger"
    and release :: "'r \<Rightarrow> ledger \<Rightarrow> ledger"
  assumes fails: "fresh s \<Longrightarrow> acquire ok s = (None, s') \<Longrightarrow> holds s' = holds s"
    and closes: "fresh s \<Longrightarrow> acquire ok s = (Some r, s') \<Longrightarrow> holds (release r s') = holds s"
    and fresh_acquire: "fresh s \<Longrightarrow> fresh (snd (acquire ok s))"
    and fresh_release: "fresh s \<Longrightarrow> fresh (release r s)"
begin

lemma attempt_holds:
  assumes "fresh s"
  shows "holds (attempt acquire release ok s) = holds s \<and> fresh (attempt acquire release ok s)"
proof -
  obtain r s' where a: "acquire ok s = (r, s')" by fastforce
  then have "fresh s'" using fresh_acquire [OF assms, of ok] by simp
  then show ?thesis
    using a fails [OF assms] closes [OF assms] fresh_release by (cases r) (auto simp: attempt_def)
qed

lemma attempts_hold: "fresh s \<Longrightarrow> holds (fold (attempt acquire release) oks s) = holds s"
  by (induction oks arbitrary: s) (simp_all add: attempt_holds)

end

lemmas ledger_defs = holds_def fresh_def openFd_def mmap_def closeFd_def munmap_def kdo_def Let_def

interpretation socket_res: kernel_resource openSocketBatch closeFd
  by unfold_locales (auto simp: openSocketBatch_def ledger_defs split: if_splits)

interpretation packet_res: kernel_resource "openPacketBatch i" closeFd for i
  by unfold_locales (auto simp: openPacketBatch_def ledger_defs split: if_splits)

lemma openVhostWriter_holds:
  assumes "fresh s"
  shows "case openVhostWriter fd ok s of
      (None, s') \<Rightarrow> holds s' = holds s \<and> fresh s' | (Some w, s') \<Rightarrow> holds (vhostClose w s') = holds s \<and> fresh s'"
  using assms
  by (cases "ok OpenVhost"; cases "ok (EventFd 0)"; cases "ok (EventFd 1)"; cases "ok MmapArena"; cases "ok VhostSetup")
    (simp_all add: openVhostWriter_def vhostClose_def ledger_defs)

lemma vhostClose_fresh: "fresh s \<Longrightarrow> fresh (vhostClose w s)"
  by (cases "vf_arena w") (simp_all add: vhostClose_def ledger_defs)

interpretation vhost_res: kernel_resource "openVhostWriter fd" vhostClose for fd
proof
  fix s s' :: ledger and ok r
  assume f: "fresh s"
  note h = openVhostWriter_holds [OF f, of fd ok]
  show "holds s' = holds s" if "openVhostWriter fd ok s = (None, s')" using h that by simp
  show "holds (vhostClose r s') = holds s" if "openVhostWriter fd ok s = (Some r, s')" using h that by simp
  show "fresh (snd (openVhostWriter fd ok s))" using h by (auto split: prod.splits option.splits)
  show "fresh (vhostClose r s)" using f by (rule vhostClose_fresh)
qed

text \<open>
  The sockets and the vhost writer leak nothing: any series of attempts to open them, whatever the kernel answers each
  time, each closed again when it succeeds, leaves the descriptors and mappings that were held before.
\<close>

theorem egress_resources_released:
  assumes "0 < lg_next s"
  shows "holds (fold (attempt openSocketBatch closeFd) oks s) = holds s \<and>
    holds (fold (attempt (openPacketBatch i) closeFd) oks s) = holds s \<and>
    holds (fold (attempt (openVhostWriter fd) vhostClose) oks s) = holds s"
  using socket_res.attempts_hold packet_res.attempts_hold vhost_res.attempts_hold assms unfolding fresh_def by blast

theorem egress_resources_released_witness:
  "holds (fold (attempt (openVhostWriter 3) vhostClose) [\<lambda>k. k \<noteq> MmapArena, \<lambda>_. True]
     \<lparr>lg_next = 7, lg_fds = [3], lg_maps = [], lg_calls = []\<rparr>) = ([3], [])"
  using egress_resources_released [of "\<lparr>lg_next = 7, lg_fds = [3], lg_maps = [], lg_calls = []\<rparr>"
      "[\<lambda>k. k \<noteq> MmapArena, \<lambda>_. True]" 0 3, THEN conjunct2, THEN conjunct2]
  by (simp add: holds_def)

text \<open>The devices: a failure at any step closes the descriptor, and success holds exactly one more.\<close>

lemma setIfaceUp_holds: "holds (snd (setIfaceUp ok n s)) = holds s"
  by (auto simp: setIfaceUp_def ledger_defs split: prod.split option.split if_splits)

lemma setIfaceMAC_holds: "holds (snd (setIfaceMAC ok n m s)) = holds s"
  by (auto simp: setIfaceMAC_def ledger_defs split: prod.split option.split if_splits)

lemma forwardPlumbing_holds: "holds (forwardPlumbing n s) = holds s"
  by (simp add: forwardPlumbing_def ledger_defs)

lemma createNapiTun_holds:
  "case createNapiTun ok s of (None, s') \<Rightarrow> holds s' = holds s | (Some fd, s') \<Rightarrow> lg_fds s' = fd # lg_fds s \<and> lg_maps s' = lg_maps s"
  by (auto simp: createNapiTun_def forwardPlumbing_def setIfaceUp_def ledger_defs split: prod.splits option.splits if_splits bool.splits)

lemma createVhostTun_holds:
  "case createVhostTun ok s of (None, s') \<Rightarrow> holds s' = holds s | (Some fd, s') \<Rightarrow> lg_fds s' = fd # lg_fds s \<and> lg_maps s' = lg_maps s"
proof -
  have up: "lg_fds (snd (setIfaceUp ok n t)) = lg_fds t" "lg_maps (snd (setIfaceUp ok n t)) = lg_maps t" for n t
    using setIfaceUp_holds [of ok n t] by (simp_all add: holds_def)
  have mac: "lg_fds (snd (setIfaceMAC ok n m t)) = lg_fds t" "lg_maps (snd (setIfaceMAC ok n m t)) = lg_maps t" for n m t
    using setIfaceMAC_holds [of ok n m t] by (simp_all add: holds_def)
  have fwd: "lg_fds (forwardPlumbing n t) = lg_fds t" "lg_maps (forwardPlumbing n t) = lg_maps t" for n t
    using forwardPlumbing_holds [of n t] by (simp_all add: holds_def)
  show ?thesis
    by (simp add: createVhostTun_def ledger_defs case_prod_unfold up mac fwd split: bool.split)
qed

text \<open>
  The devices are created once: whatever the kernel answers later, every later call returns what the first one did and
  makes no call of its own; a first call that fails has closed its descriptor, one that succeeds holds exactly one more.
\<close>

theorem napi_device_once:
  assumes "NewTunNapiBatch ok (None, s) = (r, st)"
  shows "NewTunNapiBatch ok' st = (r, st)"
    "case r of None \<Rightarrow> holds (snd st) = holds s | Some fd \<Rightarrow> lg_fds (snd st) = fd # lg_fds s"
  using assms createNapiTun_holds [of s ok]
  by (auto simp: NewTunNapiBatch_def onceDevice_def split: prod.splits option.splits)

text \<open>Opening the ring writer does leak: when the last mapping fails, the queue mappings stay behind (and not the descriptor).\<close>

lemma uring_close_restores:
  "openUringWriter single ok s = (Some w, s') \<Longrightarrow> holds (uringClose w s') = holds s"
  by (auto simp: openUringWriter_def uringClose_def ledger_defs split: if_splits)

lemma uring_failed_mmap_leaks:
  assumes "ok UringSetup" "ok MmapSQ" "\<not> ok MmapSQEs"
  shows "fst (openUringWriter True ok s) = None \<and>
    lg_fds (snd (openUringWriter True ok s)) = lg_fds s \<and> lg_maps (snd (openUringWriter True ok s)) = Suc (lg_next s) # lg_maps s"
  using assms by (simp add: openUringWriter_def ledger_defs)

text \<open>A vhost writer that cannot be created leaves the tap device open: the descriptor is lost with the error.\<close>

lemma initVhost_leaks_tap:
  assumes "createVhostTun ok s = (Some fd, s1)" "\<not> ok OpenVhost"
  shows "fst (initVhost ok s) = None \<and> lg_fds (snd (initVhost ok s)) = fd # lg_fds s"
  using assms createVhostTun_holds [of s ok] by (simp add: initVhost_def openVhostWriter_def ledger_defs)

end
